(* ===== verification/Prelude.thy ===== *)
theory Prelude
  imports Main "HOL-Library.Word" "HOL-Library.Monad_Syntax"
begin

unbundle bit_operations_syntax

text \<open>
  Shared material of the SplitWire development: Go byte slices as lists of 8-bit words, Go's
  run-time panics as the option monad, big- and little-endian integers, in-place writes into a
  slice, and the list and word lemmas that the component theories use.

  A computation that can panic (an index or a slice expression out of range) has type
  \<open>'a go\<close>: \<open>None\<close> is the panic, \<open>Some r\<close> a normal return of \<open>r\<close>. The pair
  \<open>(value, error)\<close> a Go function returns is a sum inside it, \<open>Inl\<close> the error. A Go slice
  expression may reach up to the capacity of the slice; the model panics beyond the length
  already, so panic-freedom of the model implies panic-freedom of the code.
\<close>

named_theorems safe \<open>introduction rules: a computation does not panic\<close>
named_theorems go_simps \<open>evaluation of in-range slice accesses\<close>

type_synonym byte = "8 word"
type_synonym bytes = "byte list"
type_synonym u16 = "16 word"
type_synonym u32 = "32 word"
type_synonym u64 = "64 word"
type_synonym 'a go = "'a option"

declare Option.bind_cong [fundef_cong]

section \<open>Slice accesses\<close>

text \<open>The Go expressions \<open>b[i]\<close> and \<open>b[i:j]\<close>.\<close>

definition idx :: "'a list \<Rightarrow> nat \<Rightarrow> 'a go" where
  "idx b i = (if i < length b then Some (b ! i) else None)"

definition slice :: "'a list \<Rightarrow> nat \<Rightarrow> nat \<Rightarrow> 'a list go" where
  "slice b i j = (if i \<le> j \<and> j \<le> length b then Some (take (j - i) (drop i b)) else None)"

definition overwrite :: "'a list \<Rightarrow> nat \<Rightarrow> 'a list \<Rightarrow> 'a list" where
  "overwrite b i xs = take i b @ xs @ drop (i + length xs) b"

text \<open>
  A write of the whole of \<open>xs\<close> at offset \<open>i\<close>: \<open>binary.BigEndian.PutUint16(b[i:i+2], v)\<close>,
  \<open>copy(b[i:j], xs)\<close> with \<open>len xs = j - i\<close>, or \<open>b[i] = x\<close>.
\<close>

definition put_at :: "'a list \<Rightarrow> nat \<Rightarrow> 'a list \<Rightarrow> 'a list go" where
  "put_at b i xs = (if i + length xs \<le> length b then Some (overwrite b i xs) else None)"

text \<open>\<open>copy(b[i:], xs)\<close>: copies as many elements as fit.\<close>

definition copy_at :: "'a list \<Rightarrow> nat \<Rightarrow> 'a list \<Rightarrow> 'a list go" where
  "copy_at b i xs =
     (if i \<le> length b then Some (overwrite b i (take (length b - i) xs)) else None)"

lemma idx_Some [simp, go_simps]: "i < length b \<Longrightarrow> idx b i = Some (b ! i)"
  by (simp add: idx_def)

lemma slice_Some [simp, go_simps]:
  "i \<le> j \<Longrightarrow> j \<le> length b \<Longrightarrow> slice b i j = Some (take (j - i) (drop i b))"
  by (simp add: slice_def)

lemma put_at_Some [simp, go_simps]:
  "i + length xs \<le> length b \<Longrightarrow> put_at b i xs = Some (overwrite b i xs)"
  by (simp add: put_at_def)

lemma copy_at_Some [simp, go_simps]:
  "i + length xs \<le> length b \<Longrightarrow> copy_at b i xs = Some (overwrite b i xs)"
  by (simp add: copy_at_def)

lemma idx_eq_Some_iff: "idx b i = Some x \<longleftrightarrow> i < length b \<and> x = b ! i"
  by (auto simp: idx_def)

lemma length_overwrite [simp]: "i + length xs \<le> length b \<Longrightarrow> length (overwrite b i xs) = length b"
  by (simp add: overwrite_def)

lemma nth_overwrite:
  assumes "i + length xs \<le> length b" and "j < length b"
  shows "overwrite b i xs ! j = (if i \<le> j \<and> j < i + length xs then xs ! (j - i) else b ! j)"
  using assms by (auto simp: overwrite_def nth_append min_def)

lemma nth_overwrite_before [simp]:
  "j < i \<Longrightarrow> i + length xs \<le> length b \<Longrightarrow> overwrite b i xs ! j = b ! j"
  by (simp add: overwrite_def nth_append)

lemma nth_overwrite_after [simp]:
  "i + length xs \<le> j \<Longrightarrow> i + length xs \<le> length b \<Longrightarrow> j < length b \<Longrightarrow> overwrite b i xs ! j = b ! j"
  by (auto simp: overwrite_def nth_append min_def)

lemma take_overwrite_before [simp]:
  "n \<le> i \<Longrightarrow> i + length xs \<le> length b \<Longrightarrow> take n (overwrite b i xs) = take n b"
  by (simp add: overwrite_def min_def)

lemma drop_overwrite_after [simp]:
  "i + length xs \<le> n \<Longrightarrow> i + length xs \<le> length b \<Longrightarrow> drop n (overwrite b i xs) = drop n b"
  by (simp add: overwrite_def min_def)

lemma overwrite_at:
  "i + length xs \<le> length b \<Longrightarrow> n = length xs \<Longrightarrow> take n (drop i (overwrite b i xs)) = xs"
  by (simp add: overwrite_def min_def)

lemma take_drop_overwrite_disjoint:
  assumes "i + length xs \<le> length b" and "j + n \<le> i \<or> i + length xs \<le> j"
  shows "take n (drop j (overwrite b i xs)) = take n (drop j b)"
proof (cases "j + n \<le> i")
  case True
  have "take n (drop j (overwrite b i xs)) = drop j (take (j + n) (overwrite b i xs))"
    by (simp add: drop_take)
  also have "\<dots> = drop j (take (j + n) b)"
    using True assms(1) by simp
  finally show ?thesis by (simp add: drop_take)
next
  case False
  with assms show ?thesis by simp
qed

section \<open>Integers in byte order\<close>

definition u16of :: "byte \<Rightarrow> byte \<Rightarrow> u16" where
  "u16of h l = push_bit 8 (ucast h) OR ucast l"

definition u16hi :: "u16 \<Rightarrow> byte" where
  "u16hi v = ucast (drop_bit 8 v)"

definition u16lo :: "u16 \<Rightarrow> byte" where
  "u16lo v = ucast v"

definition be16_at :: "bytes \<Rightarrow> nat \<Rightarrow> u16 go" where
  "be16_at b i = (if i + 2 \<le> length b then Some (u16of (b ! i) (b ! (i + 1))) else None)"

definition u16be :: "u16 \<Rightarrow> bytes" where
  "u16be v = [u16hi v, u16lo v]"

definition u32of :: "byte \<Rightarrow> byte \<Rightarrow> byte \<Rightarrow> byte \<Rightarrow> u32" where
  "u32of a b c d = push_bit 24 (ucast a) OR push_bit 16 (ucast b) OR push_bit 8 (ucast c) OR ucast d"

definition be32_at :: "bytes \<Rightarrow> nat \<Rightarrow> u32 go" where
  "be32_at b i =
     (if i + 4 \<le> length b then Some (u32of (b ! i) (b ! (i + 1)) (b ! (i + 2)) (b ! (i + 3))) else None)"

definition u32be :: "u32 \<Rightarrow> bytes" where
  "u32be v = [ucast (drop_bit 24 v), ucast (drop_bit 16 v), ucast (drop_bit 8 v), ucast v]"

lemma length_u16be [simp]: "length (u16be v) = 2"
  by (simp add: u16be_def)

lemma length_u32be [simp]: "length (u32be v) = 4"
  by (simp add: u32be_def)

lemma be16_at_Some [simp, go_simps]:
  "i + 2 \<le> length b \<Longrightarrow> be16_at b i = Some (u16of (b ! i) (b ! (i + 1)))"
  by (simp add: be16_at_def)

lemma be32_at_Some [simp, go_simps]:
  "i + 4 \<le> length b \<Longrightarrow>
   be32_at b i = Some (u32of (b ! i) (b ! (i + 1)) (b ! (i + 2)) (b ! (i + 3)))"
  by (simp add: be32_at_def)

lemma u16of_hi_lo [simp]: "u16of (u16hi v) (u16lo v) = v"
  by (rule bit_word_eqI) (auto simp: u16of_def u16hi_def u16lo_def bit_simps)

lemma u16hi_of [simp]: "u16hi (u16of h l) = h"
  by (rule bit_word_eqI) (auto simp: u16of_def u16hi_def bit_simps dest: bit_imp_le_length)

lemma u16lo_of [simp]: "u16lo (u16of h l) = l"
  by (rule bit_word_eqI) (auto simp: u16of_def u16lo_def bit_simps)

lemma u32of_bytes [simp]:
  "u32of (ucast (drop_bit 24 v)) (ucast (drop_bit 16 v)) (ucast (drop_bit 8 v)) (ucast v) = v"
proof (rule bit_word_eqI)
  fix n
  assume "n < LENGTH(32)"
  then consider "n < 8" | "8 \<le> n" "n < 16" | "16 \<le> n" "n < 24" | "24 \<le> n" "n < 32"
    by fastforce
  then show "bit (u32of (ucast (drop_bit 24 v)) (ucast (drop_bit 16 v)) (ucast (drop_bit 8 v)) (ucast v)) n
      = bit v n"
    by cases (auto simp: u32of_def bit_simps)
qed

lemma unat_u16of: "unat (u16of h l) = unat h * 256 + unat l"
proof -
  have dis: "push_bit 8 (ucast h :: u16) AND ucast l = 0"
    by (rule bit_word_eqI) (auto simp: bit_simps dest: bit_imp_le_length)
  have "u16of h l = push_bit 8 (ucast h) + ucast l"
    unfolding u16of_def by (rule disjunctive_add_eq_or [symmetric]) (rule dis)
  moreover have "unat h < 256" and "unat l < 256"
    using unsigned_less [of h, where ?'a = nat] unsigned_less [of l, where ?'a = nat] by simp_all
  ultimately show ?thesis
    by (simp add: push_bit_eq_mult unat_word_ariths unsigned_ucast_eq take_bit_nat_eq_self)
qed

lemma unat_byte_lt [simp]: "unat (x :: byte) < 256"
  using unsigned_less [of x, where ?'a = nat] by simp

lemma unat_u16_lt [simp]: "unat (x :: u16) < 65536"
  using unsigned_less [of x, where ?'a = nat] by simp

lemma unat_byte_le: "unat (x :: byte) \<le> 255"
  using unat_byte_lt [of x] by linarith

lemma nth_put16 [simp]:
  assumes "i + 2 \<le> length b"
  shows "overwrite b i (u16be v) ! i = u16hi v" "overwrite b i (u16be v) ! Suc i = u16lo v"
  using assms by (simp_all add: nth_overwrite u16be_def)

lemma nth_put16_lo:
  assumes "i + 2 \<le> length b" and "j = i + 1"
  shows "overwrite b i (u16be v) ! j = u16lo v"
  using assms by (simp add: nth_overwrite u16be_def)

lemma nth_put1 [simp]: "i < length b \<Longrightarrow> overwrite b i [x] ! i = x"
  by (simp add: nth_overwrite)

lemma be16_at_put [simp]: "i + 2 \<le> length b \<Longrightarrow> be16_at (overwrite b i (u16be v)) i = Some v"
  by (simp add: nth_put16_lo)

lemma be16_at_frame:
  assumes "j + length xs \<le> length b" "i + 2 \<le> j \<or> j + length xs \<le> i"
  shows "be16_at (overwrite b j xs) i = be16_at b i"
  using assms by (auto simp: be16_at_def)

lemma nth_put32:
  assumes "i + 4 \<le> length b"
  shows "overwrite b i (u32be v) ! i = ucast (drop_bit 24 v)"
    "overwrite b i (u32be v) ! (i + 1) = ucast (drop_bit 16 v)"
    "overwrite b i (u32be v) ! (i + 2) = ucast (drop_bit 8 v)"
    "overwrite b i (u32be v) ! (i + 3) = ucast v"
  using assms by (simp_all add: nth_overwrite u32be_def)

lemma be32_at_put [simp]: "i + 4 \<le> length b \<Longrightarrow> be32_at (overwrite b i (u32be v)) i = Some v"
  using nth_put32 [of i b v] by simp

lemma be32_at_frame:
  assumes "j + length xs \<le> length b" "i + 4 \<le> j \<or> j + length xs \<le> i"
  shows "be32_at (overwrite b j xs) i = be32_at b i"
  using assms by (auto simp: be32_at_def)

lemma unat_u16_of_nat: "n \<le> 65535 \<Longrightarrow> unat (word_of_nat n :: u16) = n"
  by (simp add: unat_of_nat)

lemma take_drop_nth_eq:
  "i + n \<le> length xs \<Longrightarrow> i + n \<le> length ys \<Longrightarrow> (\<And>k. i \<le> k \<Longrightarrow> k < i + n \<Longrightarrow> xs ! k = ys ! k) \<Longrightarrow>
    take n (drop i xs) = take n (drop i ys)"
  by (rule nth_equalityI) auto

lemma bind_case_sum_None [simp]:
  "(m \<bind> case_sum (\<lambda>e. Some (f e)) (\<lambda>x. Some (g x))) = None \<longleftrightarrow> m = None"
  by (cases m) (auto split: sum.splits)

lemma unat_drop_bit: "unat (drop_bit n (x :: 'a::len word)) = unat x div 2 ^ n"
proof -
  have "unat (drop_bit n x) = drop_bit n (take_bit LENGTH('a) (unat x))" by (rule unsigned_drop_bit_eq)
  then show ?thesis by (simp add: drop_bit_eq_div take_bit_nat_eq_self)
qed

lemma unat_and_ffff: "unat (s AND 0xffff :: u32) = unat s mod 65536"
proof -
  have "s AND 0xffff = take_bit 16 s" by (simp add: take_bit_eq_mask mask_eq_exp_minus_1)
  then have "unat (s AND 0xffff) = take_bit 16 (unat s)" by (simp only: unsigned_take_bit_eq)
  then show ?thesis by (simp add: take_bit_eq_mod)
qed

lemma unat_fold_step: "unat ((s AND 0xffff) + drop_bit 16 s :: u32) = unat s mod 65536 + unat s div 65536"
proof -
  have "unat s < 2 ^ 32" using unsigned_less [of s, where ?'a = nat] by simp
  then have "unat s mod 65536 + unat s div 65536 < 2 ^ 32" by auto
  with unat_drop_bit [of 16 s] show ?thesis by (simp add: unat_word_ariths unat_and_ffff)
qed

lemma drop16_eq_0: "drop_bit 16 (s :: u32) = 0 \<longleftrightarrow> unat s < 65536"
  using unat_drop_bit [of 16 s] by (auto simp: unat_eq_zero simp flip: unat_eq_zero)

lemma fold_step_less: "65536 \<le> n \<Longrightarrow> n mod 65536 + n div 65536 < (n :: nat)"
  using div_mult_mod_eq [of n 65536] div_greater_zero_iff [of n 65536] by linarith

lemma nth_of_drop: "drop off msg = xs @ rest \<Longrightarrow> i < length xs \<Longrightarrow> off + i < length msg \<and> msg ! (off + i) = xs ! i"
proof -
  assume d: "drop off msg = xs @ rest" and i: "i < length xs"
  have "length (drop off msg) = length xs + length rest" by (simp add: d)
  then have "off + i < length msg" using i by simp
  moreover from this have "drop off msg ! i = msg ! (off + i)" by simp
  ultimately show ?thesis using d i by (simp add: nth_append)
qed

lemma be16_of_drop: "drop i msg = u16be v @ rest \<Longrightarrow> be16_at msg i = Some v"
  using nth_of_drop [of i msg "u16be v" rest 0] nth_of_drop [of i msg "u16be v" rest 1] by (simp add: u16be_def)

lemma be32_of_drop: "drop i msg = u32be v @ rest \<Longrightarrow> be32_at msg i = Some v"
  using nth_of_drop [of i msg "u32be v" rest 0] nth_of_drop [of i msg "u32be v" rest 1]
    nth_of_drop [of i msg "u32be v" rest 2] nth_of_drop [of i msg "u32be v" rest 3] by (simp add: u32be_def)

section \<open>Little-endian integers\<close>

definition le32 :: "bytes \<Rightarrow> nat \<Rightarrow> u32" where
  "le32 b i = u32of (b ! (i + 3)) (b ! (i + 2)) (b ! (i + 1)) (b ! i)"

definition u32le :: "u32 \<Rightarrow> bytes" where
  "u32le v = [ucast v, ucast (drop_bit 8 v), ucast (drop_bit 16 v), ucast (drop_bit 24 v)]"

definition u64le :: "u64 \<Rightarrow> bytes" where
  "u64le v = u32le (ucast v) @ u32le (ucast (drop_bit 32 v))"

definition le64 :: "bytes \<Rightarrow> nat \<Rightarrow> u64" where
  "le64 b i = ucast (le32 b i) OR push_bit 32 (ucast (le32 b (i + 4)))"

lemma le32_u32le: "drop i b = u32le v @ rest \<Longrightarrow> le32 b i = v"
  using nth_of_drop [of i b "u32le v" rest 0] nth_of_drop [of i b "u32le v" rest 1]
    nth_of_drop [of i b "u32le v" rest 2] nth_of_drop [of i b "u32le v" rest 3]
  by (simp add: u32le_def le32_def)

lemma length_u32le [simp]: "length (u32le v) = 4"
  by (simp add: u32le_def)

lemma length_u64le [simp]: "length (u64le v) = 8"
  by (simp add: u64le_def)

lemma u64_halves: "ucast (ucast v :: u32) OR push_bit 32 (ucast (ucast (drop_bit 32 v) :: u32)) = v" for v :: u64
proof (rule bit_word_eqI)
  fix n
  assume "n < LENGTH(64)"
  then consider "n < 32" | "32 \<le> n" "n < 64" by fastforce
  then show "bit (ucast (ucast v :: u32) OR push_bit 32 (ucast (ucast (drop_bit 32 v) :: u32)) :: u64) n = bit v n"
    by cases (auto simp: bit_simps)
qed

lemma le64_u64le: "drop i b = u64le v @ rest \<Longrightarrow> le64 b i = v"
proof -
  assume d: "drop i b = u64le v @ rest"
  have "le32 b i = ucast v" by (rule le32_u32le [of _ _ _ "u32le (ucast (drop_bit 32 v)) @ rest"]) (simp add: d u64le_def)
  moreover have "drop (i + 4) b = drop 4 (drop i b)" by (simp add: add.commute)
  then have "le32 b (i + 4) = ucast (drop_bit 32 v)"
    by (intro le32_u32le [of _ _ _ rest]) (simp add: d u64le_def)
  ultimately show ?thesis by (simp add: le64_def u64_halves)
qed

section \<open>Absence of panics\<close>

lemma safe_Some [safe]: "Some x \<noteq> None"
  by simp

lemma safe_if [safe]: "(c \<Longrightarrow> m \<noteq> None) \<Longrightarrow> (\<not> c \<Longrightarrow> n \<noteq> None) \<Longrightarrow> (if c then m else n) \<noteq> None"
  by simp

lemma safe_bind [safe]: "m \<noteq> None \<Longrightarrow> (\<And>a. m = Some a \<Longrightarrow> f a \<noteq> None) \<Longrightarrow> m \<bind> f \<noteq> None"
  by auto

lemma safe_Let [safe]: "(\<And>x. x = t \<Longrightarrow> f x \<noteq> None) \<Longrightarrow> (let x = t in f x) \<noteq> None"
  by simp

lemma safe_idx [safe]: "i < length b \<Longrightarrow> idx b i \<noteq> None"
  by simp

lemma safe_be16 [safe]: "i + 2 \<le> length b \<Longrightarrow> be16_at b i \<noteq> None"
  by simp

lemma safe_be32 [safe]: "i + 4 \<le> length b \<Longrightarrow> be32_at b i \<noteq> None"
  by simp

lemma safe_slice [safe]: "i \<le> j \<Longrightarrow> j \<le> length b \<Longrightarrow> slice b i j \<noteq> None"
  by simp


lemma slice_length: "slice b i j = Some x \<Longrightarrow> length x = j - i \<and> j \<le> length b"
  by (auto simp: slice_def split: if_splits)

text \<open>Go's integer division truncates toward zero.\<close>

definition go_div :: "int \<Rightarrow> int \<Rightarrow> int" where
  "go_div a b = sgn a * sgn b * (\<bar>a\<bar> div \<bar>b\<bar>)"

lemma go_div_pos: "0 \<le> a \<Longrightarrow> 0 < b \<Longrightarrow> go_div a b = a div b"
  by (cases "a = 0") (auto simp: go_div_def)

lemma go_div_le: "0 < b \<Longrightarrow> a \<le> 0 \<Longrightarrow> go_div a b \<le> 0"
  by (cases "a = 0") (auto simp: go_div_def pos_imp_zdiv_nonneg_iff)

end
