(* ===== verification/Netip.thy ===== *)
theory Netip
  imports Prelude
begin

text \<open>
  What the code uses of Go's \<open>net/netip\<close>: addresses and prefixes. An address is the byte array
  it was made from (4 or 16 bytes, \<open>wf_addr\<close>) or the invalid zero value \<open>netip.Addr{}\<close>; IPv6
  zones never occur in addresses read from packets and are left out.
\<close>

datatype addr = AddrInvalid | Addr4 bytes | Addr6 bytes

fun wf_addr :: "addr \<Rightarrow> bool" where
  "wf_addr AddrInvalid = True"
| "wf_addr (Addr4 v) = (length v = 4)"
| "wf_addr (Addr6 v) = (length v = 16)"

fun IsValid :: "addr \<Rightarrow> bool" where
  "IsValid AddrInvalid = False"
| "IsValid _ = True"

fun Is4 :: "addr \<Rightarrow> bool" where
  "Is4 (Addr4 _) = True"
| "Is4 _ = False"

fun Is6 :: "addr \<Rightarrow> bool" where
  "Is6 (Addr6 _) = True"
| "Is6 _ = False"

text \<open>\<open>Unmap\<close> removes the IPv4-mapped prefix \<open>::ffff:0:0/96\<close>.\<close>

definition v4in6_prefix :: bytes where
  "v4in6_prefix = replicate 10 0 @ [0xff, 0xff]"

fun Unmap :: "addr \<Rightarrow> addr" where
  "Unmap (Addr6 v) = (if take 12 v = v4in6_prefix then Addr4 (drop 12 v) else Addr6 v)"
| "Unmap a = a"

fun IsUnspecified :: "addr \<Rightarrow> bool" where
  "IsUnspecified AddrInvalid = False"
| "IsUnspecified (Addr4 v) = (v = replicate 4 0)"
| "IsUnspecified (Addr6 v) = (v = replicate 16 0)"

fun addr_bytes :: "addr \<Rightarrow> bytes" where
  "addr_bytes AddrInvalid = []"
| "addr_bytes (Addr4 v) = v"
| "addr_bytes (Addr6 v) = v"

text \<open>
  A prefix is a base address and a number of leading bits. \<open>Contains\<close> is false across address
  families and otherwise compares the leading bits.
\<close>

record prefix =
  pfx_addr :: addr
  pfx_bits :: nat

definition byte_bits :: "byte \<Rightarrow> bool list" where
  "byte_bits x = map (\<lambda>i. bit x (7 - i)) [0..<8]"

definition addr_bits :: "addr \<Rightarrow> bool list" where
  "addr_bits a = concat (map byte_bits (addr_bytes a))"

definition same_family :: "addr \<Rightarrow> addr \<Rightarrow> bool" where
  "same_family a b \<longleftrightarrow> (Is4 a \<and> Is4 b) \<or> (Is6 a \<and> Is6 b)"

definition Contains :: "prefix \<Rightarrow> addr \<Rightarrow> bool" where
  "Contains p a \<longleftrightarrow> same_family (pfx_addr p) a \<and>
     take (pfx_bits p) (addr_bits (pfx_addr p)) = take (pfx_bits p) (addr_bits a)"

section \<open>Facts\<close>

lemma Unmap_Unmap [simp]: "Unmap (Unmap a) = Unmap a"
  by (cases a) auto

lemma IsValid_Unmap [simp]: "IsValid (Unmap a) = IsValid a"
  by (cases a) auto

lemma wf_addr_Unmap: "wf_addr a \<Longrightarrow> wf_addr (Unmap a)"
  by (cases a) auto

lemma Is4_Unmap: "Is4 a \<Longrightarrow> Unmap a = a"
  by (cases a) auto

lemma Is4_IsValid: "Is4 a \<Longrightarrow> IsValid a" and Is6_IsValid: "Is6 a \<Longrightarrow> IsValid a"
  by (cases a; simp)+

lemma Is4_not_Is6: "Is4 a \<Longrightarrow> \<not> Is6 a"
  by (cases a) auto

lemma length_byte_bits [simp]: "length (byte_bits x) = 8"
  by (simp add: byte_bits_def)

end
