(* ===== verification/Packet.thy ===== *)
theory Packet
  imports Netip
begin

text \<open>
  \<open>internal/packet/packet.go\<close>, first part: the IP/TCP/UDP header parser \<open>Parse\<close>, the
  in-place address and port rewriting used by the NAT, \<open>TrimToIPLength\<close> and \<open>Pad16\<close>.
  An operation that rewrites its slice argument returns the rewritten slice; on an error the
  slice is unchanged in the code, and the model returns the error alone.
\<close>

section \<open>Data\<close>

definition ProtoTCP :: byte where "ProtoTCP = 6"
definition ProtoUDP :: byte where "ProtoUDP = 17"

text \<open>The errors of the package, one constructor for every \<open>errors.New\<close> or \<open>fmt.Errorf\<close>.\<close>

datatype perr =
    ErrFragment | ShortPacket | NotIP | ShortIPv4 | BadIPv4IHL
  | ShortIPv6 | ShortIPv6Ext | BadIPv6Ext | ShortAH | BadAH
  | SrcFamilyMismatch | DstFamilyMismatch | NotTcpUdp | ShortL4
  | BadTcpHeaderLen | ShortTcpOption | BadTcpOptionLen | NotCompleteTCP | UnsupportedVersion
  | BadMTU int | OversizeNonTCP nat int | ShortLSO | BadLSOHeader | MTUTooSmall int nat
  | OversizeNoPayload nat | OversizeSYN | SegmentTooLarge4 | SegmentTooLarge6
  | EmptyIPPacket | AlreadyFragmented4 | AlreadyFragmented6 | DFExceedsMTU nat int
  | JumbogramFragmentation | TruncatedIPv6 | ShortNonIPv6 | ShortFragmentHeader
  | ShortDestOptions | BadDestOptions | FragmentPayloadTooLarge

record Packet =
  pVersion :: nat
  pProtocol :: byte
  pSrc :: addr
  pDst :: addr
  pSrcPort :: u16
  pDstPort :: u16
  pL4 :: nat
  pTotal :: nat

section \<open>Parsing\<close>

definition ports :: "bytes \<Rightarrow> Packet \<Rightarrow> Packet go" where
  "ports b p =
     (if (pProtocol p = ProtoTCP \<or> pProtocol p = ProtoUDP) \<and> pL4 p + 4 \<le> pTotal p then do {
        s \<leftarrow> be16_at b (pL4 p);
        d \<leftarrow> be16_at b (pL4 p + 2);
        Some (p\<lparr>pSrcPort := s, pDstPort := d\<rparr>)
      } else Some p)"

definition parse4 :: "bytes \<Rightarrow> (perr + Packet) go" where
  "parse4 b =
     (if length b < 20 then Some (Inl ShortIPv4)
      else do {
        b0 \<leftarrow> idx b 0;
        let ihl = unat (b0 AND 15) * 4;
        if ihl < 20 \<or> length b < ihl then Some (Inl BadIPv4IHL)
        else do {
          frag \<leftarrow> be16_at b 6;
          if frag AND 0x3fff \<noteq> 0 then Some (Inl ErrFragment)
          else do {
            tl \<leftarrow> be16_at b 2;
            let tot = (if unat tl < ihl \<or> length b < unat tl then length b else unat tl);
            proto \<leftarrow> idx b 9;
            s \<leftarrow> slice b 12 16;
            d \<leftarrow> slice b 16 20;
            p \<leftarrow> ports b \<lparr>pVersion = 4, pProtocol = proto, pSrc = Addr4 s, pDst = Addr4 d,
                   pSrcPort = 0, pDstPort = 0, pL4 = ihl, pTotal = tot\<rparr>;
            Some (Inr p)
          }
        }
      })"

text \<open>
  The loop of \<open>parse6\<close> over the extension headers: hop-by-hop (0), routing (43) and destination
  options (60) have length \<open>(n + 1) * 8\<close>, the authentication header (51) \<open>(n + 2) * 4\<close>; a
  fragment header (44) is refused; anything else is the transport header.
\<close>

function walk6 :: "bytes \<Rightarrow> nat \<Rightarrow> byte \<Rightarrow> nat \<Rightarrow> (perr + byte \<times> nat) go" where
  "walk6 b tot nxt off =
     (if nxt = 0 \<or> nxt = 43 \<or> nxt = 60 then
        (if off + 2 > tot then Some (Inl ShortIPv6Ext)
         else do {
           nh \<leftarrow> idx b off;
           l \<leftarrow> idx b (off + 1);
           let n = (unat l + 1) * 8;
           if off + n > tot then Some (Inl BadIPv6Ext) else walk6 b tot nh (off + n)
         })
      else if nxt = 44 then Some (Inl ErrFragment)
      else if nxt = 51 then
        (if off + 2 > tot then Some (Inl ShortAH)
         else do {
           nh \<leftarrow> idx b off;
           l \<leftarrow> idx b (off + 1);
           let n = (unat l + 2) * 4;
           if off + n > tot then Some (Inl BadAH) else walk6 b tot nh (off + n)
         })
      else Some (Inr (nxt, off)))"
  by pat_completeness auto
termination
  by (relation "measure (\<lambda>(b, tot, nxt, off). tot - off)") auto

declare walk6.simps [simp del]

definition parse6 :: "bytes \<Rightarrow> (perr + Packet) go" where
  "parse6 b =
     (if length b < 40 then Some (Inl ShortIPv6)
      else do {
        s \<leftarrow> slice b 8 24;
        d \<leftarrow> slice b 24 40;
        pl \<leftarrow> be16_at b 4;
        let plen = unat pl;
        let tot = (if (plen = 0 \<and> 40 < length b) \<or> length b < 40 + plen then length b else 40 + plen);
        nxt \<leftarrow> idx b 6;
        w \<leftarrow> walk6 b tot nxt 40;
        (case w of
          Inl e \<Rightarrow> Some (Inl e)
        | Inr (nh, off) \<Rightarrow> do {
            p \<leftarrow> ports b \<lparr>pVersion = 6, pProtocol = nh, pSrc = Addr6 s, pDst = Addr6 d,
                   pSrcPort = 0, pDstPort = 0, pL4 = off, pTotal = tot\<rparr>;
            Some (Inr p)
          })
      })"

definition Parse :: "bytes \<Rightarrow> (perr + Packet) go" where
  "Parse b =
     (if length b < 1 then Some (Inl ShortPacket)
      else do {
        b0 \<leftarrow> idx b 0;
        if drop_bit 4 b0 = 4 then parse4 b
        else if drop_bit 4 b0 = 6 then parse6 b
        else Some (Inl NotIP)
      })"

section \<open>Rewriting\<close>

definition RewriteSrc :: "bytes \<Rightarrow> addr \<Rightarrow> (perr + bytes) go" where
  "RewriteSrc b a = do {
     r \<leftarrow> Parse b;
     (case r of
       Inl e \<Rightarrow> Some (Inl e)
     | Inr p \<Rightarrow>
         if pVersion p = 4 \<and> Is4 a then do { b' \<leftarrow> put_at b 12 (addr_bytes a); Some (Inr b') }
         else if pVersion p = 6 \<and> Is6 a then do { b' \<leftarrow> put_at b 8 (addr_bytes a); Some (Inr b') }
         else Some (Inl SrcFamilyMismatch))
   }"

definition RewriteDst :: "bytes \<Rightarrow> addr \<Rightarrow> (perr + bytes) go" where
  "RewriteDst b a = do {
     r \<leftarrow> Parse b;
     (case r of
       Inl e \<Rightarrow> Some (Inl e)
     | Inr p \<Rightarrow>
         if pVersion p = 4 \<and> Is4 a then do { b' \<leftarrow> put_at b 16 (addr_bytes a); Some (Inr b') }
         else if pVersion p = 6 \<and> Is6 a then do { b' \<leftarrow> put_at b 24 (addr_bytes a); Some (Inr b') }
         else Some (Inl DstFamilyMismatch))
   }"

definition RewriteSrcPort :: "bytes \<Rightarrow> u16 \<Rightarrow> (perr + bytes) go" where
  "RewriteSrcPort b port = do {
     r \<leftarrow> Parse b;
     (case r of
       Inl e \<Rightarrow> Some (Inl e)
     | Inr p \<Rightarrow>
         if pProtocol p \<noteq> ProtoTCP \<and> pProtocol p \<noteq> ProtoUDP then Some (Inl NotTcpUdp)
         else if pL4 p + 2 > length b then Some (Inl ShortL4)
         else do { b' \<leftarrow> put_at b (pL4 p) (u16be port); Some (Inr b') })
   }"

definition RewriteDstPort :: "bytes \<Rightarrow> u16 \<Rightarrow> (perr + bytes) go" where
  "RewriteDstPort b port = do {
     r \<leftarrow> Parse b;
     (case r of
       Inl e \<Rightarrow> Some (Inl e)
     | Inr p \<Rightarrow>
         if pProtocol p \<noteq> ProtoTCP \<and> pProtocol p \<noteq> ProtoUDP then Some (Inl NotTcpUdp)
         else if pL4 p + 4 > length b then Some (Inl ShortL4)
         else do { b' \<leftarrow> put_at b (pL4 p + 2) (u16be port); Some (Inr b') })
   }"

section \<open>Trimming and padding\<close>

definition TrimToIPLength :: "bytes \<Rightarrow> bytes go" where
  "TrimToIPLength b =
     (if length b < 1 then Some b
      else do {
        b0 \<leftarrow> idx b 0;
        if drop_bit 4 b0 = 4 then
          (if 4 \<le> length b then do {
             n \<leftarrow> be16_at b 2;
             if 20 \<le> unat n \<and> unat n \<le> length b then slice b 0 (unat n) else Some b
           } else Some b)
        else if drop_bit 4 b0 = 6 then
          (if 6 \<le> length b then do {
             n \<leftarrow> be16_at b 4;
             if 40 + unat n \<le> length b then slice b 0 (40 + unat n) else Some b
           } else Some b)
        else Some b
      })"

definition Pad16 :: "bytes \<Rightarrow> bytes" where
  "Pad16 b = (let n = (16 - length b mod 16) mod 16 in b @ replicate n 0)"

section \<open>Lemmas on the parser\<close>

lemma unat_and_15 [simp]: "unat (x AND 15 :: byte) \<le> 15"
  using word_and_le1 [of x 15] by (simp add: word_le_nat_alt)

text \<open>
  The chain of extension headers as a relation: from the header of type \<open>nxt\<close> at \<open>off\<close>, named
  by the next-header byte at \<open>pn\<close>, the walk passes whole headers that end within \<open>tot\<close> and
  arrives at \<open>off'\<close>, whose type \<open>nh\<close> is the byte at \<open>pn'\<close>. It is the specification the
  walkers of this package and of the reassembly package share.
\<close>

definition is_ext :: "byte \<Rightarrow> bool" where
  "is_ext nxt \<longleftrightarrow> nxt = 0 \<or> nxt = 43 \<or> nxt = 60 \<or> nxt = 51"

definition hdr_len :: "bytes \<Rightarrow> byte \<Rightarrow> nat \<Rightarrow> nat" where
  "hdr_len b nxt off =
     (if nxt = 51 then (unat (b ! (off + 1)) + 2) * 4 else (unat (b ! (off + 1)) + 1) * 8)"

inductive hdr_chain :: "bytes \<Rightarrow> nat \<Rightarrow> nat \<Rightarrow> byte \<Rightarrow> nat \<Rightarrow> nat \<Rightarrow> byte \<Rightarrow> nat \<Rightarrow> bool"
  for b :: bytes and tot :: nat where
  chain_here: "hdr_chain b tot pn nxt off pn nxt off"
| chain_step: "is_ext nxt \<Longrightarrow> off + 2 \<le> tot \<Longrightarrow> off + hdr_len b nxt off \<le> tot \<Longrightarrow>
    hdr_chain b tot off (b ! off) (off + hdr_len b nxt off) pn' nh off' \<Longrightarrow>
    hdr_chain b tot pn nxt off pn' nh off'"

lemma hdr_len_ge: "8 \<le> hdr_len b nxt off"
  by (simp add: hdr_len_def)

lemma hdr_chain_bounds:
  "hdr_chain b tot pn nxt off pn' nh off' \<Longrightarrow> off \<le> off' \<and> (off \<le> tot \<longrightarrow> off' \<le> tot)"
  by (induction rule: hdr_chain.induct) auto

lemma hdr_chain_cong:
  assumes "hdr_chain b tot pn nxt off pn' nh off'"
    and "\<And>i. off \<le> i \<Longrightarrow> i < off' \<Longrightarrow> b' ! i = b ! i"
  shows "hdr_chain b' tot pn nxt off pn' nh off'"
  using assms
proof (induction rule: hdr_chain.induct)
  case (chain_here pn nxt off)
  show ?case by (rule hdr_chain.chain_here)
next
  case (chain_step nxt off pn' nh off' pn)
  from hdr_chain_bounds [OF chain_step.hyps(4)] hdr_len_ge [of b nxt off]
  have "off + 8 \<le> off'" by linarith
  with chain_step.prems have "b' ! off = b ! off" "hdr_len b' nxt off = hdr_len b nxt off"
    by (simp_all add: hdr_len_def)
  with chain_step.hyps(1-3) chain_step.IH chain_step.prems \<open>off + 8 \<le> off'\<close> show ?case
    by (intro hdr_chain.chain_step [of nxt off]) (simp_all add: hdr_len_def)
qed

lemma hdr_chain_prev_bounds:
  "hdr_chain b tot pn nxt off pn' nh off' \<Longrightarrow> pn < off \<Longrightarrow> nxt = b ! pn \<Longrightarrow> pn' < off' \<and> nh = b ! pn'"
  by (induction rule: hdr_chain.induct) (auto simp: hdr_len_def)

lemma walk6_unfold:
  assumes "tot \<le> length b"
  shows "walk6 b tot nxt off =
     (if is_ext nxt then
        (if off + 2 > tot then Some (Inl (if nxt = 51 then ShortAH else ShortIPv6Ext))
         else if off + hdr_len b nxt off > tot then Some (Inl (if nxt = 51 then BadAH else BadIPv6Ext))
         else walk6 b tot (b ! off) (off + hdr_len b nxt off))
      else if nxt = 44 then Some (Inl ErrFragment) else Some (Inr (nxt, off)))"
  using assms by (subst walk6.simps) (auto simp: Let_def is_ext_def hdr_len_def)

lemma walk6_induct [case_names step]:
  assumes "\<And>nxt off. (is_ext nxt \<Longrightarrow> off + 2 \<le> tot \<Longrightarrow> off + hdr_len b nxt off \<le> tot \<Longrightarrow>
      P (b ! off) (off + hdr_len b nxt off)) \<Longrightarrow> P nxt off"
  shows "P nxt off"
proof (induction "tot - off" arbitrary: nxt off rule: less_induct)
  case less
  show ?case
  proof (rule assms)
    assume "off + 2 \<le> tot" "off + hdr_len b nxt off \<le> tot"
    then show "P (b ! off) (off + hdr_len b nxt off)"
      using hdr_len_ge [of b nxt off] by (intro less) linarith
  qed
qed

lemma walk6_Inr_iff:
  assumes "tot \<le> length b"
  shows "walk6 b tot nxt off = Some (Inr (nh, off')) \<longleftrightarrow>
    (\<exists>pn'. hdr_chain b tot pn nxt off pn' nh off') \<and> \<not> is_ext nh \<and> nh \<noteq> 44"
proof (induction nxt off arbitrary: pn rule: walk6_induct [where tot = tot and b = b])
  case (step nxt off)
  show ?case
    using step
    by (subst walk6_unfold [OF assms], subst hdr_chain.simps) (auto simp: is_ext_def not_less)
qed

lemma walk6_total: "tot \<le> length b \<Longrightarrow> walk6 b tot nxt off \<noteq> None"
  by (induction nxt off rule: walk6_induct [where tot = tot and b = b])
    (subst walk6_unfold, auto simp: not_less)

text \<open>The values the parsers compute, without the panic monad.\<close>

definition ihl4 :: "bytes \<Rightarrow> nat" where
  "ihl4 b = unat (b ! 0 AND 15) * 4"

definition tot4 :: "bytes \<Rightarrow> nat" where
  "tot4 b = (let n = unat (u16of (b ! 2) (b ! 3)) in
     if n < ihl4 b \<or> length b < n then length b else n)"

definition tot6 :: "bytes \<Rightarrow> nat" where
  "tot6 b = (let n = unat (u16of (b ! 4) (b ! 5)) in
     if (n = 0 \<and> 40 < length b) \<or> length b < 40 + n then length b else 40 + n)"

definition with_ports :: "bytes \<Rightarrow> Packet \<Rightarrow> Packet" where
  "with_ports b p =
     (if (pProtocol p = ProtoTCP \<or> pProtocol p = ProtoUDP) \<and> pL4 p + 4 \<le> pTotal p
      then p\<lparr>pSrcPort := u16of (b ! pL4 p) (b ! (pL4 p + 1)),
             pDstPort := u16of (b ! (pL4 p + 2)) (b ! (pL4 p + 3))\<rparr>
      else p)"

definition pkt4 :: "bytes \<Rightarrow> Packet" where
  "pkt4 b = with_ports b \<lparr>pVersion = 4, pProtocol = b ! 9,
     pSrc = Addr4 (take 4 (drop 12 b)), pDst = Addr4 (take 4 (drop 16 b)),
     pSrcPort = 0, pDstPort = 0, pL4 = ihl4 b, pTotal = tot4 b\<rparr>"

definition pkt6 :: "bytes \<Rightarrow> byte \<Rightarrow> nat \<Rightarrow> Packet" where
  "pkt6 b nh off = with_ports b \<lparr>pVersion = 6, pProtocol = nh,
     pSrc = Addr6 (take 16 (drop 8 b)), pDst = Addr6 (take 16 (drop 24 b)),
     pSrcPort = 0, pDstPort = 0, pL4 = off, pTotal = tot6 b\<rparr>"

lemma with_ports_sel [simp]:
  "pVersion (with_ports b p) = pVersion p" "pProtocol (with_ports b p) = pProtocol p"
  "pSrc (with_ports b p) = pSrc p" "pDst (with_ports b p) = pDst p"
  "pL4 (with_ports b p) = pL4 p" "pTotal (with_ports b p) = pTotal p"
  by (simp_all add: with_ports_def)

lemma pkt4_sel [simp]:
  "pVersion (pkt4 b) = 4" "pProtocol (pkt4 b) = b ! 9"
  "pSrc (pkt4 b) = Addr4 (take 4 (drop 12 b))" "pDst (pkt4 b) = Addr4 (take 4 (drop 16 b))"
  "pL4 (pkt4 b) = ihl4 b" "pTotal (pkt4 b) = tot4 b"
  by (simp_all add: pkt4_def)

lemma pkt6_sel [simp]:
  "pVersion (pkt6 b nh off) = 6" "pProtocol (pkt6 b nh off) = nh"
  "pSrc (pkt6 b nh off) = Addr6 (take 16 (drop 8 b))" "pDst (pkt6 b nh off) = Addr6 (take 16 (drop 24 b))"
  "pL4 (pkt6 b nh off) = off" "pTotal (pkt6 b nh off) = tot6 b"
  by (simp_all add: pkt6_def)

lemma tot4_le: "tot4 b \<le> length b" and tot6_le: "tot6 b \<le> length b \<or> length b < 40"
  by (auto simp: tot4_def tot6_def Let_def)

lemma ihl4_le_tot4: "ihl4 b \<le> length b \<Longrightarrow> ihl4 b \<le> tot4 b"
  by (simp add: tot4_def Let_def)

lemma tot6_ge: "40 \<le> length b \<Longrightarrow> 40 \<le> tot6 b"
  by (simp add: tot6_def Let_def)

lemma ports_eq: "pTotal p \<le> length b \<Longrightarrow> ports b p = Some (with_ports b p)"
  by (auto simp: ports_def with_ports_def add.commute add.left_commute numeral_eq_Suc)

lemma parse4_eq:
  assumes "20 \<le> length b"
  shows "parse4 b =
     (if ihl4 b < 20 \<or> length b < ihl4 b then Some (Inl BadIPv4IHL)
      else if u16of (b ! 6) (b ! 7) AND 0x3fff \<noteq> 0 then Some (Inl ErrFragment)
      else Some (Inr (pkt4 b)))"
proof -
  from assms have "b \<noteq> []" by auto
  with assms show ?thesis
    by (simp add: parse4_def ports_eq pkt4_def tot4_def ihl4_def Let_def not_less)
qed

lemma parse6_eq:
  "40 \<le> length b \<Longrightarrow> parse6 b =
     (case walk6 b (tot6 b) (b ! 6) 40 of
        None \<Rightarrow> None
      | Some (Inl e) \<Rightarrow> Some (Inl e)
      | Some (Inr (nh, off)) \<Rightarrow> Some (Inr (pkt6 b nh off)))"
  using tot6_le [of b]
  by (auto simp: parse6_def ports_eq pkt6_def tot6_def Let_def not_less
      split: option.splits sum.splits prod.splits)

lemma Parse_ne_None: "Parse b \<noteq> None"
proof -
  have "parse4 b \<noteq> None"
    by (cases "20 \<le> length b") (simp_all add: parse4_eq, simp add: parse4_def)
  moreover have "parse6 b \<noteq> None"
  proof (cases "40 \<le> length b")
    case True
    with tot6_le [of b] have "walk6 b (tot6 b) (b ! 6) 40 \<noteq> None"
      by (intro walk6_total) simp
    then show ?thesis
      by (auto simp: parse6_eq [OF True] split: sum.splits)
  qed (simp add: parse6_def)
  ultimately show ?thesis
    by (auto simp: Parse_def)
qed

text \<open>When the parser accepts, and what it returns.\<close>

definition ok4 :: "bytes \<Rightarrow> bool" where
  "ok4 b \<longleftrightarrow> 20 \<le> length b \<and> drop_bit 4 (b ! 0) = 4 \<and> 20 \<le> ihl4 b \<and> ihl4 b \<le> length b \<and>
     u16of (b ! 6) (b ! 7) AND 0x3fff = 0"

definition ok6 :: "bytes \<Rightarrow> byte \<Rightarrow> nat \<Rightarrow> bool" where
  "ok6 b nh off \<longleftrightarrow> 40 \<le> length b \<and> drop_bit 4 (b ! 0) = 6 \<and>
     (\<exists>pn. hdr_chain b (tot6 b) 6 (b ! 6) 40 pn nh off) \<and> \<not> is_ext nh \<and> nh \<noteq> 44"

lemma Parse_Inr_iff:
  "Parse b = Some (Inr p) \<longleftrightarrow>
     (ok4 b \<and> p = pkt4 b) \<or> (\<exists>nh off. ok6 b nh off \<and> p = pkt6 b nh off)"
proof -
  have p4: "parse4 b = Some (Inr p) \<longleftrightarrow> 20 \<le> length b \<and> 20 \<le> ihl4 b \<and> ihl4 b \<le> length b \<and>
      u16of (b ! 6) (b ! 7) AND 0x3fff = 0 \<and> p = pkt4 b"
    by (cases "20 \<le> length b") (auto simp: parse4_eq, simp add: parse4_def)
  have p6: "parse6 b = Some (Inr p) \<longleftrightarrow> 40 \<le> length b \<and>
      (\<exists>nh off. walk6 b (tot6 b) (b ! 6) 40 = Some (Inr (nh, off)) \<and> p = pkt6 b nh off)"
    by (cases "40 \<le> length b")
      (auto simp: parse6_eq split: option.splits sum.splits, simp add: parse6_def)
  have w: "walk6 b (tot6 b) (b ! 6) 40 = Some (Inr (nh, off)) \<longleftrightarrow>
      (\<exists>pn. hdr_chain b (tot6 b) 6 (b ! 6) 40 pn nh off) \<and> \<not> is_ext nh \<and> nh \<noteq> 44"
    if "40 \<le> length b" for nh off
    using tot6_le [of b] that by (intro walk6_Inr_iff) simp
  show ?thesis
    by (cases "b = []"; cases "40 \<le> length b") (auto simp: Parse_def p4 p6 w ok4_def ok6_def)
qed

lemma ok6_bounds: "ok6 b nh off \<Longrightarrow> 40 \<le> off \<and> off \<le> tot6 b \<and> tot6 b \<le> length b"
  using tot6_le [of b] tot6_ge [of b] by (auto simp: ok6_def dest!: hdr_chain_bounds)

lemma Parse_cases [consumes 1, case_names v4 v6]:
  assumes "Parse b = Some (Inr p)"
  obtains "ok4 b" "p = pkt4 b" | nh off where "ok6 b nh off" "p = pkt6 b nh off"
  using assms by (auto simp: Parse_Inr_iff)

lemma Parse_bounds:
  assumes "Parse b = Some (Inr p)"
  shows "20 \<le> pL4 p" "pL4 p \<le> pTotal p" "pTotal p \<le> length b"
  using assms tot4_le [of b] ihl4_le_tot4 [of b]
  by (cases rule: Parse_cases, auto simp: ok4_def dest: ok6_bounds)+

lemma Parse_version: "Parse b = Some (Inr p) \<Longrightarrow> pVersion p = 4 \<and> Is4 (pSrc p) \<and> Is4 (pDst p) \<or>
    pVersion p = 6 \<and> Is6 (pSrc p) \<and> Is6 (pDst p)"
  by (cases rule: Parse_cases) auto

lemma Parse_wf_addr: "Parse b = Some (Inr p) \<Longrightarrow> wf_addr (pSrc p) \<and> wf_addr (pDst p)"
  by (cases rule: Parse_cases) (auto simp: ok4_def ok6_def)

text \<open>
  Writes that leave the parse intact: both formats are read from the version byte, the length
  and fragment fields and the extension chain, so a write to other bytes changes only what is
  read from those bytes.
\<close>

lemma ok4_overwrite:
  assumes "ok4 b" and "i + length xs \<le> length b" and "12 \<le> i"
  shows "ok4 (overwrite b i xs)"
  using assms by (auto simp: ok4_def ihl4_def)

lemma tot6_overwrite:
  "40 \<le> length b \<Longrightarrow> i + length xs \<le> length b \<Longrightarrow> 8 \<le> i \<Longrightarrow> tot6 (overwrite b i xs) = tot6 b"
  by (simp add: tot6_def Let_def)

lemma ok6_overwrite:
  assumes "ok6 b nh off" and "i + length xs \<le> length b"
    and "8 \<le> i \<and> i + length xs \<le> 40 \<or> off \<le> i"
  shows "ok6 (overwrite b i xs) nh off"
proof -
  from ok6_bounds [OF assms(1)] have bnd: "40 \<le> off" "off \<le> length b" by auto
  from assms(1) obtain pn where ch: "hdr_chain b (tot6 b) 6 (b ! 6) 40 pn nh off"
    and len: "40 \<le> length b" by (auto simp: ok6_def)
  have "8 \<le> i" using assms(3) bnd by auto
  have "hdr_chain (overwrite b i xs) (tot6 b) 6 (b ! 6) 40 pn nh off"
    using ch by (rule hdr_chain_cong) (use assms(2,3) bnd in \<open>auto simp: nth_overwrite\<close>)
  moreover have "overwrite b i xs ! 6 = b ! 6" "overwrite b i xs ! 0 = b ! 0"
    using assms(2) \<open>8 \<le> i\<close> by auto
  ultimately show ?thesis
    using assms(1,2) \<open>8 \<le> i\<close> len by (auto simp: ok6_def tot6_overwrite)
qed

lemma tot4_overwrite:
  "20 \<le> length b \<Longrightarrow> i + length xs \<le> length b \<Longrightarrow> 12 \<le> i \<Longrightarrow>
    tot4 (overwrite b i xs) = tot4 b \<and> ihl4 (overwrite b i xs) = ihl4 b"
  by (simp add: tot4_def ihl4_def Let_def)

lemmas overwrite_frame = take_drop_overwrite_disjoint overwrite_at tot4_overwrite tot6_overwrite

lemma with_ports_cong:
  "pTotal p \<le> length b \<Longrightarrow> (\<And>i. pL4 p \<le> i \<Longrightarrow> i < pL4 p + 4 \<Longrightarrow> i < length b \<Longrightarrow> b' ! i = b ! i) \<Longrightarrow>
    with_ports b' p = with_ports b p"
  by (auto simp: with_ports_def)

lemma with_ports_update:
  "with_ports b (p\<lparr>pSrc := a\<rparr>) = (with_ports b p)\<lparr>pSrc := a\<rparr>"
  "with_ports b (p\<lparr>pDst := a\<rparr>) = (with_ports b p)\<lparr>pDst := a\<rparr>"
  by (simp_all add: with_ports_def)

text \<open>The effect of an address write on the parsed record, for both versions and both fields.\<close>

lemma pkt4_src:
  assumes "ok4 b" "length v = 4"
  shows "pkt4 (overwrite b 12 v) = (pkt4 b)\<lparr>pSrc := Addr4 v\<rparr>"
proof -
  have "20 \<le> length b" "20 \<le> ihl4 b" using assms by (auto simp: ok4_def)
  with assms(2) tot4_le [of b] show ?thesis
    by (auto simp: pkt4_def overwrite_frame with_ports_def)
qed

lemma pkt4_dst:
  assumes "ok4 b" "length v = 4"
  shows "pkt4 (overwrite b 16 v) = (pkt4 b)\<lparr>pDst := Addr4 v\<rparr>"
proof -
  have "20 \<le> length b" "20 \<le> ihl4 b" using assms by (auto simp: ok4_def)
  with assms(2) tot4_le [of b] show ?thesis
    by (auto simp: pkt4_def overwrite_frame with_ports_def)
qed

lemma pkt6_src:
  assumes "ok6 b nh off" "length v = 16"
  shows "pkt6 (overwrite b 8 v) nh off = (pkt6 b nh off)\<lparr>pSrc := Addr6 v\<rparr>"
  using ok6_bounds [OF assms(1)] assms(2)
  by (auto simp: pkt6_def overwrite_frame with_ports_def)

lemma pkt6_dst:
  assumes "ok6 b nh off" "length v = 16"
  shows "pkt6 (overwrite b 24 v) nh off = (pkt6 b nh off)\<lparr>pDst := Addr6 v\<rparr>"
  using ok6_bounds [OF assms(1)] assms(2)
  by (auto simp: pkt6_def overwrite_frame with_ports_def)

lemma RewriteSrc_ok:
  assumes "Parse b = Some (Inr p)" and "wf_addr a" and "same_family (pSrc p) a"
  obtains b' where "RewriteSrc b a = Some (Inr b')" "length b' = length b"
    "Parse b' = Some (Inr (p\<lparr>pSrc := a\<rparr>))" "drop (pL4 p) b' = drop (pL4 p) b"
  using assms(1)
proof (cases rule: Parse_cases)
  case v4
  with assms obtain v where v: "a = Addr4 v" "length v = 4" by (cases a) (auto simp: same_family_def)
  from v4 have len: "20 \<le> length b" "20 \<le> ihl4 b" by (auto simp: ok4_def)
  show thesis
  proof (rule that)
    show "RewriteSrc b a = Some (Inr (overwrite b 12 v))"
      using assms(1) v4 v len by (simp add: RewriteSrc_def)
    show "Parse (overwrite b 12 v) = Some (Inr (p\<lparr>pSrc := a\<rparr>))"
      using v4 v len ok4_overwrite [OF v4(1), of 12 v] by (simp add: Parse_Inr_iff pkt4_src)
  qed (use v v4 len in simp_all)
next
  case (v6 nh off)
  with assms obtain v where v: "a = Addr6 v" "length v = 16" by (cases a) (auto simp: same_family_def)
  note bnd = ok6_bounds [OF v6(1)]
  show thesis
  proof (rule that)
    show "RewriteSrc b a = Some (Inr (overwrite b 8 v))"
      using assms(1) v6 v bnd by (simp add: RewriteSrc_def)
    show "Parse (overwrite b 8 v) = Some (Inr (p\<lparr>pSrc := a\<rparr>))"
      using v6 v bnd ok6_overwrite [OF v6(1), of 8 v] by (auto simp: Parse_Inr_iff pkt6_src [symmetric])
  qed (use v v6 bnd in simp_all)
qed

lemma RewriteDst_ok:
  assumes "Parse b = Some (Inr p)" and "wf_addr a" and "same_family (pDst p) a"
  obtains b' where "RewriteDst b a = Some (Inr b')" "length b' = length b"
    "Parse b' = Some (Inr (p\<lparr>pDst := a\<rparr>))" "drop (pL4 p) b' = drop (pL4 p) b"
  using assms(1)
proof (cases rule: Parse_cases)
  case v4
  with assms obtain v where v: "a = Addr4 v" "length v = 4" by (cases a) (auto simp: same_family_def)
  from v4 have len: "20 \<le> length b" "20 \<le> ihl4 b" by (auto simp: ok4_def)
  show thesis
  proof (rule that)
    show "RewriteDst b a = Some (Inr (overwrite b 16 v))"
      using assms(1) v4 v len by (simp add: RewriteDst_def)
    show "Parse (overwrite b 16 v) = Some (Inr (p\<lparr>pDst := a\<rparr>))"
      using v4 v len ok4_overwrite [OF v4(1), of 16 v] by (simp add: Parse_Inr_iff pkt4_dst)
  qed (use v v4 len in simp_all)
next
  case (v6 nh off)
  with assms obtain v where v: "a = Addr6 v" "length v = 16" by (cases a) (auto simp: same_family_def)
  note bnd = ok6_bounds [OF v6(1)]
  show thesis
  proof (rule that)
    show "RewriteDst b a = Some (Inr (overwrite b 24 v))"
      using assms(1) v6 v bnd by (simp add: RewriteDst_def)
    show "Parse (overwrite b 24 v) = Some (Inr (p\<lparr>pDst := a\<rparr>))"
      using v6 v bnd ok6_overwrite [OF v6(1), of 24 v] by (auto simp: Parse_Inr_iff pkt6_dst [symmetric])
  qed (use v v6 bnd in simp_all)
qed

text \<open>A write at or after the transport header only affects the ports.\<close>

lemma pkt_zero_ports:
  "(pkt4 b)\<lparr>pSrcPort := 0, pDstPort := 0\<rparr> = \<lparr>pVersion = 4, pProtocol = b ! 9,
     pSrc = Addr4 (take 4 (drop 12 b)), pDst = Addr4 (take 4 (drop 16 b)),
     pSrcPort = 0, pDstPort = 0, pL4 = ihl4 b, pTotal = tot4 b\<rparr>"
  "(pkt6 b nh off)\<lparr>pSrcPort := 0, pDstPort := 0\<rparr> = \<lparr>pVersion = 6, pProtocol = nh,
     pSrc = Addr6 (take 16 (drop 8 b)), pDst = Addr6 (take 16 (drop 24 b)),
     pSrcPort = 0, pDstPort = 0, pL4 = off, pTotal = tot6 b\<rparr>"
  by (simp_all add: pkt4_def pkt6_def with_ports_def)

lemma Parse_overwrite_l4:
  assumes "Parse b = Some (Inr p)" and "pL4 p \<le> i" and "i + length xs \<le> length b"
  shows "Parse (overwrite b i xs) =
    Some (Inr (with_ports (overwrite b i xs) (p\<lparr>pSrcPort := 0, pDstPort := 0\<rparr>)))"
  using assms(1)
proof (cases rule: Parse_cases)
  case v4
  then have len: "20 \<le> length b" "20 \<le> ihl4 b" by (auto simp: ok4_def)
  with v4 assms(2,3) have "pkt4 (overwrite b i xs) =
      with_ports (overwrite b i xs) (p\<lparr>pSrcPort := 0, pDstPort := 0\<rparr>)"
    by (simp add: pkt_zero_ports pkt4_def [of "overwrite b i xs"] overwrite_frame)
  moreover have "ok4 (overwrite b i xs)"
    using v4 len assms(2,3) by (intro ok4_overwrite) simp_all
  ultimately show ?thesis
    by (simp only: Parse_Inr_iff) blast
next
  case (v6 nh off)
  note bnd = ok6_bounds [OF v6(1)]
  with v6 assms(2,3) have "pkt6 (overwrite b i xs) nh off =
      with_ports (overwrite b i xs) (p\<lparr>pSrcPort := 0, pDstPort := 0\<rparr>)"
    by (simp add: pkt_zero_ports pkt6_def [of "overwrite b i xs"] overwrite_frame)
  moreover have "ok6 (overwrite b i xs) nh off"
    using v6 assms(2,3) by (intro ok6_overwrite) simp_all
  ultimately show ?thesis
    by (simp only: Parse_Inr_iff) metis
qed

lemma Parse_with_ports:
  assumes "Parse b = Some (Inr p)"
  shows "with_ports b (p\<lparr>pSrcPort := 0, pDstPort := 0\<rparr>) = p"
  using assms by (cases rule: Parse_cases) (auto simp: pkt4_def pkt6_def with_ports_def)

lemma Parse_overwrite_payload:
  assumes "Parse b = Some (Inr p)" and "pL4 p + 4 \<le> i" and "i + length xs \<le> length b"
  shows "Parse (overwrite b i xs) = Some (Inr p)"
proof -
  have "with_ports (overwrite b i xs) (p\<lparr>pSrcPort := 0, pDstPort := 0\<rparr>) =
      with_ports b (p\<lparr>pSrcPort := 0, pDstPort := 0\<rparr>)"
    using assms(2,3) Parse_bounds [OF assms(1)] by (intro with_ports_cong) simp_all
  with Parse_overwrite_l4 [OF assms(1) _ assms(3)] assms(2) Parse_with_ports [OF assms(1)]
  show ?thesis by simp
qed

lemma RewriteSrcPort_ok:
  assumes "Parse b = Some (Inr p)" and "pProtocol p = ProtoTCP \<or> pProtocol p = ProtoUDP"
    and "pL4 p + 4 \<le> pTotal p"
  obtains b' where "RewriteSrcPort b v = Some (Inr b')" "length b' = length b"
    "Parse b' = Some (Inr (p\<lparr>pSrcPort := v\<rparr>))" "drop (pL4 p + 2) b' = drop (pL4 p + 2) b"
    "take (pL4 p) b' = take (pL4 p) b"
proof (rule that)
  note bnd = Parse_bounds [OF assms(1)]
  show "RewriteSrcPort b v = Some (Inr (overwrite b (pL4 p) (u16be v)))"
    using assms bnd by (simp add: RewriteSrcPort_def)
  have "with_ports (overwrite b (pL4 p) (u16be v)) (p\<lparr>pSrcPort := 0, pDstPort := 0\<rparr>) =
      (with_ports b (p\<lparr>pSrcPort := 0, pDstPort := 0\<rparr>))\<lparr>pSrcPort := v\<rparr>"
    using assms(2,3) bnd by (simp add: with_ports_def nth_put16_lo)
  then show "Parse (overwrite b (pL4 p) (u16be v)) = Some (Inr (p\<lparr>pSrcPort := v\<rparr>))"
    using assms bnd Parse_with_ports [OF assms(1)] by (simp add: Parse_overwrite_l4)
qed (use assms Parse_bounds [OF assms(1)] in simp_all)

lemma RewriteDstPort_ok:
  assumes "Parse b = Some (Inr p)" and "pProtocol p = ProtoTCP \<or> pProtocol p = ProtoUDP"
    and "pL4 p + 4 \<le> pTotal p"
  obtains b' where "RewriteDstPort b v = Some (Inr b')" "length b' = length b"
    "Parse b' = Some (Inr (p\<lparr>pDstPort := v\<rparr>))" "drop (pL4 p + 4) b' = drop (pL4 p + 4) b"
    "take (pL4 p + 2) b' = take (pL4 p + 2) b"
proof (rule that)
  note bnd = Parse_bounds [OF assms(1)]
  show "RewriteDstPort b v = Some (Inr (overwrite b (pL4 p + 2) (u16be v)))"
    using assms bnd by (simp add: RewriteDstPort_def)
  have "with_ports (overwrite b (pL4 p + 2) (u16be v)) (p\<lparr>pSrcPort := 0, pDstPort := 0\<rparr>) =
      (with_ports b (p\<lparr>pSrcPort := 0, pDstPort := 0\<rparr>))\<lparr>pDstPort := v\<rparr>"
    using assms(2,3) bnd by (simp add: with_ports_def nth_put16_lo)
  then show "Parse (overwrite b (pL4 p + 2) (u16be v)) = Some (Inr (p\<lparr>pDstPort := v\<rparr>))"
    using assms bnd Parse_with_ports [OF assms(1)] by (simp add: Parse_overwrite_l4)
qed (use assms Parse_bounds [OF assms(1)] in simp_all)

lemma rewrite_ne_None:
  "wf_addr a \<Longrightarrow> RewriteSrc b a \<noteq> None" "wf_addr a \<Longrightarrow> RewriteDst b a \<noteq> None"
  "RewriteSrcPort b v \<noteq> None" "RewriteDstPort b v \<noteq> None"
proof -
  obtain r where r: "Parse b = Some r" using Parse_ne_None [of b] by blast
  have len: "length b \<ge> 20" "pVersion p = 6 \<Longrightarrow> length b \<ge> 40" if "r = Inr p" for p
    using r that by (auto simp: Parse_Inr_iff ok4_def ok6_def)
  show "wf_addr a \<Longrightarrow> RewriteSrc b a \<noteq> None" "wf_addr a \<Longrightarrow> RewriteDst b a \<noteq> None"
    using r len by (cases a; cases r; fastforce simp: RewriteSrc_def RewriteDst_def)+
  show "RewriteSrcPort b v \<noteq> None" "RewriteDstPort b v \<noteq> None"
    using r by (auto simp: RewriteSrcPort_def RewriteDstPort_def split: sum.splits)
qed

section \<open>Properties\<close>


end
