(* ===== verification/Packet_Tcp.thy ===== *)
theory Packet_Tcp
  imports Packet
begin

text \<open>
  \<open>internal/packet/packet.go\<close>, second part: the TCP operations. \<open>ClampTCPMSS\<close> lowers the MSS
  option of SYN packets, \<open>ParseTCPInfo\<close> reads the TCP header, \<open>BuildTCPResetReply\<close> makes the
  reset that closes a local socket, \<open>IsTCPSYN\<close> recognises a connection's first packet.
\<close>

section \<open>Clamping the MSS option\<close>

text \<open>The loop over the TCP options between \<open>off\<close> and \<open>e\<close>, the end of the TCP header.\<close>

function mss_loop :: "bytes \<Rightarrow> u16 \<Rightarrow> nat \<Rightarrow> nat \<Rightarrow> (perr + bool \<times> bytes) go" where
  "mss_loop b maxMSS e off =
     (if off < e then do {
        kind \<leftarrow> idx b off;
        if kind = 0 then Some (Inr (False, b))
        else if kind = 1 then mss_loop b maxMSS e (off + 1)
        else if off + 2 > e then Some (Inl ShortTcpOption)
        else do {
          l \<leftarrow> idx b (off + 1);
          let ln = unat l;
          if ln < 2 \<or> off + ln > e then Some (Inl BadTcpOptionLen)
          else if kind = 2 \<and> ln = 4 then do {
            cur \<leftarrow> be16_at b (off + 2);
            if cur > maxMSS then do { b' \<leftarrow> put_at b (off + 2) (u16be maxMSS); Some (Inr (True, b')) }
            else Some (Inr (False, b))
          }
          else mss_loop b maxMSS e (off + ln)
        }
      } else Some (Inr (False, b)))"
  by pat_completeness auto
termination
  by (relation "measure (\<lambda>(b, m, e, off). e - off)") auto

declare mss_loop.simps [simp del]

definition ClampTCPMSS :: "bytes \<Rightarrow> u16 \<Rightarrow> (perr + bool \<times> bytes) go" where
  "ClampTCPMSS b maxMSS = do {
     r \<leftarrow> Parse b;
     (case r of
       Inl e \<Rightarrow> Some (Inl e)
     | Inr p \<Rightarrow>
         if pProtocol p \<noteq> ProtoTCP \<or> pL4 p + 20 > pTotal p then Some (Inr (False, b))
         else do {
           fl \<leftarrow> idx b (pL4 p + 13);
           if fl AND 0x02 = 0 then Some (Inr (False, b))
           else do {
             dof \<leftarrow> idx b (pL4 p + 12);
             let hlen = unat (drop_bit 4 dof) * 4;
             if hlen < 20 \<or> pL4 p + hlen > pTotal p then Some (Inl BadTcpHeaderLen)
             else mss_loop b maxMSS (pL4 p + hlen) (pL4 p + 20)
           }
         })
   }"

section \<open>TCP header and reset reply\<close>

record TCPInfo =
  tHeaderLen :: nat
  tSeq :: u32
  tAck :: u32
  tFlags :: byte
  tPayload :: bytes

definition ParseTCPInfo :: "bytes \<Rightarrow> (perr + Packet \<times> TCPInfo) go" where
  "ParseTCPInfo b = do {
     r \<leftarrow> Parse b;
     (case r of
       Inl e \<Rightarrow> Some (Inl e)
     | Inr p \<Rightarrow>
         if pProtocol p \<noteq> ProtoTCP \<or> pL4 p + 20 > pTotal p then Some (Inl NotCompleteTCP)
         else do {
           dof \<leftarrow> idx b (pL4 p + 12);
           let hlen = unat (drop_bit 4 dof) * 4;
           if hlen < 20 \<or> pL4 p + hlen > pTotal p then Some (Inl BadTcpHeaderLen)
           else do {
             sq \<leftarrow> be32_at b (pL4 p + 4);
             ak \<leftarrow> be32_at b (pL4 p + 8);
             fl \<leftarrow> idx b (pL4 p + 13);
             pl \<leftarrow> slice b (pL4 p + hlen) (pTotal p);
             Some (Inr (p, \<lparr>tHeaderLen = hlen, tSeq = sq, tAck = ak, tFlags = fl, tPayload = pl\<rparr>))
           }
         })
   }"

text \<open>Sequence and acknowledgement numbers and flags of the reset (RFC 793), wrapping at 2^32.\<close>

definition reset_fields :: "TCPInfo \<Rightarrow> u32 \<times> u32 \<times> byte" where
  "reset_fields ti =
     (let segLen0 = word_of_nat (length (tPayload ti)) :: u32;
          segLen1 = (if tFlags ti AND 0x02 \<noteq> 0 then segLen0 + 1 else segLen0);
          segLen = (if tFlags ti AND 0x01 \<noteq> 0 then segLen1 + 1 else segLen1)
      in if tFlags ti AND 0x10 \<noteq> 0 then (tAck ti, 0, 0x04)
         else (0, tSeq ti + segLen, 0x04 OR 0x10))"

definition BuildTCPResetReply :: "bytes \<Rightarrow> (perr + bytes) go" where
  "BuildTCPResetReply outbound = do {
     r \<leftarrow> ParseTCPInfo outbound;
     (case r of
       Inl e \<Rightarrow> Some (Inl e)
     | Inr (p, ti) \<Rightarrow>
        (let (sq, ack, flags) = reset_fields ti in
         if pVersion p = 4 then do {
           b \<leftarrow> put_at (replicate 40 0) 0 [0x45];
           b \<leftarrow> put_at b 2 (u16be 40);
           b \<leftarrow> put_at b 8 [64];
           b \<leftarrow> put_at b 9 [ProtoTCP];
           b \<leftarrow> put_at b 12 (addr_bytes (pDst p));
           b \<leftarrow> put_at b 16 (addr_bytes (pSrc p));
           b \<leftarrow> put_at b 20 (u16be (pDstPort p));
           b \<leftarrow> put_at b 22 (u16be (pSrcPort p));
           b \<leftarrow> put_at b 24 (u32be sq);
           b \<leftarrow> put_at b 28 (u32be ack);
           b \<leftarrow> put_at b 32 [push_bit 4 5];
           b \<leftarrow> put_at b 33 [flags];
           b \<leftarrow> put_at b 34 (u16be 0);
           Some (Inr b)
         }
         else if pVersion p = 6 then do {
           b \<leftarrow> put_at (replicate 60 0) 0 [0x60];
           b \<leftarrow> put_at b 4 (u16be 20);
           b \<leftarrow> put_at b 6 [ProtoTCP];
           b \<leftarrow> put_at b 7 [64];
           b \<leftarrow> put_at b 8 (addr_bytes (pDst p));
           b \<leftarrow> put_at b 24 (addr_bytes (pSrc p));
           b \<leftarrow> put_at b 40 (u16be (pDstPort p));
           b \<leftarrow> put_at b 42 (u16be (pSrcPort p));
           b \<leftarrow> put_at b 44 (u32be sq);
           b \<leftarrow> put_at b 48 (u32be ack);
           b \<leftarrow> put_at b 52 [push_bit 4 5];
           b \<leftarrow> put_at b 53 [flags];
           Some (Inr b)
         }
         else Some (Inl UnsupportedVersion)))
   }"

definition IsTCPSYN :: "bytes \<Rightarrow> bool go" where
  "IsTCPSYN b = do {
     r \<leftarrow> Parse b;
     (case r of
       Inl e \<Rightarrow> Some False
     | Inr p \<Rightarrow>
         if pProtocol p = ProtoTCP \<and> pL4 p + 14 \<le> pTotal p then do {
           fl \<leftarrow> idx b (pL4 p + 13);
           Some (fl AND 0x02 \<noteq> 0)
         } else Some False)
   }"

section \<open>Lemmas\<close>

lemma mss_unfold:
  assumes "e \<le> length b"
  shows "mss_loop b m e off =
     (if e \<le> off \<or> b ! off = 0 then Some (Inr (False, b))
      else if b ! off = 1 then mss_loop b m e (off + 1)
      else if off + 2 > e then Some (Inl ShortTcpOption)
      else if unat (b ! (off + 1)) < 2 \<or> off + unat (b ! (off + 1)) > e then Some (Inl BadTcpOptionLen)
      else if b ! off = 2 \<and> unat (b ! (off + 1)) = 4 then
        (if u16of (b ! (off + 2)) (b ! (off + 3)) > m
         then Some (Inr (True, overwrite b (off + 2) (u16be m))) else Some (Inr (False, b)))
      else mss_loop b m e (off + unat (b ! (off + 1))))"
  using assms by (subst mss_loop.simps) (auto simp: Let_def eval_nat_numeral)

lemma mss_induct [case_names step]:
  fixes e :: nat
  assumes "\<And>off. (off < e \<Longrightarrow> P (off + 1)) \<Longrightarrow> (\<And>n. off < e \<Longrightarrow> 2 \<le> n \<Longrightarrow> P (off + n)) \<Longrightarrow> P off"
  shows "P off"
proof (induction "e - off" arbitrary: off rule: less_induct)
  case less
  show ?case by (rule assms) (rule less, linarith)+
qed

lemma mss_loop_total: "e \<le> length b \<Longrightarrow> mss_loop b m e off \<noteq> None"
  by (induction off rule: mss_induct [where e = e]) (subst mss_unfold, auto simp: not_less)

lemma mss_loop_False: "e \<le> length b \<Longrightarrow> mss_loop b m e off = Some (Inr (False, b')) \<Longrightarrow> b' = b"
proof (induction off rule: mss_induct [where e = e])
  case (step off)
  then show ?case
    by (subst (asm) mss_unfold [OF step.prems(1), of m off]) (auto simp: not_less split: if_splits)
qed

lemma mss_loop_True:
  assumes "e \<le> length b" and "mss_loop b m e off = Some (Inr (True, b'))"
  shows "\<exists>i. off \<le> i \<and> i + 4 \<le> e \<and> b ! i = 2 \<and> b ! (i + 1) = 4 \<and>
    m < u16of (b ! (i + 2)) (b ! (i + 3)) \<and> b' = overwrite b (i + 2) (u16be m) \<and>
    mss_loop b' m e off = Some (Inr (False, b'))"
  using assms(2)
proof (induction off rule: mss_induct [where e = e])
  case (step off)
  let ?n = "unat (b ! (off + 1))"
  have len: "e \<le> length (overwrite b (i + 2) (u16be m))" if "i + 4 \<le> e" for i
    using that assms(1) by simp
  have keep: "overwrite b (i + 2) (u16be m) ! j = b ! j" if "i + 4 \<le> e" "j \<le> i + 1" for i j
    using that assms(1) by simp
  consider (nop) "off < e" "b ! off = 1" "mss_loop b m e (off + 1) = Some (Inr (True, b'))"
    | (mss) "off + 4 \<le> e" "b ! off = 2" "?n = 4" "m < u16of (b ! (off + 2)) (b ! (off + 3))"
        "b' = overwrite b (off + 2) (u16be m)"
    | (skip) "off + 2 \<le> e" "b ! off \<noteq> 0" "b ! off \<noteq> 1" "2 \<le> ?n" "off + ?n \<le> e"
        "\<not> (b ! off = 2 \<and> ?n = 4)" "mss_loop b m e (off + ?n) = Some (Inr (True, b'))"
    using step.prems by (subst (asm) mss_unfold [OF assms(1), of m off]) (auto split: if_splits)
  then show ?case
  proof cases
    case nop
    with step.IH(1) obtain i where i: "off + 1 \<le> i" "i + 4 \<le> e" "b ! i = 2" "b ! (i + 1) = 4"
      "m < u16of (b ! (i + 2)) (b ! (i + 3))" "b' = overwrite b (i + 2) (u16be m)"
      "mss_loop b' m e (off + 1) = Some (Inr (False, b'))" by blast
    from i nop len [OF i(2)] keep [OF i(2), of off] have "mss_loop b' m e off = Some (Inr (False, b'))"
      by (subst mss_unfold) auto
    with i show ?thesis by (intro exI [of _ i]) simp
  next
    case mss
    have "b ! (off + 1) = 4" using mss(3) by (simp add: word_unat_eq_iff)
    moreover have "mss_loop b' m e off = Some (Inr (False, b'))"
      using mss len [OF mss(1)] keep [OF mss(1)] assms(1)
      by (subst mss_unfold) (auto simp: nth_put16_lo)
    ultimately show ?thesis using mss by (intro exI [of _ off]) simp
  next
    case skip
    with step.IH(2) [of ?n] obtain i where i: "off + ?n \<le> i" "i + 4 \<le> e" "b ! i = 2" "b ! (i + 1) = 4"
      "m < u16of (b ! (i + 2)) (b ! (i + 3))" "b' = overwrite b (i + 2) (u16be m)"
      "mss_loop b' m e (off + ?n) = Some (Inr (False, b'))" by (auto simp del: One_nat_def)
    from i skip len [OF i(2)] keep [OF i(2), of off] keep [OF i(2), of "off + 1"]
    have "mss_loop b' m e off = Some (Inr (False, b'))"
      by (subst mss_unfold) auto
    with i skip show ?thesis by (intro exI [of _ i]) simp
  qed
qed

lemma ClampTCPMSS_ne_None: "ClampTCPMSS b m \<noteq> None"
proof -
  obtain r where r: "Parse b = Some r" using Parse_ne_None [of b] by blast
  show ?thesis
  proof (cases r)
    case (Inr p)
    from Parse_bounds [of b p] r Inr have "pTotal p \<le> length b" by simp
    with r Inr show ?thesis
      by (auto simp: ClampTCPMSS_def Let_def not_less intro!: mss_loop_total [simplified])
  qed (use r in \<open>simp add: ClampTCPMSS_def\<close>)
qed

lemma ClampTCPMSS_Inr:
  assumes "ClampTCPMSS b m = Some (Inr (c, b'))"
  obtains p where "Parse b = Some (Inr p)"
    "(c, b') = (False, b) \<or>
     pProtocol p = ProtoTCP \<and> pL4 p + 20 \<le> pTotal p \<and> b ! (pL4 p + 13) AND 0x02 \<noteq> 0 \<and>
     20 \<le> unat (drop_bit 4 (b ! (pL4 p + 12))) * 4 \<and>
     pL4 p + unat (drop_bit 4 (b ! (pL4 p + 12))) * 4 \<le> pTotal p \<and>
     mss_loop b m (pL4 p + unat (drop_bit 4 (b ! (pL4 p + 12))) * 4) (pL4 p + 20) = Some (Inr (c, b'))"
proof -
  from assms obtain p where p: "Parse b = Some (Inr p)"
    by (auto simp: ClampTCPMSS_def split: bind_splits sum.splits)
  from Parse_bounds [OF p] have "pTotal p \<le> length b" by simp
  with assms p show thesis
    by (intro that [OF p]) (auto simp: ClampTCPMSS_def Let_def not_less split: if_splits)
qed

lemma ClampTCPMSS_False:
  assumes "ClampTCPMSS b m = Some (Inr (False, b'))"
  shows "b' = b"
  using assms
proof (rule ClampTCPMSS_Inr)
  fix p :: Packet
  let ?e = "pL4 p + unat (drop_bit 4 (b ! (pL4 p + 12))) * 4"
  assume "Parse b = Some (Inr p)"
  from Parse_bounds(3) [OF this] mss_loop_False [of ?e b m "pL4 p + 20" b']
  have "?e \<le> pTotal p \<Longrightarrow> mss_loop b m ?e (pL4 p + 20) = Some (Inr (False, b')) \<Longrightarrow> b' = b"
    by linarith
  moreover assume "(False, b') = (False, b) \<or> pProtocol p = ProtoTCP \<and> pL4 p + 20 \<le> pTotal p \<and>
    b ! (pL4 p + 13) AND 2 \<noteq> 0 \<and> 20 \<le> unat (drop_bit 4 (b ! (pL4 p + 12))) * 4 \<and>
    ?e \<le> pTotal p \<and> mss_loop b m ?e (pL4 p + 20) = Some (Inr (False, b'))"
  ultimately show ?thesis by blast
qed

lemma ParseTCPInfo_Inr_iff:
  "ParseTCPInfo b = Some (Inr (p, ti)) \<longleftrightarrow>
     Parse b = Some (Inr p) \<and> pProtocol p = ProtoTCP \<and> pL4 p + 20 \<le> pTotal p \<and>
     20 \<le> unat (drop_bit 4 (b ! (pL4 p + 12))) * 4 \<and>
     pL4 p + unat (drop_bit 4 (b ! (pL4 p + 12))) * 4 \<le> pTotal p \<and>
     ti = \<lparr>tHeaderLen = unat (drop_bit 4 (b ! (pL4 p + 12))) * 4,
       tSeq = u32of (b ! (pL4 p + 4)) (b ! (pL4 p + 5)) (b ! (pL4 p + 6)) (b ! (pL4 p + 7)),
       tAck = u32of (b ! (pL4 p + 8)) (b ! (pL4 p + 9)) (b ! (pL4 p + 10)) (b ! (pL4 p + 11)),
       tFlags = b ! (pL4 p + 13),
       tPayload = drop (pL4 p + unat (drop_bit 4 (b ! (pL4 p + 12))) * 4) (take (pTotal p) b)\<rparr>"
proof (cases "Parse b")
  case None
  then show ?thesis by (simp add: ParseTCPInfo_def)
next
  case (Some r)
  show ?thesis
  proof (cases r)
    case (Inl e)
    with Some show ?thesis by (simp add: ParseTCPInfo_def)
  next
    case (Inr q)
    from Parse_bounds [of b q] Some Inr have "pTotal q \<le> length b" by simp
    with Some Inr show ?thesis
      by (auto simp: ParseTCPInfo_def Let_def drop_take not_less ac_simps)
  qed
qed

lemma ParseTCPInfo_ne_None: "ParseTCPInfo b \<noteq> None"
proof -
  obtain r where r: "Parse b = Some r" using Parse_ne_None [of b] by blast
  show ?thesis
  proof (cases r)
    case (Inr p)
    from Parse_bounds [of b p] r Inr have "pTotal p \<le> length b" by simp
    with r Inr show ?thesis by (auto simp: ParseTCPInfo_def Let_def not_less)
  qed (use r in \<open>simp add: ParseTCPInfo_def\<close>)
qed

lemma IsTCPSYN_ne_None: "IsTCPSYN b \<noteq> None"
proof -
  obtain r where r: "Parse b = Some r" using Parse_ne_None [of b] by blast
  show ?thesis
  proof (cases r)
    case (Inr p)
    from Parse_bounds [of b p] r Inr have "pTotal p \<le> length b" by simp
    with r Inr show ?thesis by (auto simp: IsTCPSYN_def)
  qed (use r in \<open>simp add: IsTCPSYN_def\<close>)
qed

text \<open>The reset reply as one byte list.\<close>

definition reply4 :: "bytes \<Rightarrow> bytes \<Rightarrow> u16 \<Rightarrow> u16 \<Rightarrow> u32 \<Rightarrow> u32 \<Rightarrow> byte \<Rightarrow> bytes" where
  "reply4 s d sp dp sq ak fl = [0x45, 0, 0, 40, 0, 0, 0, 0, 64, 6, 0, 0] @ s @ d @
     u16be sp @ u16be dp @ u32be sq @ u32be ak @ [0x50, fl, 0, 0, 0, 0, 0, 0]"

definition reply6 :: "bytes \<Rightarrow> bytes \<Rightarrow> u16 \<Rightarrow> u16 \<Rightarrow> u32 \<Rightarrow> u32 \<Rightarrow> byte \<Rightarrow> bytes" where
  "reply6 s d sp dp sq ak fl = [0x60, 0, 0, 0, 0, 20, 6, 64] @ s @ d @
     u16be sp @ u16be dp @ u32be sq @ u32be ak @ [0x50, fl, 0, 0, 0, 0, 0, 0]"

lemma length_4: "length v = 4 \<Longrightarrow> \<exists>a b c d. v = [a, b, c, d]"
  by (auto simp: numeral_eq_Suc length_Suc_conv)

lemma length_16: "length v = 16 \<Longrightarrow>
    \<exists>a b c d e f g h i j k l m n q p. v = [a, b, c, d, e, f, g, h, i, j, k, l, m, n, q, p]"
  by (auto simp: numeral_eq_Suc length_Suc_conv)

lemma replicate_40_60:
  "replicate 40 (0::byte) = [0,0,0,0,0,0,0,0,0,0,0,0,0,0,0,0,0,0,0,0,0,0,0,0,0,0,0,0,0,0,0,0,0,0,0,0,0,0,0,0]"
  "replicate 60 (0::byte) = [0,0,0,0,0,0,0,0,0,0,0,0,0,0,0,0,0,0,0,0,0,0,0,0,0,0,0,0,0,0,0,0,0,0,0,0,0,0,0,0,
     0,0,0,0,0,0,0,0,0,0,0,0,0,0,0,0,0,0,0,0]"
  by (simp_all add: numeral_eq_Suc)

lemma u16_consts: "u16hi 40 = 0" "u16lo 40 = 40" "u16hi 20 = 0" "u16lo 20 = 20" "u16hi 0 = 0" "u16lo 0 = 0"
  by (simp_all add: u16hi_def u16lo_def)

lemmas reply_eval = replicate_40_60 u16_consts overwrite_def u16be_def u32be_def ProtoTCP_def

lemma Build_reply4:
  assumes "ParseTCPInfo b = Some (Inr (p, ti))" "reset_fields ti = (sq, ak, fl)" "pVersion p = 4"
  shows "BuildTCPResetReply b =
    Some (Inr (reply4 (addr_bytes (pDst p)) (addr_bytes (pSrc p)) (pDstPort p) (pSrcPort p) sq ak fl))"
proof -
  from assms have "wf_addr (pSrc p)" "wf_addr (pDst p)" "Is4 (pSrc p)" "Is4 (pDst p)"
    by (auto simp: ParseTCPInfo_Inr_iff dest: Parse_wf_addr Parse_version)
  then obtain s0 s1 s2 s3 d0 d1 d2 d3 where
    "addr_bytes (pSrc p) = [s0, s1, s2, s3]" "addr_bytes (pDst p) = [d0, d1, d2, d3]"
    by (cases "pSrc p"; cases "pDst p") (auto dest!: length_4)
  with assms show ?thesis
    by (simp add: BuildTCPResetReply_def reply4_def reply_eval)
qed

lemma Build_reply6:
  assumes "ParseTCPInfo b = Some (Inr (p, ti))" "reset_fields ti = (sq, ak, fl)" "pVersion p = 6"
  shows "BuildTCPResetReply b =
    Some (Inr (reply6 (addr_bytes (pDst p)) (addr_bytes (pSrc p)) (pDstPort p) (pSrcPort p) sq ak fl))"
proof -
  from assms have "wf_addr (pSrc p)" "wf_addr (pDst p)" "Is6 (pSrc p)" "Is6 (pDst p)"
    by (auto simp: ParseTCPInfo_Inr_iff dest: Parse_wf_addr Parse_version)
  then have "\<exists>s. pSrc p = Addr6 s \<and> length s = 16" "\<exists>d. pDst p = Addr6 d \<and> length d = 16"
    by (cases "pSrc p"; simp) (cases "pDst p"; use \<open>wf_addr (pDst p)\<close> \<open>Is6 (pDst p)\<close> in simp)
  then obtain s d where "pSrc p = Addr6 s" "length s = 16" "pDst p = Addr6 d" "length d = 16" by blast
  with length_16 [of s] length_16 [of d] assms show ?thesis
    by (auto simp: BuildTCPResetReply_def reply6_def reply_eval)
qed

lemma ParseTCPInfo_reply4:
  assumes "length s = 4" "length d = 4"
  shows "\<exists>q. ParseTCPInfo (reply4 s d sp dp sq ak fl) =
      Some (Inr (q, \<lparr>tHeaderLen = 20, tSeq = sq, tAck = ak, tFlags = fl, tPayload = []\<rparr>)) \<and>
    pVersion q = 4 \<and> pSrc q = Addr4 s \<and> pDst q = Addr4 d \<and> pSrcPort q = sp \<and> pDstPort q = dp"
proof -
  let ?r = "reply4 s d sp dp sq ak fl"
  obtain s0 s1 s2 s3 d0 d1 d2 d3 where sd: "s = [s0, s1, s2, s3]" "d = [d0, d1, d2, d3]"
    using assms by (auto dest!: length_4)
  have hd: "ihl4 ?r = 20" "tot4 ?r = 40" "length ?r = 40"
    by (simp_all add: sd reply4_def ihl4_def tot4_def u16of_def u16be_def u32be_def)
  have "ok4 ?r"
    by (simp add: ok4_def hd) (simp add: sd reply4_def u16of_def)
  then have "Parse ?r = Some (Inr (pkt4 ?r))" by (simp add: Parse_Inr_iff)
  moreover have "pkt4 ?r = \<lparr>pVersion = 4, pProtocol = 6, pSrc = Addr4 s, pDst = Addr4 d,
      pSrcPort = sp, pDstPort = dp, pL4 = 20, pTotal = 40\<rparr>"
    by (simp add: pkt4_def with_ports_def hd ProtoTCP_def ProtoUDP_def)
      (simp add: sd reply4_def u16be_def u32be_def)
  ultimately show ?thesis
    by (simp add: ParseTCPInfo_Inr_iff hd ProtoTCP_def)
      (simp add: sd reply4_def u16be_def u32be_def)
qed

lemma ParseTCPInfo_reply6:
  assumes "length s = 16" "length d = 16"
  shows "\<exists>q. ParseTCPInfo (reply6 s d sp dp sq ak fl) =
      Some (Inr (q, \<lparr>tHeaderLen = 20, tSeq = sq, tAck = ak, tFlags = fl, tPayload = []\<rparr>)) \<and>
    pVersion q = 6 \<and> pSrc q = Addr6 s \<and> pDst q = Addr6 d \<and> pSrcPort q = sp \<and> pDstPort q = dp"
proof -
  let ?r = "reply6 s d sp dp sq ak fl"
  have len: "length ?r = 60" using assms by (simp add: reply6_def)
  have nth: "?r ! 0 = 0x60" "?r ! 4 = 0" "?r ! 5 = 20" "?r ! 6 = 6"
    by (simp_all add: reply6_def)
  have tot: "tot6 ?r = 60"
    by (simp add: tot6_def len nth u16of_def)
  have "hdr_chain ?r 60 6 6 40 6 6 40" by (rule hdr_chain.chain_here)
  then have "ok6 ?r 6 40" by (auto simp: ok6_def len nth tot is_ext_def)
  then have "Parse ?r = Some (Inr (pkt6 ?r 6 40))" by (auto simp: Parse_Inr_iff)
  moreover have l4: "drop 40 ?r = u16be sp @ u16be dp @ u32be sq @ u32be ak @ [0x50, fl, 0, 0, 0, 0, 0, 0]"
    and ad: "take 16 (drop 8 ?r) = s" "take 16 (drop 24 ?r) = d"
    using assms by (simp_all add: reply6_def)
  moreover have at: "?r ! (40 + i) = drop 40 ?r ! i" for i
    by (simp add: len)
  ultimately show ?thesis
    using at [of 0] at [of 1] at [of 2] at [of 3] at [of 4] at [of 5] at [of 6] at [of 7] at [of 8]
      at [of 9] at [of 10] at [of 11] at [of 12] at [of 13]
    by (simp add: ParseTCPInfo_Inr_iff ProtoTCP_def ProtoUDP_def pkt6_def with_ports_def tot len
        u16be_def u32be_def)
qed

section \<open>Properties\<close>

text \<open>\<open>ClampTCPMSS\<close> never panics. When it reports no change the packet is the same;
  when it reports a change, the packet differs from the input exactly in the two value bytes of
  an MSS option inside the TCP options whose value exceeded the limit and now is the limit, it
  still parses to the same packet record, and a second clamp finds nothing left to change.\<close>

theorem ClampTCPMSS_correct:
  "\<exists>r. ClampTCPMSS b m = Some r \<and>
     (case r of Inl e \<Rightarrow> True
      | Inr (c, b') \<Rightarrow>
          if c then \<exists>p i. Parse b = Some (Inr p) \<and> pL4 p + 20 \<le> i \<and> i + 4 \<le> pTotal p \<and>
            b ! i = 2 \<and> b ! (i + 1) = 4 \<and> m < u16of (b ! (i + 2)) (b ! (i + 3)) \<and>
            b' = overwrite b (i + 2) (u16be m) \<and> Parse b' = Some (Inr p) \<and>
            ClampTCPMSS b' m = Some (Inr (False, b'))
          else b' = b)"
proof -
  obtain r where r: "ClampTCPMSS b m = Some r" using ClampTCPMSS_ne_None [of b m] by blast
  have changed: "\<exists>p i. Parse b = Some (Inr p) \<and> pL4 p + 20 \<le> i \<and> i + 4 \<le> pTotal p \<and>
      b ! i = 2 \<and> b ! (i + 1) = 4 \<and> m < u16of (b ! (i + 2)) (b ! (i + 3)) \<and>
      b' = overwrite b (i + 2) (u16be m) \<and> Parse b' = Some (Inr p) \<and>
      ClampTCPMSS b' m = Some (Inr (False, b'))" if "r = Inr (True, b')" for b'
  proof -
    from r that obtain p where p: "Parse b = Some (Inr p)" and tcp: "pProtocol p = ProtoTCP"
        "pL4 p + 20 \<le> pTotal p" "b ! (pL4 p + 13) AND 0x02 \<noteq> 0"
      and hl: "20 \<le> unat (drop_bit 4 (b ! (pL4 p + 12))) * 4"
        "pL4 p + unat (drop_bit 4 (b ! (pL4 p + 12))) * 4 \<le> pTotal p"
      and lp: "mss_loop b m (pL4 p + unat (drop_bit 4 (b ! (pL4 p + 12))) * 4) (pL4 p + 20) = Some (Inr (True, b'))"
      by (auto elim!: ClampTCPMSS_Inr)
    let ?e = "pL4 p + unat (drop_bit 4 (b ! (pL4 p + 12))) * 4"
    from Parse_bounds [OF p] hl have "?e \<le> length b" "pTotal p \<le> length b" by auto
    from mss_loop_True [OF this(1) lp] obtain i where i: "pL4 p + 20 \<le> i" "i + 4 \<le> ?e" "b ! i = 2"
        "b ! (i + 1) = 4" "m < u16of (b ! (i + 2)) (b ! (i + 3))" "b' = overwrite b (i + 2) (u16be m)"
        "mss_loop b' m ?e (pL4 p + 20) = Some (Inr (False, b'))" by blast
    have p': "Parse b' = Some (Inr p)"
      using i hl \<open>?e \<le> length b\<close> unfolding i(6) by (intro Parse_overwrite_payload [OF p]) auto
    have "b' ! (pL4 p + 12) = b ! (pL4 p + 12)" "b' ! (pL4 p + 13) = b ! (pL4 p + 13)" "length b' = length b"
      using i \<open>?e \<le> length b\<close> by simp_all
    with p' tcp hl i(7) \<open>pTotal p \<le> length b\<close> have "ClampTCPMSS b' m = Some (Inr (False, b'))"
      by (simp add: ClampTCPMSS_def Let_def)
    with p i p' hl show ?thesis by (intro exI [of _ p] exI [of _ i]) auto
  qed
  moreover have "b' = b" if "r = Inr (False, b')" for b'
    by (rule ClampTCPMSS_False [OF r [unfolded that]])
  ultimately show ?thesis using r by (cases r) (auto split: if_splits)
qed

text \<open>C13: The reset reply is the RST that RFC 793 prescribes for the captured segment: it
  parses as a TCP packet of the same IP version with addresses and ports swapped, a bare
  20-byte header, sequence number SEG.ACK and flag RST if the segment carried ACK, and otherwise
  sequence number 0, acknowledgement SEG.SEQ plus the segment length (payload, SYN and FIN, modulo
  2^32) and flags RST and ACK.\<close>

theorem BuildTCPResetReply_correct:
  assumes "ParseTCPInfo b = Some (Inr (p, ti))"
  shows "\<exists>r q sq ak fl. BuildTCPResetReply b = Some (Inr r) \<and>
    ParseTCPInfo r = Some (Inr (q, \<lparr>tHeaderLen = 20, tSeq = sq, tAck = ak, tFlags = fl, tPayload = []\<rparr>)) \<and>
    pVersion q = pVersion p \<and> pSrc q = pDst p \<and> pDst q = pSrc p \<and>
    pSrcPort q = pDstPort p \<and> pDstPort q = pSrcPort p \<and>
    (if tFlags ti AND 0x10 \<noteq> 0 then sq = tAck ti \<and> ak = 0 \<and> fl = 0x04
     else sq = 0 \<and> fl = 0x14 \<and> ak = tSeq ti + word_of_nat (length (tPayload ti)) +
       (if tFlags ti AND 0x02 \<noteq> 0 then 1 else 0) + (if tFlags ti AND 0x01 \<noteq> 0 then 1 else 0))"
proof -
  obtain sq ak fl where f: "reset_fields ti = (sq, ak, fl)" by (cases "reset_fields ti")
  have fields: "if tFlags ti AND 0x10 \<noteq> 0 then sq = tAck ti \<and> ak = 0 \<and> fl = 0x04
     else sq = 0 \<and> fl = 0x14 \<and> ak = tSeq ti + word_of_nat (length (tPayload ti)) +
       (if tFlags ti AND 0x02 \<noteq> 0 then 1 else 0) + (if tFlags ti AND 0x01 \<noteq> 0 then 1 else 0)"
    using f by (auto simp: reset_fields_def Let_def split: if_splits)
  from assms have P: "Parse b = Some (Inr p)" by (simp add: ParseTCPInfo_Inr_iff)
  show ?thesis
  proof (cases "pVersion p = 4")
    case True
    with Parse_version [OF P] Parse_wf_addr [OF P] obtain s d where
      sd: "pSrc p = Addr4 s" "pDst p = Addr4 d" "length s = 4" "length d = 4"
      by (cases "pSrc p"; cases "pDst p") auto
    obtain q where q: "ParseTCPInfo (reply4 d s (pDstPort p) (pSrcPort p) sq ak fl) =
        Some (Inr (q, \<lparr>tHeaderLen = 20, tSeq = sq, tAck = ak, tFlags = fl, tPayload = []\<rparr>))"
      "pVersion q = 4" "pSrc q = Addr4 d" "pDst q = Addr4 s" "pSrcPort q = pDstPort p" "pDstPort q = pSrcPort p"
      using ParseTCPInfo_reply4 [OF sd(4,3)] by blast
    show ?thesis
      by (rule exI [of _ "reply4 d s (pDstPort p) (pSrcPort p) sq ak fl"], rule exI [of _ q],
          rule exI [of _ sq], rule exI [of _ ak], rule exI [of _ fl])
        (use q fields Build_reply4 [OF assms f True] in \<open>simp add: sd True\<close>)
  next
    case False
    with Parse_version [OF P] Parse_wf_addr [OF P] obtain s d where v: "pVersion p = 6" and
      sd: "pSrc p = Addr6 s" "pDst p = Addr6 d" "length s = 16" "length d = 16"
      by (cases "pSrc p"; cases "pDst p") auto
    obtain q where q: "ParseTCPInfo (reply6 d s (pDstPort p) (pSrcPort p) sq ak fl) =
        Some (Inr (q, \<lparr>tHeaderLen = 20, tSeq = sq, tAck = ak, tFlags = fl, tPayload = []\<rparr>))"
      "pVersion q = 6" "pSrc q = Addr6 d" "pDst q = Addr6 s" "pSrcPort q = pDstPort p" "pDstPort q = pSrcPort p"
      using ParseTCPInfo_reply6 [OF sd(4,3)] by blast
    show ?thesis
      by (rule exI [of _ "reply6 d s (pDstPort p) (pSrcPort p) sq ak fl"], rule exI [of _ q],
          rule exI [of _ sq], rule exI [of _ ak], rule exI [of _ fl])
        (use q fields Build_reply6 [OF assms f v] in \<open>simp add: sd v\<close>)
  qed
qed

theorem BuildTCPResetReply_correct_witness:
  "\<exists>r q. BuildTCPResetReply (reply4 [10, 0, 0, 1] [10, 0, 0, 2] 1000 443 7 0 0x02) = Some (Inr r) \<and>
     ParseTCPInfo r = Some (Inr (q, \<lparr>tHeaderLen = 20, tSeq = 0, tAck = 8, tFlags = 0x14, tPayload = []\<rparr>)) \<and>
     pSrc q = Addr4 [10, 0, 0, 2] \<and> pDst q = Addr4 [10, 0, 0, 1] \<and> pSrcPort q = 443 \<and> pDstPort q = 1000"
proof -
  obtain p where p: "ParseTCPInfo (reply4 [10, 0, 0, 1] [10, 0, 0, 2] 1000 443 7 0 0x02) =
      Some (Inr (p, \<lparr>tHeaderLen = 20, tSeq = 7, tAck = 0, tFlags = 0x02, tPayload = []\<rparr>))"
    "pSrc p = Addr4 [10, 0, 0, 1]" "pDst p = Addr4 [10, 0, 0, 2]" "pSrcPort p = 1000" "pDstPort p = 443"
    using ParseTCPInfo_reply4 [of "[10, 0, 0, 1]" "[10, 0, 0, 2]"] by fastforce
  from BuildTCPResetReply_correct [OF p(1)] p(2-) show ?thesis by auto
qed

end
