(* ===== verification/Packet_Split.thy ===== *)
theory Packet_Split
  imports Packet_Tcp
begin

unbundle bit_operations_syntax

text \<open>
  \<open>internal/packet/packet.go\<close>, third part: \<open>SplitForMTU\<close>, which turns an outbound TCP LSO
  super-packet into ordinary segments. The captured length is authoritative for the template, so
  the total length the parser read is replaced by it.
\<close>

section \<open>Segmenting an LSO packet\<close>

text \<open>
  One segment: the header \<open>b[:L4+tcpHL]\<close>, the payload bytes \<open>[off, e)\<close>, and the rewritten
  sequence number, flags, checksums and length.
\<close>

definition lso_segment :: "bytes \<Rightarrow> Packet \<Rightarrow> nat \<Rightarrow> u32 \<Rightarrow> byte \<Rightarrow> bytes \<Rightarrow> nat \<Rightarrow> nat \<Rightarrow> (perr + bytes) go" where
  "lso_segment b p tcpHL baseSeq origFlags payload off e = do {
     h \<leftarrow> slice b 0 (pL4 p + tcpHL);
     pl \<leftarrow> slice payload off e;
     let seg = h @ pl;
     seg \<leftarrow> put_at seg (pL4 p + 4) (u32be (baseSeq + word_of_nat off));
     let flags = (if e \<noteq> length payload then origFlags AND NOT (0x01 OR 0x08 OR 0x80) else origFlags);
     seg \<leftarrow> put_at seg (pL4 p + 13) [flags];
     seg \<leftarrow> put_at seg (pL4 p + 16) [0, 0];
     if pVersion p = 4 then
       (if length seg > 65535 then Some (Inl SegmentTooLarge4)
        else do {
          seg \<leftarrow> put_at seg 2 (u16be (word_of_nat (length seg)));
          seg \<leftarrow> put_at seg 10 [0, 0];
          Some (Inr seg)
        })
     else
       (if length seg - 40 > 65535 then Some (Inl SegmentTooLarge6)
        else do {
          seg \<leftarrow> put_at seg 4 (u16be (word_of_nat (length seg - 40)));
          Some (Inr seg)
        })
   }"

text \<open>
  The loop over the payload. The caller has checked \<open>0 < maxPayload\<close>; the test in the guard
  only makes the recursion total.
\<close>

function split_loop :: "bytes \<Rightarrow> Packet \<Rightarrow> nat \<Rightarrow> u32 \<Rightarrow> byte \<Rightarrow> bytes \<Rightarrow> nat \<Rightarrow> nat \<Rightarrow> (perr + bytes list) go" where
  "split_loop b p tcpHL baseSeq origFlags payload maxPayload off =
     (if off < length payload \<and> 0 < maxPayload then do {
        let e = (if off + maxPayload > length payload then length payload else off + maxPayload);
        s \<leftarrow> lso_segment b p tcpHL baseSeq origFlags payload off e;
        (case s of
          Inl er \<Rightarrow> Some (Inl er)
        | Inr seg \<Rightarrow> do {
            r \<leftarrow> split_loop b p tcpHL baseSeq origFlags payload maxPayload (off + maxPayload);
            (case r of Inl er \<Rightarrow> Some (Inl er) | Inr out \<Rightarrow> Some (Inr (seg # out)))
          })
      } else Some (Inr []))"
  by pat_completeness auto
termination
  by (relation "measure (\<lambda>(b, p, hl, s, f, payload, m, off). length payload - off)") auto

declare split_loop.simps [simp del]

definition SplitForMTU :: "bytes \<Rightarrow> int \<Rightarrow> (perr + bytes list \<times> bool) go" where
  "SplitForMTU b mtu =
     (if mtu < 576 then Some (Inl (BadMTU mtu))
      else if int (length b) \<le> mtu then Some (Inr ([b], False))
      else do {
        r \<leftarrow> Parse b;
        (case r of
          Inl e \<Rightarrow> Some (Inl e)
        | Inr p0 \<Rightarrow>
            if pProtocol p0 \<noteq> ProtoTCP then Some (Inl (OversizeNonTCP (length b) mtu))
            else let p = p0\<lparr>pTotal := length b\<rparr> in
            if pL4 p + 20 > length b then Some (Inl ShortLSO)
            else do {
              dof \<leftarrow> idx b (pL4 p + 12);
              let tcpHL = unat (drop_bit 4 dof) * 4;
              if tcpHL < 20 \<or> pL4 p + tcpHL > length b then Some (Inl BadLSOHeader)
              else let maxPayload = mtu - int (pL4 p) - int tcpHL in
              if maxPayload \<le> 0 then Some (Inl (MTUTooSmall mtu (pL4 p + tcpHL)))
              else do {
                payload \<leftarrow> slice b (pL4 p + tcpHL) (length b);
                if payload = [] then Some (Inl (OversizeNoPayload (length b)))
                else do {
                  baseSeq \<leftarrow> be32_at b (pL4 p + 4);
                  origFlags \<leftarrow> idx b (pL4 p + 13);
                  if origFlags AND 0x02 \<noteq> 0 then Some (Inl OversizeSYN)
                  else do {
                    o' \<leftarrow> split_loop b p tcpHL baseSeq origFlags payload (nat maxPayload) 0;
                    (case o' of Inl e \<Rightarrow> Some (Inl e) | Inr out \<Rightarrow> Some (Inr (out, True)))
                  }
                }
              }
            })
      })"

section \<open>Lemmas\<close>

text \<open>The segment without the panic monad.\<close>

definition seg_bytes :: "bytes \<Rightarrow> Packet \<Rightarrow> nat \<Rightarrow> u32 \<Rightarrow> byte \<Rightarrow> bytes \<Rightarrow> nat \<Rightarrow> nat \<Rightarrow> bytes" where
  "seg_bytes b p hl sq fl payload off e =
     (let s0 = take (pL4 p + hl) b @ take (e - off) (drop off payload);
          s1 = overwrite s0 (pL4 p + 4) (u32be (sq + word_of_nat off));
          s2 = overwrite s1 (pL4 p + 13)
            [if e \<noteq> length payload then fl AND NOT (0x01 OR 0x08 OR 0x80) else fl];
          s3 = overwrite s2 (pL4 p + 16) [0, 0]
      in if pVersion p = 4 then overwrite (overwrite s3 2 (u16be (word_of_nat (length s0)))) 10 [0, 0]
         else overwrite s3 4 (u16be (word_of_nat (length s0 - 40))))"

lemma seg_bytes_length:
  assumes "20 \<le> pL4 p" "20 \<le> hl" "pL4 p + hl \<le> length b" "off \<le> e" "e \<le> length payload"
  shows "length (seg_bytes b p hl sq fl payload off e) = pL4 p + hl + (e - off)"
  using assms by (simp add: seg_bytes_def Let_def)

lemma lso_segment_eq:
  assumes "20 \<le> pL4 p" "20 \<le> hl" "pL4 p + hl \<le> length b" "off \<le> e" "e \<le> length payload"
  shows "lso_segment b p hl sq fl payload off e =
    (if pVersion p = 4 \<and> pL4 p + hl + (e - off) > 65535 then Some (Inl SegmentTooLarge4)
     else if pVersion p \<noteq> 4 \<and> pL4 p + hl + (e - off) - 40 > 65535 then Some (Inl SegmentTooLarge6)
     else Some (Inr (seg_bytes b p hl sq fl payload off e)))"
  using assms by (simp add: lso_segment_def seg_bytes_def Let_def)

lemma seg_bytes_payload:
  assumes "20 \<le> pL4 p" "20 \<le> hl" "pL4 p + hl \<le> length b" "off \<le> e" "e \<le> length payload"
  shows "drop (pL4 p + hl) (seg_bytes b p hl sq fl payload off e) = take (e - off) (drop off payload)"
  using assms by (simp add: seg_bytes_def Let_def)

lemma seg_bytes_seq:
  assumes "20 \<le> pL4 p" "20 \<le> hl" "pL4 p + hl \<le> length b" "off \<le> e" "e \<le> length payload"
  shows "be32_at (seg_bytes b p hl sq fl payload off e) (pL4 p + 4) = Some (sq + word_of_nat off)"
  using assms by (simp add: seg_bytes_def Let_def be32_at_frame del: be32_at_Some)

lemma seg_bytes_flags:
  assumes "20 \<le> pL4 p" "20 \<le> hl" "pL4 p + hl \<le> length b" "off \<le> e" "e \<le> length payload"
  shows "seg_bytes b p hl sq fl payload off e ! (pL4 p + 13) =
      (if e \<noteq> length payload then fl AND NOT (0x01 OR 0x08 OR 0x80) else fl)"
  using assms by (simp add: seg_bytes_def Let_def)

lemma seg_bytes_header:
  assumes "20 \<le> pL4 p" "20 \<le> hl" "pL4 p + hl \<le> length b" "off \<le> e" "e \<le> length payload"
    and "i < pL4 p + 4"
    and "if pVersion p = 4 then i < 2 \<or> 4 \<le> i \<and> i < 10 \<or> 12 \<le> i else i < 4 \<or> 6 \<le> i"
  shows "seg_bytes b p hl sq fl payload off e ! i = b ! i"
  using assms by (cases "pVersion p = 4") (auto simp: seg_bytes_def Let_def nth_append nth_overwrite)

lemma seg_bytes_len_field:
  assumes "20 \<le> pL4 p" "20 \<le> hl" "pL4 p + hl \<le> length b" "off \<le> e" "e \<le> length payload"
  shows "pVersion p = 4 \<Longrightarrow> be16_at (seg_bytes b p hl sq fl payload off e) 2 =
      Some (word_of_nat (pL4 p + hl + (e - off)))"
    "pVersion p \<noteq> 4 \<Longrightarrow> be16_at (seg_bytes b p hl sq fl payload off e) 4 =
      Some (word_of_nat (pL4 p + hl + (e - off) - 40))"
  using assms by (simp_all add: seg_bytes_def Let_def be16_at_frame del: be16_at_Some)

lemma hdr_chain_tot:
  "hdr_chain b tot pn nxt off pn' nh off' \<Longrightarrow> off' \<le> tot' \<Longrightarrow> hdr_chain b tot' pn nxt off pn' nh off'"
proof (induction rule: hdr_chain.induct)
  case (chain_here pn nxt off)
  show ?case by (rule hdr_chain.chain_here)
next
  case (chain_step nxt off pn' nh off' pn)
  from hdr_chain_bounds [OF chain_step.hyps(4)] hdr_len_ge [of b nxt off] chain_step.prems
  have "off + 2 \<le> tot'" "off + hdr_len b nxt off \<le> tot'" by linarith+
  with chain_step show ?case by (intro hdr_chain.chain_step [of nxt off]) simp_all
qed

definition seg_fits :: "Packet \<Rightarrow> nat \<Rightarrow> bool" where
  "seg_fits p n \<longleftrightarrow> (if pVersion p = 4 then n \<le> 65535 else n - 40 \<le> 65535)"

text \<open>Each segment is a packet of the same flow whose total length is its own length.\<close>

definition same_flow :: "Packet \<Rightarrow> Packet \<Rightarrow> bool" where
  "same_flow p q \<longleftrightarrow> pVersion q = pVersion p \<and> pProtocol q = pProtocol p \<and> pSrc q = pSrc p \<and>
     pDst q = pDst p \<and> pL4 q = pL4 p"

lemma seg_bytes_Parse:
  assumes P: "Parse b = Some (Inr p0)" and p: "p = p0\<lparr>pTotal := length b\<rparr>"
    and a: "20 \<le> hl" "pL4 p + hl \<le> length b" "off \<le> e" "e \<le> length payload"
    and n: "n = pL4 p + hl + (e - off)" "seg_fits p n"
  shows "\<exists>q. Parse (seg_bytes b p hl sq fl payload off e) = Some (Inr q) \<and> same_flow p0 q \<and> pTotal q = n"
  using P
proof (cases rule: Parse_cases)
  case v4
  let ?s = "seg_bytes b p hl sq fl payload off e"
  have L4: "20 \<le> pL4 p" using Parse_bounds [OF P] by (simp add: p)
  note as = L4 a
  have v: "pVersion p = 4" "pL4 p = ihl4 b" using v4 p by simp_all
  have len: "length ?s = n" using seg_bytes_length [OF as] n by simp
  have keep: "?s ! i = b ! i" if "i < 2 \<or> 4 \<le> i \<and> i < 10 \<or> 12 \<le> i \<and> i < 20" for i
    using that L4 by (intro seg_bytes_header [OF as]) (auto simp: v)
  have "be16_at ?s 2 = Some (word_of_nat n)" using seg_bytes_len_field(1) [OF as] v n by simp
  then have "u16of (?s ! 2) (?s ! 3) = word_of_nat n" using len n L4 a by (simp add: eval_nat_numeral)
  moreover have "n \<le> 65535" using n v by (simp add: seg_fits_def)
  ultimately have fld: "unat (u16of (?s ! 2) (?s ! 3)) = n"
    by (simp only: unat_u16_of_nat)
  have ih: "ihl4 ?s = ihl4 b" using keep [of 0] by (simp add: ihl4_def)
  then have tot: "tot4 ?s = n" using fld len n v by (simp add: tot4_def)
  have "ok4 ?s"
    using v4 len n keep L4 v by (simp add: ok4_def ih)
  moreover have "same_flow p0 (pkt4 ?s)"
    using v4 keep len n L4 a tot ih
    by (auto simp: same_flow_def ok4_def intro!: take_drop_nth_eq)
  ultimately show ?thesis by (auto simp: Parse_Inr_iff tot)
next
  case (v6 nh o6)
  let ?s = "seg_bytes b p hl sq fl payload off e"
  have L4: "20 \<le> pL4 p" using Parse_bounds [OF P] by (simp add: p)
  note as = L4 a
  have v: "pVersion p = 6" "pL4 p = o6" using v6 p by simp_all
  note bnd = ok6_bounds [OF v6(1)]
  have len: "length ?s = n" using seg_bytes_length [OF as] n by simp
  have keep: "?s ! i = b ! i" if "i < 4 \<or> 6 \<le> i \<and> i < o6" for i
    using that L4 v bnd by (intro seg_bytes_header [OF as]) (auto simp: v)
  have "be16_at ?s 4 = Some (word_of_nat (n - 40))" using seg_bytes_len_field(2) [OF as] v n by simp
  then have "u16of (?s ! 4) (?s ! 5) = word_of_nat (n - 40)" using len n L4 a by (simp add: eval_nat_numeral)
  moreover have "n - 40 \<le> 65535" using n v by (simp add: seg_fits_def)
  ultimately have fld: "unat (u16of (?s ! 4) (?s ! 5)) = n - 40"
    by (simp only: unat_u16_of_nat)
  have "40 < n" using n(1) v(2) bnd a(1) by linarith
  with fld len have tot: "tot6 ?s = n" by (simp add: tot6_def Let_def)
  from v6(1) obtain pn where "hdr_chain b (tot6 b) 6 (b ! 6) 40 pn nh o6" by (auto simp: ok6_def)
  then have "hdr_chain ?s (tot6 b) 6 (b ! 6) 40 pn nh o6"
    by (rule hdr_chain_cong) (use keep in auto)
  then have "hdr_chain ?s n 6 (?s ! 6) 40 pn nh o6"
    using keep [of 6] bnd n v by (auto intro: hdr_chain_tot)
  with v6 keep [of 0] len n tot bnd v have "ok6 ?s nh o6" by (auto simp: ok6_def)
  moreover have "same_flow p0 (pkt6 ?s nh o6)"
    using v6 keep len n bnd a v
    by (auto simp: same_flow_def intro!: take_drop_nth_eq)
  ultimately show ?thesis by (fastforce simp: Parse_Inr_iff tot)
qed

text \<open>The end of the chunk that starts at \<open>off\<close>, and the loop in terms of it.\<close>

definition chunk_end :: "bytes \<Rightarrow> nat \<Rightarrow> nat \<Rightarrow> nat" where
  "chunk_end payload mp off = (if off + mp > length payload then length payload else off + mp)"

lemma chunk_end_bounds:
  "off < length payload \<Longrightarrow> off \<le> chunk_end payload mp off \<and> chunk_end payload mp off \<le> length payload"
  by (simp add: chunk_end_def)

lemma split_loop_unfold:
  assumes "20 \<le> pL4 p" "20 \<le> hl" "pL4 p + hl \<le> length b" "off < length payload" "0 < mp"
  shows "split_loop b p hl sq fl payload mp off =
    (if seg_fits p (pL4 p + hl + (chunk_end payload mp off - off)) then
       (case split_loop b p hl sq fl payload mp (off + mp) of
          None \<Rightarrow> None
        | Some (Inl er) \<Rightarrow> Some (Inl er)
        | Some (Inr out) \<Rightarrow>
            Some (Inr (seg_bytes b p hl sq fl payload off (chunk_end payload mp off) # out)))
     else Some (Inl (if pVersion p = 4 then SegmentTooLarge4 else SegmentTooLarge6)))"
proof -
  have "lso_segment b p hl sq fl payload off (chunk_end payload mp off) =
     (if seg_fits p (pL4 p + hl + (chunk_end payload mp off - off))
      then Some (Inr (seg_bytes b p hl sq fl payload off (chunk_end payload mp off)))
      else Some (Inl (if pVersion p = 4 then SegmentTooLarge4 else SegmentTooLarge6)))"
    using lso_segment_eq [OF assms(1-3), of off "chunk_end payload mp off" payload sq fl]
      chunk_end_bounds [OF assms(4), of mp]
    by (simp only: seg_fits_def) (auto simp: not_less not_le split: if_splits)
  then show ?thesis
    using assms(4,5)
    by (subst split_loop.simps) (simp add: chunk_end_def [symmetric] split: option.split sum.split)
qed

lemma split_loop_Nil:
  "length payload \<le> off \<Longrightarrow> split_loop b p hl sq fl payload mp off = Some (Inr [])"
  by (subst split_loop.simps) simp

lemma chunk_induct [consumes 1, case_names step]:
  fixes n mp :: nat
  assumes "0 < mp" and "\<And>off. (off < n \<Longrightarrow> P (off + mp)) \<Longrightarrow> P off"
  shows "P off"
proof (induction "n - off" arbitrary: off rule: less_induct)
  case less
  show ?case
  proof (rule assms(2))
    assume "off < n"
    with assms(1) show "P (off + mp)" by (intro less) linarith
  qed
qed

lemma split_loop_ne_None:
  assumes "20 \<le> pL4 p" "20 \<le> hl" "pL4 p + hl \<le> length b" "0 < mp"
  shows "split_loop b p hl sq fl payload mp off \<noteq> None"
  using assms(4)
proof (induction off rule: chunk_induct [where n = "length payload"])
  case (step off)
  then show ?case
    using split_loop_unfold [OF assms(1-3) _ assms(4)] split_loop_Nil
    by (cases "off < length payload") (auto split: sum.splits)
qed

definition segs_spec :: "bytes \<Rightarrow> Packet \<Rightarrow> nat \<Rightarrow> u32 \<Rightarrow> byte \<Rightarrow> bytes \<Rightarrow> nat \<Rightarrow> nat \<Rightarrow> bytes list \<Rightarrow> bool" where
  "segs_spec b p hl sq fl payload mp off segs \<longleftrightarrow>
    length payload \<le> off + length segs * mp \<and>
    (\<forall>k < length segs. off + k * mp < length payload \<and>
       seg_fits p (pL4 p + hl + (chunk_end payload mp (off + k * mp) - (off + k * mp))) \<and>
       segs ! k = seg_bytes b p hl sq fl payload (off + k * mp) (chunk_end payload mp (off + k * mp)))"

lemma segs_spec_Cons:
  assumes "segs_spec b p hl sq fl payload mp (off + mp) rest" "off < length payload"
    "seg_fits p (pL4 p + hl + (chunk_end payload mp off - off))"
  shows "segs_spec b p hl sq fl payload mp off
    (seg_bytes b p hl sq fl payload off (chunk_end payload mp off) # rest)"
  using assms unfolding segs_spec_def by (simp add: All_less_Suc2 add.assoc)

lemma split_loop_spec:
  assumes "20 \<le> pL4 p" "20 \<le> hl" "pL4 p + hl \<le> length b" "0 < mp"
    and "split_loop b p hl sq fl payload mp off = Some (Inr segs)"
  shows "segs_spec b p hl sq fl payload mp off segs \<and>
    concat (map (drop (pL4 p + hl)) segs) = drop off payload"
  using assms(4,5)
proof (induction off arbitrary: segs rule: chunk_induct [where n = "length payload"])
  case (step off)
  show ?case
  proof (cases "off < length payload")
    case False
    with split_loop_Nil [of payload off] step.prems show ?thesis
      by (simp add: segs_spec_def)
  next
    case True
    with step.prems split_loop_unfold [OF assms(1-3) True assms(4)] obtain rest where
      rest: "segs = seg_bytes b p hl sq fl payload off (chunk_end payload mp off) # rest"
        "split_loop b p hl sq fl payload mp (off + mp) = Some (Inr rest)"
        "seg_fits p (pL4 p + hl + (chunk_end payload mp off - off))"
      by (auto split: if_splits option.splits sum.splits)
    note IH = step.IH [OF True rest(2)]
    have "drop (pL4 p + hl) (seg_bytes b p hl sq fl payload off (chunk_end payload mp off)) =
        take (chunk_end payload mp off - off) (drop off payload)"
      using chunk_end_bounds [OF True] assms(1-3) by (intro seg_bytes_payload) auto
    moreover have "take (chunk_end payload mp off - off) (drop off payload) @ drop (off + mp) payload = drop off payload"
      using append_take_drop_id [of mp "drop off payload"]
      by (auto simp: chunk_end_def add.commute)
    ultimately have "concat (map (drop (pL4 p + hl)) segs) = drop off payload"
      using rest(1) IH by simp
    with segs_spec_Cons [OF conjunct1 [OF IH] True rest(3)] rest(1) show ?thesis by simp
  qed
qed

lemma SplitForMTU_split:
  assumes "SplitForMTU b mtu = Some (Inr (segs, True))"
  obtains p hl where "Parse b = Some (Inr p)" "pProtocol p = ProtoTCP" "576 \<le> mtu" "mtu < int (length b)"
    "hl = unat (drop_bit 4 (b ! (pL4 p + 12))) * 4" "20 \<le> hl" "pL4 p + hl < length b"
    "0 < mtu - int (pL4 p) - int hl" "b ! (pL4 p + 13) AND 0x02 = 0"
    "split_loop b (p\<lparr>pTotal := length b\<rparr>) hl
       (u32of (b ! (pL4 p + 4)) (b ! (pL4 p + 5)) (b ! (pL4 p + 6)) (b ! (pL4 p + 7)))
       (b ! (pL4 p + 13)) (drop (pL4 p + hl) b) (nat (mtu - int (pL4 p) - int hl)) 0 = Some (Inr segs)"
proof -
  from assms obtain p where p: "Parse b = Some (Inr p)"
    by (auto simp: SplitForMTU_def split: bind_splits sum.splits if_splits)
  from assms p show thesis
    by (intro that [OF p]) (auto simp: SplitForMTU_def Let_def not_less ac_simps split: if_splits bind_splits sum.splits)
qed

lemma SplitForMTU_ne_None: "SplitForMTU b mtu \<noteq> None"
proof -
  obtain r where r: "Parse b = Some r" using Parse_ne_None [of b] by blast
  show ?thesis
  proof (cases r)
    case (Inr p)
    from Parse_bounds [of b p] r Inr have bnd: "20 \<le> pL4 p" by simp
    have sl: "split_loop b (p\<lparr>pTotal := length b\<rparr>) hl sq fl pl (nat mp) 0 \<noteq> None"
      if "20 \<le> hl" "pL4 p + hl \<le> length b" "0 < mp" for hl sq fl pl mp
      using split_loop_ne_None [of "p\<lparr>pTotal := length b\<rparr>" hl b "nat mp"] bnd that by simp
    show ?thesis
      using r Inr sl [simplified not_None_eq [symmetric]]
      by (simp add: SplitForMTU_def Let_def not_less not_le del: not_None_eq)
  qed (use r in \<open>simp add: SplitForMTU_def\<close>)
qed

text \<open>What \<open>SplitForMTU\<close> promises for the segment number \<open>k\<close> of \<open>n\<close>.\<close>

definition lso_seg_ok :: "bytes \<Rightarrow> int \<Rightarrow> Packet \<Rightarrow> nat \<Rightarrow> nat \<Rightarrow> nat \<Rightarrow> bytes \<Rightarrow> bool" where
  "lso_seg_ok b mtu p hl n k s \<longleftrightarrow>
     int (length s) \<le> mtu \<and>
     (\<exists>q. Parse s = Some (Inr q) \<and> same_flow p q \<and> pTotal q = length s) \<and>
     be32_at s (pL4 p + 4) = Some (u32of (b ! (pL4 p + 4)) (b ! (pL4 p + 5)) (b ! (pL4 p + 6)) (b ! (pL4 p + 7))
       + word_of_nat (k * nat (mtu - int (pL4 p + hl)))) \<and>
     s ! (pL4 p + 13) = (if k + 1 = n then b ! (pL4 p + 13) else b ! (pL4 p + 13) AND NOT 0x89)"

lemma segs_spec_seg_ok:
  assumes "Parse b = Some (Inr p)" and "20 \<le> hl" "pL4 p + hl \<le> length b" "0 < mp"
    and "int mp = mtu - int (pL4 p + hl)"
    and sp: "segs_spec b (p\<lparr>pTotal := length b\<rparr>) hl
       (u32of (b ! (pL4 p + 4)) (b ! (pL4 p + 5)) (b ! (pL4 p + 6)) (b ! (pL4 p + 7)))
       (b ! (pL4 p + 13)) (drop (pL4 p + hl) b) mp 0 segs"
    and k: "k < length segs"
  shows "lso_seg_ok b mtu p hl (length segs) k (segs ! k)"
proof -
  let ?q = "p\<lparr>pTotal := length b\<rparr>" and ?pl = "drop (pL4 p + hl) b" and ?o = "k * mp"
  let ?e = "chunk_end ?pl mp ?o"
  have o: "?o < length ?pl" and fit: "seg_fits ?q (pL4 ?q + hl + (?e - ?o))"
    and eq: "segs ! k = seg_bytes b ?q hl
       (u32of (b ! (pL4 p + 4)) (b ! (pL4 p + 5)) (b ! (pL4 p + 6)) (b ! (pL4 p + 7)))
       (b ! (pL4 p + 13)) ?pl ?o ?e"
    using sp k unfolding segs_spec_def by auto
  note eb = chunk_end_bounds [OF o, of mp]
  have as: "20 \<le> pL4 ?q" "20 \<le> hl" "pL4 ?q + hl \<le> length b" "?o \<le> ?e" "?e \<le> length ?pl"
    using Parse_bounds [OF assms(1)] assms(2,3) eb by simp_all
  have len: "length (segs ! k) = pL4 p + hl + (?e - ?o)"
    using seg_bytes_length [OF as] by (simp add: eq)
  have "?e - ?o \<le> mp" by (auto simp: chunk_end_def)
  with len assms(5) have mtu: "int (length (segs ! k)) \<le> mtu" by linarith
  have last: "?e \<noteq> length ?pl \<longleftrightarrow> k + 1 \<noteq> length segs"
  proof (cases "k + 1 < length segs")
    case True
    with sp have "(k + 1) * mp < length ?pl" unfolding segs_spec_def by fastforce
    with True show ?thesis by (simp add: chunk_end_def)
  next
    case False
    with k have n: "length segs = k + 1" by simp
    with sp have "length ?pl \<le> (k + 1) * mp" unfolding segs_spec_def by simp
    with n o show ?thesis by (auto simp: chunk_end_def)
  qed
  have "\<exists>q. Parse (segs ! k) = Some (Inr q) \<and> same_flow p q \<and> pTotal q = length (segs ! k)"
    using seg_bytes_Parse [OF assms(1) refl as(2-5) refl fit] seg_bytes_length [OF as]
    by (simp add: eq)
  moreover have "be32_at (segs ! k) (pL4 p + 4) = Some (u32of (b ! (pL4 p + 4)) (b ! (pL4 p + 5))
      (b ! (pL4 p + 6)) (b ! (pL4 p + 7)) + word_of_nat (k * nat (mtu - int (pL4 p + hl))))"
    using seg_bytes_seq [OF as] by (simp only: eq assms(5) [symmetric] nat_int) simp
  moreover have "segs ! k ! (pL4 p + 13) =
      (if k + 1 = length segs then b ! (pL4 p + 13) else b ! (pL4 p + 13) AND NOT 0x89)"
    using seg_bytes_flags [OF as] last by (simp add: eq)
  ultimately show ?thesis using mtu by (simp add: lso_seg_ok_def)
qed

lemma split_loop_total:
  assumes "20 \<le> pL4 p" "20 \<le> hl" "pL4 p + hl \<le> length b" "0 < mp" "pL4 p + hl + mp \<le> 65535"
  shows "\<exists>segs. split_loop b p hl sq fl payload mp off = Some (Inr segs)"
  using assms(4)
proof (induction off rule: chunk_induct [where n = "length payload"])
  case (step off)
  have "seg_fits p (pL4 p + hl + (chunk_end payload mp off - off))"
    using assms(5) by (auto simp: seg_fits_def chunk_end_def)
  with step show ?case
    using split_loop_unfold [OF assms(1-3) _ assms(4), of off payload sq fl] split_loop_Nil
    by (cases "off < length payload") auto
qed

lemma SplitForMTU_eq:
  assumes "Parse b = Some (Inr p)" "pProtocol p = ProtoTCP" "576 \<le> mtu" "mtu < int (length b)"
    "hl = unat (drop_bit 4 (b ! (pL4 p + 12))) * 4" "20 \<le> hl" "pL4 p + hl < length b"
    "int (pL4 p + hl) < mtu" "b ! (pL4 p + 13) AND 0x02 = 0"
    "split_loop b (p\<lparr>pTotal := length b\<rparr>) hl
       (u32of (b ! (pL4 p + 4)) (b ! (pL4 p + 5)) (b ! (pL4 p + 6)) (b ! (pL4 p + 7)))
       (b ! (pL4 p + 13)) (drop (pL4 p + hl) b) (nat (mtu - int (pL4 p) - int hl)) 0 = Some (Inr segs)"
  shows "SplitForMTU b mtu = Some (Inr (segs, True))"
proof -
  define d where "d = unat (drop_bit 4 (b ! (pL4 p + 12)))"
  have hl: "hl = d * 4" using assms(5) by (simp add: d_def)
  show ?thesis
    using assms(1-4,6-10) unfolding SplitForMTU_def Let_def hl
    by (simp add: d_def [symmetric] add.commute)
qed

section \<open>Properties\<close>

text \<open>C14: A captured non-SYN TCP packet longer than the MTU, with a well-formed TCP header that
  fits the MTU and some payload, is always split. The payloads of the segments, in order, are
  the payload of the packet; each segment is at most the MTU long, parses as a packet of the same
  flow whose IP length is its own length, carries the sequence number advanced by the bytes
  before it (modulo 2^32), and keeps the FIN, PSH and CWR flags only if it is the last one.\<close>

theorem SplitForMTU_correct:
  assumes "Parse b = Some (Inr p)" "pProtocol p = ProtoTCP" "576 \<le> mtu" "mtu \<le> 65535" "mtu < int (length b)"
    and "hl = unat (drop_bit 4 (b ! (pL4 p + 12))) * 4" "20 \<le> hl" "int (pL4 p + hl) < mtu"
    and "b ! (pL4 p + 13) AND 0x02 = 0"
  shows "\<exists>segs. SplitForMTU b mtu = Some (Inr (segs, True)) \<and>
    concat (map (drop (pL4 p + hl)) segs) = drop (pL4 p + hl) b \<and>
    (\<forall>k < length segs. lso_seg_ok b mtu p hl (length segs) k (segs ! k))"
proof -
  let ?q = "p\<lparr>pTotal := length b\<rparr>" and ?mp = "nat (mtu - int (pL4 p) - int hl)"
  let ?sq = "u32of (b ! (pL4 p + 4)) (b ! (pL4 p + 5)) (b ! (pL4 p + 6)) (b ! (pL4 p + 7))"
  have h: "20 \<le> pL4 ?q" "20 \<le> hl" "pL4 ?q + hl \<le> length b" "0 < ?mp"
    using assms(3,5,7,8) Parse_bounds [OF assms(1)] by simp_all
  have "pL4 ?q + hl + ?mp \<le> 65535" using assms(3,4,8) by simp
  from split_loop_total [OF h this] obtain segs where
    sl: "split_loop b ?q hl ?sq (b ! (pL4 p + 13)) (drop (pL4 p + hl) b) ?mp 0 = Some (Inr segs)" by blast
  have "pL4 p + hl < length b" using assms(5,8) by linarith
  from SplitForMTU_eq [OF assms(1,2,3,5,6,7) this assms(8,9) sl]
  have "SplitForMTU b mtu = Some (Inr (segs, True))" .
  moreover note sp = split_loop_spec [OF h sl]
  moreover have "lso_seg_ok b mtu p hl (length segs) k (segs ! k)" if "k < length segs" for k
    using segs_spec_seg_ok [OF assms(1,7) _ h(4) _ conjunct1 [OF sp] that] h assms(8) by simp
  ultimately show ?thesis by auto
qed

definition lso_example :: bytes where
  "lso_example = [0x45, 0, 0, 0, 0, 0, 0, 0, 64, 6, 0, 0, 10, 0, 0, 1, 10, 0, 0, 2,
     0, 80, 0, 81, 0, 0, 0, 1, 0, 0, 0, 2, 0x50, 0x18, 0, 0, 0, 0, 0, 0] @ replicate 560 7"

theorem SplitForMTU_correct_witness:
  "\<exists>segs. SplitForMTU lso_example 576 = Some (Inr (segs, True)) \<and>
     concat (map (drop 40) segs) = replicate 560 7"
proof -
  have p: "Parse lso_example = Some (Inr (pkt4 lso_example))" "pL4 (pkt4 lso_example) = 20"
    "pProtocol (pkt4 lso_example) = ProtoTCP"
    by (simp_all add: Parse_Inr_iff ok4_def ihl4_def lso_example_def u16of_def tot4_def ProtoTCP_def)
  have "drop 40 lso_example = replicate 560 7" by (simp add: lso_example_def)
  then show ?thesis
    using SplitForMTU_correct [OF p(1), of 576 20] p(2,3) by (auto simp: lso_example_def)
qed

end
