(* ===== verification/Packet_Frag.thy ===== *)
theory Packet_Frag
  imports Packet_Split
begin

unbundle bit_operations_syntax

text \<open>
  \<open>internal/packet/packet.go\<close>, last part: recognising fragments and fragmenting complete IP
  datagrams. The package variable \<open>fragmentID\<close> (atomic, 32 bits, wrapping) is passed and
  returned explicitly.
\<close>

section \<open>Walking the IPv6 header chain\<close>

record fpoint =
  fpInsert :: nat
  fpPrev :: nat
  fpNext :: byte

text \<open>The result of \<open>ipv6FragmentPoint\<close>: the position, \<open>found\<close> and the error, if any.\<close>

type_synonym fpres = "fpoint \<times> bool \<times> perr option"

definition fpZero :: fpoint where
  "fpZero = \<lparr>fpInsert = 0, fpPrev = 0, fpNext = 0\<rparr>"

function fpoint_loop :: "bytes \<Rightarrow> nat \<Rightarrow> nat \<Rightarrow> byte \<Rightarrow> nat \<Rightarrow> fpres go" where
  "fpoint_loop b tot prevNext nxt off =
     (if nxt = 0 \<or> nxt = 43 \<or> nxt = 60 then
        (if off + 2 > tot then Some (fpZero, False, Some ShortIPv6Ext)
         else do {
           l \<leftarrow> idx b (off + 1);
           let n = (unat l + 1) * 8;
           if n < 8 \<or> off + n > tot then Some (fpZero, False, Some BadIPv6Ext)
           else do { nh \<leftarrow> idx b off; fpoint_loop b tot off nh (off + n) }
         })
      else if nxt = 51 then
        (if off + 2 > tot then Some (fpZero, False, Some ShortAH)
         else do {
           l \<leftarrow> idx b (off + 1);
           let n = (unat l + 2) * 4;
           if n < 8 \<or> off + n > tot then Some (fpZero, False, Some BadAH)
           else do { nh \<leftarrow> idx b off; fpoint_loop b tot off nh (off + n) }
         })
      else if nxt = 44 then
        Some (\<lparr>fpInsert = off, fpPrev = prevNext, fpNext = nxt\<rparr>, True,
          if off + 8 > tot then Some ShortFragmentHeader else None)
      else Some (\<lparr>fpInsert = off, fpPrev = prevNext, fpNext = nxt\<rparr>, False, None))"
  by pat_completeness auto
termination
  by (relation "measure (\<lambda>(b, tot, pn, nxt, off). tot - off)") auto

declare fpoint_loop.simps [simp del]

definition ipv6FragmentPoint :: "bytes \<Rightarrow> fpres go" where
  "ipv6FragmentPoint b =
     (if length b < 40 \<or> drop_bit 4 (b ! 0) \<noteq> 6 then Some (fpZero, False, Some ShortNonIPv6)
      else do {
        pl \<leftarrow> be16_at b 4;
        let tot = 40 + unat pl;
        let tot = (if tot < 40 \<or> tot > length b then length b else tot);
        nxt \<leftarrow> idx b 6;
        fpoint_loop b tot 6 nxt 40
      })"

function insert_loop :: "bytes \<Rightarrow> nat \<Rightarrow> nat \<Rightarrow> byte \<Rightarrow> nat \<Rightarrow> (perr + fpoint) go" where
  "insert_loop b tot prevNext nxt off =
     (if nxt = 0 \<or> nxt = 43 then
        (if off + 2 > tot then Some (Inl ShortIPv6Ext)
         else do {
           l \<leftarrow> idx b (off + 1);
           let n = (unat l + 1) * 8;
           if n < 8 \<or> off + n > tot then Some (Inl BadIPv6Ext)
           else do { nh \<leftarrow> idx b off; insert_loop b tot off nh (off + n) }
         })
      else if nxt = 60 then
        (if off + 2 > tot then Some (Inl ShortDestOptions)
         else do {
           l \<leftarrow> idx b (off + 1);
           let n = (unat l + 1) * 8;
           if n < 8 \<or> off + n > tot then Some (Inl BadDestOptions)
           else do {
             nh \<leftarrow> idx b off;
             if nh \<noteq> 43 then Some (Inr \<lparr>fpInsert = off, fpPrev = prevNext, fpNext = nxt\<rparr>)
             else insert_loop b tot off nh (off + n)
           }
         })
      else if nxt = 44 then Some (Inl AlreadyFragmented6)
      else Some (Inr \<lparr>fpInsert = off, fpPrev = prevNext, fpNext = nxt\<rparr>))"
  by pat_completeness auto
termination
  by (relation "measure (\<lambda>(b, tot, pn, nxt, off). tot - off)") auto

declare insert_loop.simps [simp del]

definition ipv6FragmentInsertPoint :: "bytes \<Rightarrow> (perr + fpoint) go" where
  "ipv6FragmentInsertPoint b =
     (if length b < 40 \<or> drop_bit 4 (b ! 0) \<noteq> 6 then Some (Inl ShortNonIPv6)
      else do {
        pl \<leftarrow> be16_at b 4;
        let tot = 40 + unat pl;
        if tot < 40 \<or> tot > length b then Some (Inl TruncatedIPv6)
        else do { nxt \<leftarrow> idx b 6; insert_loop b tot 6 nxt 40 }
      })"

definition IsFragment :: "bytes \<Rightarrow> bool go" where
  "IsFragment b =
     (if length b < 1 then Some False
      else do {
        b0 \<leftarrow> idx b 0;
        if drop_bit 4 b0 = 4 then
          (if length b < 8 then Some False
           else do { f \<leftarrow> be16_at b 6; Some (f AND 0x3fff \<noteq> 0) })
        else if drop_bit 4 b0 = 6 then do {
          (_, found, _) \<leftarrow> ipv6FragmentPoint b;
          Some found
        }
        else Some False
      })"

section \<open>The IPv4 header checksum\<close>

fun sum16 :: "bytes \<Rightarrow> u32 \<Rightarrow> u32" where
  "sum16 (h # l # r) s = sum16 r (s + ucast (u16of h l))"
| "sum16 [h] s = s + push_bit 8 (ucast h)"
| "sum16 [] s = s"

function fold16 :: "u32 \<Rightarrow> u32" where
  "fold16 s = (if drop_bit 16 s \<noteq> 0 then fold16 ((s AND 0xffff) + drop_bit 16 s) else s)"
  by pat_completeness auto

termination fold16
  by (relation "measure unat") (auto simp: unat_fold_step drop16_eq_0 not_less fold_step_less)

declare fold16.simps [simp del]

definition ipv4HeaderChecksum :: "bytes \<Rightarrow> u16" where
  "ipv4HeaderChecksum h = NOT (ucast (fold16 (sum16 h 0)))"

section \<open>Fragmenting\<close>

text \<open>\<open>atomic.AddUint32(&fragmentID, 1)\<close>, repeated once when the identifier comes out as 0.\<close>

definition nextID16 :: "u32 \<Rightarrow> u16 \<times> u32" where
  "nextID16 fid = (let fid = fid + 1; i = ucast fid in
     if i = 0 then (ucast (fid + 1), fid + 1) else (i, fid))"

definition nextID32 :: "u32 \<Rightarrow> u32 \<times> u32" where
  "nextID32 fid = (let fid = fid + 1 in if fid = 0 then (fid + 1, fid + 1) else (fid, fid))"

definition fragment4 :: "bytes \<Rightarrow> nat \<Rightarrow> bytes \<Rightarrow> u16 \<Rightarrow> u16 \<Rightarrow> nat \<Rightarrow> nat \<Rightarrow> bool \<Rightarrow> bytes go" where
  "fragment4 b ihl payload ident rsv off n mf = do {
     h \<leftarrow> slice b 0 ihl;
     frag \<leftarrow> copy_at (replicate (ihl + n) 0) 0 h;
     c \<leftarrow> slice payload off (off + n);
     frag \<leftarrow> copy_at frag ihl c;
     frag \<leftarrow> put_at frag 2 (u16be (word_of_nat (length frag)));
     frag \<leftarrow> put_at frag 4 (u16be ident);
     let flagsOff = rsv OR word_of_nat (off div 8);
     let flagsOff = (if mf then flagsOff OR 0x2000 else flagsOff);
     frag \<leftarrow> put_at frag 6 (u16be flagsOff);
     frag \<leftarrow> put_at frag 10 [0, 0];
     h \<leftarrow> slice frag 0 ihl;
     put_at frag 10 (u16be (ipv4HeaderChecksum h))
   }"

text \<open>The caller has checked \<open>8 \<le> maxPayload\<close>; the guard \<open>0 < maxPayload\<close> only makes the
  recursion total.\<close>

function frag_loop4 :: "bytes \<Rightarrow> nat \<Rightarrow> bytes \<Rightarrow> u16 \<Rightarrow> u16 \<Rightarrow> nat \<Rightarrow> nat \<Rightarrow> bytes list go" where
  "frag_loop4 b ihl payload ident rsv maxPayload off =
     (if off < length payload \<and> 0 < maxPayload then do {
        let n = length payload - off;
        let mf = (n > maxPayload);
        let n = (if mf then maxPayload else n);
        frag \<leftarrow> fragment4 b ihl payload ident rsv off n mf;
        out \<leftarrow> frag_loop4 b ihl payload ident rsv maxPayload (off + n);
        Some (frag # out)
      } else Some [])"
  by pat_completeness auto
termination
  by (relation "measure (\<lambda>(b, ihl, payload, i, r, m, off). length payload - off)") auto

declare frag_loop4.simps [simp del]

definition fragmentIPv4 :: "u32 \<Rightarrow> bytes \<Rightarrow> int \<Rightarrow> ((perr + bytes list \<times> bool) \<times> u32) go" where
  "fragmentIPv4 fid b mtu =
     (if length b < 20 then Some (Inl ShortIPv4, fid)
      else do {
        b0 \<leftarrow> idx b 0;
        let ihl = unat (b0 AND 15) * 4;
        if ihl < 20 \<or> ihl > length b then Some (Inl BadIPv4IHL, fid)
        else do {
          tl \<leftarrow> be16_at b 2;
          let tot = (if unat tl = 0 \<or> unat tl > length b then length b else unat tl);
          if int tot \<le> mtu then do { c \<leftarrow> slice b 0 tot; Some (Inr ([c], False), fid) }
          else do {
            fv \<leftarrow> be16_at b 6;
            if fv AND 0x3fff \<noteq> 0 then Some (Inl AlreadyFragmented4, fid)
            else if fv AND 0x4000 \<noteq> 0 then Some (Inl (DFExceedsMTU tot mtu), fid)
            else let maxPayload = go_div (mtu - int ihl) 8 * 8 in
            if maxPayload < 8 then Some (Inl (MTUTooSmall mtu ihl), fid)
            else do {
              payload \<leftarrow> slice b ihl tot;
              ident \<leftarrow> be16_at b 4;
              let (ident, fid) = (if ident = 0 then nextID16 fid else (ident, fid));
              out \<leftarrow> frag_loop4 b ihl payload ident (fv AND 0x8000) (nat maxPayload) 0;
              Some (Inr (out, True), fid)
            }
          }
        }
      })"

definition fragment6 :: "bytes \<Rightarrow> fpoint \<Rightarrow> bytes \<Rightarrow> u32 \<Rightarrow> nat \<Rightarrow> nat \<Rightarrow> bool \<Rightarrow> (perr + bytes) go" where
  "fragment6 b fp payload ident off n mf = do {
     h \<leftarrow> slice b 0 (fpInsert fp);
     frag \<leftarrow> copy_at (replicate (fpInsert fp + 8 + n) 0) 0 h;
     frag \<leftarrow> put_at frag (fpPrev fp) [44];
     frag \<leftarrow> put_at frag (fpInsert fp) [fpNext fp];
     let v = (word_of_nat ((off div 8) * 8) :: u16);
     let v = (if mf then v OR 1 else v);
     frag \<leftarrow> put_at frag (fpInsert fp + 2) (u16be v);
     frag \<leftarrow> put_at frag (fpInsert fp + 4) (u32be ident);
     c \<leftarrow> slice payload off (off + n);
     frag \<leftarrow> copy_at frag (fpInsert fp + 8) c;
     if int (length frag) - 40 > 65535 then Some (Inl FragmentPayloadTooLarge)
     else do {
       frag \<leftarrow> put_at frag 4 (u16be (word_of_int (int (length frag) - 40)));
       Some (Inr frag)
     }
   }"

function frag_loop6 :: "bytes \<Rightarrow> fpoint \<Rightarrow> bytes \<Rightarrow> u32 \<Rightarrow> nat \<Rightarrow> nat \<Rightarrow> (perr + bytes list) go" where
  "frag_loop6 b fp payload ident maxPayload off =
     (if off < length payload \<and> 0 < maxPayload then do {
        let n = length payload - off;
        let mf = (n > maxPayload);
        let n = (if mf then maxPayload else n);
        r \<leftarrow> fragment6 b fp payload ident off n mf;
        (case r of
          Inl e \<Rightarrow> Some (Inl e)
        | Inr frag \<Rightarrow> do {
            o' \<leftarrow> frag_loop6 b fp payload ident maxPayload (off + n);
            (case o' of Inl e \<Rightarrow> Some (Inl e) | Inr out \<Rightarrow> Some (Inr (frag # out)))
          })
      } else Some (Inr []))"
  by pat_completeness auto
termination
  by (relation "measure (\<lambda>(b, fp, payload, i, m, off). length payload - off)") auto

declare frag_loop6.simps [simp del]

definition fragmentIPv6 :: "u32 \<Rightarrow> bytes \<Rightarrow> int \<Rightarrow> ((perr + bytes list \<times> bool) \<times> u32) go" where
  "fragmentIPv6 fid b mtu =
     (if length b < 40 then Some (Inl ShortIPv6, fid)
      else do {
        pl \<leftarrow> be16_at b 4;
        if unat pl = 0 then Some (Inl JumbogramFragmentation, fid)
        else let tot = 40 + unat pl in
        if tot > length b then Some (Inl TruncatedIPv6, fid)
        else do {
          c \<leftarrow> slice b 0 tot;
          if int tot \<le> mtu then Some (Inr ([c], False), fid)
          else do {
            (_, found, err) \<leftarrow> ipv6FragmentPoint c;
            (case err of
              Some e \<Rightarrow> Some (Inl e, fid)
            | None \<Rightarrow>
                if found then Some (Inl AlreadyFragmented6, fid)
                else do {
                  ip \<leftarrow> ipv6FragmentInsertPoint c;
                  (case ip of
                    Inl e \<Rightarrow> Some (Inl e, fid)
                  | Inr fp \<Rightarrow>
                      let maxPayload = go_div (mtu - int (fpInsert fp) - 8) 8 * 8 in
                      if maxPayload < 8 then Some (Inl (MTUTooSmall mtu (fpInsert fp + 8)), fid)
                      else do {
                        payload \<leftarrow> slice b (fpInsert fp) tot;
                        let (ident, fid) = nextID32 fid;
                        o' \<leftarrow> frag_loop6 b fp payload ident (nat maxPayload) 0;
                        (case o' of Inl e \<Rightarrow> Some (Inl e, fid) | Inr out \<Rightarrow> Some (Inr (out, True), fid))
                      })
                })
          }
        }
      })"

definition FragmentForMTU :: "u32 \<Rightarrow> bytes \<Rightarrow> int \<Rightarrow> ((perr + bytes list \<times> bool) \<times> u32) go" where
  "FragmentForMTU fid b mtu =
     (if mtu < 576 then Some (Inl (BadMTU mtu), fid)
      else if int (length b) \<le> mtu then Some (Inr ([b], False), fid)
      else if length b < 1 then Some (Inl EmptyIPPacket, fid)
      else do {
        b0 \<leftarrow> idx b 0;
        if drop_bit 4 b0 = 4 then fragmentIPv4 fid b mtu
        else if drop_bit 4 b0 = 6 then fragmentIPv6 fid b mtu
        else Some (Inl NotIP, fid)
      })"

section \<open>The checksum\<close>

text \<open>The sum the checksum is about, over the natural numbers.\<close>

fun words_sum :: "bytes \<Rightarrow> nat" where
  "words_sum (h # l # r) = unat (u16of h l) + words_sum r"
| "words_sum [h] = unat h * 256"
| "words_sum [] = 0"

lemma words_sum_bound: "words_sum h \<le> 65535 * ((length h + 1) div 2)"
proof (induction h rule: words_sum.induct)
  case (1 h l r)
  have "unat (u16of h l) \<le> 65535" using unat_u16_lt [of "u16of h l"] by linarith
  with 1 show ?case by simp
next
  case (2 h)
  show ?case using unat_byte_le [of h] by simp
qed simp

lemma words_sum_append: "even (length xs) \<Longrightarrow> words_sum (xs @ ys) = words_sum xs + words_sum ys"
  by (induction xs rule: words_sum.induct) auto

lemma unat_ucast_16_32 [simp]: "unat (ucast (x :: u16) :: u32) = unat x"
  using less_trans [OF unat_u16_lt, of "2 ^ 32" x] by (simp add: unsigned_ucast_eq take_bit_nat_eq_self)

lemma unat_add_small: "unat (a :: u32) + unat b < 2 ^ 32 \<Longrightarrow> unat (a + b) = unat a + unat b"
  by (simp add: unat_word_ariths)

lemma unat_sum16: "unat s + words_sum h < 2 ^ 32 \<Longrightarrow> unat (sum16 h s) = unat s + words_sum h"
proof (induction h s rule: sum16.induct)
  case (1 h l r s)
  then show ?case by (simp add: unat_add_small)
next
  case (2 h s)
  have "unat (push_bit 8 (ucast h :: u32)) = unat h * 256"
    using unat_byte_le [of h] less_trans [OF unat_byte_lt, of "2 ^ 32" h]
    by (simp add: push_bit_eq_mult unat_word_ariths unsigned_ucast_eq take_bit_nat_eq_self)
  with 2 show ?case by (simp add: unat_add_small)
qed simp

lemma fold16_spec: "unat (fold16 s) mod 65535 = unat s mod 65535 \<and> unat (fold16 s) \<le> 65535 \<and>
    (unat (fold16 s) = 0 \<longleftrightarrow> unat s = 0)"
proof (induction s rule: fold16.induct)
  case (1 s)
  show ?case
  proof (cases "drop_bit 16 s = 0")
    case True
    then show ?thesis by (subst (1 2 3) fold16.simps) (auto simp: drop16_eq_0)
  next
    case False
    define n where "n = unat s"
    have "n mod 65535 = (n div 65536 * 65536 + n mod 65536) mod 65535" by simp
    also have "\<dots> = (n div 65536 * 65535 + (n mod 65536 + n div 65536)) mod 65535"
      by (simp add: algebra_simps)
    also have "\<dots> = (n mod 65536 + n div 65536) mod 65535" by (rule mod_mult_self3)
    finally have m: "(n mod 65536 + n div 65536) mod 65535 = n mod 65535" ..
    have "n mod 65536 + n div 65536 = 0 \<longleftrightarrow> n = 0" using div_mult_mod_eq [of n 65536] by auto
    with m 1 [OF False] False show ?thesis
      by (subst (1 2 3) fold16.simps) (auto simp: unat_fold_step n_def)
  qed
qed

lemma unat_ucast_32_16: "unat (s :: u32) \<le> 65535 \<Longrightarrow> unat (ucast s :: u16) = unat s"
  by (simp add: unsigned_ucast_eq take_bit_nat_eq_self)

lemma unat_not_16: "unat (NOT (x :: u16)) = 65535 - unat x"
proof -
  have "unat (- 1 - x) = unat (- 1 :: u16) - unat x" by (rule unat_sub) simp
  moreover have "unat (- 1 :: u16) = 65535" by (simp add: unsigned_minus_1_eq_mask mask_eq_exp_minus_1)
  moreover have "NOT x = - 1 - x" by (simp add: not_eq_complement)
  ultimately show ?thesis by simp
qed

lemma unat_ipv4HeaderChecksum:
  assumes "length h \<le> 65536"
  shows "unat (ipv4HeaderChecksum h) = 65535 - (if words_sum h = 0 then 0 else (words_sum h - 1) mod 65535 + 1)"
proof -
  have "words_sum h < 2 ^ 32" using words_sum_bound [of h] assms by simp
  then have s: "unat (sum16 h 0) = words_sum h" by (simp add: unat_sum16)
  define f where "f = unat (fold16 (sum16 h 0))"
  have f: "f mod 65535 = words_sum h mod 65535" "f \<le> 65535" "f = 0 \<longleftrightarrow> words_sum h = 0"
    using fold16_spec [of "sum16 h 0"] by (simp_all add: f_def s)
  have "f = (if words_sum h = 0 then 0 else (words_sum h - 1) mod 65535 + 1)"
  proof (cases "words_sum h")
    case (Suc m)
    then obtain g where g: "f = Suc g" using f(3) by (cases f) auto
    with f(1) Suc have "(g + 1) mod 65535 = (m + 1) mod 65535" by simp
    then have "(g + 1 + 65534) mod 65535 = (m + 1 + 65534) mod 65535" by (rule mod_add_cong) simp
    then have "g mod 65535 = m mod 65535" by (simp add: mod_add_self2)
    with g f(2) Suc show ?thesis by simp
  qed (use f in simp)
  with f(2) show ?thesis
    by (simp add: ipv4HeaderChecksum_def unat_not_16 unat_ucast_32_16 f_def)
qed

text \<open>A header that contains its own checksum sums to 0.\<close>

lemma ipv4HeaderChecksum_verifies:
  assumes "even (length xs)" "length (xs @ ys) \<le> 65000"
    and "c = ipv4HeaderChecksum (xs @ [0, 0] @ ys)"
  shows "ipv4HeaderChecksum (xs @ u16be c @ ys) = 0"
proof -
  define w where "w = words_sum xs + words_sum ys"
  define g where "g = (if w = 0 then 0 else (w - 1) mod 65535 + 1)"
  have "words_sum (xs @ [0, 0] @ ys) = w"
    using assms(1) by (simp add: words_sum_append w_def u16of_def)
  then have c: "unat c = 65535 - g" "g \<le> 65535"
    using unat_ipv4HeaderChecksum [of "xs @ [0, 0] @ ys"] assms(2,3) by (auto simp: g_def Suc_le_eq)
  have s: "words_sum (xs @ u16be c @ ys) = w + (65535 - g)"
    using assms(1) c by (simp add: words_sum_append w_def u16be_def)
  have "(w + (65535 - g) - 1) mod 65535 = 65534"
  proof (cases w)
    case (Suc m)
    then have "w + (65535 - g) - 1 = m - m mod 65535 + 65534" by (simp add: g_def)
    also have "\<dots> = m div 65535 * 65535 + 65534" by (simp add: minus_mod_eq_div_mult)
    finally show ?thesis by simp
  qed (simp add: g_def)
  moreover have "w + (65535 - g) \<noteq> 0" by (cases w) (auto simp: g_def)
  ultimately have "unat (ipv4HeaderChecksum (xs @ u16be c @ ys)) = 0"
    using unat_ipv4HeaderChecksum [of "xs @ u16be c @ ys"] assms(2) by (simp add: s)
  then show ?thesis by (simp add: unat_eq_zero)
qed

section \<open>Cutting a payload into chunks\<close>

text \<open>The offset, length and more-fragments flag of each chunk of a payload of \<open>len\<close> bytes, from
  offset \<open>off\<close> on: what the two fragmenting loops iterate over.\<close>

function chunk_list :: "nat \<Rightarrow> nat \<Rightarrow> nat \<Rightarrow> (nat \<times> nat \<times> bool) list" where
  "chunk_list len mp off =
     (if off < len \<and> 0 < mp then
        (let mf = len - off > mp; n = (if mf then mp else len - off)
         in (off, n, mf) # chunk_list len mp (off + n))
      else [])"
  by pat_completeness auto
termination
  by (relation "measure (\<lambda>(len, mp, off). len - off)") auto

declare chunk_list.simps [simp del]

lemma chunk_list_Nil [simp]: "len \<le> off \<Longrightarrow> chunk_list len mp off = []"
  by (simp add: chunk_list.simps)

lemma chunk_list_last:
  "off < len \<Longrightarrow> len - off \<le> mp \<Longrightarrow> chunk_list len mp off = [(off, len - off, False)]"
  by (subst chunk_list.simps) simp

lemma chunk_list_more:
  "mp < len - off \<Longrightarrow> 0 < mp \<Longrightarrow> chunk_list len mp off = (off, mp, True) # chunk_list len mp (off + mp)"
  by (subst chunk_list.simps) (simp add: Let_def)

lemma chunk_list_induct [consumes 1, case_names fin last more]:
  assumes "0 < mp"
    and "\<And>off. len \<le> off \<Longrightarrow> P off"
    and "\<And>off. off < len \<Longrightarrow> len - off \<le> mp \<Longrightarrow> P off"
    and "\<And>off. mp < len - off \<Longrightarrow> P (off + mp) \<Longrightarrow> P off"
  shows "P (off :: nat)"
  using assms(1)
proof (induction off rule: chunk_induct [where n = len])
  case (step off)
  then show ?case
    using assms(2-4) by (metis add_lessD1 le_add_diff_inverse not_le order.strict_implies_order zero_less_diff less_diff_conv add.commute)
qed

lemma chunk_list_elem:
  assumes "0 < mp" "(p, n, mf) \<in> set (chunk_list len mp off)"
  shows "off \<le> p \<and> 0 < n \<and> n \<le> mp \<and> p + n \<le> len \<and> mf = (p + n < len) \<and> (mf \<longrightarrow> n = mp) \<and> mp dvd p - off"
  using assms
proof (induction off rule: chunk_list_induct [where len = len])
  case (more off)
  from more.prems more.hyps assms(1) consider "(p, n, mf) = (off, mp, True)" |
      "(p, n, mf) \<in> set (chunk_list len mp (off + mp))"
    by (auto simp: chunk_list_more)
  then show ?case
  proof cases
    case 2
    from more.IH [OF this] have "p - off = p - (off + mp) + mp" "mp dvd p - (off + mp)" by auto
    then have "mp dvd p - off" by (simp only: dvd_add_triv_right_iff)
    with more.IH [OF 2] show ?thesis by auto
  qed (use more.hyps assms(1) in auto)
qed (auto simp: chunk_list_last)

lemma chunk_list_cover:
  assumes "0 < mp" "off \<le> i" "i < len"
  shows "\<exists>p n mf. (p, n, mf) \<in> set (chunk_list len mp off) \<and> p \<le> i \<and> i < p + n"
  using assms
proof (induction off rule: chunk_list_induct [where len = len])
  case (more off)
  show ?case
  proof (cases "i < off + mp")
    case True
    with more.prems more.hyps assms(1) show ?thesis by (auto simp: chunk_list_more)
  next
    case False
    with more.IH more.prems obtain p n mf where "(p, n, mf) \<in> set (chunk_list len mp (off + mp))"
      "p \<le> i \<and> i < p + n" by auto
    with more.hyps assms(1) have "(p, n, mf) \<in> set (chunk_list len mp off) \<and> p \<le> i \<and> i < p + n"
      by (simp add: chunk_list_more)
    then show ?thesis by blast
  qed
qed (auto simp: chunk_list_last)

lemma chunk_list_disjoint:
  assumes "0 < mp" "(p, n, mf) \<in> set (chunk_list len mp off)" "(p', n', mf') \<in> set (chunk_list len mp off)"
  shows "(p, n, mf) = (p', n', mf') \<or> p + n \<le> p' \<or> p' + n' \<le> p"
  using assms
proof (induction off rule: chunk_list_induct [where len = len])
  case (more off)
  have "p + mp \<le> p'" if "p = off" "(p', n', mf') \<in> set (chunk_list len mp (off + mp))" for p p' n' mf'
    using chunk_list_elem [OF assms(1) that(2)] that(1) by simp
  with more.prems more.hyps more.IH assms(1) show ?case by (auto simp: chunk_list_more)
qed (auto simp: chunk_list_last)

lemma distinct_chunk_list:
  assumes "0 < mp"
  shows "distinct (chunk_list len mp off)"
  using assms
proof (induction off rule: chunk_list_induct [where len = len])
  case (more off)
  have "(off, mp, True) \<notin> set (chunk_list len mp (off + mp))"
    using chunk_list_elem [OF assms, of off mp True len "off + mp"] assms by auto
  with more assms show ?case by (simp add: chunk_list_more)
qed (auto simp: chunk_list_last)

lemma chunk_list_concat:
  assumes "0 < mp"
  shows "concat (map (\<lambda>(p, n, mf). take n (drop p xs)) (chunk_list (length xs) mp off)) = drop off xs"
  using assms
proof (induction off rule: chunk_list_induct [where len = "length xs"])
  case (more off)
  then show ?case
    using append_take_drop_id [of mp "drop off xs"] assms by (simp add: chunk_list_more add.commute)
qed (simp_all add: chunk_list_last)

section \<open>IPv4 fragments\<close>

text \<open>An IPv4 header made from the header of \<open>b\<close>, with its length, identification, flags and
  checksum fields given.\<close>

definition hdr4 :: "bytes \<Rightarrow> nat \<Rightarrow> u16 \<Rightarrow> u16 \<Rightarrow> u16 \<Rightarrow> u16 \<Rightarrow> bytes" where
  "hdr4 b ihl len ident fl ck =
     take 2 b @ u16be len @ u16be ident @ u16be fl @ take 2 (drop 8 b) @ u16be ck @ drop 12 (take ihl b)"

definition frag_flags4 :: "u16 \<Rightarrow> nat \<Rightarrow> bool \<Rightarrow> u16" where
  "frag_flags4 rsv off mf = (rsv OR word_of_nat (off div 8)) OR (if mf then 0x2000 else 0)"

definition frag4 :: "bytes \<Rightarrow> nat \<Rightarrow> bytes \<Rightarrow> u16 \<Rightarrow> u16 \<Rightarrow> nat \<Rightarrow> nat \<Rightarrow> bool \<Rightarrow> bytes" where
  "frag4 b ihl payload ident rsv off n mf =
     (let h = hdr4 b ihl (word_of_nat (ihl + n)) ident (frag_flags4 rsv off mf) in
      h (ipv4HeaderChecksum (h 0)) @ take n (drop off payload))"

lemma length_hdr4 [simp]: "20 \<le> ihl \<Longrightarrow> ihl \<le> length b \<Longrightarrow> length (hdr4 b ihl len ident fl ck) = ihl"
  by (simp add: hdr4_def)

lemma overwrite_append1: "i + length xs \<le> length h \<Longrightarrow> overwrite (h @ c) i xs = overwrite h i xs @ c"
  by (simp add: overwrite_def)

lemma length_ge_12:
  assumes "12 \<le> length v"
  shows "\<exists>b0 b1 b2 b3 b4 b5 b6 b7 b8 b9 b10 b11 r. v = [b0, b1, b2, b3, b4, b5, b6, b7, b8, b9, b10, b11] @ r"
proof -
  have "length (take 12 v) = 12" using assms by simp
  then obtain b0 b1 b2 b3 b4 b5 b6 b7 b8 b9 b10 b11
    where "take 12 v = [b0, b1, b2, b3, b4, b5, b6, b7, b8, b9, b10, b11]"
    by (auto simp: numeral_eq_Suc length_Suc_conv simp del: length_take)
  then show ?thesis using append_take_drop_id [of 12 v] by metis
qed

lemma hdr4_writes:
  assumes "20 \<le> ihl" "ihl \<le> length b"
  shows "overwrite (overwrite (overwrite (overwrite (take ihl b) 2 (u16be len)) 4 (u16be ident)) 6 (u16be fl))
      10 (u16be ck) = hdr4 b ihl len ident fl ck"
proof -
  have e: "take 2 b = take 2 (take ihl b)" "take 2 (drop 8 b) = take 2 (drop 8 (take ihl b))"
    using assms by (simp_all add: drop_take min_def)
  have "12 \<le> length (take ihl b)" using assms by simp
  then show ?thesis
    unfolding hdr4_def e by (auto dest!: length_ge_12 simp: overwrite_def u16be_def)
qed

lemma hdr4_set:
  assumes "20 \<le> ihl" "ihl \<le> length b"
  shows "overwrite (hdr4 b ihl len ident fl ck) 2 (u16be v) = hdr4 b ihl v ident fl ck"
    "overwrite (hdr4 b ihl len ident fl ck) 4 (u16be v) = hdr4 b ihl len v fl ck"
    "overwrite (hdr4 b ihl len ident fl ck) 6 (u16be v) = hdr4 b ihl len ident v ck"
    "overwrite (hdr4 b ihl len ident fl ck) 10 (u16be v) = hdr4 b ihl len ident fl v"
  using assms by (simp_all add: overwrite_def hdr4_def)

lemma hdr4_nth:
  assumes "20 \<le> ihl" "ihl \<le> length b"
  shows "hdr4 b ihl len ident fl ck ! 0 = b ! 0"
    "hdr4 b ihl len ident fl ck ! 2 = u16hi len" "hdr4 b ihl len ident fl ck ! 3 = u16lo len"
    "hdr4 b ihl len ident fl ck ! 4 = u16hi ident" "hdr4 b ihl len ident fl ck ! 5 = u16lo ident"
    "hdr4 b ihl len ident fl ck ! 6 = u16hi fl" "hdr4 b ihl len ident fl ck ! 7 = u16lo fl"
    "hdr4 b ihl len ident fl ck ! 9 = b ! 9"
    "hdr4 b ihl len ident fl ck ! 10 = u16hi ck" "hdr4 b ihl len ident fl ck ! 11 = u16lo ck"
    "drop 12 (hdr4 b ihl len ident fl ck) = drop 12 (take ihl b)"
  using assms by (simp_all add: hdr4_def nth_append u16be_def)

lemma hdr4_self:
  assumes "20 \<le> ihl" "ihl \<le> length b"
  shows "hdr4 b ihl (u16of (b ! 2) (b ! 3)) (u16of (b ! 4) (b ! 5)) (u16of (b ! 6) (b ! 7))
    (u16of (b ! 10) (b ! 11)) = take ihl b"
proof -
  define v where "v = take ihl b"
  have e: "take 2 b = take 2 v" "take 2 (drop 8 b) = take 2 (drop 8 v)"
    "b ! 2 = v ! 2" "b ! 3 = v ! 3" "b ! 4 = v ! 4" "b ! 5 = v ! 5"
    "b ! 6 = v ! 6" "b ! 7 = v ! 7" "b ! 10 = v ! 10" "b ! 11 = v ! 11"
    using assms by (simp_all add: v_def drop_take min_def)
  have "12 \<le> length v" using assms by (simp add: v_def)
  then show ?thesis
    unfolding hdr4_def e v_def [symmetric] by (auto dest!: length_ge_12 simp: u16be_def)
qed

lemma fragment4_eq:
  assumes "20 \<le> ihl" "ihl \<le> length b" "off + n \<le> length payload"
  shows "fragment4 b ihl payload ident rsv off n mf = Some (frag4 b ihl payload ident rsv off n mf)"
proof -
  have z: "overwrite (replicate (ihl + n) 0) 0 (take ihl b) = take ihl b @ replicate n 0"
    using assms by (simp add: overwrite_def)
  have c: "overwrite (take ihl b @ replicate n 0) ihl (take n (drop off payload)) =
      take ihl b @ take n (drop off payload)"
    using assms by (simp add: overwrite_def)
  have ck: "[0, 0] = u16be 0" by (simp add: u16be_def u16hi_def u16lo_def)
  have fl: "(if mf then (rsv OR word_of_nat (off div 8)) OR 0x2000 else rsv OR word_of_nat (off div 8)) =
      frag_flags4 rsv off mf"
    by (simp add: frag_flags4_def)
  show ?thesis
    using assms
    by (simp add: fragment4_def z c ck fl Let_def overwrite_append1 hdr4_writes hdr4_set frag4_def)
qed

lemma frag_loop4_eq:
  assumes "20 \<le> ihl" "ihl \<le> length b" "0 < mp"
  shows "frag_loop4 b ihl payload ident rsv mp off =
    Some (map (\<lambda>(p, n, mf). frag4 b ihl payload ident rsv p n mf) (chunk_list (length payload) mp off))"
  using assms(3)
proof (induction off rule: chunk_list_induct [where len = "length payload"])
  case (more off)
  then show ?case
    using assms by (subst frag_loop4.simps) (simp add: fragment4_eq chunk_list_more)
next
  case (last off)
  then show ?case
    using assms by (subst frag_loop4.simps) (simp add: fragment4_eq chunk_list_last frag_loop4.simps)
qed (simp add: frag_loop4.simps)

lemma length_frag4:
  "20 \<le> ihl \<Longrightarrow> ihl \<le> length b \<Longrightarrow> p + n \<le> length payload \<Longrightarrow>
    length (frag4 b ihl payload ident rsv p n mf) = ihl + n"
  by (simp add: frag4_def Let_def)

lemma frag4_checksum:
  assumes "20 \<le> ihl" "ihl \<le> 60" "ihl \<le> length b"
  shows "ipv4HeaderChecksum (take ihl (frag4 b ihl payload ident rsv p n mf)) = 0"
proof -
  let ?xs = "take 2 b @ u16be (word_of_nat (ihl + n)) @ u16be ident @ u16be (frag_flags4 rsv p mf) @ take 2 (drop 8 b)"
  have h: "hdr4 b ihl (word_of_nat (ihl + n)) ident (frag_flags4 rsv p mf) c = ?xs @ u16be c @ drop 12 (take ihl b)" for c
    by (simp add: hdr4_def)
  have z: "u16be 0 = [0, 0]" by (simp add: u16be_def u16hi_def u16lo_def)
  have "ipv4HeaderChecksum (?xs @ u16be (ipv4HeaderChecksum (?xs @ [0, 0] @ drop 12 (take ihl b))) @ drop 12 (take ihl b)) = 0"
    using assms by (intro ipv4HeaderChecksum_verifies) auto
  with assms show ?thesis by (simp add: frag4_def Let_def h z del: of_nat_add)
qed

text \<open>What \<open>fragmentIPv4\<close> computes, without the panic monad: the total length, the identification
  and the fragments.\<close>

definition ftot4 :: "bytes \<Rightarrow> nat" where
  "ftot4 b = (let n = unat (u16of (b ! 2) (b ! 3)) in if n = 0 \<or> length b < n then length b else n)"

definition fident4 :: "u32 \<Rightarrow> bytes \<Rightarrow> u16 \<times> u32" where
  "fident4 fid b = (if u16of (b ! 4) (b ! 5) = 0 then nextID16 fid else (u16of (b ! 4) (b ! 5), fid))"

definition frags4 :: "u32 \<Rightarrow> bytes \<Rightarrow> int \<Rightarrow> bytes list" where
  "frags4 fid b mtu =
     map (\<lambda>(p, n, mf). frag4 b (ihl4 b) (drop (ihl4 b) (take (ftot4 b) b)) (fst (fident4 fid b))
        (u16of (b ! 6) (b ! 7) AND 0x8000) p n mf)
       (chunk_list (ftot4 b - ihl4 b) (nat ((mtu - int (ihl4 b)) div 8 * 8)) 0)"

definition fragmentable4 :: "bytes \<Rightarrow> int \<Rightarrow> bool" where
  "fragmentable4 b mtu \<longleftrightarrow> 20 \<le> length b \<and> 20 \<le> ihl4 b \<and> ihl4 b \<le> length b \<and> mtu < int (ftot4 b) \<and>
     u16of (b ! 6) (b ! 7) AND 0x3fff = 0 \<and> u16of (b ! 6) (b ! 7) AND 0x4000 = 0"

lemma ihl4_le: "ihl4 b \<le> 60"
  using unat_and_15 [of "b ! 0"] by (simp add: ihl4_def)

lemma ftot4_le: "ftot4 b \<le> length b"
  by (simp add: ftot4_def Let_def)

lemma fragmentIPv4_eq:
  assumes "fragmentable4 b mtu" "576 \<le> mtu"
  shows "fragmentIPv4 fid b mtu = Some (Inr (frags4 fid b mtu, True), snd (fident4 fid b))"
proof -
  define mp where "mp = (mtu - int (ihl4 b)) div 8 * 8"
  have mp: "8 \<le> mp" "go_div (mtu - int (ihl4 b)) 8 * 8 = mp"
    using assms(2) ihl4_le [of b] by (simp_all add: mp_def go_div_pos)
  have t: "ihl4 b \<le> ftot4 b" "ftot4 b \<le> length b"
    using assms ihl4_le [of b] ftot4_le by (simp_all add: fragmentable4_def)
  obtain i f where id: "fident4 fid b = (i, f)" by (cases "fident4 fid b")
  have id': "(if u16of (b ! 4) (b ! 5) = 0 then nextID16 fid else (u16of (b ! 4) (b ! 5), fid)) = (i, f)"
    using id by (simp add: fident4_def)
  have c: "20 \<le> length b" "20 \<le> ihl4 b" "mtu < int (ftot4 b)" "u16of (b ! 6) (b ! 7) AND 0x3fff = 0"
    "u16of (b ! 6) (b ! 7) AND 0x4000 = 0"
    using assms by (simp_all add: fragmentable4_def)
  have "0 < length b" using c(1) by linarith
  then have r0: "idx b 0 = Some (b ! 0)" by (rule idx_Some)
  have rd: "be16_at b 2 = Some (u16of (b ! 2) (b ! 3))"
    "be16_at b 4 = Some (u16of (b ! 4) (b ! 5))" "be16_at b 6 = Some (u16of (b ! 6) (b ! 7))"
    using c(1) by (simp_all add: be16_at_def)
  define d where "d = unat (b ! 0 AND 15)"
  have d: "ihl4 b = d * 4" by (simp add: ihl4_def d_def)
  from assms(2) t mp id' c id show ?thesis
    unfolding fragmentIPv4_def r0 rd Option.bind.simps Let_def d_def [symmetric] frags4_def mp_def [symmetric]
    by (simp add: ftot4_def [unfolded Let_def, symmetric] frag_loop4_eq d drop_take)
qed

lemma fragmentIPv4_cases:
  assumes "576 \<le> mtu"
  shows "fragmentable4 b mtu \<or> (\<exists>e. fragmentIPv4 fid b mtu = Some (Inl e, fid)) \<or>
    int (ftot4 b) \<le> mtu \<and> fragmentIPv4 fid b mtu = Some (Inr ([take (ftot4 b) b], False), fid)"
proof (cases "length b < 20 \<or> ihl4 b < 20 \<or> length b < ihl4 b")
  case True
  then show ?thesis by (cases "b = []") (auto simp: fragmentIPv4_def ihl4_def Let_def)
next
  case False
  then have c: "20 \<le> length b" "20 \<le> ihl4 b" "ihl4 b \<le> length b" by auto
  then have "0 < length b" by linarith
  then have r0: "idx b 0 = Some (b ! 0)" by (rule idx_Some)
  have rd: "be16_at b 2 = Some (u16of (b ! 2) (b ! 3))" "be16_at b 6 = Some (u16of (b ! 6) (b ! 7))"
    using c(1) by (simp_all add: be16_at_def)
  define d where "d = unat (b ! 0 AND 15)"
  have d: "ihl4 b = d * 4" by (simp add: ihl4_def d_def)
  show ?thesis
    using c ftot4_le [of b] unfolding fragmentIPv4_def r0 rd Option.bind.simps Let_def d_def [symmetric]
    by (simp add: ftot4_def [unfolded Let_def, symmetric] d fragmentable4_def)
qed

section \<open>IPv6 fragments\<close>

lemma hdr_len_51: "hdr_len b 51 off = (unat (b ! (off + 1)) + 2) * 4"
  by (simp add: hdr_len_def)

lemma fpoint_loop_unfold:
  assumes "tot \<le> length b"
  shows "fpoint_loop b tot pn nxt off =
     (if is_ext nxt then
        (if off + 2 > tot then Some (fpZero, False, Some (if nxt = 51 then ShortAH else ShortIPv6Ext))
         else if off + hdr_len b nxt off > tot
           then Some (fpZero, False, Some (if nxt = 51 then BadAH else BadIPv6Ext))
         else fpoint_loop b tot off (b ! off) (off + hdr_len b nxt off))
      else Some (\<lparr>fpInsert = off, fpPrev = pn, fpNext = nxt\<rparr>, nxt = 44,
        if nxt = 44 \<and> off + 8 > tot then Some ShortFragmentHeader else None))"
  using assms by (subst fpoint_loop.simps) (auto simp: Let_def is_ext_def hdr_len_def)

lemma fpoint_loop_total: "tot \<le> length b \<Longrightarrow> \<exists>fp found err. fpoint_loop b tot pn nxt off = Some (fp, found, err)"
proof (induction nxt off arbitrary: pn rule: walk6_induct [where tot = tot and b = b])
  case (step nxt off)
  then show ?case by (subst fpoint_loop_unfold) (auto simp: not_less)
qed

lemma fpoint_loop_chain:
  assumes "tot \<le> length b" and "fpoint_loop b tot pn nxt off = Some (fp, found, err)" and "err = None \<or> found"
  shows "hdr_chain b tot pn nxt off (fpPrev fp) (fpNext fp) (fpInsert fp) \<and> \<not> is_ext (fpNext fp) \<and>
    (found \<longleftrightarrow> fpNext fp = 44)"
  using assms(2)
proof (induction nxt off arbitrary: pn rule: walk6_induct [where tot = tot and b = b])
  case (step nxt off)
  show ?case
  proof (cases "is_ext nxt")
    case True
    with step.prems assms(3) have l: "off + 2 \<le> tot" "off + hdr_len b nxt off \<le> tot"
      "fpoint_loop b tot off (b ! off) (off + hdr_len b nxt off) = Some (fp, found, err)"
      by (auto simp: fpoint_loop_unfold [OF assms(1), of pn nxt off] split: if_splits)
    from step.IH [OF True l] True l show ?thesis by (auto intro: hdr_chain.chain_step)
  next
    case False
    with step.prems show ?thesis
      by (auto simp: fpoint_loop_unfold [OF assms(1), of pn nxt off] intro: hdr_chain.chain_here)
  qed
qed

lemma insert_loop_unfold:
  assumes "tot \<le> length b"
  shows "insert_loop b tot pn nxt off =
     (if nxt = 0 \<or> nxt = 43 \<or> nxt = 60 then
        (if off + 2 > tot then Some (Inl (if nxt = 60 then ShortDestOptions else ShortIPv6Ext))
         else if off + hdr_len b nxt off > tot then Some (Inl (if nxt = 60 then BadDestOptions else BadIPv6Ext))
         else if nxt = 60 \<and> b ! off \<noteq> 43 then Some (Inr \<lparr>fpInsert = off, fpPrev = pn, fpNext = nxt\<rparr>)
         else insert_loop b tot off (b ! off) (off + hdr_len b nxt off))
      else if nxt = 44 then Some (Inl AlreadyFragmented6)
      else Some (Inr \<lparr>fpInsert = off, fpPrev = pn, fpNext = nxt\<rparr>))"
  using assms by (subst insert_loop.simps) (auto simp: Let_def hdr_len_def)

lemma insert_loop_total: "tot \<le> length b \<Longrightarrow> insert_loop b tot pn nxt off \<noteq> None"
proof (induction nxt off arbitrary: pn rule: walk6_induct [where tot = tot and b = b])
  case (step nxt off)
  then show ?case by (subst insert_loop_unfold) (auto simp: not_less is_ext_def)
qed

lemma insert_loop_chain:
  assumes "tot \<le> length b" and "insert_loop b tot pn nxt off = Some (Inr fp)"
  shows "hdr_chain b tot pn nxt off (fpPrev fp) (fpNext fp) (fpInsert fp) \<and> fpNext fp \<noteq> 44"
  using assms(2)
proof (induction nxt off arbitrary: pn rule: walk6_induct [where tot = tot and b = b])
  case (step nxt off)
  show ?case
  proof (cases "(nxt = 0 \<or> nxt = 43 \<or> nxt = 60) \<and> \<not> (nxt = 60 \<and> b ! off \<noteq> 43)")
    case True
    then have e: "is_ext nxt" by (auto simp: is_ext_def)
    from True step.prems have l: "off + 2 \<le> tot" "off + hdr_len b nxt off \<le> tot"
      "insert_loop b tot off (b ! off) (off + hdr_len b nxt off) = Some (Inr fp)"
      by (auto simp: insert_loop_unfold [OF assms(1), of pn nxt off] split: if_splits)
    from step.IH [OF e l] e l show ?thesis by (auto intro: hdr_chain.chain_step)
  next
    case False
    with step.prems show ?thesis
      by (auto simp: insert_loop_unfold [OF assms(1), of pn nxt off] intro: hdr_chain.chain_here split: if_splits)
  qed
qed

lemma hdr_chain_prev_ge: "hdr_chain b tot pn nxt off pn' nh off' \<Longrightarrow> pn' = pn \<and> off' = off \<or> off \<le> pn' \<and> off + 8 \<le> off'"
proof (induction rule: hdr_chain.induct)
  case (chain_step nxt off pn' nh off' pn)
  then show ?case using hdr_len_ge [of b nxt off] by auto
qed simp

lemma ipv6FragmentPoint_total: "\<exists>fp found err. ipv6FragmentPoint b = Some (fp, found, err)"
proof (cases "length b < 40 \<or> drop_bit 4 (b ! 0) \<noteq> 6")
  case False
  then show ?thesis
    by (simp add: ipv6FragmentPoint_def Let_def fpoint_loop_total)
qed (auto simp: ipv6FragmentPoint_def)

lemma ipv6FragmentInsertPoint_total: "ipv6FragmentInsertPoint b \<noteq> None"
proof (cases "length b < 40 \<or> drop_bit 4 (b ! 0) \<noteq> 6")
  case False
  then show ?thesis
    using insert_loop_total [of "40 + unat (u16of (b ! 4) (b ! 5))" b 6 "b ! 6" 40]
    by (simp add: ipv6FragmentInsertPoint_def Let_def)
qed (simp add: ipv6FragmentInsertPoint_def)

lemma IsFragment_ne_None: "IsFragment b \<noteq> None"
  using ipv6FragmentPoint_total [of b] by (cases b) (auto simp: IsFragment_def idx_def)

lemma ipv6FragmentInsertPoint_chain:
  assumes "ipv6FragmentInsertPoint b = Some (Inr fp)"
  shows "40 \<le> length b" "drop_bit 4 (b ! 0) = 6" "40 + unat (u16of (b ! 4) (b ! 5)) \<le> length b"
    "hdr_chain b (40 + unat (u16of (b ! 4) (b ! 5))) 6 (b ! 6) 40 (fpPrev fp) (fpNext fp) (fpInsert fp)"
    "fpNext fp \<noteq> 44"
proof -
  from assms show a: "40 \<le> length b" "drop_bit 4 (b ! 0) = 6" and t: "40 + unat (u16of (b ! 4) (b ! 5)) \<le> length b"
    by (auto simp: ipv6FragmentInsertPoint_def Let_def not_less split: if_splits)
  with assms have "insert_loop b (40 + unat (u16of (b ! 4) (b ! 5))) 6 (b ! 6) 40 = Some (Inr fp)"
    by (simp add: ipv6FragmentInsertPoint_def Let_def)
  from insert_loop_chain [OF t this]
  show "hdr_chain b (40 + unat (u16of (b ! 4) (b ! 5))) 6 (b ! 6) 40 (fpPrev fp) (fpNext fp) (fpInsert fp)"
    "fpNext fp \<noteq> 44" by simp_all
qed

lemma ipv6FragmentInsertPoint_bounds:
  assumes "ipv6FragmentInsertPoint b = Some (Inr fp)"
  shows "40 \<le> fpInsert fp" "fpInsert fp \<le> 40 + unat (u16of (b ! 4) (b ! 5))" "fpPrev fp < fpInsert fp"
    "fpPrev fp = 6 \<or> 40 \<le> fpPrev fp" "fpNext fp = b ! fpPrev fp"
proof -
  note c = ipv6FragmentInsertPoint_chain(4) [OF assms]
  from hdr_chain_bounds [OF c] hdr_chain_prev_bounds [OF c] hdr_chain_prev_ge [OF c]
  show "40 \<le> fpInsert fp" "fpInsert fp \<le> 40 + unat (u16of (b ! 4) (b ! 5))" "fpPrev fp < fpInsert fp"
    "fpPrev fp = 6 \<or> 40 \<le> fpPrev fp" "fpNext fp = b ! fpPrev fp" by auto
qed

text \<open>The fragment without the panic monad: the unfragmentable part with its length field and the
  next-header byte that names the fragment header, the fragment header, and the chunk.\<close>

definition pre6 :: "bytes \<Rightarrow> fpoint \<Rightarrow> u16 \<Rightarrow> bytes" where
  "pre6 b fp len = overwrite (overwrite (take (fpInsert fp) b) (fpPrev fp) [44]) 4 (u16be len)"

definition frag_off6 :: "nat \<Rightarrow> bool \<Rightarrow> u16" where
  "frag_off6 off mf = word_of_nat (off div 8 * 8) OR (if mf then 1 else 0)"

definition frag6 :: "bytes \<Rightarrow> fpoint \<Rightarrow> bytes \<Rightarrow> u32 \<Rightarrow> nat \<Rightarrow> nat \<Rightarrow> bool \<Rightarrow> bytes" where
  "frag6 b fp payload ident off n mf =
     pre6 b fp (word_of_nat (fpInsert fp + 8 + n - 40)) @ [fpNext fp, 0] @ u16be (frag_off6 off mf) @
       u32be ident @ take n (drop off payload)"

lemma length_pre6 [simp]:
  "40 \<le> fpInsert fp \<Longrightarrow> fpInsert fp \<le> length b \<Longrightarrow> fpPrev fp < fpInsert fp \<Longrightarrow> length (pre6 b fp len) = fpInsert fp"
  by (simp add: pre6_def)

lemma length_frag6:
  "40 \<le> fpInsert fp \<Longrightarrow> fpInsert fp \<le> length b \<Longrightarrow> fpPrev fp < fpInsert fp \<Longrightarrow> off + n \<le> length payload \<Longrightarrow>
    length (frag6 b fp payload ident off n mf) = fpInsert fp + 8 + n"
  by (simp add: frag6_def)

lemma overwrite_append2:
  "length h \<le> i \<Longrightarrow> overwrite (h @ c) i xs = h @ overwrite c (i - length h) xs"
  by (simp add: overwrite_def Suc_diff_le)

lemma fragment6_eq:
  assumes "40 \<le> fpInsert fp" "fpInsert fp \<le> length b" "fpPrev fp < fpInsert fp" "off + n \<le> length payload"
  shows "fragment6 b fp payload ident off n mf =
    (if fpInsert fp + 8 + n - 40 > 65535 then Some (Inl FragmentPayloadTooLarge)
     else Some (Inr (frag6 b fp payload ident off n mf)))"
proof -
  let ?i = "fpInsert fp"
  define h where "h = overwrite (take ?i b) (fpPrev fp) [44]"
  have hl: "length h = ?i" using assms by (simp add: h_def)
  have r: "slice b 0 ?i = Some (take ?i b)" "slice payload off (off + n) = Some (take n (drop off payload))"
    using assms by simp_all
  have s1: "copy_at (replicate (?i + 8 + n) 0) 0 (take ?i b) = Some (take ?i b @ replicate (8 + n) 0)"
    using assms by (simp add: overwrite_def)
  have s2: "put_at (take ?i b @ replicate (8 + n) 0) (fpPrev fp) [44] = Some (h @ replicate (8 + n) 0)"
    using assms by (simp add: overwrite_append1 h_def)
  have s3: "put_at (h @ replicate (8 + n) 0) ?i [fpNext fp] = Some (h @ [fpNext fp] @ replicate (7 + n) 0)"
    using hl by (simp add: overwrite_append2) (simp add: overwrite_def)
  have v: "(if mf then word_of_nat (off div 8 * 8) OR 1 else word_of_nat (off div 8 * 8)) = frag_off6 off mf"
    by (simp add: frag_off6_def)
  have s4: "put_at (h @ [fpNext fp] @ replicate (7 + n) 0) (?i + 2) (u16be w) =
      Some (h @ [fpNext fp, 0] @ u16be w @ replicate (4 + n) 0)" for w
    using hl by (simp add: overwrite_append2) (simp add: overwrite_def)
  have s5: "put_at (h @ [fpNext fp, 0] @ u16be w @ replicate (4 + n) 0) (?i + 4) (u32be ident) =
      Some (h @ [fpNext fp, 0] @ u16be w @ u32be ident @ replicate n 0)" for w
    using hl by (simp add: overwrite_append2) (simp add: overwrite_def u16be_def)
  have s6: "copy_at (h @ [fpNext fp, 0] @ u16be w @ u32be ident @ replicate n 0) (?i + 8) (take n (drop off payload)) =
      Some (h @ [fpNext fp, 0] @ u16be w @ u32be ident @ take n (drop off payload))" for w
    using hl assms by (simp add: overwrite_append2) (simp add: overwrite_def u16be_def u32be_def)
  have l: "length (h @ [fpNext fp, 0] @ u16be w @ u32be ident @ take n (drop off payload)) = ?i + 8 + n" for w
    using hl assms by simp
  have n: "(int (?i + 8 + n) - 40 > 65535) = (?i + 8 + n - 40 > 65535)"
    "word_of_int (int (?i + 8 + n) - 40) = (word_of_nat (?i + 8 + n - 40) :: u16)"
    using assms by (auto simp: of_nat_diff)
  have s7: "put_at (h @ c) 4 (u16be x) = Some (pre6 b fp x @ c)" for c x
    using assms hl by (simp add: overwrite_append1 pre6_def h_def)
  show ?thesis
    unfolding fragment6_def r s1 Option.bind.simps s2 s3 Let_def v s4 s5 s6 l n s7 frag6_def
    by (rule refl)
qed

lemma frag_loop6_cases:
  assumes "40 \<le> fpInsert fp" "fpInsert fp \<le> length b" "fpPrev fp < fpInsert fp" "0 < mp"
  shows "frag_loop6 b fp payload ident mp off = Some (Inr (map (\<lambda>(p, n, mf). frag6 b fp payload ident p n mf)
      (chunk_list (length payload) mp off))) \<or>
    65535 < fpInsert fp + 8 + mp - 40 \<and> frag_loop6 b fp payload ident mp off = Some (Inl FragmentPayloadTooLarge)"
  using assms(4)
proof (induction off rule: chunk_list_induct [where len = "length payload"])
  case (more off)
  then show ?case
    using assms by (subst (1 2) frag_loop6.simps) (auto simp: fragment6_eq chunk_list_more)
next
  case (last off)
  then show ?case
    using assms by (subst (1 2) frag_loop6.simps) (auto simp: fragment6_eq chunk_list_last frag_loop6.simps)
qed (simp add: frag_loop6.simps)

definition frags6 :: "u32 \<Rightarrow> bytes \<Rightarrow> fpoint \<Rightarrow> int \<Rightarrow> bytes list" where
  "frags6 fid b fp mtu =
     (let tot = 40 + unat (u16of (b ! 4) (b ! 5)) in
      map (\<lambda>(p, n, mf). frag6 b fp (drop (fpInsert fp) (take tot b)) (fst (nextID32 fid)) p n mf)
       (chunk_list (tot - fpInsert fp) (nat ((mtu - int (fpInsert fp) - 8) div 8 * 8)) 0))"

lemma fragmentIPv6_cases:
  shows "(\<exists>e fid'. fragmentIPv6 fid b mtu = Some (Inl e, fid')) \<or>
    int (40 + unat (u16of (b ! 4) (b ! 5))) \<le> mtu \<and>
      fragmentIPv6 fid b mtu = Some (Inr ([take (40 + unat (u16of (b ! 4) (b ! 5))) b], False), fid) \<or>
    (\<exists>fp. ipv6FragmentInsertPoint (take (40 + unat (u16of (b ! 4) (b ! 5))) b) = Some (Inr fp) \<and>
      40 \<le> length b \<and> 40 + unat (u16of (b ! 4) (b ! 5)) \<le> length b \<and>
      8 \<le> (mtu - int (fpInsert fp) - 8) div 8 * 8 \<and>
      fragmentIPv6 fid b mtu = Some (Inr (frags6 fid b fp mtu, True), snd (nextID32 fid)))"
proof (cases "length b < 40 \<or> unat (u16of (b ! 4) (b ! 5)) = 0 \<or> length b < 40 + unat (u16of (b ! 4) (b ! 5)) \<or>
    int (40 + unat (u16of (b ! 4) (b ! 5))) \<le> mtu")
  case True
  then show ?thesis by (auto simp: fragmentIPv6_def Let_def)
next
  case False
  define t where "t = 40 + unat (u16of (b ! 4) (b ! 5))"
  define c where "c = take t b"
  have g: "40 \<le> length b" "unat (u16of (b ! 4) (b ! 5)) \<noteq> 0" "t \<le> length b" "\<not> int t \<le> mtu"
    using False by (simp_all add: t_def)
  have rd: "be16_at b 4 = Some (u16of (b ! 4) (b ! 5))" "slice b 0 t = Some c" using g by (simp_all add: be16_at_def c_def)
  obtain fp0 found err where fp0: "ipv6FragmentPoint c = Some (fp0, found, err)" using ipv6FragmentPoint_total by blast
  obtain ip where ip: "ipv6FragmentInsertPoint c = Some ip" using ipv6FragmentInsertPoint_total [of c] by blast
  have e: "fragmentIPv6 fid b mtu = (case err of Some e \<Rightarrow> Some (Inl e, fid) | None \<Rightarrow>
      if found then Some (Inl AlreadyFragmented6, fid) else
      case ip of Inl e \<Rightarrow> Some (Inl e, fid) | Inr fp \<Rightarrow>
        (if go_div (mtu - int (fpInsert fp) - 8) 8 * 8 < 8 then Some (Inl (MTUTooSmall mtu (fpInsert fp + 8)), fid)
         else slice b (fpInsert fp) t \<bind> (\<lambda>payload.
           frag_loop6 b fp payload (fst (nextID32 fid)) (nat (go_div (mtu - int (fpInsert fp) - 8) 8 * 8)) 0 \<bind>
           case_sum (\<lambda>e. Some (Inl e, snd (nextID32 fid))) (\<lambda>out. Some (Inr (out, True), snd (nextID32 fid))))))"
    using g unfolding fragmentIPv6_def rd Option.bind.simps Let_def t_def [symmetric] fp0 ip
    by (simp add: ip prod.case_eq_if split: option.split sum.split)
  show ?thesis
  proof (cases "err = None \<and> \<not> found \<and> (\<exists>fp. ip = Inr fp \<and> 8 \<le> go_div (mtu - int (fpInsert fp) - 8) 8 * 8)")
    case True
    then obtain fp where fp: "ip = Inr fp" "8 \<le> go_div (mtu - int (fpInsert fp) - 8) 8 * 8" and n: "err = None" "\<not> found" by auto
    have i: "40 \<le> fpInsert fp" "fpInsert fp \<le> t" "fpPrev fp < fpInsert fp"
      using ipv6FragmentInsertPoint_bounds [OF ip [unfolded fp(1)]] g by (simp_all add: c_def t_def)
    have "0 \<le> mtu - int (fpInsert fp) - 8"
      using fp(2) go_div_le [of 8 "mtu - int (fpInsert fp) - 8"] by linarith
    then have q: "go_div (mtu - int (fpInsert fp) - 8) 8 = (mtu - int (fpInsert fp) - 8) div 8" by (simp add: go_div_pos)
    let ?mp = "nat ((mtu - int (fpInsert fp) - 8) div 8 * 8)"
    have "0 < ?mp" using fp(2) q by simp
    from frag_loop6_cases [OF i(1) order_trans [OF i(2) g(3)] i(3) this, of "drop (fpInsert fp) (take t b)" "fst (nextID32 fid)" 0]
    show ?thesis
      using e n fp q i g ip by (auto simp: drop_take frags6_def Let_def t_def [symmetric] c_def)
  next
    case False
    with e show ?thesis by (auto split: option.splits sum.splits)
  qed
qed

section \<open>Sizes\<close>

lemma div_8_le: "(x :: int) div 8 * 8 \<le> x"
  using minus_mod_eq_div_mult [of x 8] by (simp add: algebra_simps)

lemma frags4_elem:
  assumes "fragmentable4 b mtu" "576 \<le> mtu" "f \<in> set (frags4 fid b mtu)"
  obtains p n mf where
    "f = frag4 b (ihl4 b) (drop (ihl4 b) (take (ftot4 b) b)) (fst (fident4 fid b)) (u16of (b ! 6) (b ! 7) AND 0x8000) p n mf"
    "(p, n, mf) \<in> set (chunk_list (ftot4 b - ihl4 b) (nat ((mtu - int (ihl4 b)) div 8 * 8)) 0)"
    "p + n \<le> ftot4 b - ihl4 b" "length f = ihl4 b + n" "int (length f) \<le> mtu"
proof -
  let ?mp = "nat ((mtu - int (ihl4 b)) div 8 * 8)"
  have mp: "0 < ?mp" using assms(2) ihl4_le [of b] by simp
  from assms(3) obtain p n mf where c: "(p, n, mf) \<in> set (chunk_list (ftot4 b - ihl4 b) ?mp 0)"
    and f: "f = frag4 b (ihl4 b) (drop (ihl4 b) (take (ftot4 b) b)) (fst (fident4 fid b)) (u16of (b ! 6) (b ! 7) AND 0x8000) p n mf"
    by (auto simp: frags4_def)
  note e = chunk_list_elem [OF mp c]
  have b: "20 \<le> ihl4 b" "ihl4 b \<le> length b" using assms(1) by (simp_all add: fragmentable4_def)
  have l: "length f = ihl4 b + n" unfolding f using b e ftot4_le [of b] by (intro length_frag4) auto
  have "int n \<le> mtu - int (ihl4 b)"
    using e div_8_le [of "mtu - int (ihl4 b)"] mp by linarith
  with l have "int (length f) \<le> mtu" by simp
  with that [OF f c _ l] e show thesis by simp
qed

lemma frags6_elem:
  assumes "ipv6FragmentInsertPoint (take (40 + unat (u16of (b ! 4) (b ! 5))) b) = Some (Inr fp)"
    and "40 \<le> length b" "40 + unat (u16of (b ! 4) (b ! 5)) \<le> length b"
    and "8 \<le> (mtu - int (fpInsert fp) - 8) div 8 * 8"
    and "f \<in> set (frags6 fid b fp mtu)"
  shows "int (length f) \<le> mtu"
proof -
  let ?t = "40 + unat (u16of (b ! 4) (b ! 5))" and ?mp = "nat ((mtu - int (fpInsert fp) - 8) div 8 * 8)"
  have i: "40 \<le> fpInsert fp" "fpInsert fp \<le> ?t" "fpPrev fp < fpInsert fp"
    using ipv6FragmentInsertPoint_bounds [OF assms(1)] assms(2,3) by simp_all
  have mp: "0 < ?mp" using assms(4) by simp
  from assms(5) obtain p n mf where c: "(p, n, mf) \<in> set (chunk_list (?t - fpInsert fp) ?mp 0)"
    and f: "f = frag6 b fp (drop (fpInsert fp) (take ?t b)) (fst (nextID32 fid)) p n mf"
    by (auto simp: frags6_def Let_def)
  note e = chunk_list_elem [OF mp c]
  have "length f = fpInsert fp + 8 + n"
    unfolding f using i e assms(3) by (intro length_frag6) auto
  moreover have "int n \<le> mtu - int (fpInsert fp) - 8"
    using e div_8_le [of "mtu - int (fpInsert fp) - 8"] mp by linarith
  ultimately show ?thesis by simp
qed

lemma FragmentForMTU_fits:
  "\<exists>r fid'. FragmentForMTU fid b mtu = Some (r, fid') \<and>
     (case r of Inl e \<Rightarrow> True | Inr (fs, split) \<Rightarrow> list_all (\<lambda>f. int (length f) \<le> mtu) fs)"
proof (cases "mtu < 576 \<or> int (length b) \<le> mtu \<or> length b < 1")
  case True
  then show ?thesis by (auto simp: FragmentForMTU_def)
next
  case False
  then have "idx b 0 = Some (b ! 0)" by (intro idx_Some) linarith
  then have e: "FragmentForMTU fid b mtu = (if drop_bit 4 (b ! 0) = 4 then fragmentIPv4 fid b mtu
      else if drop_bit 4 (b ! 0) = 6 then fragmentIPv6 fid b mtu else Some (Inl NotIP, fid))"
    using False by (simp add: FragmentForMTU_def)
  have mtu: "576 \<le> mtu" using False by simp
  have "\<exists>r fid'. fragmentIPv4 fid b mtu = Some (r, fid') \<and>
     (case r of Inl e \<Rightarrow> True | Inr (fs, split) \<Rightarrow> list_all (\<lambda>f. int (length f) \<le> mtu) fs)"
    using fragmentIPv4_cases [OF mtu, of b fid]
  proof (elim disjE exE conjE)
    assume fr: "fragmentable4 b mtu"
    have "int (length f) \<le> mtu" if "f \<in> set (frags4 fid b mtu)" for f
      by (rule frags4_elem [OF fr mtu that])
    then show ?thesis by (simp add: fragmentIPv4_eq fr mtu list_all_iff)
  qed (auto simp: min_def)
  moreover have "\<exists>r fid'. fragmentIPv6 fid b mtu = Some (r, fid') \<and>
     (case r of Inl e \<Rightarrow> True | Inr (fs, split) \<Rightarrow> list_all (\<lambda>f. int (length f) \<le> mtu) fs)"
    using fragmentIPv6_cases [of fid b mtu]
  proof (elim disjE exE conjE)
    let ?t = "40 + unat (u16of (b ! 4) (b ! 5))"
    assume "int ?t \<le> mtu" and eq: "fragmentIPv6 fid b mtu = Some (Inr ([take ?t b], False), fid)"
    moreover have "length (take ?t b) \<le> ?t" by simp
    ultimately have "int (length (take ?t b)) \<le> mtu" by linarith
    with eq show ?thesis by (simp del: length_take)
  qed (auto simp: list_all_iff frags6_elem)
  ultimately show ?thesis using e by auto
qed

section \<open>Properties\<close>

text \<open>C15: Neither \<open>IsFragment\<close> nor \<open>FragmentForMTU\<close> panics, whatever bytes they are given, and every packet
  \<open>FragmentForMTU\<close> returns fits the MTU.\<close>

theorem FragmentForMTU_safe:
  "(\<exists>f. IsFragment b = Some f) \<and>
   (\<exists>r fid'. FragmentForMTU fid b mtu = Some (r, fid') \<and>
     (case r of Inl e \<Rightarrow> True | Inr (fs, split) \<Rightarrow> list_all (\<lambda>f. int (length f) \<le> mtu) fs))"
  using IsFragment_ne_None [of b] FragmentForMTU_fits [of fid b mtu] by blast

text \<open>C16: An IPv4 datagram larger than the MTU that is not yet a fragment and does not forbid
  fragmentation is fragmented: the payloads of the fragments, in order, are the payload of the
  datagram, every fragment carries its own length, the common identification, and a header
  checksum that verifies.\<close>

theorem fragmentIPv4_correct:
  assumes "fragmentable4 b mtu" "576 \<le> mtu" "mtu \<le> 65535" "drop_bit 4 (b ! 0) = 4"
  shows "\<exists>fs fid'. FragmentForMTU fid b mtu = Some (Inr (fs, True), fid') \<and>
     concat (map (drop (ihl4 b)) fs) = drop (ihl4 b) (take (ftot4 b) b) \<and>
     (\<forall>f \<in> set fs. be16_at f 2 = Some (word_of_nat (length f)) \<and> unat (word_of_nat (length f) :: u16) = length f \<and>
        be16_at f 4 = Some (fst (fident4 fid b)) \<and> ipv4HeaderChecksum (take (ihl4 b) f) = 0)"
proof -
  have b: "20 \<le> ihl4 b" "ihl4 b \<le> length b" "mtu < int (ftot4 b)" using assms(1) by (simp_all add: fragmentable4_def)
  have "mtu < int (length b)" "0 < length b" using b ftot4_le [of b] assms(2) by linarith+
  then have "FragmentForMTU fid b mtu = fragmentIPv4 fid b mtu"
    using assms(2,4) idx_Some [of 0 b] unfolding FragmentForMTU_def by (simp only: Option.bind.simps) simp
  then have e: "FragmentForMTU fid b mtu = Some (Inr (frags4 fid b mtu, True), snd (fident4 fid b))"
    using fragmentIPv4_eq [OF assms(1,2)] by simp
  let ?mp = "nat ((mtu - int (ihl4 b)) div 8 * 8)" and ?pl = "drop (ihl4 b) (take (ftot4 b) b)"
  have mp: "0 < ?mp" using assms(2) ihl4_le [of b] by simp
  have "length ?pl = ftot4 b - ihl4 b" using ftot4_le [of b] by simp
  then have "concat (map (drop (ihl4 b)) (frags4 fid b mtu)) = ?pl"
    using chunk_list_concat [OF mp, of ?pl 0] b
    by (simp add: frags4_def frag4_def Let_def comp_def case_prod_unfold)
  moreover have "be16_at f 2 = Some (word_of_nat (length f)) \<and> unat (word_of_nat (length f) :: u16) = length f \<and>
        be16_at f 4 = Some (fst (fident4 fid b)) \<and> ipv4HeaderChecksum (take (ihl4 b) f) = 0"
    if "f \<in> set (frags4 fid b mtu)" for f
  proof -
    from frags4_elem [OF assms(1,2) that] obtain p n mf where
      f: "f = frag4 b (ihl4 b) ?pl (fst (fident4 fid b)) (u16of (b ! 6) (b ! 7) AND 0x8000) p n mf"
      and l: "length f = ihl4 b + n" "int (length f) \<le> mtu" by metis
    have "unat (word_of_nat (length f) :: u16) = length f"
      using l assms(3) by (intro unat_u16_of_nat) linarith
    moreover have "be16_at f 2 = Some (word_of_nat (length f))" "be16_at f 4 = Some (fst (fident4 fid b))"
      using b l by (simp_all add: be16_at_def f frag4_def Let_def nth_append hdr4_nth)
    moreover have "ipv4HeaderChecksum (take (ihl4 b) f) = 0"
      unfolding f using b ihl4_le [of b] by (intro frag4_checksum) simp_all
    ultimately show ?thesis by blast
  qed
  ultimately show ?thesis using e by blast
qed

definition udp_example :: bytes where
  "udp_example = [0x45, 0, 2, 0x58, 0, 9, 0, 0, 64, 17, 0, 0, 10, 0, 0, 1, 10, 0, 0, 2] @ replicate 580 7"

theorem fragmentIPv4_correct_witness:
  "\<exists>fs fid'. FragmentForMTU 0 udp_example 576 = Some (Inr (fs, True), fid') \<and>
     concat (map (drop 20) fs) = replicate 580 7"
proof -
  have "ihl4 udp_example = 20" "ftot4 udp_example = 600" "fragmentable4 udp_example 576"
    by (simp_all add: fragmentable4_def ihl4_def ftot4_def udp_example_def u16of_def)
  with fragmentIPv4_correct [of udp_example 576 0] show ?thesis by (auto simp: udp_example_def)
qed

end
