(* ===== verification/Reassembly.thy ===== *)
theory Reassembly
  imports Packet_Frag "HOL-Library.AList"
begin

unbundle bit_operations_syntax

text \<open>
  \<open>internal/reassembly\<close>: the data the IPv4 and the IPv6 reassembler share, the bounded table of
  incomplete datagrams with its memory accounting and its time-to-live sweep, and the IPv4
  reassembler itself (\<open>ipv4.go\<close>).

  A Go map is an association list with distinct keys here, because the code uses its size and
  iterates over it (the order of an iteration never matters). The code holds datagrams by
  pointer; the pointer a function works on is always the one stored in the table, so the model
  stores the changed datagram back where the code writes through the pointer. The time is an
  argument, in nanoseconds.
\<close>

section \<open>Data\<close>

datatype rerr =
    RShort4 | RBadIHL4 | RBadLength4 | REmpty4 | RUnaligned4 | RTooLarge4 nat | RTableFull4 | ROverlap4
  | RMemLimit4 | RPastFinal4 | RExceeds4
  | RShort6 | RJumbogram6 | RTruncated6 | RShortHeader6 | REmpty6 | RUnaligned6 | RTooLarge6 nat | RTableFull6
  | RInconsistent6 | ROverlap6 | RMemLimit6 | RPastFinal6 | RExceeds6 | RBadPrev6
  | RNotIPv6 | RShortExt6 | RBadExt6 | RShortAH6 | RBadAH6

record Result =
  rsPacket :: bytes
  rsReady :: bool
  rsFragmented :: bool
  rsMTU :: nat

definition noResult :: Result where
  "noResult = \<lparr>rsPacket = [], rsReady = False, rsFragmented = False, rsMTU = 0\<rparr>"

definition passResult :: "bytes \<Rightarrow> Result" where
  "passResult b = noResult\<lparr>rsPacket := b, rsReady := True\<rparr>"

definition waitResult :: Result where
  "waitResult = noResult\<lparr>rsFragmented := True\<rparr>"

record piece =
  pcOff :: nat
  pcData :: bytes

text \<open>The fields the datagrams of both versions have.\<close>

record datagram =
  dPieces :: "piece list"
  dLast :: int
  dHaveLast :: bool
  dUpdated :: int
  dBytes :: int
  dMaxPacket :: nat

record datagram4 = datagram +
  dHeader :: "bytes option"

record key4 =
  k4Src :: bytes
  k4Dst :: bytes
  k4Proto :: byte
  k4Id :: u16

record ('k, 'd) rtable =
  rM :: "('k \<times> 'd) list"
  rMaxEntries :: nat
  rMaxBytes :: int
  rBytes :: int
  rTtl :: int
  rExpired :: u64

type_synonym IPv4 = "(key4, datagram4) rtable"

definition NewIPv4 :: IPv4 where
  "NewIPv4 = \<lparr>rM = [], rMaxEntries = 1024, rMaxBytes = 16 * 1048576, rBytes = 0,
     rTtl = 30 * 1000000000, rExpired = 0\<rparr>"

section \<open>The table\<close>

definition dropLocked :: "'k \<Rightarrow> ('k, 'x datagram_scheme) rtable \<Rightarrow> ('k, 'x datagram_scheme) rtable" where
  "dropLocked k r =
     (case map_of (rM r) k of
       None \<Rightarrow> r
     | Some d \<Rightarrow> let n = rBytes r - dBytes d in
         r\<lparr>rM := AList.delete k (rM r), rBytes := (if n < 0 then 0 else n)\<rparr>)"

definition sweep_entry :: "int \<Rightarrow> 'k \<times> 'x datagram_scheme \<Rightarrow> ('k, 'x datagram_scheme) rtable \<Rightarrow>
    ('k, 'x datagram_scheme) rtable" where
  "sweep_entry now = (\<lambda>(k, d) r.
     if now - dUpdated d > rTtl r then let r = dropLocked k r in r\<lparr>rExpired := rExpired r + 1\<rparr> else r)"

definition sweepLocked :: "int \<Rightarrow> ('k, 'x datagram_scheme) rtable \<Rightarrow> ('k, 'x datagram_scheme) rtable" where
  "sweepLocked now r = fold (sweep_entry now) (rM r) r"

definition Sweep :: "int \<Rightarrow> ('k, 'x datagram_scheme) rtable \<Rightarrow> ('k, 'x datagram_scheme) rtable" where
  "Sweep now r = sweepLocked now r"

definition TakeExpired :: "('k, 'd) rtable \<Rightarrow> u64 \<times> ('k, 'd) rtable" where
  "TakeExpired r = (rExpired r, r\<lparr>rExpired := 0\<rparr>)"

definition set_entry :: "'k \<Rightarrow> 'd \<Rightarrow> ('k, 'd) rtable \<Rightarrow> ('k, 'd) rtable" where
  "set_entry k d r = r\<lparr>rM := AList.update k d (rM r)\<rparr>"

text \<open>The loops both versions have: the overlap test, marking the covered bytes (\<open>Inl ()\<close> when a
  piece reaches past the final length), and copying the pieces out.\<close>

definition overlaps :: "piece list \<Rightarrow> nat \<Rightarrow> nat \<Rightarrow> bool" where
  "overlaps ps off e = list_ex (\<lambda>q. off < pcOff q + length (pcData q) \<and> pcOff q < e) ps"

fun mark_covered :: "int \<Rightarrow> piece list \<Rightarrow> bool list \<Rightarrow> (unit + bool list) go" where
  "mark_covered lst [] cov = Some (Inr cov)"
| "mark_covered lst (q # qs) cov =
     (if int (pcOff q + length (pcData q)) > lst then Some (Inl ())
      else do {
        cov \<leftarrow> put_at cov (pcOff q) (replicate (length (pcData q)) True);
        mark_covered lst qs cov
      })"

fun copy_pieces :: "nat \<Rightarrow> piece list \<Rightarrow> bytes \<Rightarrow> bytes go" where
  "copy_pieces base [] out = Some out"
| "copy_pieces base (q # qs) out = do {
     out \<leftarrow> copy_at out (base + pcOff q) (pcData q);
     copy_pieces base qs out
   }"

text \<open>\<open>make([]T, n)\<close> panics for a negative length.\<close>

definition make_list :: "int \<Rightarrow> 'a \<Rightarrow> 'a list go" where
  "make_list n z = (if n < 0 then None else Some (replicate (nat n) z))"

section \<open>The IPv4 reassembler\<close>

text \<open>From the test for a complete datagram on: the header and the last fragment are present.\<close>

definition complete4 :: "key4 \<Rightarrow> datagram4 \<Rightarrow> bytes \<Rightarrow> IPv4 \<Rightarrow> ((rerr + Result) \<times> IPv4) go" where
  "complete4 k d header r = do {
     cov \<leftarrow> make_list (dLast d) False;
     m \<leftarrow> mark_covered (dLast d) (dPieces d) cov;
     (case m of
       Inl _ \<Rightarrow> Some (Inl RPastFinal4, dropLocked k r)
     | Inr cov \<Rightarrow>
         if \<not> list_all id cov then Some (Inr waitResult, r)
         else if int (length header) + dLast d > 65535 then Some (Inl RExceeds4, dropLocked k r)
         else do {
           out \<leftarrow> make_list (int (length header) + dLast d) 0;
           out \<leftarrow> copy_at out 0 header;
           out \<leftarrow> copy_pieces (length header) (dPieces d) out;
           fl \<leftarrow> be16_at out 6;
           out \<leftarrow> put_at out 6 (u16be (fl AND 0xC000));
           out \<leftarrow> put_at out 2 (u16be (word_of_nat (length out)));
           out \<leftarrow> put_at out 10 [0, 0];
           Some (Inr \<lparr>rsPacket = out, rsReady = True, rsFragmented = True, rsMTU = dMaxPacket d\<rparr>,
             dropLocked k r)
         })
   }"

text \<open>The part of \<open>PushInfo\<close> under the lock, after the sweep.\<close>

definition insert4 :: "int \<Rightarrow> bytes \<Rightarrow> key4 \<Rightarrow> nat \<Rightarrow> nat \<Rightarrow> nat \<Rightarrow> bool \<Rightarrow> bytes \<Rightarrow> IPv4 \<Rightarrow>
    ((rerr + Result) \<times> IPv4) go" where
  "insert4 now pkt k ihl tot off mf pl r =
     (let e = off + length pl in
      if map_of (rM r) k = None \<and> length (rM r) \<ge> rMaxEntries r then Some (Inl RTableFull4, r)
      else let (d, r) = (case map_of (rM r) k of
            Some d \<Rightarrow> (d, r)
          | None \<Rightarrow> let d = \<lparr>dPieces = [], dLast = -1, dHaveLast = False, dUpdated = now, dBytes = 0,
                              dMaxPacket = 0, dHeader = None\<rparr>
                    in (d, set_entry k d r)) in
      if overlaps (dPieces d) off e then Some (Inl ROverlap4, dropLocked k r)
      else if rBytes r + int (length pl) > rMaxBytes r then Some (Inl RMemLimit4, dropLocked k r)
      else do {
        h \<leftarrow> slice pkt 0 ihl;
        let d = d\<lparr>dPieces := dPieces d @ [\<lparr>pcOff = off, pcData = pl\<rparr>], dBytes := dBytes d + int (length pl),
          dUpdated := now, dMaxPacket := (if tot > dMaxPacket d then tot else dMaxPacket d)\<rparr>;
        let d = (if off = 0 then d\<lparr>dHeader := Some h\<rparr> else d);
        let d = (if \<not> mf then d\<lparr>dLast := int e, dHaveLast := True\<rparr> else d);
        let r = (set_entry k d r)\<lparr>rBytes := rBytes r + int (length pl)\<rparr>;
        (case dHeader d of
          None \<Rightarrow> Some (Inr waitResult, r)
        | Some header \<Rightarrow>
            if \<not> dHaveLast d then Some (Inr waitResult, r) else complete4 k d header r)
      })"

definition PushInfo4 :: "int \<Rightarrow> bytes \<Rightarrow> IPv4 \<Rightarrow> ((rerr + Result) \<times> IPv4) go" where
  "PushInfo4 now pkt r =
     (if length pkt < 1 \<or> drop_bit 4 (pkt ! 0) \<noteq> 4 then Some (Inr (passResult pkt), r)
      else if length pkt < 20 then Some (Inl RShort4, r)
      else do {
        b0 \<leftarrow> idx pkt 0;
        let ihl = unat (b0 AND 15) * 4;
        if ihl < 20 \<or> ihl > length pkt then Some (Inl RBadIHL4, r)
        else do {
          tl \<leftarrow> be16_at pkt 2;
          let tot = (if unat tl = 0 \<or> unat tl > length pkt then length pkt else unat tl);
          if tot < ihl then Some (Inl RBadLength4, r)
          else do {
            fv \<leftarrow> be16_at pkt 6;
            let off = unat (fv AND 0x1fff) * 8;
            let mf = (fv AND 0x2000 \<noteq> 0);
            if off = 0 \<and> \<not> mf then do { c \<leftarrow> slice pkt 0 tot; Some (Inr (passResult c), r) }
            else do {
              pl \<leftarrow> slice pkt ihl tot;
              if length pl = 0 then Some (Inl REmpty4, r)
              else if mf \<and> length pl mod 8 \<noteq> 0 then Some (Inl RUnaligned4, r)
              else if off + length pl > 65535 - ihl then Some (Inl (RTooLarge4 (off + length pl)), r)
              else do {
                s \<leftarrow> slice pkt 12 16;
                d \<leftarrow> slice pkt 16 20;
                pr \<leftarrow> idx pkt 9;
                i \<leftarrow> be16_at pkt 4;
                insert4 now pkt \<lparr>k4Src = s, k4Dst = d, k4Proto = pr, k4Id = i\<rparr> ihl tot off mf pl
                  (sweepLocked now r)
              }
            }
          }
        }
      })"

definition Push4 :: "int \<Rightarrow> bytes \<Rightarrow> IPv4 \<Rightarrow> ((bytes \<times> bool \<times> rerr option) \<times> IPv4) go" where
  "Push4 now pkt r = do {
     (res, r) \<leftarrow> PushInfo4 now pkt r;
     Some ((case res of
         Inl e \<Rightarrow> (rsPacket noResult, rsReady noResult, Some e)
       | Inr x \<Rightarrow> (rsPacket x, rsReady x, None)), r)
   }"

section \<open>Invariant of the table\<close>

definition piece_end :: "piece \<Rightarrow> nat" where
  "piece_end q = pcOff q + length (pcData q)"

definition apart :: "piece \<Rightarrow> piece \<Rightarrow> bool" where
  "apart p q \<longleftrightarrow> \<not> (pcOff q < piece_end p \<and> pcOff p < piece_end q)"

text \<open>A datagram is accounted for exactly, its pieces never overlap, and a known final length is
  not negative.\<close>

definition dg_ok :: "'x datagram_scheme \<Rightarrow> bool" where
  "dg_ok d \<longleftrightarrow> dBytes d = (\<Sum>q\<leftarrow>dPieces d. int (length (pcData q))) \<and>
     sorted_wrt apart (dPieces d) \<and> (dHaveLast d \<longrightarrow> 0 \<le> dLast d)"

definition bytes_sum :: "('k \<times> 'x datagram_scheme) list \<Rightarrow> int" where
  "bytes_sum m = (\<Sum>(k, d)\<leftarrow>m. dBytes d)"

definition vals :: "('k \<times> 'd) list \<Rightarrow> 'd set" where
  "vals m = snd ` set m"

text \<open>The table is bounded in entries and in memory and its byte counter is exact; \<open>P\<close> is what
  the version adds for each of its datagrams.\<close>

definition tab_ok :: "('x datagram_scheme \<Rightarrow> bool) \<Rightarrow> ('k, 'x datagram_scheme) rtable \<Rightarrow> bool" where
  "tab_ok P r \<longleftrightarrow> distinct (map fst (rM r)) \<and> length (rM r) \<le> rMaxEntries r \<and>
     rBytes r = bytes_sum (rM r) \<and> rBytes r \<le> rMaxBytes r \<and> (\<forall>d \<in> vals (rM r). dg_ok d \<and> P d)"

text \<open>The limits never change.\<close>

definition same_limits :: "('k, 'd) rtable \<Rightarrow> ('k, 'd) rtable \<Rightarrow> bool" where
  "same_limits r r' \<longleftrightarrow> rMaxEntries r' = rMaxEntries r \<and> rMaxBytes r' = rMaxBytes r \<and> rTtl r' = rTtl r"

lemma same_limits_refl [simp, intro]: "same_limits r r"
  by (simp add: same_limits_def)

lemma same_limits_trans: "same_limits r r' \<Longrightarrow> same_limits r' r'' \<Longrightarrow> same_limits r r''"
  by (simp add: same_limits_def)

lemma dg_ok_nonneg: "dg_ok d \<Longrightarrow> 0 \<le> dBytes d"
  by (auto simp: dg_ok_def intro!: sum_list_nonneg)

lemma bytes_sum_Nil [simp]: "bytes_sum [] = 0"
  by (simp add: bytes_sum_def)

lemma bytes_sum_Cons [simp]: "bytes_sum (e # m) = dBytes (snd e) + bytes_sum m"
  by (cases e) (simp add: bytes_sum_def)

lemma bytes_sum_delete:
  "distinct (map fst m) \<Longrightarrow> map_of m k = Some d \<Longrightarrow> bytes_sum (AList.delete k m) = bytes_sum m - dBytes d"
proof (induction m)
  case (Cons e m)
  show ?case
  proof (cases "fst e = k")
    case True
    with Cons.prems have "AList.delete k m = m"
      by (cases e) (simp add: AList.delete_eq filter_id_conv, force)
    with True Cons.prems show ?thesis by (cases e) simp
  next
    case False
    with Cons show ?thesis by (cases e) simp
  qed
qed simp

lemma bytes_sum_update:
  "distinct (map fst m) \<Longrightarrow> bytes_sum (AList.update k d' m) =
    bytes_sum m + dBytes d' - (case map_of m k of Some d \<Rightarrow> dBytes d | None \<Rightarrow> 0)"
  by (induction m) auto

lemma vals_Cons [simp]: "vals (e # m) = insert (snd e) (vals m)"
  by (simp add: vals_def)

lemma vals_map_of: "map_of m k = Some d \<Longrightarrow> d \<in> vals m"
  by (force simp: vals_def dest: map_of_SomeD)

lemma bytes_sum_nonneg: "\<forall>d \<in> vals m. 0 \<le> dBytes d \<Longrightarrow> 0 \<le> bytes_sum m"
  by (induction m) auto

lemma length_update: "length (AList.update k d m) = (if map_of m k = None then length m + 1 else length m)"
  by (induction m) auto

lemma vals_update: "vals (AList.update k d m) \<subseteq> insert d (vals m)"
  by (induction m) (auto simp: vals_def)

lemma tab_ok_nonneg: "tab_ok P r \<Longrightarrow> 0 \<le> rBytes r"
  using bytes_sum_nonneg [of "rM r"] by (auto simp: tab_ok_def dg_ok_nonneg)

lemma tab_ok_entry: "tab_ok P r \<Longrightarrow> map_of (rM r) k = Some d \<Longrightarrow> dg_ok d \<and> P d"
  using vals_map_of [of "rM r" k d] by (simp add: tab_ok_def)

lemma vals_delete: "vals (AList.delete k m) \<subseteq> vals m"
  by (auto simp: vals_def AList.delete_eq)

lemma dropLocked_eq:
  assumes "tab_ok P r" "map_of (rM r) k = Some d"
  shows "dropLocked k r = r\<lparr>rM := AList.delete k (rM r), rBytes := rBytes r - dBytes d\<rparr>"
proof -
  have "0 \<le> bytes_sum (AList.delete k (rM r))"
    using assms vals_delete [of k "rM r"] by (intro bytes_sum_nonneg ballI dg_ok_nonneg) (auto simp: tab_ok_def)
  with assms have "0 \<le> rBytes r - dBytes d" by (simp add: bytes_sum_delete tab_ok_def)
  then show ?thesis using assms(2) by (simp add: dropLocked_def)
qed

lemma rM_dropLocked [simp]: "rM (dropLocked k r) = AList.delete k (rM r)"
  by (auto simp: dropLocked_def Let_def AList.delete_id map_of_eq_None_iff split: option.split)

lemma tab_ok_drop:
  assumes "tab_ok P r"
  shows "tab_ok P (dropLocked k r)"
proof (cases "map_of (rM r) k")
  case None
  then show ?thesis using assms by (simp add: dropLocked_def)
next
  case (Some d)
  have "length (AList.delete k (rM r)) \<le> length (rM r)" by (simp add: AList.delete_eq)
  moreover have "0 \<le> dBytes d" using tab_ok_entry [OF assms Some] dg_ok_nonneg by blast
  ultimately show ?thesis
    using assms Some vals_delete [of k "rM r"]
    unfolding dropLocked_eq [OF assms Some] tab_ok_def by (auto simp: bytes_sum_delete distinct_delete)
qed

lemma same_limits_drop [simp, intro]: "same_limits r (dropLocked k r)"
  by (auto simp: same_limits_def dropLocked_def Let_def split: option.split)

lemma tab_ok_expired [simp]: "tab_ok P (r\<lparr>rExpired := n\<rparr>) = tab_ok P r"
  by (simp add: tab_ok_def)

lemma sweep_fold_ok: "tab_ok P r \<Longrightarrow> tab_ok P (fold (sweep_entry now) es r) \<and> same_limits r (fold (sweep_entry now) es r)"
proof (induction es arbitrary: r)
  case (Cons e es)
  have "tab_ok P (sweep_entry now e r)" "same_limits r (sweep_entry now e r)"
    using Cons.prems tab_ok_drop [OF Cons.prems] same_limits_drop [of r]
    by (cases e; auto simp: sweep_entry_def Let_def same_limits_def)+
  with Cons.IH [OF this(1)] show ?case by (auto intro: same_limits_trans)
qed simp

lemma tab_ok_sweep: "tab_ok P r \<Longrightarrow> tab_ok P (sweepLocked now r)"
  and same_limits_sweep: "tab_ok P r \<Longrightarrow> same_limits r (sweepLocked now r)"
  using sweep_fold_ok unfolding sweepLocked_def by blast+

lemma tab_ok_new:
  assumes "tab_ok P r" "map_of (rM r) k = None" "length (rM r) < rMaxEntries r" "dg_ok d" "P d" "dBytes d = 0"
  shows "tab_ok P (set_entry k d r)"
  using assms vals_update [of k d "rM r"]
  by (auto simp: tab_ok_def set_entry_def bytes_sum_update length_update AList.distinct_update)

lemma tab_ok_set:
  assumes "tab_ok P r" "map_of (rM r) k = Some d" "dg_ok d'" "P d'" "dBytes d' = dBytes d + n"
    and "rBytes r + n \<le> rMaxBytes r"
  shows "tab_ok P ((set_entry k d' r)\<lparr>rBytes := rBytes r + n\<rparr>)"
  using assms vals_update [of k d' "rM r"]
  by (auto simp: tab_ok_def set_entry_def bytes_sum_update length_update AList.distinct_update)

section \<open>Coverage and copying\<close>

lemma mark_covered_spec:
  assumes "length cov = nat lst"
  shows "mark_covered lst ps cov =
    (if \<exists>q \<in> set ps. int (piece_end q) > lst then Some (Inl ())
     else Some (Inr (map (\<lambda>i. cov ! i \<or> (\<exists>q \<in> set ps. pcOff q \<le> i \<and> i < piece_end q)) [0..<nat lst])))"
  using assms
proof (induction ps arbitrary: cov)
  case Nil
  then show ?case using map_nth [of cov] by simp
next
  case (Cons q ps)
  show ?case
  proof (cases "int (piece_end q) > lst")
    case True
    then show ?thesis by (simp add: piece_end_def)
  next
    case False
    then have in_rng: "pcOff q + length (pcData q) \<le> nat lst" by (simp add: piece_end_def)
    let ?c = "overwrite cov (pcOff q) (replicate (length (pcData q)) True)"
    have l: "length ?c = nat lst" using in_rng Cons.prems by simp
    have "?c ! i = (cov ! i \<or> pcOff q \<le> i \<and> i < piece_end q)" if "i < nat lst" for i
      using in_rng Cons.prems that by (auto simp: nth_overwrite piece_end_def)
    then have m: "map (\<lambda>i. ?c ! i \<or> (\<exists>q \<in> set ps. pcOff q \<le> i \<and> i < piece_end q)) [0..<nat lst] =
        map (\<lambda>i. cov ! i \<or> (\<exists>q \<in> set (q # ps). pcOff q \<le> i \<and> i < piece_end q)) [0..<nat lst]"
      by (intro map_cong) auto
    have "mark_covered lst (q # ps) cov = mark_covered lst ps ?c"
      using False in_rng Cons.prems by (simp add: piece_end_def)
    also have "\<dots> = (if \<exists>q \<in> set ps. int (piece_end q) > lst then Some (Inl ())
     else Some (Inr (map (\<lambda>i. ?c ! i \<or> (\<exists>q \<in> set ps. pcOff q \<le> i \<and> i < piece_end q)) [0..<nat lst])))"
      by (rule Cons.IH [OF l])
    finally show ?thesis using False by (simp add: m)
  qed
qed

definition covers :: "piece list \<Rightarrow> int \<Rightarrow> bool" where
  "covers ps lst \<longleftrightarrow> (\<forall>i < nat lst. \<exists>q \<in> set ps. pcOff q \<le> i \<and> i < piece_end q)"

lemma copy_pieces_frame:
  assumes "length out = base + lst" "\<forall>q \<in> set ps. piece_end q \<le> lst"
  shows "\<exists>out'. copy_pieces base ps out = Some out' \<and> length out' = length out \<and>
    (\<forall>j < length out. (\<forall>q \<in> set ps. j < base + pcOff q \<or> base + piece_end q \<le> j) \<longrightarrow> out' ! j = out ! j)"
  using assms
proof (induction ps arbitrary: out)
  case (Cons q ps)
  have r: "base + pcOff q + length (pcData q) \<le> length out" using Cons.prems by (simp add: piece_end_def)
  let ?o = "overwrite out (base + pcOff q) (pcData q)"
  from Cons.IH [of ?o] Cons.prems r obtain out' where o: "copy_pieces base ps ?o = Some out'" "length out' = length out"
    "\<forall>j < length out. (\<forall>q \<in> set ps. j < base + pcOff q \<or> base + piece_end q \<le> j) \<longrightarrow> out' ! j = ?o ! j"
    by auto
  have "?o ! j = out ! j" if "j < length out" "j < base + pcOff q \<or> base + piece_end q \<le> j" for j
    using that r by (auto simp: nth_overwrite piece_end_def)
  with o r show ?case by (intro exI [of _ out']) auto
qed simp

text \<open>Pieces that do not overlap all end up in the output.\<close>

lemma copy_pieces_spec:
  assumes "length out = base + lst" "\<forall>q \<in> set ps. piece_end q \<le> lst" "sorted_wrt apart ps"
    "copy_pieces base ps out = Some out'"
  shows "length out' = length out" "take base out' = take base out"
    "\<forall>q \<in> set ps. take (length (pcData q)) (drop (base + pcOff q) out') = pcData q"
proof -
  from copy_pieces_frame [OF assms(1,2)] assms(4) have f: "length out' = length out"
    "\<And>j. j < length out \<Longrightarrow> \<forall>q \<in> set ps. j < base + pcOff q \<or> base + piece_end q \<le> j \<Longrightarrow> out' ! j = out ! j"
    by auto
  then show "length out' = length out" "take base out' = take base out"
    using assms(1) by (auto intro!: nth_equalityI)
  show "\<forall>q \<in> set ps. take (length (pcData q)) (drop (base + pcOff q) out') = pcData q"
    using assms
  proof (induction ps arbitrary: out)
    case (Cons q ps)
    let ?o = "overwrite out (base + pcOff q) (pcData q)"
    have r: "base + pcOff q + length (pcData q) \<le> length out" using Cons.prems by (simp add: piece_end_def)
    have lo: "length ?o = base + lst" using r Cons.prems by simp
    from Cons.prems r have c: "copy_pieces base ps ?o = Some out'" by simp
    have "\<forall>q' \<in> set ps. take (length (pcData q')) (drop (base + pcOff q') out') = pcData q'"
      using Cons.prems lo c by (intro Cons.IH [of ?o]) auto
    moreover from copy_pieces_frame [OF lo, of ps] Cons.prems(2) c have
      k: "length out' = length out" "\<And>j. j < length out \<Longrightarrow> \<forall>q \<in> set ps. j < base + pcOff q \<or> base + piece_end q \<le> j \<Longrightarrow> out' ! j = ?o ! j"
      using lo Cons.prems(1) by auto
    have ap: "\<forall>q' \<in> set ps. apart q q'" using Cons.prems(3) by simp
    have "take (length (pcData q)) (drop (base + pcOff q) out') = take (length (pcData q)) (drop (base + pcOff q) ?o)"
    proof (rule take_drop_nth_eq)
      fix j assume j: "base + pcOff q \<le> j" "j < base + pcOff q + length (pcData q)"
      show "out' ! j = ?o ! j"
      proof (rule k(2))
        show "\<forall>q \<in> set ps. j < base + pcOff q \<or> base + piece_end q \<le> j"
          using ap j by (force simp: apart_def piece_end_def)
      qed (use j r in simp)
    qed (use r lo k Cons.prems in simp_all)
    then have "take (length (pcData q)) (drop (base + pcOff q) out') = pcData q"
      using overwrite_at [OF r refl] by simp
    ultimately show ?case by simp
  qed simp
qed

section \<open>The IPv4 reassembler keeps the invariant\<close>

definition header_ok :: "datagram4 \<Rightarrow> bool" where
  "header_ok d \<longleftrightarrow> (\<forall>h. dHeader d = Some h \<longrightarrow> 20 \<le> length h \<and> length h \<le> 60)"

text \<open>What a completed datagram is: the header of the first fragment with its length, flags and
  checksum rewritten, followed by every piece at its offset, without holes.\<close>

definition reassembled4 :: "datagram4 \<Rightarrow> bytes \<Rightarrow> bytes \<Rightarrow> bool" where
  "reassembled4 d h out \<longleftrightarrow>
     length out = length h + nat (dLast d) \<and> length out \<le> 65535 \<and> covers (dPieces d) (dLast d) \<and>
     (\<forall>q \<in> set (dPieces d). piece_end q \<le> nat (dLast d) \<and>
        take (length (pcData q)) (drop (length h + pcOff q) out) = pcData q) \<and>
     take (length h) out = hdr4 h (length h) (word_of_nat (length out)) (u16of (h ! 4) (h ! 5))
       (u16of (h ! 6) (h ! 7) AND 0xC000) 0"

lemma drop_append_le: "n = length h \<Longrightarrow> drop (n + m) (h @ c) = drop m c"
  by simp

lemma finish4:
  assumes "20 \<le> length h" "take (length h) out = h" "length out = length h + n" "n \<le> 65535"
  shows "\<exists>out'. do {
     fl \<leftarrow> be16_at out 6;
     out \<leftarrow> put_at out 6 (u16be (fl AND 0xC000));
     out \<leftarrow> put_at out 2 (u16be (word_of_nat (length out)));
     put_at out 10 [0, 0]
   } = Some out' \<and> drop (length h) out' = drop (length h) out \<and> length out' = length out \<and>
   take (length h) out' = hdr4 h (length h) (word_of_nat (length out)) (u16of (h ! 4) (h ! 5))
       (u16of (h ! 6) (h ! 7) AND 0xC000) 0"
proof -
  define c where "c = drop (length h) out"
  have o: "out = h @ c" using assms(2) append_take_drop_id [of "length h" out] by (simp add: c_def)
  have z: "[0, 0] = u16be 0" by (simp add: u16be_def u16hi_def u16lo_def)
  have s: "hdr4 h (length h) (u16of (h ! 2) (h ! 3)) (u16of (h ! 4) (h ! 5)) (u16of (h ! 6) (h ! 7)) (u16of (h ! 10) (h ! 11)) = h"
    using hdr4_self [OF assms(1) order_refl] by simp
  have w: "overwrite (overwrite (overwrite h 6 (u16be x)) 2 (u16be y)) 10 (u16be v) =
      hdr4 h (length h) y (u16of (h ! 4) (h ! 5)) x v" for x y v
    by (subst (1) s [symmetric]) (simp only: hdr4_set [OF assms(1) order_refl])
  have f: "be16_at out 6 = Some (u16of (h ! 6) (h ! 7))" using assms(1) by (simp add: o be16_at_def nth_append)
  show ?thesis
    unfolding f using assms(1)
    by (simp add: o overwrite_append1 z w)
qed

lemma complete4_cases:
  assumes "dg_ok d" "header_ok d" "dHeader d = Some h" "dHaveLast d"
  shows "(\<exists>q \<in> set (dPieces d). int (piece_end q) > dLast d) \<and> complete4 k d h r = Some (Inl RPastFinal4, dropLocked k r) \<or>
    \<not> covers (dPieces d) (dLast d) \<and> complete4 k d h r = Some (Inr waitResult, r) \<or>
    int (length h) + dLast d > 65535 \<and> complete4 k d h r = Some (Inl RExceeds4, dropLocked k r) \<or>
    (\<exists>out. reassembled4 d h out \<and> complete4 k d h r =
       Some (Inr \<lparr>rsPacket = out, rsReady = True, rsFragmented = True, rsMTU = dMaxPacket d\<rparr>, dropLocked k r))"
proof -
  have l0: "0 \<le> dLast d" using assms(1,4) by (simp add: dg_ok_def)
  have h: "20 \<le> length h" using assms(2,3) by (simp add: header_ok_def)
  have m: "make_list (dLast d) False = Some (replicate (nat (dLast d)) False)"
    "make_list (int (length h) + dLast d) (0::byte) = Some (replicate (length h + nat (dLast d)) 0)"
    using l0 by (simp_all add: make_list_def nat_add_distrib)
  note mc = mark_covered_spec [of "replicate (nat (dLast d)) False" "dLast d" "dPieces d"]
  show ?thesis
  proof (cases "\<exists>q \<in> set (dPieces d). int (piece_end q) > dLast d")
    case True
    then show ?thesis using mc by (simp add: complete4_def m)
  next
    case False
    define cov where "cov = map (\<lambda>i. replicate (nat (dLast d)) False ! i \<or>
      (\<exists>q \<in> set (dPieces d). pcOff q \<le> i \<and> i < piece_end q)) [0..<nat (dLast d)]"
    have mk: "mark_covered (dLast d) (dPieces d) (replicate (nat (dLast d)) False) = Some (Inr cov)"
      using mc False by (simp add: cov_def)
    have cv: "list_all id cov \<longleftrightarrow> covers (dPieces d) (dLast d)"
      by (auto simp: cov_def covers_def list_all_iff)
    have e: "\<forall>q \<in> set (dPieces d). piece_end q \<le> nat (dLast d)" using False l0 by fastforce
    let ?o = "overwrite (replicate (length h + nat (dLast d)) 0) 0 h"
    have lo: "length ?o = length h + nat (dLast d)" by simp
    from copy_pieces_frame [OF lo e] obtain o1 where o1: "copy_pieces (length h) (dPieces d) ?o = Some o1" by blast
    note sp = copy_pieces_spec [OF lo e _ o1]
    have so: "sorted_wrt apart (dPieces d)" using assms(1) by (simp add: dg_ok_def)
    show ?thesis
    proof (cases "covers (dPieces d) (dLast d) \<and> int (length h) + dLast d \<le> 65535")
      case False
      then show ?thesis by (auto simp: complete4_def m mk cv)
    next
      case True
      then have le: "length h + nat (dLast d) \<le> 65535" using l0 by linarith
      have "take (length h) o1 = h" using sp(2) [OF so] by (simp add: overwrite_def)
      from finish4 [OF h this sp(1) [OF so, unfolded lo]] le obtain out where
        out: "do { fl \<leftarrow> be16_at o1 6; out \<leftarrow> put_at o1 6 (u16be (fl AND 0xC000));
            out \<leftarrow> put_at out 2 (u16be (word_of_nat (length out))); put_at out 10 [0, 0] } = Some out"
          "drop (length h) out = drop (length h) o1" "length out = length o1"
          "take (length h) out = hdr4 h (length h) (word_of_nat (length o1)) (u16of (h ! 4) (h ! 5))
             (u16of (h ! 6) (h ! 7) AND 0xC000) 0" by auto
      have "drop (length h + pcOff q) out = drop (length h + pcOff q) o1" for q :: piece
        using out(2) by (metis drop_drop add.commute)
      then have "reassembled4 d h out"
        using sp(1,3) [OF so] True e le out lo by (simp add: reassembled4_def)
      moreover have "complete4 k d h r =
          Some (Inr \<lparr>rsPacket = out, rsReady = True, rsFragmented = True, rsMTU = dMaxPacket d\<rparr>, dropLocked k r)"
        using True o1 out(1) by (auto simp: complete4_def m mk cv bind_eq_Some_conv)
      ultimately show ?thesis by blast
    qed
  qed
qed

text \<open>The datagram an accepted fragment is added to, and the datagram after that.\<close>

definition fresh4 :: "int \<Rightarrow> datagram4" where
  "fresh4 now = \<lparr>dPieces = [], dLast = -1, dHaveLast = False, dUpdated = now, dBytes = 0, dMaxPacket = 0, dHeader = None\<rparr>"

definition entry4 :: "int \<Rightarrow> key4 \<Rightarrow> IPv4 \<Rightarrow> datagram4" where
  "entry4 now k r = (case map_of (rM r) k of Some d \<Rightarrow> d | None \<Rightarrow> fresh4 now)"

definition open4 :: "int \<Rightarrow> key4 \<Rightarrow> IPv4 \<Rightarrow> IPv4" where
  "open4 now k r = (if map_of (rM r) k = None then set_entry k (fresh4 now) r else r)"

definition added4 :: "int \<Rightarrow> bytes \<Rightarrow> nat \<Rightarrow> nat \<Rightarrow> nat \<Rightarrow> bool \<Rightarrow> bytes \<Rightarrow> datagram4 \<Rightarrow> datagram4" where
  "added4 now pkt ihl tot off mf pl d =
     \<lparr>dPieces = dPieces d @ [\<lparr>pcOff = off, pcData = pl\<rparr>],
      dLast = (if mf then dLast d else int (off + length pl)), dHaveLast = (dHaveLast d \<or> \<not> mf),
      dUpdated = now, dBytes = dBytes d + int (length pl), dMaxPacket = max (dMaxPacket d) tot,
      dHeader = (if off = 0 then Some (take ihl pkt) else dHeader d)\<rparr>"

lemma insert4_eq:
  assumes "ihl \<le> length pkt" and "d = entry4 now k r" and "r0 = open4 now k r"
    and "d' = added4 now pkt ihl tot off mf pl d"
    and "r' = (set_entry k d' r0)\<lparr>rBytes := rBytes r0 + int (length pl)\<rparr>"
  shows "insert4 now pkt k ihl tot off mf pl r =
    (if map_of (rM r) k = None \<and> rMaxEntries r \<le> length (rM r) then Some (Inl RTableFull4, r)
     else if overlaps (dPieces d) off (off + length pl) then Some (Inl ROverlap4, dropLocked k r0)
     else if rBytes r + int (length pl) > rMaxBytes r then Some (Inl RMemLimit4, dropLocked k r0)
     else case dHeader d' of None \<Rightarrow> Some (Inr waitResult, r')
       | Some h \<Rightarrow> if dHaveLast d' then complete4 k d' h r' else Some (Inr waitResult, r'))"
proof -
  have dd: "(if \<not> mf then (if off = 0 then D\<lparr>dHeader := Some (take ihl pkt)\<rparr> else D)\<lparr>dLast := int (off + length pl), dHaveLast := True\<rparr>
      else (if off = 0 then D\<lparr>dHeader := Some (take ihl pkt)\<rparr> else D)) = added4 now pkt ihl tot off mf pl x"
    if "D = x\<lparr>dPieces := dPieces x @ [\<lparr>pcOff = off, pcData = pl\<rparr>], dBytes := dBytes x + int (length pl),
      dUpdated := now, dMaxPacket := (if tot > dMaxPacket x then tot else dMaxPacket x)\<rparr>" for D x
    by (simp add: that added4_def max_def)
  have sl: "slice pkt 0 ihl = Some (take ihl pkt)" using assms(1) by simp
  show ?thesis
  proof (cases "map_of (rM r) k")
    case None
    then have e: "d = fresh4 now" "r0 = set_entry k (fresh4 now) r"
      using assms(2,3) by (simp_all add: entry4_def open4_def)
    show ?thesis
      unfolding insert4_def Let_def None option.case prod.case sl Option.bind.simps fresh4_def [symmetric]
        dd [OF refl] assms(5) assms(4) e
      by (simp add: set_entry_def split: option.split)
  next
    case (Some x)
    then have e: "d = x" "r0 = r" using assms(2,3) by (simp_all add: entry4_def open4_def)
    show ?thesis
      unfolding insert4_def Let_def Some option.case prod.case sl Option.bind.simps dd [OF refl] assms(5) assms(4) e
      by (simp split: option.split)
  qed
qed

lemma dg_ok_fresh4: "dg_ok (fresh4 now)" "header_ok (fresh4 now)" "dBytes (fresh4 now) = 0"
  by (simp_all add: fresh4_def dg_ok_def header_ok_def)

lemma tab_ok_open4:
  assumes "tab_ok header_ok r" "\<not> (map_of (rM r) k = None \<and> rMaxEntries r \<le> length (rM r))"
  shows "tab_ok header_ok (open4 now k r)" "map_of (rM (open4 now k r)) k = Some (entry4 now k r)"
    "same_limits r (open4 now k r)" "rBytes (open4 now k r) = rBytes r"
proof -
  show "tab_ok header_ok (open4 now k r)"
    using assms dg_ok_fresh4 by (auto simp: open4_def intro: tab_ok_new)
qed (auto simp: open4_def entry4_def set_entry_def same_limits_def update_conv split: option.splits)

lemma dg_ok_added4:
  assumes "dg_ok d" "\<not> overlaps (dPieces d) off (off + length pl)"
  shows "dg_ok (added4 now pkt ihl tot off mf pl d)"
proof -
  have "apart q \<lparr>pcOff = off, pcData = pl\<rparr>" if "q \<in> set (dPieces d)" for q
    using assms(2) that by (auto simp: overlaps_def list_ex_iff apart_def piece_end_def)
  with assms(1) show ?thesis by (auto simp: dg_ok_def added4_def sorted_wrt_append)
qed

lemma insert4_ok:
  assumes "tab_ok header_ok r" "20 \<le> ihl" "ihl \<le> 60" "ihl \<le> length pkt"
  shows "\<exists>res r'. insert4 now pkt k ihl tot off mf pl r = Some (res, r') \<and> tab_ok header_ok r' \<and> same_limits r r' \<and>
    (case res of Inl e \<Rightarrow> True
     | Inr x \<Rightarrow> x = waitResult \<or> (\<exists>d h. dg_ok d \<and> reassembled4 d h (rsPacket x) \<and> rsReady x \<and>
         \<lparr>pcOff = off, pcData = pl\<rparr> \<in> set (dPieces d)))"
proof (cases "map_of (rM r) k = None \<and> rMaxEntries r \<le> length (rM r)")
  case True
  then show ?thesis using assms by (simp add: insert4_eq [OF assms(4) refl refl refl refl])
next
  case False
  let ?d = "entry4 now k r" and ?r = "open4 now k r"
  note o = tab_ok_open4 [OF assms(1) False, of now]
  have d: "dg_ok ?d" "header_ok ?d" using tab_ok_entry [OF o(1,2)] by simp_all
  show ?thesis
  proof (cases "overlaps (dPieces ?d) off (off + length pl) \<or> rBytes r + int (length pl) > rMaxBytes r")
    case True
    then show ?thesis
      using False tab_ok_drop [OF o(1)] same_limits_trans [OF o(3) same_limits_drop]
      by (auto simp: insert4_eq [OF assms(4) refl refl refl refl])
  next
    case nov: False
    let ?d' = "added4 now pkt ihl tot off mf pl ?d"
    let ?r' = "(set_entry k ?d' ?r)\<lparr>rBytes := rBytes ?r + int (length pl)\<rparr>"
    have d': "dg_ok ?d'" using nov d(1) by (intro dg_ok_added4) auto
    have h': "header_ok ?d'" using d(2) assms(2-4) by (simp add: header_ok_def added4_def min_def)
    have r': "tab_ok header_ok ?r'"
      using nov o by (intro tab_ok_set [OF o(1,2) d' h']) (simp_all add: added4_def same_limits_def)
    have l: "same_limits r ?r'" using o(3) by (simp add: same_limits_def set_entry_def)
    have e: "insert4 now pkt k ihl tot off mf pl r = (case dHeader ?d' of None \<Rightarrow> Some (Inr waitResult, ?r')
       | Some h \<Rightarrow> if dHaveLast ?d' then complete4 k ?d' h ?r' else Some (Inr waitResult, ?r'))"
      using False nov by (auto simp: insert4_eq [OF assms(4) refl refl refl refl])
    have dr: "tab_ok header_ok (dropLocked k ?r')" "same_limits r (dropLocked k ?r')"
      using tab_ok_drop [OF r'] same_limits_trans [OF l same_limits_drop] by blast+
    have pin: "\<lparr>pcOff = off, pcData = pl\<rparr> \<in> set (dPieces ?d')" by (simp add: added4_def)
    show ?thesis
    proof (cases "\<exists>h. dHeader ?d' = Some h \<and> dHaveLast ?d'")
      case True
      then obtain h where h: "dHeader ?d' = Some h" "dHaveLast ?d'" by blast
      from complete4_cases [OF d' h' h, of k ?r'] show ?thesis
        using e h r' l dr d' pin by (elim disjE exE conjE) auto
    next
      case False
      then show ?thesis using e r' l by (auto split: option.split)
    qed
  qed
qed

lemma insert4_inv:
  assumes "tab_ok header_ok r" "20 \<le> ihl" "ihl \<le> 60" "ihl \<le> length pkt" "same_limits r0 r"
  shows "\<exists>res r'. insert4 now pkt k ihl tot off mf pl r = Some (res, r') \<and> tab_ok header_ok r' \<and> same_limits r0 r'"
  using insert4_ok [OF assms(1-4), of now k tot off mf pl] same_limits_trans [OF assms(5)] by blast

text \<open>The header fields \<open>PushInfo\<close> reads.\<close>

definition foff4 :: "bytes \<Rightarrow> nat" where
  "foff4 pkt = unat (u16of (pkt ! 6) (pkt ! 7) AND 0x1fff) * 8"

definition fmore4 :: "bytes \<Rightarrow> bool" where
  "fmore4 pkt \<longleftrightarrow> u16of (pkt ! 6) (pkt ! 7) AND 0x2000 \<noteq> 0"

definition fkey4 :: "bytes \<Rightarrow> key4" where
  "fkey4 pkt = \<lparr>k4Src = take 4 (drop 12 pkt), k4Dst = take 4 (drop 16 pkt), k4Proto = pkt ! 9,
     k4Id = u16of (pkt ! 4) (pkt ! 5)\<rparr>"

definition fpay4 :: "bytes \<Rightarrow> bytes" where
  "fpay4 pkt = drop (ihl4 pkt) (take (ftot4 pkt) pkt)"

lemma PushInfo4_eq:
  assumes "20 \<le> length pkt" "drop_bit 4 (pkt ! 0) = 4"
  shows "PushInfo4 now pkt r =
    (if ihl4 pkt < 20 \<or> length pkt < ihl4 pkt then Some (Inl RBadIHL4, r)
     else if ftot4 pkt < ihl4 pkt then Some (Inl RBadLength4, r)
     else if foff4 pkt = 0 \<and> \<not> fmore4 pkt then Some (Inr (passResult (take (ftot4 pkt) pkt)), r)
     else if fpay4 pkt = [] then Some (Inl REmpty4, r)
     else if fmore4 pkt \<and> length (fpay4 pkt) mod 8 \<noteq> 0 then Some (Inl RUnaligned4, r)
     else if foff4 pkt + length (fpay4 pkt) > 65535 - ihl4 pkt then Some (Inl (RTooLarge4 (foff4 pkt + length (fpay4 pkt))), r)
     else insert4 now pkt (fkey4 pkt) (ihl4 pkt) (ftot4 pkt) (foff4 pkt) (fmore4 pkt) (fpay4 pkt) (sweepLocked now r))"
proof -
  have l: "0 < length pkt" using assms(1) by linarith
  have r0: "idx pkt 0 = Some (pkt ! 0)" using l by (rule idx_Some)
  have rd: "be16_at pkt 2 = Some (u16of (pkt ! 2) (pkt ! 3))" "be16_at pkt 6 = Some (u16of (pkt ! 6) (pkt ! 7))"
    "be16_at pkt 4 = Some (u16of (pkt ! 4) (pkt ! 5))" "idx pkt 9 = Some (pkt ! 9)"
    "slice pkt 12 16 = Some (take 4 (drop 12 pkt))" "slice pkt 16 20 = Some (take 4 (drop 16 pkt))"
    using assms(1) by (simp_all add: be16_at_def)
  have s: "slice pkt 0 (ftot4 pkt) = Some (take (ftot4 pkt) pkt)"
    "ihl4 pkt \<le> ftot4 pkt \<Longrightarrow> slice pkt (ihl4 pkt) (ftot4 pkt) = Some (fpay4 pkt)"
    using ftot4_le [of pkt] by (simp_all add: fpay4_def drop_take)
  show ?thesis
    unfolding PushInfo4_def r0 rd Option.bind.simps Let_def ihl4_def [symmetric]
      ftot4_def [unfolded Let_def, symmetric] foff4_def [symmetric] fmore4_def [symmetric] fkey4_def [symmetric]
    using assms l s by (simp add: not_less del: fmore4_def foff4_def)
qed

lemma PushInfo4_ok:
  assumes "tab_ok header_ok r"
  shows "\<exists>res r'. PushInfo4 now pkt r = Some (res, r') \<and> tab_ok header_ok r' \<and> same_limits r r'"
proof (cases "length pkt < 1 \<or> drop_bit 4 (pkt ! 0) \<noteq> 4 \<or> length pkt < 20")
  case True
  then show ?thesis using assms by (auto simp: PushInfo4_def)
next
  case False
  then have v: "20 \<le> length pkt" "drop_bit 4 (pkt ! 0) = 4" by auto
  have s: "tab_ok header_ok (sweepLocked now r)" "same_limits r (sweepLocked now r)"
    using assms by (simp_all add: tab_ok_sweep same_limits_sweep)
  have i: "\<exists>res r'. insert4 now pkt k (ihl4 pkt) tot off mf pl (sweepLocked now r) = Some (res, r') \<and>
      tab_ok header_ok r' \<and> same_limits r r'" if "\<not> (ihl4 pkt < 20 \<or> length pkt < ihl4 pkt)" for k tot off mf pl
    using that by (intro insert4_inv [OF s(1) _ ihl4_le _ s(2)]) simp_all
  show ?thesis
    unfolding PushInfo4_eq [OF v] using i assms by (auto simp del: de_Morgan_disj)
qed

section \<open>Interface\<close>

text \<open>The operations a client calls, in any order, at any time.\<close>

datatype rop = OpPush int bytes | OpSweep int | OpTakeExpired

fun run_ops :: "(int \<Rightarrow> bytes \<Rightarrow> ('k, 'x datagram_scheme) rtable \<Rightarrow> ((rerr + Result) \<times> ('k, 'x datagram_scheme) rtable) go) \<Rightarrow>
    rop list \<Rightarrow> ('k, 'x datagram_scheme) rtable \<Rightarrow> ((rerr + Result) list \<times> ('k, 'x datagram_scheme) rtable) go" where
  "run_ops push [] r = Some ([], r)"
| "run_ops push (OpPush now pkt # ops) r = do {
     (res, r) \<leftarrow> push now pkt r;
     (rs, r) \<leftarrow> run_ops push ops r;
     Some (res # rs, r)
   }"
| "run_ops push (OpSweep now # ops) r = run_ops push ops (Sweep now r)"
| "run_ops push (OpTakeExpired # ops) r = run_ops push ops (snd (TakeExpired r))"

text \<open>What the engine relies on: a push never panics, keeps the table well formed, and does not
  change its limits; a well-formed table respects them.\<close>

locale reassembler =
  fixes push :: "int \<Rightarrow> bytes \<Rightarrow> ('k, 'x datagram_scheme) rtable \<Rightarrow> ((rerr + Result) \<times> ('k, 'x datagram_scheme) rtable) go"
    and P :: "'x datagram_scheme \<Rightarrow> bool"
  assumes push_ok: "tab_ok P r \<Longrightarrow> \<exists>res r'. push now pkt r = Some (res, r') \<and> tab_ok P r' \<and> same_limits r r'"
begin

lemma run_ops_ok: "tab_ok P r \<Longrightarrow> \<exists>rs r'. run_ops push ops r = Some (rs, r') \<and> tab_ok P r' \<and> same_limits r r'"
proof (induction ops arbitrary: r)
  case (Cons op ops)
  show ?case
  proof (cases op)
    case (OpPush now pkt)
    from push_ok [OF Cons.prems, of now pkt] obtain res r1 where
      r1: "push now pkt r = Some (res, r1)" "tab_ok P r1" "same_limits r r1" by blast
    from Cons.IH [OF r1(2)] obtain rs r' where "run_ops push ops r1 = Some (rs, r')" "tab_ok P r'" "same_limits r1 r'" by blast
    with OpPush r1 show ?thesis by (auto intro: same_limits_trans)
  next
    case (OpSweep now)
    with Cons.IH [OF tab_ok_sweep [OF Cons.prems, of now]] same_limits_sweep [OF Cons.prems, of now] show ?thesis
      by (auto simp: Sweep_def intro: same_limits_trans)
  next
    case OpTakeExpired
    have "tab_ok P (snd (TakeExpired r))" "same_limits r (snd (TakeExpired r))"
      using Cons.prems by (simp_all add: TakeExpired_def same_limits_def)
    with Cons.IH [of "snd (TakeExpired r)"] OpTakeExpired show ?thesis by (auto intro: same_limits_trans)
  qed
qed auto

lemma run_ops_exact:
  assumes "tab_ok P r"
  shows "\<exists>rs r'. run_ops push ops r = Some (rs, r') \<and> length (rM r') \<le> rMaxEntries r \<and>
    rBytes r' = (\<Sum>(k, d)\<leftarrow>rM r'. \<Sum>q\<leftarrow>dPieces d. int (length (pcData q))) \<and>
    0 \<le> rBytes r' \<and> rBytes r' \<le> rMaxBytes r"
proof -
  from run_ops_ok [OF assms, of ops] obtain rs r' where
    r: "run_ops push ops r = Some (rs, r')" "tab_ok P r'" "same_limits r r'" by blast
  have "dBytes d = (\<Sum>q\<leftarrow>dPieces d. int (length (pcData q)))" if "(k, d) \<in> set (rM r')" for k d
    using r(2) that by (force simp: tab_ok_def vals_def dg_ok_def)
  then have "bytes_sum (rM r') = (\<Sum>(k, d)\<leftarrow>rM r'. \<Sum>q\<leftarrow>dPieces d. int (length (pcData q)))"
    unfolding bytes_sum_def by (intro arg_cong [where f = sum_list] map_cong) auto
  with r tab_ok_nonneg [OF r(2)] show ?thesis by (auto simp: tab_ok_def same_limits_def)
qed

end

interpretation r4: reassembler PushInfo4 header_ok
  by unfold_locales (rule PushInfo4_ok)

section \<open>Properties\<close>

text \<open>C17: Whatever packets are pushed into a new IPv4 reassembler, in whatever order, at whatever
  times and with sweeps in between, it never panics, never holds more than 1024 incomplete
  datagrams or 16 MiB, and its byte counter is exactly the number of payload bytes it holds.\<close>

theorem IPv4_reassembly_bounded:
  "\<exists>rs r'. run_ops PushInfo4 ops NewIPv4 = Some (rs, r') \<and> length (rM r') \<le> 1024 \<and>
     rBytes r' = (\<Sum>(k, d)\<leftarrow>rM r'. \<Sum>q\<leftarrow>dPieces d. int (length (pcData q))) \<and>
     0 \<le> rBytes r' \<and> rBytes r' \<le> 16777216"
proof -
  have "tab_ok header_ok NewIPv4" by (simp add: NewIPv4_def tab_ok_def vals_def)
  from r4.run_ops_exact [OF this, of ops] show ?thesis by (auto simp: NewIPv4_def)
qed

end
