(* ===== verification/Reassembly_Roundtrip.thy ===== *)
theory Reassembly_Roundtrip
  imports Reassembly "HOL-Library.Multiset"
begin

unbundle bit_operations_syntax

text \<open>
  The fragmenting of \<open>internal/packet\<close> and the reassembly of \<open>internal/reassembly\<close> are inverse to
  each other: the fragments \<open>FragmentForMTU\<close> makes of an IPv4 datagram, pushed in any order,
  give the datagram back with the last of them.
\<close>

section \<open>The sweep\<close>

lemma rM_sweep_fold:
  "rM (fold (sweep_entry now) es r) =
    filter (\<lambda>(k, d). \<not> (\<exists>d'. (k, d') \<in> set es \<and> rTtl r < now - dUpdated d')) (rM r)"
proof (induction es arbitrary: r)
  case (Cons e es)
  have t: "rTtl (sweep_entry now e r) = rTtl r"
    by (cases e) (simp add: sweep_entry_def Let_def dropLocked_def split: option.split)
  have "rM (sweep_entry now e r) =
      filter (\<lambda>(k, d). \<not> (k = fst e \<and> rTtl r < now - dUpdated (snd e))) (rM r)"
    by (cases e) (auto simp: sweep_entry_def Let_def AList.delete_eq intro!: filter_cong)
  then show ?case
    unfolding fold.simps comp_apply Cons.IH t by (cases e) (auto simp: intro!: filter_cong)
qed (simp add: case_prod_unfold)

lemma rM_sweep:
  assumes "distinct (map fst (rM r))"
  shows "rM (sweepLocked now r) = filter (\<lambda>(k, d). now - dUpdated d \<le> rTtl r) (rM r)"
  unfolding sweepLocked_def rM_sweep_fold
proof (rule filter_cong [OF refl], clarify)
  fix k d assume "(k, d) \<in> set (rM r)"
  then have "(k, d') \<in> set (rM r) \<longleftrightarrow> d' = d" for d'
    using assms by (metis eq_key_imp_eq_value)
  then show "(\<not> (\<exists>d'. (k, d') \<in> set (rM r) \<and> rTtl r < now - dUpdated d')) = (now - dUpdated d \<le> rTtl r)"
    by auto
qed

lemma map_of_filter_val:
  "distinct (map fst m) \<Longrightarrow> map_of (filter (\<lambda>(k, d). Q d) m) k =
    (case map_of m k of Some d \<Rightarrow> if Q d then Some d else None | None \<Rightarrow> None)"
  by (induction m) (auto split: option.split if_splits simp: map_of_eq_None_iff image_iff)

lemma bytes_sum_filter: "\<forall>d \<in> vals m. 0 \<le> dBytes d \<Longrightarrow> bytes_sum (filter Q m) \<le> bytes_sum m"
  by (induction m) auto

lemma sweep_facts:
  assumes "tab_ok P r"
  shows "map_of (rM (sweepLocked now r)) k =
      (case map_of (rM r) k of Some d \<Rightarrow> if now - dUpdated d \<le> rTtl r then Some d else None | None \<Rightarrow> None)"
    "rBytes (sweepLocked now r) \<le> rBytes r" "length (rM (sweepLocked now r)) \<le> length (rM r)"
proof -
  have d: "distinct (map fst (rM r))" using assms by (simp add: tab_ok_def)
  show "map_of (rM (sweepLocked now r)) k =
      (case map_of (rM r) k of Some d \<Rightarrow> if now - dUpdated d \<le> rTtl r then Some d else None | None \<Rightarrow> None)"
    unfolding rM_sweep [OF d] by (rule map_of_filter_val [OF d])
  show "length (rM (sweepLocked now r)) \<le> length (rM r)" by (simp add: rM_sweep [OF d])
  have "rBytes (sweepLocked now r) = bytes_sum (rM (sweepLocked now r))"
    using tab_ok_sweep [OF assms] by (simp add: tab_ok_def)
  also have "\<dots> \<le> bytes_sum (rM r)"
    unfolding rM_sweep [OF d] using assms by (intro bytes_sum_filter) (auto simp: tab_ok_def dg_ok_nonneg)
  also have "\<dots> = rBytes r" using assms by (simp add: tab_ok_def)
  finally show "rBytes (sweepLocked now r) \<le> rBytes r" .
qed

section \<open>Reading a fragment back\<close>

lemma flag_consts:
  "(0x8000 :: u16) = push_bit 15 1" "(0x2000 :: u16) = push_bit 13 1" "(0x1fff :: u16) = mask 13"
  "(0xC000 :: u16) = push_bit 14 (mask 2)" "(0x4000 :: u16) = push_bit 14 1" "(0x3fff :: u16) = mask 14"
  by (simp_all add: mask_eq_exp_minus_1 push_bit_eq_mult)

lemma bit_flags:
  "bit (0x8000 :: u16) n \<longleftrightarrow> n = 15" "bit (0x2000 :: u16) n \<longleftrightarrow> n = 13" "bit (0x1fff :: u16) n \<longleftrightarrow> n < 13"
  "bit (0xC000 :: u16) n \<longleftrightarrow> n = 14 \<or> n = 15" "bit (0x4000 :: u16) n \<longleftrightarrow> n = 14" "bit (0x3fff :: u16) n \<longleftrightarrow> n < 14"
  unfolding flag_consts bit_push_bit_iff bit_mask_iff bit_1_iff
  by (auto simp: possible_bit_def)

lemma bit_small: "w < 0x2000 \<Longrightarrow> bit (w :: u16) n \<Longrightarrow> n < 13"
proof -
  assume "w < 0x2000" and b: "bit w n"
  then have "unat w < 2 ^ 13" by (simp add: word_less_nat_alt)
  then have "take_bit 13 w = w"
    by (metis take_bit_nat_eq_self unsigned_take_bit_eq word_unat_eq_iff)
  with b show "n < 13" by (metis bit_take_bit_iff)
qed

lemma frag_flags4_read:
  assumes "w < 0x2000"
  shows "(((fv AND 0x8000) OR w) OR (if mf then 0x2000 else 0)) AND 0x1fff = (w :: u16)"
    "((((fv AND 0x8000) OR w) OR (if mf then 0x2000 else 0)) AND 0x2000 \<noteq> 0) = mf"
    "(((fv AND 0x8000) OR w) OR (if mf then 0x2000 else 0)) AND 0xC000 = fv AND 0x8000"
proof -
  show "(((fv AND 0x8000) OR w) OR (if mf then 0x2000 else 0)) AND 0x1fff = (w :: u16)"
    using bit_small [OF assms] by (intro bit_word_eqI) (auto simp: bit_and_iff bit_or_iff bit_flags simp del: bit_numeral_word_iff)
  have n: "\<not> bit w 13" "\<not> bit w 14" "\<not> bit w 15"
    using bit_small [OF assms, of 13] bit_small [OF assms, of 14] bit_small [OF assms, of 15] by auto
  show "(((fv AND 0x8000) OR w) OR (if mf then 0x2000 else 0)) AND 0xC000 = fv AND 0x8000"
    using n by (intro bit_word_eqI) (auto simp: bit_and_iff bit_or_iff bit_flags simp del: bit_numeral_word_iff)
  have "(x AND 0x2000 \<noteq> 0) = bit (x :: u16) 13" for x
    unfolding flag_consts by (simp only: bit_iff_and_push_bit_not_eq_0)
  then show "((((fv AND 0x8000) OR w) OR (if mf then 0x2000 else 0)) AND 0x2000 \<noteq> 0) = mf"
    using n by (simp add: bit_and_iff bit_or_iff bit_flags del: bit_numeral_word_iff)
qed

lemma reserved_flag: "fv AND 0x3fff = 0 \<Longrightarrow> fv AND 0x4000 = 0 \<Longrightarrow> fv AND 0x8000 = (fv :: u16)"
proof -
  assume "fv AND 0x3fff = 0" "fv AND 0x4000 = 0"
  then have a: "bit (fv AND 0x3fff) n = False" "bit (fv AND 0x4000) n = False" for n
    by simp_all
  have "\<not> bit fv n" if "n < 15" for n
    using a(1) [of n] a(2) [of n] that by (auto simp: bit_and_iff bit_or_iff bit_flags simp del: bit_numeral_word_iff)
  moreover have "n \<le> 15" if "bit fv n" for n using bit_imp_le_length [OF that] by simp
  ultimately show "fv AND 0x8000 = fv"
    by (intro bit_word_eqI) (auto simp: bit_and_iff bit_or_iff bit_flags simp del: bit_numeral_word_iff, metis le_neq_implies_less linorder_not_less)
qed

text \<open>The fields \<open>PushInfo\<close> reads from the fragment \<open>frag4\<close> of the datagram \<open>b\<close>.\<close>

lemma frag4_fields:
  assumes f: "f = frag4 b (ihl4 b) payload ident (fv AND 0x8000) p n mf"
    and ihl: "20 \<le> ihl4 b" "ihl4 b \<le> length b"
    and n: "0 < n" "p + n \<le> length payload" "8 dvd p" "ihl4 b + p + n \<le> 65535"
  shows "length f = ihl4 b + n" "f ! 0 = b ! 0" "ihl4 f = ihl4 b" "ftot4 f = ihl4 b + n" "foff4 f = p"
    "fmore4 f = mf" "fpay4 f = take n (drop p payload)"
    "take (ihl4 b) f = hdr4 b (ihl4 b) (word_of_nat (ihl4 b + n)) ident (frag_flags4 (fv AND 0x8000) p mf)
       (ipv4HeaderChecksum (hdr4 b (ihl4 b) (word_of_nat (ihl4 b + n)) ident (frag_flags4 (fv AND 0x8000) p mf) 0))"
    "fkey4 f = \<lparr>k4Src = take 4 (drop 12 b), k4Dst = take 4 (drop 16 b), k4Proto = b ! 9, k4Id = ident\<rparr>"
proof -
  define h where "h = hdr4 b (ihl4 b) (word_of_nat (ihl4 b + n)) ident (frag_flags4 (fv AND 0x8000) p mf)
       (ipv4HeaderChecksum (hdr4 b (ihl4 b) (word_of_nat (ihl4 b + n)) ident (frag_flags4 (fv AND 0x8000) p mf) 0))"
  have fh: "f = h @ take n (drop p payload)" by (simp add: f frag4_def Let_def h_def)
  have hl: "length h = ihl4 b" using ihl by (simp add: h_def)
  have at: "f ! i = h ! i" if "i < 20" for i using that hl ihl by (simp add: fh nth_append)
  show l: "length f = ihl4 b + n" using hl n by (simp add: fh)
  show "take (ihl4 b) f = hdr4 b (ihl4 b) (word_of_nat (ihl4 b + n)) ident (frag_flags4 (fv AND 0x8000) p mf)
       (ipv4HeaderChecksum (hdr4 b (ihl4 b) (word_of_nat (ihl4 b + n)) ident (frag_flags4 (fv AND 0x8000) p mf) 0))"
    unfolding h_def [symmetric] using hl by (simp add: fh)
  note hn = hdr4_nth [OF ihl, folded h_def]
  show f0: "f ! 0 = b ! 0" using at [of 0] by (simp add: h_def hdr4_nth [OF ihl])
  show i: "ihl4 f = ihl4 b" by (simp add: ihl4_def f0)
  have "u16of (f ! 2) (f ! 3) = word_of_nat (ihl4 b + n)"
    using at [of 2] at [of 3] by (simp add: h_def hdr4_nth [OF ihl])
  moreover have "ihl4 b + n \<le> 65535" using n by simp
  ultimately have "unat (u16of (f ! 2) (f ! 3)) = ihl4 b + n" by (simp only: unat_u16_of_nat)
  then show t: "ftot4 f = ihl4 b + n" using l n by (simp add: ftot4_def)
  have fl: "u16of (f ! 6) (f ! 7) = frag_flags4 (fv AND 0x8000) p mf"
    using at [of 6] at [of 7] by (simp add: h_def hdr4_nth [OF ihl])
  have p8: "p div 8 < 8192" using n by (simp add: less_mult_imp_div_less)
  then have un: "unat (word_of_nat (p div 8) :: u16) = p div 8" by (intro unat_u16_of_nat) simp
  then have w: "(word_of_nat (p div 8) :: u16) < 0x2000" using p8 by (simp add: word_less_nat_alt)
  show "foff4 f = p" unfolding foff4_def fl frag_flags4_def frag_flags4_read(1) [OF w] un using n(3) by simp
  show "fmore4 f = mf" unfolding fmore4_def fl frag_flags4_def by (rule frag_flags4_read(2) [OF w])
  show "fpay4 f = take n (drop p payload)" unfolding fpay4_def i t using hl l by (simp add: fh)
  have d: "drop 12 f = drop 12 (take (ihl4 b) b) @ take n (drop p payload)"
    using hl ihl by (simp add: fh) (simp add: h_def hdr4_nth [OF ihl])
  have "take 4 (drop 12 f) = take 4 (drop 12 b)" using ihl by (simp add: d drop_take min_def)
  moreover have "drop 16 f = drop 16 (take (ihl4 b) b) @ take n (drop p payload)"
    using arg_cong [OF d, of "drop 4"] ihl by simp
  then have "take 4 (drop 16 f) = take 4 (drop 16 b)" using ihl by (simp add: drop_take min_def)
  moreover have "f ! 9 = b ! 9" "u16of (f ! 4) (f ! 5) = ident"
    using at [of 9] at [of 4] at [of 5] by (simp_all add: h_def hdr4_nth [OF ihl])
  ultimately show "fkey4 f = \<lparr>k4Src = take 4 (drop 12 b), k4Dst = take 4 (drop 16 b), k4Proto = b ! 9, k4Id = ident\<rparr>"
    by (simp add: fkey4_def)
qed

section \<open>Pushing one fragment\<close>

text \<open>The datagram \<open>b\<close> with identification \<open>ident\<close>, cut into chunks of \<open>mp\<close> bytes.\<close>

definition pay4 :: "bytes \<Rightarrow> bytes" where
  "pay4 b = drop (ihl4 b) (take (ftot4 b) b)"

definition cut4 :: "bytes \<Rightarrow> nat \<Rightarrow> (nat \<times> nat \<times> bool) list" where
  "cut4 b mp = chunk_list (length (pay4 b)) mp 0"

definition fr4 :: "bytes \<Rightarrow> u16 \<Rightarrow> nat \<times> nat \<times> bool \<Rightarrow> bytes" where
  "fr4 b ident = (\<lambda>(p, n, mf). frag4 b (ihl4 b) (pay4 b) ident (u16of (b ! 6) (b ! 7) AND 0x8000) p n mf)"

definition pc4 :: "bytes \<Rightarrow> nat \<times> nat \<times> bool \<Rightarrow> piece" where
  "pc4 b = (\<lambda>(p, n, mf). \<lparr>pcOff = p, pcData = take n (drop p (pay4 b))\<rparr>)"

definition kf4 :: "bytes \<Rightarrow> u16 \<Rightarrow> key4" where
  "kf4 b ident = \<lparr>k4Src = take 4 (drop 12 b), k4Dst = take 4 (drop 16 b), k4Proto = b ! 9, k4Id = ident\<rparr>"

definition cuttable :: "bytes \<Rightarrow> nat \<Rightarrow> bool" where
  "cuttable b mp \<longleftrightarrow> drop_bit 4 (b ! 0) = 4 \<and> 20 \<le> ihl4 b \<and> ihl4 b < ftot4 b \<and> ftot4 b \<le> 65535 \<and>
     8 dvd mp \<and> 0 < mp \<and> mp < length (pay4 b) \<and>
     u16of (b ! 6) (b ! 7) AND 0x3fff = 0 \<and> u16of (b ! 6) (b ! 7) AND 0x4000 = 0"

lemma length_pay4: "length (pay4 b) = ftot4 b - ihl4 b"
  using ftot4_le [of b] by (simp add: pay4_def)

lemma chunk_facts:
  assumes "cuttable b mp" "(p, n, mf) \<in> set (cut4 b mp)"
  shows "0 < n" "p + n \<le> length (pay4 b)" "8 dvd p" "mf \<longleftrightarrow> p + n < length (pay4 b)" "mf \<Longrightarrow> 8 dvd n"
    "ihl4 b + p + n \<le> 65535" "p = 0 \<Longrightarrow> mf"
proof -
  have mp: "0 < mp" "8 dvd mp" using assms(1) by (simp_all add: cuttable_def)
  note e = chunk_list_elem [OF mp(1) assms(2) [unfolded cut4_def]]
  have "mp dvd p" using e by simp
  with mp(2) show "8 dvd p" by (rule dvd_trans)
  show "0 < n" "p + n \<le> length (pay4 b)" "mf \<longleftrightarrow> p + n < length (pay4 b)" using e by auto
  show "mf \<Longrightarrow> 8 dvd n" using e mp(2) by auto
  show "ihl4 b + p + n \<le> 65535" using e assms(1) by (auto simp: length_pay4 cuttable_def)
  show "p = 0 \<Longrightarrow> mf" using e assms(1) by (auto simp: cuttable_def)
qed

lemma PushInfo4_fragment:
  assumes "cuttable b mp" "(p, n, mf) \<in> set (cut4 b mp)"
  shows "PushInfo4 now (fr4 b ident (p, n, mf)) r =
    insert4 now (fr4 b ident (p, n, mf)) (kf4 b ident) (ihl4 b) (ihl4 b + n) p mf (take n (drop p (pay4 b))) (sweepLocked now r)"
proof -
  note c = chunk_facts [OF assms]
  have ihl: "20 \<le> ihl4 b" "ihl4 b \<le> length b" "drop_bit 4 (b ! 0) = 4"
    using assms(1) ftot4_le [of b] by (auto simp: cuttable_def)
  let ?f = "fr4 b ident (p, n, mf)"
  note ff = frag4_fields [OF refl ihl(1,2) c(1,2,3,6), of ident "u16of (b ! 6) (b ! 7)" mf]
  have f: "?f = frag4 b (ihl4 b) (pay4 b) ident (u16of (b ! 6) (b ! 7) AND 0x8000) p n mf" by (simp add: fr4_def)
  have l: "length (take n (drop p (pay4 b))) = n" using c(2) by simp
  have "p \<noteq> 0 \<or> mf" using c(7) by blast
  moreover have "mf \<longrightarrow> n mod 8 = 0" using c(5) by auto
  moreover have "p + n \<le> 65535 - ihl4 b" using c(6) by linarith
  moreover have "take n (drop p (pay4 b)) \<noteq> []" using l c(1) by auto
  moreover have "20 \<le> length ?f" "drop_bit 4 (?f ! 0) = 4" using ff(1,2) ihl by (simp_all add: f)
  ultimately show ?thesis
    using PushInfo4_eq [of ?f now r] ihl c(1) l by (auto simp: f ff kf4_def)
qed

section \<open>Pushing all fragments\<close>

definition hd4 :: "bytes \<Rightarrow> nat \<Rightarrow> u16 \<Rightarrow> bytes" where
  "hd4 b mp ident = take (ihl4 b) (fr4 b ident (0, mp, True))"

text \<open>The entry after the chunks \<open>cs\<close> have been pushed.\<close>

definition entry_for :: "bytes \<Rightarrow> nat \<Rightarrow> u16 \<Rightarrow> (nat \<times> nat \<times> bool) list \<Rightarrow> int \<Rightarrow> datagram4 \<Rightarrow> bool" where
  "entry_for b mp ident cs t0 d \<longleftrightarrow>
     dPieces d = map (pc4 b) cs \<and> (dHaveLast d \<longleftrightarrow> (\<exists>c \<in> set cs. \<not> snd (snd c))) \<and>
     (dHaveLast d \<longrightarrow> dLast d = int (length (pay4 b))) \<and>
     dHeader d = (if 0 \<in> fst ` set cs then Some (hd4 b mp ident) else None) \<and> t0 \<le> dUpdated d"

definition pushed :: "bytes \<Rightarrow> nat \<Rightarrow> u16 \<Rightarrow> (nat \<times> nat \<times> bool) list \<Rightarrow> int \<Rightarrow> IPv4 \<Rightarrow> bool" where
  "pushed b mp ident cs t0 r \<longleftrightarrow> tab_ok header_ok r \<and>
     (case map_of (rM r) (kf4 b ident) of
       None \<Rightarrow> cs = [] \<and> length (rM r) < rMaxEntries r
     | Some d \<Rightarrow> entry_for b mp ident cs t0 d)"

lemma pushed_sweep:
  assumes "pushed b mp ident cs t0 r" "now \<le> t0 + rTtl r"
  shows "pushed b mp ident cs t0 (sweepLocked now r)" "rBytes (sweepLocked now r) \<le> rBytes r"
    "same_limits r (sweepLocked now r)"
proof -
  have ok: "tab_ok header_ok r" using assms(1) by (simp add: pushed_def)
  note s = sweep_facts [OF ok, of now]
  show "rBytes (sweepLocked now r) \<le> rBytes r" by (rule s(2))
  show l: "same_limits r (sweepLocked now r)" using ok by (rule same_limits_sweep)
  have "now - dUpdated d \<le> rTtl r" if "entry_for b mp ident cs t0 d" for d
    using that assms(2) by (simp add: entry_for_def)
  then show "pushed b mp ident cs t0 (sweepLocked now r)"
    using assms(1) tab_ok_sweep [OF ok, of now] s(1) [of "kf4 b ident"] s(3) l
    by (auto simp: pushed_def same_limits_def split: option.splits)
qed

lemma piece_end_pc4: "p + n \<le> length (pay4 b) \<Longrightarrow> piece_end (pc4 b (p, n, mf)) = p + n"
  by (simp add: pc4_def piece_end_def)

lemma no_overlap:
  assumes "cuttable b mp" "set cs \<subseteq> set (cut4 b mp)" "c \<in> set (cut4 b mp)" "c \<notin> set cs"
  shows "\<not> overlaps (map (pc4 b) cs) (fst c) (fst c + fst (snd c))"
proof -
  have mp: "0 < mp" using assms(1) by (simp add: cuttable_def)
  have "\<not> (fst c < p + n \<and> p < fst c + fst (snd c))" "p + n \<le> length (pay4 b)" if "(p, n, mf) \<in> set cs" for p n mf
  proof -
    obtain p' n' mf' where c: "c = (p', n', mf')" by (cases c)
    have i: "(p, n, mf) \<in> set (cut4 b mp)" using that assms(2) by auto
    have "(p, n, mf) \<noteq> c" using that assms(4) by auto
    with chunk_list_disjoint [OF mp i [unfolded cut4_def] assms(3) [unfolded cut4_def c]] c
    show "\<not> (fst c < p + n \<and> p < fst c + fst (snd c))" by auto
    show "p + n \<le> length (pay4 b)" using chunk_facts [OF assms(1) i] by simp
  qed
  then show ?thesis by (force simp: overlaps_def list_ex_iff pc4_def)
qed

lemma all_covered:
  assumes "cuttable b mp" "set cs = set (cut4 b mp)"
  shows "covers (map (pc4 b) cs) (int (length (pay4 b)))"
proof -
  have mp: "0 < mp" using assms(1) by (simp add: cuttable_def)
  have "\<exists>q \<in> set cs. pcOff (pc4 b q) \<le> i \<and> i < piece_end (pc4 b q)" if "i < length (pay4 b)" for i
  proof -
    from chunk_list_cover [OF mp le0 that] obtain p n mf where c: "(p, n, mf) \<in> set cs" "p \<le> i" "i < p + n"
      by (auto simp: assms(2) cut4_def)
    have "p + n \<le> length (pay4 b)" using chunk_facts(2) [OF assms(1)] c(1) assms(2) by blast
    with c show ?thesis by (intro bexI [OF _ c(1)]) (simp add: pc4_def piece_end_def)
  qed
  then show ?thesis by (auto simp: covers_def simp del: split_paired_Ex)
qed

lemma entry_for_added:
  assumes "cuttable b mp" "c \<in> set (cut4 b mp)" "entry_for b mp ident cs t0 d" "t0 \<le> now" "c = (p, n, mf)"
  shows "entry_for b mp ident (cs @ [c]) t0 (added4 now (fr4 b ident c) (ihl4 b) tot p mf (take n (drop p (pay4 b))) d)"
proof -
  note cf = chunk_facts [OF assms(1) assms(2) [unfolded assms(5)]]
  have mp: "0 < mp" using assms(1) by (simp add: cuttable_def)
  have "p = 0 \<Longrightarrow> mf = True \<and> n = mp"
    using chunk_list_elem [OF mp assms(2) [unfolded assms(5) cut4_def]] cf(7) by simp
  then have "p = 0 \<Longrightarrow> take (ihl4 b) (fr4 b ident c) = hd4 b mp ident" by (simp add: hd4_def assms(5))
  then show ?thesis
    using assms(3,4,5) cf by (auto simp: entry_for_def added4_def pc4_def)
qed

lemma entry_for_fresh: "t0 \<le> now \<Longrightarrow> entry_for b mp ident [] t0 (fresh4 now)"
  by (simp add: entry_for_def fresh4_def)

lemma not_covered:
  assumes "cuttable b mp" "set cs \<subset> set (cut4 b mp)"
  shows "\<not> covers (map (pc4 b) cs) (int (length (pay4 b)))"
proof
  assume cov: "covers (map (pc4 b) cs) (int (length (pay4 b)))"
  have mp: "0 < mp" using assms(1) by (simp add: cuttable_def)
  from assms(2) obtain c where c: "c \<in> set (cut4 b mp)" "c \<notin> set cs" by auto
  obtain p n mf where pn: "c = (p, n, mf)" by (cases c)
  note cf = chunk_facts [OF assms(1) c(1) [unfolded pn]]
  have "p < length (pay4 b)" using cf by simp
  with cov obtain q where q: "q \<in> set cs" "pcOff (pc4 b q) \<le> p" "p < piece_end (pc4 b q)"
    by (auto simp: covers_def)
  obtain p' n' mf' where q': "q = (p', n', mf')" by (cases q)
  have qc: "q \<in> set (cut4 b mp)" using q(1) assms(2) by auto
  have "p' \<le> p" "p < p' + n'"
    using q(2,3) piece_end_pc4 [of p' n' b mf'] chunk_facts(2) [OF assms(1) qc [unfolded q']] by (simp_all add: q' pc4_def)
  moreover have "q \<noteq> c" using q(1) c(2) by auto
  ultimately show False
    using chunk_list_disjoint [OF mp qc [unfolded q' cut4_def] c(1) [unfolded pn cut4_def]] cf(1) by (auto simp: q' pn)
qed

text \<open>The datagram that comes back: its length and identification fields are filled in and its
  checksum is cleared.\<close>

definition whole4 :: "bytes \<Rightarrow> u16 \<Rightarrow> bytes" where
  "whole4 b ident = overwrite (overwrite (overwrite (take (ftot4 b) b) 2 (u16be (word_of_nat (ftot4 b))))
     4 (u16be ident)) 10 [0, 0]"

lemma whole4_eq:
  assumes "cuttable b mp"
  shows "whole4 b ident = hdr4 b (ihl4 b) (word_of_nat (ftot4 b)) ident (u16of (b ! 6) (b ! 7)) 0 @ pay4 b"
proof -
  have ihl: "20 \<le> ihl4 b" "ihl4 b \<le> length b" "ihl4 b \<le> ftot4 b" using assms ftot4_le [of b] by (auto simp: cuttable_def)
  have "take (ftot4 b) b = take (ihl4 b) (take (ftot4 b) b) @ pay4 b"
    unfolding pay4_def by (rule append_take_drop_id [symmetric])
  then have t: "take (ftot4 b) b = take (ihl4 b) b @ pay4 b" using ihl by (simp add: min_def)
  have z: "[0, 0] = u16be 0" by (simp add: u16be_def u16hi_def u16lo_def)
  show ?thesis
    unfolding whole4_def t z using ihl
    by (simp add: overwrite_append1 hdr4_self [OF ihl(1,2), symmetric] hdr4_set)
qed

lemma hdr4_hdr4:
  assumes "20 \<le> ihl" "ihl \<le> length b"
  shows "hdr4 (hdr4 b ihl l i f c) ihl l' i' f' c' = hdr4 b ihl l' i' f' c'"
  using assms by (simp add: hdr4_def)

lemma first_chunk:
  assumes "cuttable b mp"
  shows "(0, mp, True) \<in> set (cut4 b mp)"
proof -
  have mp: "0 < mp" and pos: "0 < length (pay4 b)" using assms by (auto simp: cuttable_def)
  obtain n0 mf0 where c0: "(0, n0, mf0) \<in> set (cut4 b mp)"
    using chunk_list_cover [OF mp le0 pos] by (auto simp: cut4_def)
  with chunk_list_elem [OF mp c0 [unfolded cut4_def]] chunk_facts(7) [OF assms c0] show ?thesis by simp
qed

lemma last_chunk:
  assumes "cuttable b mp"
  shows "\<exists>c \<in> set (cut4 b mp). \<not> snd (snd c)"
proof -
  have mp: "0 < mp" and pos: "length (pay4 b) - 1 < length (pay4 b)" using assms by (auto simp: cuttable_def)
  from chunk_list_cover [OF mp le0 pos] obtain p n mf where
    c: "(p, n, mf) \<in> set (cut4 b mp)" "length (pay4 b) - 1 < p + n" by (auto simp: cut4_def)
  with chunk_facts(4) [OF assms c(1)] show ?thesis by force
qed

lemma hd4_facts:
  assumes "cuttable b mp" and "h = hd4 b mp ident"
  shows "length h = ihl4 b" "u16of (h ! 4) (h ! 5) = ident" "u16of (h ! 6) (h ! 7) AND 0xC000 = u16of (b ! 6) (b ! 7)"
    "hdr4 h (ihl4 b) l i f c = hdr4 b (ihl4 b) l i f c"
proof -
  have ihl: "20 \<le> ihl4 b" "ihl4 b \<le> length b" using assms(1) ftot4_le [of b] by (auto simp: cuttable_def)
  note cf = chunk_facts [OF assms(1) first_chunk [OF assms(1)]]
  note ff = frag4_fields [OF refl ihl cf(1,2,3,6), of ident "u16of (b ! 6) (b ! 7)" True]
  show "length h = ihl4 b" using ff(1) by (simp add: assms(2) hd4_def fr4_def)
  obtain ck where h: "h = hdr4 b (ihl4 b) (word_of_nat (ihl4 b + mp)) ident (frag_flags4 (u16of (b ! 6) (b ! 7) AND 0x8000) 0 True) ck"
    using ff(8) by (simp add: assms(2) hd4_def fr4_def)
  show "u16of (h ! 4) (h ! 5) = ident" by (simp add: h hdr4_nth [OF ihl])
  show "hdr4 h (ihl4 b) l i f c = hdr4 b (ihl4 b) l i f c" by (simp add: h hdr4_hdr4 [OF ihl])
  have "u16of (h ! 6) (h ! 7) AND 0xC000 = u16of (b ! 6) (b ! 7) AND 0x8000"
    using frag_flags4_read(3) [of 0 "u16of (b ! 6) (b ! 7)" True] by (simp add: h hdr4_nth [OF ihl] frag_flags4_def)
  then show "u16of (h ! 6) (h ! 7) AND 0xC000 = u16of (b ! 6) (b ! 7)"
    using reserved_flag assms(1) by (simp add: cuttable_def)
qed

lemma reassembled4_whole:
  assumes "cuttable b mp" "set cs = set (cut4 b mp)" "entry_for b mp ident cs t0 d" "reassembled4 d (hd4 b mp ident) out"
  shows "out = whole4 b ident"
proof -
  let ?i = "ihl4 b"
  have mp: "0 < mp" using assms(1) by (simp add: cuttable_def)
  have ihl: "20 \<le> ihl4 b" "ihl4 b \<le> ftot4 b" using assms(1) by (auto simp: cuttable_def)
  note h = hd4_facts [OF assms(1) refl, of ident]
  have last: "dLast d = int (length (pay4 b))" using last_chunk [OF assms(1)] assms(2,3) by (auto simp: entry_for_def)
  have r: "length out = ?i + length (pay4 b)" "take ?i out = hdr4 b ?i (word_of_nat (length out)) ident (u16of (b ! 6) (b ! 7)) 0"
    "\<forall>q \<in> set (dPieces d). take (length (pcData q)) (drop (?i + pcOff q) out) = pcData q"
    using assms(4) by (simp_all add: reassembled4_def last h)
  have "drop ?i out = pay4 b"
  proof (rule nth_equalityI)
    fix j assume "j < length (drop ?i out)"
    then have j: "j < length (pay4 b)" using r(1) by simp
    from chunk_list_cover [OF mp le0 j] obtain p n mf where c: "(p, n, mf) \<in> set (cut4 b mp)" "p \<le> j" "j < p + n"
      by (auto simp: cut4_def)
    have pn: "p + n \<le> length (pay4 b)" using chunk_facts(2) [OF assms(1) c(1)] .
    have "pc4 b (p, n, mf) \<in> set (dPieces d)" using c(1) assms(2,3) by (simp add: entry_for_def)
    with r(3) pn have "take n (drop (?i + p) out) = take n (drop p (pay4 b))" by (force simp: pc4_def)
    then have "take n (drop (?i + p) out) ! (j - p) = take n (drop p (pay4 b)) ! (j - p)" by simp
    with c pn r(1) show "drop ?i out ! j = pay4 b ! j" by simp
  qed (simp add: r(1))
  moreover have "length out = ftot4 b" using r(1) ihl by (simp add: length_pay4)
  ultimately have "out = hdr4 b ?i (word_of_nat (ftot4 b)) ident (u16of (b ! 6) (b ! 7)) 0 @ pay4 b"
    using r(2) append_take_drop_id [of ?i out] by simp
  then show ?thesis using whole4_eq [OF assms(1)] by simp
qed

text \<open>A fragment that was not pushed yet is accepted.\<close>

lemma push_accepted:
  assumes "cuttable b mp" "pushed b mp ident cs t0 r" "set cs \<subseteq> set (cut4 b mp)" "c \<in> set (cut4 b mp)" "c \<notin> set cs"
    and "t0 \<le> now" "now \<le> t0 + rTtl r" "rBytes r + int (fst (snd c)) \<le> rMaxBytes r"
  obtains d r' where "PushInfo4 now (fr4 b ident c) r = (case dHeader d of None \<Rightarrow> Some (Inr waitResult, r')
       | Some h \<Rightarrow> if dHaveLast d then complete4 (kf4 b ident) d h r' else Some (Inr waitResult, r'))"
    "dg_ok d" "header_ok d" "entry_for b mp ident (cs @ [c]) t0 d" "pushed b mp ident (cs @ [c]) t0 r'"
    "rBytes r' \<le> rBytes r + int (fst (snd c))" "same_limits r r'"
proof -
  obtain p n mf where pn: "c = (p, n, mf)" by (cases c)
  note cin = assms(4) [unfolded pn]
  note cf = chunk_facts [OF assms(1) cin]
  let ?s = "sweepLocked now r" and ?k = "kf4 b ident" and ?f = "fr4 b ident c" and ?pl = "take n (drop p (pay4 b))"
  note sw = pushed_sweep [OF assms(2,7)]
  have ok: "tab_ok header_ok ?s" and room: "\<not> (map_of (rM ?s) ?k = None \<and> rMaxEntries ?s \<le> length (rM ?s))"
    using sw(1) by (auto simp: pushed_def)
  let ?d = "entry4 now ?k ?s" and ?r0 = "open4 now ?k ?s"
  note op = tab_ok_open4 [OF ok room, of now]
  have ef: "entry_for b mp ident cs t0 ?d"
    using sw(1) entry_for_fresh [OF assms(6)] by (auto simp: pushed_def entry4_def split: option.splits)
  have pl: "length ?pl = n" using cf(2) by simp
  have nov: "\<not> overlaps (dPieces ?d) p (p + length ?pl)"
    using no_overlap [OF assms(1,3,4,5)] ef pl by (simp add: entry_for_def pn)
  have mem: "\<not> rBytes ?s + int (length ?pl) > rMaxBytes ?s"
    using sw(2,3) assms(8) pl by (simp add: same_limits_def pn)
  have ihl: "20 \<le> ihl4 b" "ihl4 b \<le> length b" using assms(1) ftot4_le [of b] by (auto simp: cuttable_def)
  have fl: "length ?f = ihl4 b + n"
    using frag4_fields(1) [OF refl ihl cf(1,2,3,6)] by (simp add: pn fr4_def)
  let ?d' = "added4 now ?f (ihl4 b) (ihl4 b + n) p mf ?pl ?d"
  let ?r' = "(set_entry ?k ?d' ?r0)\<lparr>rBytes := rBytes ?r0 + int (length ?pl)\<rparr>"
  have e: "PushInfo4 now ?f r = (case dHeader ?d' of None \<Rightarrow> Some (Inr waitResult, ?r')
       | Some h \<Rightarrow> if dHaveLast ?d' then complete4 ?k ?d' h ?r' else Some (Inr waitResult, ?r'))"
    using PushInfo4_fragment [OF assms(1) cin, of now ident r] room nov mem
      insert4_eq [of "ihl4 b" ?f ?d now ?k ?s ?r0 ?d' "ihl4 b + n" p mf ?pl ?r'] fl
    by (auto simp: pn)
  have ef': "entry_for b mp ident (cs @ [c]) t0 ?d'"
    by (rule entry_for_added [OF assms(1,4) ef assms(6) pn])
  have d': "dg_ok ?d'" using nov tab_ok_entry [OF op(1,2)] by (intro dg_ok_added4) auto
  have h': "header_ok ?d'"
    using tab_ok_entry [OF op(1,2)] ihl ihl4_le [of b] fl by (simp add: header_ok_def added4_def)
  have t': "tab_ok header_ok ?r'"
    using mem op by (intro tab_ok_set [OF op(1,2) d' h']) (simp_all add: added4_def same_limits_def)
  have m: "map_of (rM ?r') ?k = Some ?d'" by (simp add: set_entry_def update_conv')
  have "pushed b mp ident (cs @ [c]) t0 ?r'" using t' m ef' by (simp add: pushed_def)
  moreover have "same_limits r ?r'"
    using same_limits_trans [OF sw(3) op(3)] by (simp add: same_limits_def set_entry_def)
  moreover have "rBytes ?r' \<le> rBytes r + int (fst (snd c))" using sw(2) op(4) pl by (simp add: pn)
  ultimately show thesis by (intro that [OF e d' h' ef'])
qed

lemma push_step:
  assumes "cuttable b mp" "pushed b mp ident cs t0 r" "set cs \<subseteq> set (cut4 b mp)" "c \<in> set (cut4 b mp)" "c \<notin> set cs"
    and "t0 \<le> now" "now \<le> t0 + rTtl r" "rBytes r + int (fst (snd c)) \<le> rMaxBytes r"
  shows "if set (cs @ [c]) = set (cut4 b mp) then
      \<exists>r' m. PushInfo4 now (fr4 b ident c) r =
        Some (Inr \<lparr>rsPacket = whole4 b ident, rsReady = True, rsFragmented = True, rsMTU = m\<rparr>, r')
    else \<exists>r'. PushInfo4 now (fr4 b ident c) r = Some (Inr waitResult, r') \<and> pushed b mp ident (cs @ [c]) t0 r' \<and>
        rBytes r' \<le> rBytes r + int (fst (snd c)) \<and> same_limits r r'"
proof (rule push_accepted [OF assms])
  fix d r'
  assume e: "PushInfo4 now (fr4 b ident c) r = (case dHeader d of None \<Rightarrow> Some (Inr waitResult, r')
       | Some h \<Rightarrow> if dHaveLast d then complete4 (kf4 b ident) d h r' else Some (Inr waitResult, r'))"
    and d: "dg_ok d" "header_ok d" and ef: "entry_for b mp ident (cs @ [c]) t0 d"
    and r': "pushed b mp ident (cs @ [c]) t0 r'" "rBytes r' \<le> rBytes r + int (fst (snd c))" "same_limits r r'"
  have pe: "piece_end (pc4 b x) \<le> length (pay4 b)" if "x \<in> set (cut4 b mp)" for x
  proof (cases x)
    case (fields p n mf)
    with chunk_facts(2) [OF assms(1) that [unfolded fields]] show ?thesis by (simp add: piece_end_pc4)
  qed
  have pcs: "dPieces d = map (pc4 b) (cs @ [c])" using ef by (simp add: entry_for_def)
  then have past: "\<not> (\<exists>q \<in> set (dPieces d). int (piece_end q) > int (length (pay4 b)))"
    using pe assms(3,4) by (auto simp: not_less simp del: split_paired_All split_paired_Ex)
  have last: "dHaveLast d \<Longrightarrow> dLast d = int (length (pay4 b))" using ef by (simp add: entry_for_def)
  show ?thesis
  proof (cases "set (cs @ [c]) = set (cut4 b mp)")
    case True
    have "0 \<in> fst ` set (cs @ [c])" using first_chunk [OF assms(1)] unfolding True by (rule image_eqI [rotated]) simp
    then have h: "dHeader d = Some (hd4 b mp ident)" using ef by (simp only: entry_for_def if_True)
    have l: "dHaveLast d" using ef last_chunk [OF assms(1)] unfolding entry_for_def True by blast
    have "covers (dPieces d) (dLast d)"
      using all_covered [OF assms(1) True] pcs last [OF l] by simp
    moreover have "int (length (hd4 b mp ident)) + dLast d \<le> 65535"
      using hd4_facts(1) [OF assms(1) refl] last [OF l] assms(1) by (simp add: cuttable_def length_pay4)
    ultimately show ?thesis
      using complete4_cases [OF d h l, of "kf4 b ident" r'] past last [OF l] e h l True
        reassembled4_whole [OF assms(1) True ef]
      by auto
  next
    case False
    with assms(3,4) have "set (cs @ [c]) \<subset> set (cut4 b mp)" by auto
    from not_covered [OF assms(1) this] have nc: "dHaveLast d \<Longrightarrow> \<not> covers (dPieces d) (dLast d)"
      using last pcs by simp
    have hl: "dHeader d = Some h \<Longrightarrow> int (length h) + int (length (pay4 b)) \<le> 65535" for h
      using ef hd4_facts(1) [OF assms(1) refl, of ident] assms(1)
      by (auto simp: entry_for_def cuttable_def length_pay4 split: if_splits)
    show ?thesis
    proof (cases "\<exists>h. dHeader d = Some h \<and> dHaveLast d")
      case True
      then obtain h where h: "dHeader d = Some h" "dHaveLast d" by blast
      from complete4_cases [OF d h, of "kf4 b ident" r'] past hl [OF h(1)] last [OF h(2)] nc [OF h(2)] e h r' False
      show ?thesis by (auto simp: reassembled4_def)
    next
      case no: False
      with e r' False show ?thesis by (auto split: option.splits)
    qed
  qed
qed

lemma push_rest:
  assumes "cuttable b mp" "length ts = length rest" "\<forall>t \<in> set ts. t0 \<le> t \<and> t \<le> t0 + rTtl r" "rest \<noteq> []"
    and "pushed b mp ident cs t0 r" "distinct (cs @ rest)" "set (cs @ rest) = set (cut4 b mp)"
    and "rBytes r + int (\<Sum>c\<leftarrow>rest. fst (snd c)) \<le> rMaxBytes r"
  shows "\<exists>r' m. run_ops PushInfo4 (map2 OpPush ts (map (fr4 b ident) rest)) r =
    Some (replicate (length rest - 1) (Inr waitResult) @
      [Inr \<lparr>rsPacket = whole4 b ident, rsReady = True, rsFragmented = True, rsMTU = m\<rparr>], r')"
  using assms
proof (induction rest arbitrary: ts cs r)
  case (Cons c rest)
  then obtain t ts' where ts: "ts = t # ts'" by (cases ts) auto
  have st: "set cs \<subseteq> set (cut4 b mp)" "c \<in> set (cut4 b mp)" "c \<notin> set cs" "t0 \<le> t" "t \<le> t0 + rTtl r"
    "rBytes r + int (fst (snd c)) \<le> rMaxBytes r"
    using Cons.prems(3,6,7,8) ts by auto
  note step = push_step [OF Cons.prems(1,5) st]
  show ?case
  proof (cases "rest = []")
    case True
    with Cons.prems(7) have "set (cs @ [c]) = set (cut4 b mp)" by simp
    with step obtain r' m where "PushInfo4 t (fr4 b ident c) r =
        Some (Inr \<lparr>rsPacket = whole4 b ident, rsReady = True, rsFragmented = True, rsMTU = m\<rparr>, r')" by auto
    with True ts Cons.prems(2) show ?thesis by simp
  next
    case False
    then have "set (cs @ [c]) \<noteq> set (cut4 b mp)" using Cons.prems(6,7) by (cases rest) auto
    with step obtain r1 where r1: "PushInfo4 t (fr4 b ident c) r = Some (Inr waitResult, r1)"
      "pushed b mp ident (cs @ [c]) t0 r1" "rBytes r1 \<le> rBytes r + int (fst (snd c))" "same_limits r r1" by auto
    have "\<exists>r' m. run_ops PushInfo4 (map2 OpPush ts' (map (fr4 b ident) rest)) r1 =
      Some (replicate (length rest - 1) (Inr waitResult) @
        [Inr \<lparr>rsPacket = whole4 b ident, rsReady = True, rsFragmented = True, rsMTU = m\<rparr>], r')"
      using Cons.prems ts False r1 by (intro Cons.IH [of ts' r1 "cs @ [c]"]) (auto simp: same_limits_def)
    then obtain r' m where "run_ops PushInfo4 (map2 OpPush ts' (map (fr4 b ident) rest)) r1 =
      Some (replicate (length rest - 1) (Inr waitResult) @
        [Inr \<lparr>rsPacket = whole4 b ident, rsReady = True, rsFragmented = True, rsMTU = m\<rparr>], r')" by blast
    moreover have "length rest = Suc (length rest - 1)" using False by (cases rest) auto
    ultimately show ?thesis using r1(1) ts by (auto simp flip: replicate_Suc)
  qed
qed simp

lemma mset_map_split: "mset gs = mset (map f cs) \<Longrightarrow> \<exists>ds. gs = map f ds \<and> mset ds = mset cs"
proof (induction gs arbitrary: cs)
  case (Cons g gs)
  from Cons.prems have "g \<in> set (map f cs)" by (metis list.set_intros(1) mset_eq_setD)
  then obtain c where c: "c \<in> set cs" "f c = g" by auto
  then obtain xs ys where xy: "cs = xs @ c # ys" by (auto simp: in_set_conv_decomp)
  with Cons.prems c have "mset gs = mset (map f (xs @ ys))" by simp
  from Cons.IH [OF this] obtain ds where "gs = map f ds" "mset ds = mset (xs @ ys)" by blast
  with c xy show ?case by (intro exI [of _ "c # ds"]) simp
qed simp

lemma chunk_list_sum:
  assumes "0 < mp"
  shows "(\<Sum>c\<leftarrow>chunk_list len mp off. fst (snd c)) = len - off"
  using assms
proof (induction off rule: chunk_list_induct [where len = len])
  case (more off)
  then show ?case using assms by (simp add: chunk_list_more)
qed (simp_all add: chunk_list_last)

lemma fragmentable4_cuttable:
  assumes "fragmentable4 b mtu" "576 \<le> mtu" "drop_bit 4 (b ! 0) = 4" "length b \<le> 65535"
    and "mp = nat ((mtu - int (ihl4 b)) div 8 * 8)"
  shows "cuttable b mp" "frags4 fid b mtu = map (fr4 b (fst (fident4 fid b))) (cut4 b mp)"
proof -
  have l: "ihl4 b \<le> 60" "ftot4 b \<le> length b" by (rule ihl4_le ftot4_le)+
  have f: "20 \<le> ihl4 b" "mtu < int (ftot4 b)" using assms(1) by (simp_all add: fragmentable4_def)
  have q: "0 < (mtu - int (ihl4 b)) div 8 * 8" "(mtu - int (ihl4 b)) div 8 * 8 \<le> mtu - int (ihl4 b)"
    using assms(2) l(1) div_8_le by simp_all
  note q
  moreover from this(2) f(2) l have "mp < length (pay4 b)" using assms(2,5) by (simp add: length_pay4)
  moreover have "int 8 dvd int mp" using q(1) by (simp add: assms(5))
  then have "8 dvd mp" by (simp only: int_dvd_int_iff)
  ultimately show "cuttable b mp"
    using assms f l by (simp add: cuttable_def fragmentable4_def)
  show "frags4 fid b mtu = map (fr4 b (fst (fident4 fid b))) (cut4 b mp)"
    using l(2) by (simp add: frags4_def cut4_def assms(5) fr4_def pay4_def min_absorb2)
qed

section \<open>Property\<close>

text \<open>C18: The fragments \<open>FragmentForMTU\<close> makes of an IPv4 datagram, pushed into a reassembler in
  any order within its time to live, are all kept waiting except the last one, which returns the
  datagram: the bytes of the original with the length and identification fields filled in and
  the checksum cleared. The reassembler may hold anything else as long as it has room for the
  datagram and none of its fragments yet.\<close>

theorem fragment_reassemble_IPv4:
  assumes "fragmentable4 b mtu" "576 \<le> mtu" "drop_bit 4 (b ! 0) = 4" "length b \<le> 65535"
    and "FragmentForMTU fid b mtu = Some (Inr (fs, True), fid')"
    and "mset gs = mset fs" "length ts = length gs" "\<forall>t \<in> set ts. t0 \<le> t \<and> t \<le> t0 + rTtl r"
    and "tab_ok header_ok r" "length (rM r) < rMaxEntries r" "rBytes r + int (length b) \<le> rMaxBytes r"
    and "map_of (rM r) \<lparr>k4Src = take 4 (drop 12 b), k4Dst = take 4 (drop 16 b), k4Proto = b ! 9,
      k4Id = fst (fident4 fid b)\<rparr> = None"
  shows "\<exists>r' m. run_ops PushInfo4 (map2 OpPush ts gs) r =
    Some (replicate (length gs - 1) (Inr waitResult) @
      [Inr \<lparr>rsPacket = overwrite (overwrite (overwrite (take (ftot4 b) b) 2 (u16be (word_of_nat (ftot4 b))))
          4 (u16be (fst (fident4 fid b)))) 10 [0, 0], rsReady = True, rsFragmented = True, rsMTU = m\<rparr>], r')"
proof -
  define mp where "mp = nat ((mtu - int (ihl4 b)) div 8 * 8)"
  note cut = fragmentable4_cuttable [OF assms(1-4) mp_def]
  let ?id = "fst (fident4 fid b)"
  have mp: "0 < mp" using cut(1) by (simp add: cuttable_def)
  have "mtu < int (ftot4 b)" using assms(1) by (simp add: fragmentable4_def)
  then have "mtu < int (length b)" "0 < length b" using assms(2) ftot4_le [of b] by linarith+
  then have "FragmentForMTU fid b mtu = fragmentIPv4 fid b mtu"
    using assms(2,3) idx_Some [of 0 b] unfolding FragmentForMTU_def by (simp only: Option.bind.simps) simp
  then have fs: "fs = map (fr4 b ?id) (cut4 b mp)"
    using assms(5) fragmentIPv4_eq [OF assms(1,2)] cut(2) by simp
  from mset_map_split [OF assms(6) [unfolded fs]] obtain ds where
    ds: "gs = map (fr4 b ?id) ds" "mset ds = mset (cut4 b mp)" by blast
  have set: "set ds = set (cut4 b mp)" "distinct ds"
    using ds(2) distinct_chunk_list [OF mp] by (metis mset_eq_setD, metis cut4_def mset_eq_imp_distinct_iff)
  have "ds \<noteq> []" using set(1) first_chunk [OF cut(1)] by auto
  have "(\<Sum>c\<leftarrow>ds. fst (snd c)) = (\<Sum>c\<leftarrow>cut4 b mp. fst (snd c))"
    by (simp only: sum_mset_sum_list [symmetric] mset_map ds(2))
  also have "\<dots> = length (pay4 b)" using chunk_list_sum [OF mp] by (simp add: cut4_def)
  also have "\<dots> \<le> length b" using ftot4_le [of b] by (simp add: length_pay4)
  finally have "rBytes r + int (\<Sum>c\<leftarrow>ds. fst (snd c)) \<le> rMaxBytes r" using assms(11) by linarith
  moreover have "pushed b mp ?id [] t0 r" using assms(9,10,12) by (simp add: pushed_def kf4_def)
  ultimately show ?thesis
    using push_rest [OF cut(1), of ts ds t0 r ?id "[]"] assms(7,8) set \<open>ds \<noteq> []\<close> ds(1)
    by (simp add: whole4_def)
qed

theorem fragment_reassemble_IPv4_witness:
  "\<exists>fs fid' rs r' m. FragmentForMTU 0 udp_example 576 = Some (Inr (fs, True), fid') \<and>
     run_ops PushInfo4 (map2 OpPush (replicate (length fs) 5) (rev fs)) NewIPv4 =
       Some (rs @ [Inr \<lparr>rsPacket = udp_example, rsReady = True, rsFragmented = True, rsMTU = m\<rparr>], r')"
proof -
  have e: "ihl4 udp_example = 20" "ftot4 udp_example = 600" "fragmentable4 udp_example 576"
    "fident4 0 udp_example = (9, 0)" "length udp_example = 600" "drop_bit 4 (udp_example ! 0) = 4"
    by (simp_all add: fragmentable4_def ihl4_def ftot4_def fident4_def udp_example_def u16of_def)
  obtain fs where fs: "FragmentForMTU 0 udp_example 576 = Some (Inr (fs, True), 0)"
    using fragmentIPv4_eq [OF e(3), of 0] e(4,5,6) idx_Some [of 0 udp_example]
    unfolding FragmentForMTU_def by (simp only: Option.bind.simps) simp
  have ok: "tab_ok header_ok NewIPv4" by (simp add: NewIPv4_def tab_ok_def vals_def)
  have "overwrite (overwrite (overwrite udp_example 2 (u16be 600)) 4 (u16be 9)) 10 [0, 0] = udp_example"
    by (simp add: udp_example_def overwrite_def u16be_def u16hi_def u16lo_def)
  with fragment_reassemble_IPv4 [OF e(3) _ e(6) _ fs, of "rev fs" "replicate (length fs) 5" 5 NewIPv4] e ok fs
  show ?thesis by (force simp: NewIPv4_def)
qed

end
