(* ===== verification/Reassembly6.thy ===== *)
theory Reassembly6
  imports Reassembly
begin

unbundle bit_operations_syntax

text \<open>
  \<open>internal/reassembly/ipv6.go\<close>: the IPv6 reassembler. Its table operations \<open>dropLocked\<close>,
  \<open>sweepLocked\<close>, \<open>Sweep\<close> and \<open>TakeExpired\<close> are textually those of the IPv4 reassembler, so the
  polymorphic definitions of \<open>Reassembly\<close> model both copies.
\<close>

section \<open>Data\<close>

record key6 =
  k6Src :: bytes
  k6Dst :: bytes
  k6Id :: u32
  k6Next :: byte

record datagram6 = datagram +
  dPrefix :: bytes
  dPrevNext :: nat
  dNext :: byte

type_synonym IPv6 = "(key6, datagram6) rtable"

definition NewIPv6 :: IPv6 where
  "NewIPv6 = \<lparr>rM = [], rMaxEntries = 1024, rMaxBytes = 16 * 1048576, rBytes = 0,
     rTtl = 30 * 1000000000, rExpired = 0\<rparr>"

definition dropLocked6 :: "key6 \<Rightarrow> IPv6 \<Rightarrow> IPv6" where
  "dropLocked6 k r = dropLocked k r"

definition sweepLocked6 :: "int \<Rightarrow> IPv6 \<Rightarrow> IPv6" where
  "sweepLocked6 now r = sweepLocked now r"

definition TakeExpired6 :: "IPv6 \<Rightarrow> u64 \<times> IPv6" where
  "TakeExpired6 r = TakeExpired r"

section \<open>Finding the fragment header\<close>

text \<open>\<open>Inr (Some (fragOff, prevNext))\<close> is found, \<open>Inr None\<close> not found.\<close>

function find_loop6 :: "bytes \<Rightarrow> nat \<Rightarrow> nat \<Rightarrow> byte \<Rightarrow> nat \<Rightarrow> (rerr + (nat \<times> nat) option) go" where
  "find_loop6 b tot prevNext nxt off =
     (if nxt = 0 \<or> nxt = 43 \<or> nxt = 60 then
        (if off + 2 > tot then Some (Inl RShortExt6)
         else do {
           l \<leftarrow> idx b (off + 1);
           let n = (unat l + 1) * 8;
           if n < 8 \<or> off + n > tot then Some (Inl RBadExt6)
           else do { nh \<leftarrow> idx b off; find_loop6 b tot off nh (off + n) }
         })
      else if nxt = 51 then
        (if off + 2 > tot then Some (Inl RShortAH6)
         else do {
           l \<leftarrow> idx b (off + 1);
           let n = (unat l + 2) * 4;
           if n < 8 \<or> off + n > tot then Some (Inl RBadAH6)
           else do { nh \<leftarrow> idx b off; find_loop6 b tot off nh (off + n) }
         })
      else if nxt = 44 then Some (Inr (Some (off, prevNext)))
      else Some (Inr None))"
  by pat_completeness auto
termination
  by (relation "measure (\<lambda>(b, tot, pn, nxt, off). tot - off)") auto

declare find_loop6.simps [simp del]

definition findIPv6Fragment :: "bytes \<Rightarrow> (rerr + (nat \<times> nat) option) go" where
  "findIPv6Fragment pkt =
     (if length pkt < 40 \<or> drop_bit 4 (pkt ! 0) \<noteq> 6 then Some (Inl RNotIPv6)
      else do {
        pl \<leftarrow> be16_at pkt 4;
        let tot = 40 + unat pl;
        let tot = (if tot > length pkt \<or> tot < 40 then length pkt else tot);
        nxt \<leftarrow> idx pkt 6;
        find_loop6 pkt tot 6 nxt 40
      })"

section \<open>Operations\<close>

definition complete6 :: "key6 \<Rightarrow> datagram6 \<Rightarrow> IPv6 \<Rightarrow> ((rerr + Result) \<times> IPv6) go" where
  "complete6 k d r = do {
     cov \<leftarrow> make_list (dLast d) False;
     m \<leftarrow> mark_covered (dLast d) (dPieces d) cov;
     (case m of
       Inl _ \<Rightarrow> Some (Inl RPastFinal6, dropLocked6 k r)
     | Inr cov \<Rightarrow>
         if \<not> list_all id cov then Some (Inr waitResult, r)
         else if int (length (dPrefix d)) + dLast d - 40 > 65535 then Some (Inl RExceeds6, dropLocked6 k r)
         else do {
           out \<leftarrow> make_list (int (length (dPrefix d)) + dLast d) 0;
           out \<leftarrow> copy_at out 0 (dPrefix d);
           if dPrevNext d \<ge> length out then Some (Inl RBadPrev6, dropLocked6 k r)
           else do {
             out \<leftarrow> put_at out (dPrevNext d) [dNext d];
             out \<leftarrow> copy_pieces (length (dPrefix d)) (dPieces d) out;
             out \<leftarrow> put_at out 4 (u16be (word_of_int (int (length out) - 40)));
             Some (Inr \<lparr>rsPacket = out, rsReady = True, rsFragmented = True, rsMTU = dMaxPacket d\<rparr>,
               dropLocked6 k r)
           }
         })
   }"

definition insert6 :: "int \<Rightarrow> bytes \<Rightarrow> key6 \<Rightarrow> nat \<Rightarrow> nat \<Rightarrow> byte \<Rightarrow> nat \<Rightarrow> nat \<Rightarrow> bool \<Rightarrow> bytes \<Rightarrow> IPv6 \<Rightarrow>
    ((rerr + Result) \<times> IPv6) go" where
  "insert6 now pkt k fragOff prevNext nxt tot off mf pld r =
     (let e = off + length pld in
      if map_of (rM r) k = None \<and> length (rM r) \<ge> rMaxEntries r then Some (Inl RTableFull6, r)
      else do {
        pre \<leftarrow> slice pkt 0 fragOff;
        let (d, r) = (case map_of (rM r) k of
            Some d \<Rightarrow> (d, r)
          | None \<Rightarrow> let d = \<lparr>dPieces = [], dLast = -1, dHaveLast = False, dUpdated = now, dBytes = 0,
                              dMaxPacket = 0, dPrefix = pre, dPrevNext = prevNext, dNext = nxt\<rparr>
                    in (d, set_entry k d r));
        if dPrevNext d \<noteq> prevNext \<or> length (dPrefix d) \<noteq> fragOff then Some (Inl RInconsistent6, dropLocked6 k r)
        else if overlaps (dPieces d) off e then Some (Inl ROverlap6, dropLocked6 k r)
        else if rBytes r + int (length pld) > rMaxBytes r then Some (Inl RMemLimit6, dropLocked6 k r)
        else let d = d\<lparr>dPieces := dPieces d @ [\<lparr>pcOff = off, pcData = pld\<rparr>], dBytes := dBytes d + int (length pld),
          dUpdated := now, dMaxPacket := (if tot > dMaxPacket d then tot else dMaxPacket d)\<rparr>;
          d = (if \<not> mf then d\<lparr>dLast := int e, dHaveLast := True\<rparr> else d);
          r = (set_entry k d r)\<lparr>rBytes := rBytes r + int (length pld)\<rparr>
        in if \<not> dHaveLast d then Some (Inr waitResult, r) else complete6 k d r
      })"

definition PushInfo6 :: "int \<Rightarrow> bytes \<Rightarrow> IPv6 \<Rightarrow> ((rerr + Result) \<times> IPv6) go" where
  "PushInfo6 now pkt r =
     (if length pkt < 1 \<or> drop_bit 4 (pkt ! 0) \<noteq> 6 then Some (Inr (passResult pkt), r)
      else if length pkt < 40 then Some (Inl RShort6, r)
      else do {
        pl \<leftarrow> be16_at pkt 4;
        if unat pl = 0 then Some (Inl RJumbogram6, r)
        else let tot = 40 + unat pl in
        if tot > length pkt then Some (Inl RTruncated6, r)
        else do {
          c \<leftarrow> slice pkt 0 tot;
          f \<leftarrow> findIPv6Fragment c;
          (case f of
            Inl e \<Rightarrow> Some (Inl e, r)
          | Inr None \<Rightarrow> Some (Inr (passResult c), r)
          | Inr (Some (fragOff, prevNext)) \<Rightarrow>
              if fragOff + 8 > tot then Some (Inl RShortHeader6, r)
              else do {
                nxt \<leftarrow> idx pkt fragOff;
                fv \<leftarrow> be16_at pkt (fragOff + 2);
                let off = unat (drop_bit 3 fv) * 8;
                let mf = (fv AND 1 \<noteq> 0);
                pld \<leftarrow> slice pkt (fragOff + 8) tot;
                if length pld = 0 \<and> mf then Some (Inl REmpty6, r)
                else if mf \<and> length pld mod 8 \<noteq> 0 then Some (Inl RUnaligned6, r)
                else if off + length pld > 65535 then Some (Inl (RTooLarge6 (off + length pld)), r)
                else do {
                  s \<leftarrow> slice pkt 8 24;
                  d \<leftarrow> slice pkt 24 40;
                  i \<leftarrow> be32_at pkt (fragOff + 4);
                  insert6 now pkt \<lparr>k6Src = s, k6Dst = d, k6Id = i, k6Next = nxt\<rparr> fragOff prevNext nxt tot off mf pld
                    (sweepLocked6 now r)
                }
              })
        }
      })"

definition Push6 :: "int \<Rightarrow> bytes \<Rightarrow> IPv6 \<Rightarrow> ((bytes \<times> bool \<times> rerr option) \<times> IPv6) go" where
  "Push6 now pkt r = do {
     (res, r) \<leftarrow> PushInfo6 now pkt r;
     Some ((case res of
         Inl e \<Rightarrow> (rsPacket noResult, rsReady noResult, Some e)
       | Inr x \<Rightarrow> (rsPacket x, rsReady x, None)), r)
   }"

section \<open>Lemmas\<close>

lemma find_loop6_unfold:
  assumes "tot \<le> length b"
  shows "find_loop6 b tot pn nxt off =
     (if is_ext nxt then
        (if off + 2 > tot then Some (Inl (if nxt = 51 then RShortAH6 else RShortExt6))
         else if off + hdr_len b nxt off > tot then Some (Inl (if nxt = 51 then RBadAH6 else RBadExt6))
         else find_loop6 b tot off (b ! off) (off + hdr_len b nxt off))
      else Some (Inr (if nxt = 44 then Some (off, pn) else None)))"
  using assms by (subst find_loop6.simps) (auto simp: Let_def is_ext_def hdr_len_def)

lemma find_loop6_total: "tot \<le> length b \<Longrightarrow> find_loop6 b tot pn nxt off \<noteq> None"
proof (induction nxt off arbitrary: pn rule: walk6_induct [where tot = tot and b = b])
  case (step nxt off)
  then show ?case by (subst find_loop6_unfold) (auto simp: not_less)
qed

text \<open>The specification is the header chain that the parser and the fragmenter walk.\<close>

lemma find_loop6_found_iff:
  assumes "tot \<le> length b"
  shows "find_loop6 b tot pn nxt off = Some (Inr (Some (o', pn'))) \<longleftrightarrow> hdr_chain b tot pn nxt off pn' 44 o'"
proof (induction nxt off arbitrary: pn rule: walk6_induct [where tot = tot and b = b])
  case (step nxt off)
  show ?case
    using step by (subst find_loop6_unfold [OF assms], subst hdr_chain.simps) (auto simp: not_less is_ext_def)
qed

lemma findIPv6Fragment_total: "findIPv6Fragment b \<noteq> None"
proof (cases "length b < 40 \<or> drop_bit 4 (b ! 0) \<noteq> 6")
  case False
  then show ?thesis by (simp add: findIPv6Fragment_def Let_def find_loop6_total del: not_None_eq)
qed (auto simp: findIPv6Fragment_def)

lemma findIPv6Fragment_found:
  assumes "findIPv6Fragment b = Some (Inr (Some (o', pn')))"
  shows "40 \<le> o'" "pn' < o'" "40 \<le> length b" "o' \<le> length b"
proof -
  show l: "40 \<le> length b" using assms by (auto simp: findIPv6Fragment_def split: if_splits)
  define tot where "tot = (if 40 + unat (u16of (b ! 4) (b ! 5)) > length b then length b else 40 + unat (u16of (b ! 4) (b ! 5)))"
  have t: "tot \<le> length b" "40 \<le> tot" using l by (simp_all add: tot_def)
  have "find_loop6 b tot 6 (b ! 6) 40 = Some (Inr (Some (o', pn')))"
    using assms l by (simp add: findIPv6Fragment_def Let_def tot_def split: if_splits)
  then have c: "hdr_chain b tot 6 (b ! 6) 40 pn' 44 o'" by (simp add: find_loop6_found_iff [OF t(1)])
  from hdr_chain_bounds [OF c] hdr_chain_prev_bounds [OF c] t show "40 \<le> o'" "pn' < o'" "o' \<le> length b" by auto
qed

definition prefix_ok :: "datagram6 \<Rightarrow> bool" where
  "prefix_ok d \<longleftrightarrow> 40 \<le> length (dPrefix d) \<and> dPrevNext d < length (dPrefix d)"

text \<open>A completed datagram: the unfragmentable part with its next-header byte and length field
  rewritten, followed by every piece at its offset, without holes.\<close>

definition reassembled6 :: "datagram6 \<Rightarrow> bytes \<Rightarrow> bool" where
  "reassembled6 d out \<longleftrightarrow>
     length out = length (dPrefix d) + nat (dLast d) \<and> length out \<le> 65575 \<and> covers (dPieces d) (dLast d) \<and>
     (\<forall>q \<in> set (dPieces d). piece_end q \<le> nat (dLast d) \<and>
        take (length (pcData q)) (drop (length (dPrefix d) + pcOff q) out) = pcData q) \<and>
     take (length (dPrefix d)) out =
       overwrite (overwrite (dPrefix d) (dPrevNext d) [dNext d]) 4 (u16be (word_of_nat (length out - 40)))"

lemma complete6_cases:
  assumes "dg_ok d" "prefix_ok d" "dHaveLast d"
  shows "(\<exists>q \<in> set (dPieces d). int (piece_end q) > dLast d) \<and> complete6 k d r = Some (Inl RPastFinal6, dropLocked k r) \<or>
    \<not> covers (dPieces d) (dLast d) \<and> complete6 k d r = Some (Inr waitResult, r) \<or>
    int (length (dPrefix d)) + dLast d - 40 > 65535 \<and> complete6 k d r = Some (Inl RExceeds6, dropLocked k r) \<or>
    (\<exists>out. reassembled6 d out \<and> complete6 k d r =
       Some (Inr \<lparr>rsPacket = out, rsReady = True, rsFragmented = True, rsMTU = dMaxPacket d\<rparr>, dropLocked k r))"
proof -
  let ?h = "dPrefix d"
  have l0: "0 \<le> dLast d" using assms(1,3) by (simp add: dg_ok_def)
  have h: "40 \<le> length ?h" "dPrevNext d < length ?h" using assms(2) by (simp_all add: prefix_ok_def)
  have m: "make_list (dLast d) False = Some (replicate (nat (dLast d)) False)"
    "make_list (int (length ?h) + dLast d) (0::byte) = Some (replicate (length ?h + nat (dLast d)) 0)"
    using l0 by (simp_all add: make_list_def nat_add_distrib)
  note mc = mark_covered_spec [of "replicate (nat (dLast d)) False" "dLast d" "dPieces d"]
  show ?thesis
  proof (cases "\<exists>q \<in> set (dPieces d). int (piece_end q) > dLast d")
    case True
    then show ?thesis using mc by (simp add: complete6_def dropLocked6_def m)
  next
    case False
    define cov where "cov = map (\<lambda>i. replicate (nat (dLast d)) False ! i \<or>
      (\<exists>q \<in> set (dPieces d). pcOff q \<le> i \<and> i < piece_end q)) [0..<nat (dLast d)]"
    have mk: "mark_covered (dLast d) (dPieces d) (replicate (nat (dLast d)) False) = Some (Inr cov)"
      using mc False by (simp add: cov_def)
    have cv: "list_all id cov \<longleftrightarrow> covers (dPieces d) (dLast d)"
      by (auto simp: cov_def covers_def list_all_iff)
    have e: "\<forall>q \<in> set (dPieces d). piece_end q \<le> nat (dLast d)" using False l0 by fastforce
    let ?p = "overwrite ?h (dPrevNext d) [dNext d]"
    let ?o = "?p @ replicate (nat (dLast d)) 0"
    have c: "copy_at (replicate (length ?h + nat (dLast d)) 0) 0 ?h = Some (?h @ replicate (nat (dLast d)) 0)"
      by (simp add: overwrite_def)
    have pu: "put_at (?h @ replicate (nat (dLast d)) 0) (dPrevNext d) [dNext d] = Some ?o"
      using h by (simp add: overwrite_append1)
    have lo: "length ?o = length ?h + nat (dLast d)" using h by simp
    from copy_pieces_frame [OF lo e] obtain o1 where o1: "copy_pieces (length ?h) (dPieces d) ?o = Some o1" by blast
    have so: "sorted_wrt apart (dPieces d)" using assms(1) by (simp add: dg_ok_def)
    note sp = copy_pieces_spec [OF lo e so o1]
    show ?thesis
    proof (cases "covers (dPieces d) (dLast d) \<and> int (length ?h) + dLast d - 40 \<le> 65535")
      case False
      then show ?thesis by (auto simp: complete6_def dropLocked6_def m mk cv)
    next
      case True
      let ?out = "overwrite o1 4 (u16be (word_of_nat (length o1 - 40)))"
      have l1: "length o1 = length ?h + nat (dLast d)" using sp(1) lo by simp
      have t1: "take (length ?h) o1 = ?p" using sp(2) h by simp
      have "take (length ?h) ?out = overwrite ?p 4 (u16be (word_of_nat (length o1 - 40)))"
      proof -
        define w where "w = u16be (word_of_nat (length o1 - 40))"
        have w: "length w = 2" by (simp add: w_def)
        have lp: "length ?p = length ?h" using h by simp
        have "o1 = ?p @ drop (length ?h) o1" using t1 append_take_drop_id [of "length ?h" o1] by simp
        then have "overwrite o1 4 w = overwrite (?p @ drop (length ?h) o1) 4 w" by simp
        also have "\<dots> = overwrite ?p 4 w @ drop (length ?h) o1"
          using h lp w by (intro overwrite_append1) simp
        finally show ?thesis using h lp w unfolding w_def [symmetric] by simp
      qed
      then have "reassembled6 d ?out"
        using sp(3) True e l1 h l0 by (auto simp: reassembled6_def)
      moreover have "word_of_int (int (length o1) - 40) = (word_of_nat (length o1 - 40) :: u16)"
        using l1 h by (simp add: of_nat_diff)
      then have "complete6 k d r =
          Some (Inr \<lparr>rsPacket = ?out, rsReady = True, rsFragmented = True, rsMTU = dMaxPacket d\<rparr>, dropLocked k r)"
        using True o1 h l1 by (simp add: complete6_def dropLocked6_def m mk cv c pu)
      ultimately show ?thesis by blast
    qed
  qed
qed

text \<open>The entry a fragment is added to and the datagram after that.\<close>

definition fresh6 :: "int \<Rightarrow> bytes \<Rightarrow> nat \<Rightarrow> nat \<Rightarrow> byte \<Rightarrow> datagram6" where
  "fresh6 now pkt fragOff prevNext nxt = \<lparr>dPieces = [], dLast = -1, dHaveLast = False, dUpdated = now, dBytes = 0,
     dMaxPacket = 0, dPrefix = take fragOff pkt, dPrevNext = prevNext, dNext = nxt\<rparr>"

definition added6 :: "int \<Rightarrow> nat \<Rightarrow> nat \<Rightarrow> bool \<Rightarrow> bytes \<Rightarrow> datagram6 \<Rightarrow> datagram6" where
  "added6 now tot off mf pl d =
     d\<lparr>dPieces := dPieces d @ [\<lparr>pcOff = off, pcData = pl\<rparr>],
       dLast := (if mf then dLast d else int (off + length pl)), dHaveLast := (dHaveLast d \<or> \<not> mf),
       dUpdated := now, dBytes := dBytes d + int (length pl), dMaxPacket := max (dMaxPacket d) tot\<rparr>"

lemma insert6_ok:
  assumes "tab_ok prefix_ok r" "40 \<le> fragOff" "prevNext < fragOff" "fragOff \<le> length pkt"
  shows "\<exists>res r'. insert6 now pkt k fragOff prevNext nxt tot off mf pl r = Some (res, r') \<and>
    tab_ok prefix_ok r' \<and> same_limits r r'"
proof (cases "map_of (rM r) k = None \<and> rMaxEntries r \<le> length (rM r)")
  case True
  then show ?thesis using assms(1) by (simp add: insert6_def Let_def)
next
  case False
  let ?f = "fresh6 now pkt fragOff prevNext nxt"
  define d where "d = (case map_of (rM r) k of Some d \<Rightarrow> d | None \<Rightarrow> ?f)"
  define r0 where "r0 = (if map_of (rM r) k = None then set_entry k ?f r else r)"
  have fr: "dg_ok ?f" "prefix_ok ?f" "dBytes ?f = 0"
    using assms by (simp_all add: fresh6_def dg_ok_def prefix_ok_def)
  have r0: "tab_ok prefix_ok r0" using assms(1) False fr by (auto simp: r0_def intro: tab_ok_new)
  have m0: "map_of (rM r0) k = Some d"
    by (auto simp: r0_def d_def set_entry_def update_conv' split: option.splits)
  have l0: "same_limits r r0" by (auto simp: r0_def set_entry_def same_limits_def)
  have dd: "dg_ok d" "prefix_ok d" using tab_ok_entry [OF r0 m0] by simp_all
  define d' where "d' = added6 now tot off mf pl d"
  define r' where "r' = (set_entry k d' r0)\<lparr>rBytes := rBytes r0 + int (length pl)\<rparr>"
  have pr: "(case map_of (rM r) k of Some d \<Rightarrow> (d, r) | None \<Rightarrow> (?f, set_entry k ?f r)) = (d, r0)"
    by (auto simp: d_def r0_def split: option.splits)
  have up: "(if \<not> mf then (x\<lparr>dPieces := dPieces x @ [\<lparr>pcOff = off, pcData = pl\<rparr>], dBytes := dBytes x + int (length pl),
      dUpdated := now, dMaxPacket := (if tot > dMaxPacket x then tot else dMaxPacket x)\<rparr>)\<lparr>dLast := int (off + length pl), dHaveLast := True\<rparr>
      else x\<lparr>dPieces := dPieces x @ [\<lparr>pcOff = off, pcData = pl\<rparr>], dBytes := dBytes x + int (length pl),
      dUpdated := now, dMaxPacket := (if tot > dMaxPacket x then tot else dMaxPacket x)\<rparr>) = added6 now tot off mf pl x" for x
    by (simp add: added6_def max_def)
  have sl: "slice pkt 0 fragOff = Some (take fragOff pkt)" using assms(4) by simp
  have eq: "insert6 now pkt k fragOff prevNext nxt tot off mf pl r =
      (if dPrevNext d \<noteq> prevNext \<or> length (dPrefix d) \<noteq> fragOff then Some (Inl RInconsistent6, dropLocked k r0)
       else if overlaps (dPieces d) off (off + length pl) then Some (Inl ROverlap6, dropLocked k r0)
       else if rBytes r0 + int (length pl) > rMaxBytes r0 then Some (Inl RMemLimit6, dropLocked k r0)
       else if \<not> dHaveLast d' then Some (Inr waitResult, r') else complete6 k d' r')"
    unfolding insert6_def Let_def sl Option.bind.simps fresh6_def [symmetric] pr prod.case up dropLocked6_def
      d'_def [symmetric] r'_def [symmetric]
    by (rule if_not_P [OF False])
  have drop: "tab_ok prefix_ok (dropLocked k r0) \<and> same_limits r (dropLocked k r0)"
    using tab_ok_drop [OF r0] same_limits_trans [OF l0 same_limits_drop] by blast
  show ?thesis
  proof (cases "dPrevNext d \<noteq> prevNext \<or> length (dPrefix d) \<noteq> fragOff \<or> overlaps (dPieces d) off (off + length pl) \<or>
      rBytes r0 + int (length pl) > rMaxBytes r0")
    case True
    then show ?thesis using drop unfolding eq by auto
  next
    case acc: False
    have "\<forall>q \<in> set (dPieces d). apart q \<lparr>pcOff = off, pcData = pl\<rparr>"
      using acc by (auto simp: overlaps_def list_ex_iff apart_def piece_end_def)
    then have d': "dg_ok d'" "prefix_ok d'"
      using dd by (auto simp: d'_def added6_def dg_ok_def prefix_ok_def sorted_wrt_append)
    have r': "tab_ok prefix_ok r'"
      unfolding r'_def using acc by (intro tab_ok_set [OF r0 m0 d']) (simp_all add: d'_def added6_def)
    have l': "same_limits r r'" using l0 by (simp add: same_limits_def r'_def set_entry_def)
    have dr: "tab_ok prefix_ok (dropLocked k r') \<and> same_limits r (dropLocked k r')"
      using tab_ok_drop [OF r'] same_limits_trans [OF l' same_limits_drop] by blast
    show ?thesis
    proof (cases "dHaveLast d'")
      case True
      from complete6_cases [OF d' True, of k r'] show ?thesis
        using acc True r' l' dr unfolding eq by (elim disjE exE conjE) auto
    next
      case False
      then show ?thesis using acc r' l' unfolding eq by auto
    qed
  qed
qed

lemma PushInfo6_ok:
  assumes "tab_ok prefix_ok r"
  shows "\<exists>res r'. PushInfo6 now pkt r = Some (res, r') \<and> tab_ok prefix_ok r' \<and> same_limits r r'"
proof (cases "length pkt < 1 \<or> drop_bit 4 (pkt ! 0) \<noteq> 6 \<or> length pkt < 40 \<or>
    unat (u16of (pkt ! 4) (pkt ! 5)) = 0 \<or> length pkt < 40 + unat (u16of (pkt ! 4) (pkt ! 5))")
  case True
  then show ?thesis using assms by (auto simp: PushInfo6_def Let_def)
next
  case False
  define t where "t = 40 + unat (u16of (pkt ! 4) (pkt ! 5))"
  have g: "\<not> length pkt < 1" "drop_bit 4 (pkt ! 0) = 6" "\<not> length pkt < 40" "t \<le> length pkt" "t \<noteq> 40" "40 \<le> length pkt"
    using False by (simp_all add: t_def)
  have rd: "be16_at pkt 4 = Some (u16of (pkt ! 4) (pkt ! 5))" "slice pkt 0 t = Some (take t pkt)"
    "slice pkt 8 24 = Some (take 16 (drop 8 pkt))" "slice pkt 24 40 = Some (take 16 (drop 24 pkt))"
    using g by (simp_all add: be16_at_def)
  obtain f where f: "findIPv6Fragment (take t pkt) = Some f" using findIPv6Fragment_total [of "take t pkt"] by blast
  have s: "tab_ok prefix_ok (sweepLocked6 now r)" "same_limits r (sweepLocked6 now r)"
    using assms by (simp_all add: tab_ok_sweep same_limits_sweep sweepLocked6_def)
  show ?thesis
  proof (cases "\<exists>fo pn. f = Inr (Some (fo, pn)) \<and> fo + 8 \<le> t")
    case True
    then obtain fo pn where fo: "f = Inr (Some (fo, pn))" "fo + 8 \<le> t" by blast
    have b: "40 \<le> fo" "pn < fo" "fo \<le> length pkt"
      using findIPv6Fragment_found [OF f [unfolded fo(1)]] g(4) by auto
    have i: "\<exists>res r'. insert6 now pkt k fo pn nxt tot off mf pl (sweepLocked6 now r) = Some (res, r') \<and>
        tab_ok prefix_ok r' \<and> same_limits r r'" for k nxt tot off mf pl
      using insert6_ok [OF s(1) b] same_limits_trans [OF s(2)] by blast
    have rd2: "idx pkt fo = Some (pkt ! fo)" "be16_at pkt (fo + 2) = Some (u16of (pkt ! (fo + 2)) (pkt ! (fo + 2 + 1)))"
      "slice pkt (fo + 8) t = Some (take (t - (fo + 8)) (drop (fo + 8) pkt))"
      "be32_at pkt (fo + 4) = Some (u32of (pkt ! (fo + 4)) (pkt ! (fo + 4 + 1)) (pkt ! (fo + 4 + 2)) (pkt ! (fo + 4 + 3)))"
      using fo(2) g(4) by (intro idx_Some be16_at_Some slice_Some be32_at_Some; linarith)+
    have "\<not> fo + 8 > t" using fo(2) by simp
    then show ?thesis
      using g False i assms
      unfolding PushInfo6_def rd Option.bind.simps Let_def t_def [symmetric] f fo(1) sum.case option.case prod.case rd2
      by auto
  next
    case nf: False
    then show ?thesis
      using g False assms f unfolding PushInfo6_def rd Option.bind.simps Let_def t_def [symmetric]
      by (auto split: sum.splits option.splits)
  qed
qed

interpretation r6: reassembler PushInfo6 prefix_ok
  by unfold_locales (rule PushInfo6_ok)

section \<open>Properties\<close>

text \<open>Whatever packets are pushed into a new IPv6 reassembler, in whatever order, at whatever
  times and with sweeps in between, it never panics, never holds more than 1024 incomplete
  datagrams or 16 MiB, and its byte counter is exactly the number of payload bytes it holds.\<close>

theorem IPv6_reassembly_bounded:
  "\<exists>rs r'. run_ops PushInfo6 ops NewIPv6 = Some (rs, r') \<and> length (rM r') \<le> 1024 \<and>
     rBytes r' = (\<Sum>(k, d)\<leftarrow>rM r'. \<Sum>q\<leftarrow>dPieces d. int (length (pcData q))) \<and>
     0 \<le> rBytes r' \<and> rBytes r' \<le> 16777216"
proof -
  have "tab_ok prefix_ok NewIPv6" by (simp add: NewIPv6_def tab_ok_def vals_def)
  from r6.run_ops_exact [OF this, of ops] show ?thesis by (auto simp: NewIPv6_def)
qed

end
