(* ===== verification/Nat_Mapper.thy ===== *)
theory Nat_Mapper
  imports Packet "HOL-Library.AList"
begin

text \<open>
  \<open>internal/nat/nat.go\<close>: the source NAT between the local address of a connection and the tunnel
  address. The two Go maps share their \<open>*mapping\<close> values, and \<open>PrepareOutbound\<close>, \<open>RestoreInbound\<close>
  and \<open>Sweep\<close> write through one map what they read through the other, so mappings live in a store
  and both maps hold references into it. \<open>byOut\<close> is an association list because \<open>Sweep\<close> iterates
  over it.
\<close>

section \<open>Data\<close>

record Meta =
  ifIdx :: u32
  subIfIdx :: u32

record outboundKey =
  okProto :: byte
  okLocal :: addr
  okRemote :: addr
  okLocalPort :: u16
  okRemotePort :: u16

record replyKey =
  rkProto :: byte
  rkRemote :: addr
  rkTunnel :: addr
  rkRemotePort :: u16
  rkTunnelPort :: u16

record mapping =
  mOriginalLocal :: addr
  mOriginalPort :: u16
  mTunnelPort :: u16
  mMeta :: Meta
  mSeen :: int

record Mapper =
  mV4 :: addr
  mV6 :: addr
  mByOut :: "(outboundKey \<times> nat) list"
  mByReply :: "replyKey \<rightharpoonup> nat"
  mNext :: u16
  mStore :: "nat \<rightharpoonup> mapping"
  mFresh :: nat

datatype nerr = NParse perr | NUnsupported byte | NNoTunnel addr | NNoPort | NRewrite perr

definition New :: "addr \<Rightarrow> addr \<Rightarrow> Mapper" where
  "New v4 v6 = \<lparr>mV4 = v4, mV6 = v6, mByOut = [], mByReply = Map.empty, mNext = 40000, mStore = Map.empty, mFresh = 0\<rparr>"

section \<open>Operations\<close>

definition tunnelFor :: "Mapper \<Rightarrow> addr \<Rightarrow> addr" where
  "tunnelFor m a = (if Is4 a then mV4 m else mV6 m)"

text \<open>\<open>m.next++\<close> with the wrap from 60999 to 40000.\<close>

definition advance :: "u16 \<Rightarrow> u16" where
  "advance n = (let n = n + 1 in if n > 60999 then 40000 else n)"

text \<open>The search for a free port: at most \<open>k\<close> attempts. Returns the port, if any, and \<open>m.next\<close>.\<close>

fun find_port :: "nat \<Rightarrow> (replyKey \<rightharpoonup> nat) \<Rightarrow> replyKey \<Rightarrow> u16 \<Rightarrow> u16 option \<times> u16" where
  "find_port 0 byReply rk nxt = (None, nxt)"
| "find_port (Suc k) byReply rk nxt =
     (if byReply (rk\<lparr>rkTunnelPort := nxt\<rparr>) = None then (Some nxt, advance nxt)
      else find_port k byReply rk (advance nxt))"

text \<open>Lines 57 to 89 of \<open>PrepareOutbound\<close>: the mapping for a parsed packet, made if necessary.\<close>

definition obtain_mapping :: "int \<Rightarrow> Packet \<Rightarrow> addr \<Rightarrow> Meta \<Rightarrow> Mapper \<Rightarrow> (nerr + mapping) \<times> Mapper" where
  "obtain_mapping now p tun meta m =
     (let ok = \<lparr>okProto = pProtocol p, okLocal = pSrc p, okRemote = pDst p, okLocalPort = pSrcPort p, okRemotePort = pDstPort p\<rparr> in
      (case Option.bind (map_of (mByOut m) ok) (\<lambda>r. map_option (Pair r) (mStore m r)) of
        Some (r, mp) \<Rightarrow>
          let mp = mp\<lparr>mSeen := now, mMeta := meta\<rparr> in (Inr mp, m\<lparr>mStore := (mStore m)(r \<mapsto> mp)\<rparr>)
      | None \<Rightarrow>
          let rk = \<lparr>rkProto = pProtocol p, rkRemote = pDst p, rkTunnel = tun, rkRemotePort = pDstPort p, rkTunnelPort = pSrcPort p\<rparr>;
              (tp, nxt) = (if mByReply m rk = None then (Some (pSrcPort p), mNext m)
                           else find_port 21000 (mByReply m) rk (mNext m))
          in (case tp of
            None \<Rightarrow> (Inl NNoPort, m\<lparr>mNext := nxt\<rparr>)
          | Some tp \<Rightarrow>
              let mp = \<lparr>mOriginalLocal = pSrc p, mOriginalPort = pSrcPort p, mTunnelPort = tp, mMeta = meta, mSeen = now\<rparr>;
                  r = mFresh m
              in (Inr mp, m\<lparr>mNext := nxt, mFresh := r + 1, mStore := (mStore m)(r \<mapsto> mp),
                     mByOut := AList.update ok r (mByOut m), mByReply := (mByReply m)(rk\<lparr>rkTunnelPort := tp\<rparr> \<mapsto> r)\<rparr>))))"

text \<open>The result: the error, if any, the packet as rewritten so far, and the mapper.\<close>

definition PrepareOutbound :: "int \<Rightarrow> bytes \<Rightarrow> Meta \<Rightarrow> Mapper \<Rightarrow> (nerr option \<times> bytes \<times> Mapper) go" where
  "PrepareOutbound now raw meta m = do {
     r \<leftarrow> Parse raw;
     (case r of
       Inl e \<Rightarrow> Some (Some (NParse e), raw, m)
     | Inr p \<Rightarrow>
         if pProtocol p \<noteq> ProtoTCP \<and> pProtocol p \<noteq> ProtoUDP then Some (Some (NUnsupported (pProtocol p)), raw, m)
         else let tun = tunnelFor m (pSrc p) in
         if \<not> IsValid tun then Some (Some (NNoTunnel (pSrc p)), raw, m)
         else (case obtain_mapping now p tun meta m of
           (Inl e, m) \<Rightarrow> Some (Some e, raw, m)
         | (Inr mp, m) \<Rightarrow> do {
             s \<leftarrow> RewriteSrc raw tun;
             (case s of
               Inl e \<Rightarrow> Some (Some (NRewrite e), raw, m)
             | Inr raw \<Rightarrow>
                 if mTunnelPort mp \<noteq> pSrcPort p then do {
                   t \<leftarrow> RewriteSrcPort raw (mTunnelPort mp);
                   (case t of
                     Inl e \<Rightarrow> Some (Some (NRewrite e), raw, m)
                   | Inr raw \<Rightarrow> Some (None, raw, m))
                 } else Some (None, raw, m))
           }))
   }"

text \<open>\<open>RestoreInbound\<close> returns the metadata and whether the packet belongs to a mapping.\<close>

definition zeroMeta :: Meta where
  "zeroMeta = \<lparr>ifIdx = 0, subIfIdx = 0\<rparr>"

definition RestoreInbound :: "int \<Rightarrow> bytes \<Rightarrow> Mapper \<Rightarrow> ((nerr + Meta \<times> bool) \<times> bytes \<times> Mapper) go" where
  "RestoreInbound now raw m = do {
     r \<leftarrow> Parse raw;
     (case r of
       Inl e \<Rightarrow> Some (Inl (NParse e), raw, m)
     | Inr p \<Rightarrow>
         if pProtocol p \<noteq> ProtoTCP \<and> pProtocol p \<noteq> ProtoUDP then Some (Inr (zeroMeta, False), raw, m)
         else let key = \<lparr>rkProto = pProtocol p, rkRemote = pSrc p, rkTunnel = pDst p, rkRemotePort = pSrcPort p, rkTunnelPort = pDstPort p\<rparr> in
         (case Option.bind (mByReply m key) (\<lambda>r. map_option (Pair r) (mStore m r)) of
           None \<Rightarrow> Some (Inr (zeroMeta, False), raw, m)
         | Some (r, mp) \<Rightarrow>
             do {
               let m = m\<lparr>mStore := (mStore m)(r \<mapsto> mp\<lparr>mSeen := now\<rparr>)\<rparr>;
               s \<leftarrow> RewriteDst raw (mOriginalLocal mp);
               (case s of
                 Inl e \<Rightarrow> Some (Inl (NRewrite e), raw, m)
               | Inr raw \<Rightarrow>
                   if pDstPort p \<noteq> mOriginalPort mp then do {
                     t \<leftarrow> RewriteDstPort raw (mOriginalPort mp);
                     (case t of
                       Inl e \<Rightarrow> Some (Inl (NRewrite e), raw, m)
                     | Inr raw \<Rightarrow> Some (Inr (mMeta mp, True), raw, m))
                   } else Some (Inr (mMeta mp, True), raw, m))
             }))
   }"

definition reply_key :: "Mapper \<Rightarrow> outboundKey \<Rightarrow> mapping \<Rightarrow> replyKey" where
  "reply_key m k mp = \<lparr>rkProto = okProto k, rkRemote = okRemote k, rkTunnel = tunnelFor m (okLocal k),
     rkRemotePort = okRemotePort k, rkTunnelPort = mTunnelPort mp\<rparr>"

definition sweep_mapping :: "int \<Rightarrow> outboundKey \<times> nat \<Rightarrow> Mapper \<Rightarrow> Mapper" where
  "sweep_mapping cutoff = (\<lambda>(k, r) m.
     case mStore m r of
       None \<Rightarrow> m
     | Some mp \<Rightarrow>
         if mSeen mp < cutoff then
           m\<lparr>mByOut := AList.delete k (mByOut m), mByReply := (mByReply m)(reply_key m k mp := None)\<rparr>
         else m)"

definition SweepNat :: "int \<Rightarrow> int \<Rightarrow> Mapper \<Rightarrow> Mapper" where
  "SweepNat now age m = fold (sweep_mapping (now - age)) (mByOut m) m"

section \<open>Invariant\<close>

text \<open>
  Every connection has exactly one mapping, which both maps reach: the outbound map under the
  connection's own key, the reply map under the key a reply to the rewritten packet has. No two
  connections share a mapping, hence none share a reply key.
\<close>

definition linked :: "Mapper \<Rightarrow> outboundKey \<Rightarrow> nat \<Rightarrow> bool" where
  "linked m k r \<longleftrightarrow> r < mFresh m \<and> (\<exists>mp. mStore m r = Some mp \<and> mOriginalLocal mp = okLocal k \<and>
     mOriginalPort mp = okLocalPort k \<and> mByReply m (reply_key m k mp) = Some r) \<and>
     wf_addr (okLocal k) \<and> same_family (tunnelFor m (okLocal k)) (okLocal k)"

definition wf_tunnel :: "Mapper \<Rightarrow> bool" where
  "wf_tunnel m \<longleftrightarrow> wf_addr (mV4 m) \<and> wf_addr (mV6 m) \<and> (IsValid (mV4 m) \<longrightarrow> Is4 (mV4 m)) \<and> (IsValid (mV6 m) \<longrightarrow> Is6 (mV6 m))"

definition nat_ok :: "Mapper \<Rightarrow> bool" where
  "nat_ok m \<longleftrightarrow> wf_tunnel m \<and> distinct (map fst (mByOut m)) \<and> distinct (map snd (mByOut m)) \<and>
     (\<forall>(k, r) \<in> set (mByOut m). linked m k r) \<and>
     (\<forall>rk r. mByReply m rk = Some r \<longrightarrow>
        (\<exists>k mp. (k, r) \<in> set (mByOut m) \<and> mStore m r = Some mp \<and> rk = reply_key m k mp))"

lemma nat_ok_New:
  "wf_addr v4 \<Longrightarrow> wf_addr v6 \<Longrightarrow> (IsValid v4 \<Longrightarrow> Is4 v4) \<Longrightarrow> (IsValid v6 \<Longrightarrow> Is6 v6) \<Longrightarrow> nat_ok (New v4 v6)"
  by (simp add: nat_ok_def New_def wf_tunnel_def)

lemma update_absent: "map_of m k = None \<Longrightarrow> AList.update k v m = m @ [(k, v)]"
  by (induction m) (auto split: if_splits)

lemma nat_ok_entry:
  assumes "nat_ok m" "(k, r) \<in> set (mByOut m)"
  shows "map_of (mByOut m) k = Some r" "r < mFresh m" "wf_addr (okLocal k)"
    "same_family (tunnelFor m (okLocal k)) (okLocal k)"
    "\<exists>mp. mStore m r = Some mp \<and> mOriginalLocal mp = okLocal k \<and> mOriginalPort mp = okLocalPort k \<and>
      mByReply m (reply_key m k mp) = Some r"
  using assms by (auto simp: nat_ok_def linked_def)

lemma nat_ok_ref_unique:
  assumes "nat_ok m" "(k, r) \<in> set (mByOut m)" "(k', r) \<in> set (mByOut m)"
  shows "k = k'"
proof -
  have "inj_on snd (set (mByOut m))" using assms(1) by (simp add: nat_ok_def distinct_map)
  from inj_onD [OF this _ assms(2,3)] show ?thesis by simp
qed

text \<open>Changing the time or the metadata of a mapping keeps the invariant.\<close>

lemma nat_ok_touch:
  assumes "nat_ok m" "mStore m r = Some mp" "mOriginalLocal mp' = mOriginalLocal mp" "mOriginalPort mp' = mOriginalPort mp"
    "mTunnelPort mp' = mTunnelPort mp"
  shows "nat_ok (m\<lparr>mStore := (mStore m)(r \<mapsto> mp')\<rparr>)"
proof -
  let ?m = "m\<lparr>mStore := (mStore m)(r \<mapsto> mp')\<rparr>"
  have rk: "reply_key ?m k x = reply_key m k x" "reply_key m k mp' = reply_key m k mp" "tunnelFor ?m a = tunnelFor m a" for k x a
    using assms(5) by (simp_all add: reply_key_def tunnelFor_def)
  have "linked ?m k r'" if "(k, r') \<in> set (mByOut m)" for k r'
  proof -
    note e = nat_ok_entry [OF assms(1) that]
    from e(5) obtain x where "mStore m r' = Some x" "mOriginalLocal x = okLocal k" "mOriginalPort x = okLocalPort k"
      "mByReply m (reply_key m k x) = Some r'" by blast
    with e assms(2,3,4) rk show ?thesis unfolding linked_def by (cases "r' = r") auto
  qed
  moreover have "\<exists>k x. (k, r') \<in> set (mByOut ?m) \<and> mStore ?m r' = Some x \<and> rk' = reply_key ?m k x"
    if b: "mByReply m rk' = Some r'" for rk' r'
  proof -
    from assms(1) b obtain k x where k: "(k, r') \<in> set (mByOut m)" "mStore m r' = Some x" "rk' = reply_key m k x"
      unfolding nat_ok_def by blast
    then show ?thesis
      using assms(2) rk by (intro exI [of _ k] exI [of _ "if r' = r then mp' else x"]) (auto simp: rk)
  qed
  ultimately show ?thesis using assms(1) by (auto simp: nat_ok_def wf_tunnel_def)
qed

lemma find_port_free: "find_port k byReply rk nxt = (Some tp, nxt') \<Longrightarrow> byReply (rk\<lparr>rkTunnelPort := tp\<rparr>) = None"
  by (induction k arbitrary: nxt) (auto split: if_splits)

text \<open>Adding a mapping under a free reply key keeps the invariant.\<close>

lemma nat_ok_add:
  assumes "nat_ok m" "map_of (mByOut m) k = None" "mOriginalLocal mp = okLocal k" "mOriginalPort mp = okLocalPort k"
    and "mByReply m (reply_key m k mp) = None" "wf_addr (okLocal k)" "same_family (tunnelFor m (okLocal k)) (okLocal k)"
    and "m' = m\<lparr>mNext := nxt, mFresh := mFresh m + 1, mStore := (mStore m)(mFresh m \<mapsto> mp),
      mByOut := AList.update k (mFresh m) (mByOut m), mByReply := (mByReply m)(reply_key m k mp \<mapsto> mFresh m)\<rparr>"
  shows "nat_ok m'"
proof -
  have up: "AList.update k (mFresh m) (mByOut m) = mByOut m @ [(k, mFresh m)]"
    using assms(2) by (rule update_absent)
  have kn: "k \<notin> fst ` set (mByOut m)" using assms(2) by (simp add: map_of_eq_None_iff)
  have old: "r < mFresh m" if "(k', r) \<in> set (mByOut m)" for k' r using nat_ok_entry(2) [OF assms(1) that] .
  have rk: "reply_key m' = reply_key m" "tunnelFor m' = tunnelFor m"
    by (intro ext, simp add: reply_key_def tunnelFor_def assms(8))+
  have "linked m' k' r" if "(k', r) \<in> set (mByOut m)" for k' r
  proof -
    note e = nat_ok_entry [OF assms(1) that]
    from e(5) obtain x where x: "mStore m r = Some x" "mOriginalLocal x = okLocal k'"
      "mOriginalPort x = okLocalPort k'" "mByReply m (reply_key m k' x) = Some r" by blast
    moreover have "reply_key m k' x \<noteq> reply_key m k mp" using x(4) assms(5) by auto
    ultimately show ?thesis using e unfolding linked_def rk by (auto simp: assms(8))
  qed
  moreover have "linked m' k (mFresh m)"
    using assms(3-7) unfolding linked_def rk by (simp add: assms(8))
  moreover have "\<exists>k' x. (k', r) \<in> set (mByOut m') \<and> mStore m' r = Some x \<and> rk' = reply_key m' k' x"
    if b: "mByReply m' rk' = Some r" for rk' r
  proof (cases "rk' = reply_key m k mp")
    case True
    with b have "r = mFresh m" by (simp add: assms(8))
    with True show ?thesis by (intro exI [of _ k] exI [of _ mp]) (simp add: rk, simp add: assms(8) up)
  next
    case False
    with b have "mByReply m rk' = Some r" by (simp add: assms(8))
    with assms(1) obtain k' x where k': "(k', r) \<in> set (mByOut m)" "mStore m r = Some x" "rk' = reply_key m k' x"
      unfolding nat_ok_def by blast
    with old [OF k'(1)] show ?thesis by (intro exI [of _ k'] exI [of _ x]) (simp add: rk, simp add: assms(8) up)
  qed
  moreover have "mFresh m \<notin> snd ` set (mByOut m)" using old by fastforce
  ultimately show ?thesis
    using assms(1) kn unfolding nat_ok_def by (auto simp: assms(8) up wf_tunnel_def)
qed

lemma nat_ok_next [simp]: "nat_ok (m\<lparr>mNext := n\<rparr>) = nat_ok m"
proof -
  have "reply_key (m\<lparr>mNext := n\<rparr>) = reply_key m" "tunnelFor (m\<lparr>mNext := n\<rparr>) = tunnelFor m"
    by (intro ext, simp add: reply_key_def tunnelFor_def)+
  then show ?thesis by (simp add: nat_ok_def linked_def wf_tunnel_def)
qed

text \<open>The reply key of a packet sent from the tunnel port \<open>tp\<close>.\<close>

definition answer_key :: "Packet \<Rightarrow> addr \<Rightarrow> u16 \<Rightarrow> replyKey" where
  "answer_key p tun tp = \<lparr>rkProto = pProtocol p, rkRemote = pDst p, rkTunnel = tun, rkRemotePort = pDstPort p, rkTunnelPort = tp\<rparr>"

lemma same_family_tunnel:
  "wf_tunnel m \<Longrightarrow> IsValid (tunnelFor m a) \<Longrightarrow> Is4 a \<or> Is6 a \<Longrightarrow> same_family (tunnelFor m a) a"
  by (auto simp: wf_tunnel_def tunnelFor_def same_family_def)

lemma obtain_mapping_ok:
  assumes ok: "nat_ok m" and src: "wf_addr (pSrc p)" "Is4 (pSrc p) \<or> Is6 (pSrc p)" and tun: "tun = tunnelFor m (pSrc p)" "IsValid tun"
    and res: "obtain_mapping now p tun meta m = (x, m')"
  shows "nat_ok m'" "mV4 m' = mV4 m" "mV6 m' = mV6 m"
    "x = Inr mp \<Longrightarrow> mMeta mp = meta \<and> mOriginalLocal mp = pSrc p \<and> mOriginalPort mp = pSrcPort p \<and>
      (\<exists>r. mByReply m' (answer_key p tun (mTunnelPort mp)) = Some r \<and> mStore m' r = Some mp)"
proof -
  define k where "k = \<lparr>okProto = pProtocol p, okLocal = pSrc p, okRemote = pDst p, okLocalPort = pSrcPort p, okRemotePort = pDstPort p\<rparr>"
  have rk: "answer_key p tun (mTunnelPort y) = reply_key m k y" for y by (simp add: answer_key_def reply_key_def k_def tun(1))
  have fam: "same_family (tunnelFor m (okLocal k)) (okLocal k)" "wf_addr (okLocal k)"
    using ok src tun same_family_tunnel [of m "pSrc p"] by (simp_all add: k_def nat_ok_def)
  have "nat_ok m' \<and> mV4 m' = mV4 m \<and> mV6 m' = mV6 m \<and> (x = Inr mp \<longrightarrow> mMeta mp = meta \<and> mOriginalLocal mp = pSrc p \<and>
      mOriginalPort mp = pSrcPort p \<and> (\<exists>r. mByReply m' (answer_key p tun (mTunnelPort mp)) = Some r \<and> mStore m' r = Some mp))"
  proof (cases "map_of (mByOut m) k")
    case (Some r)
    then have i: "(k, r) \<in> set (mByOut m)" by (rule map_of_SomeD)
    from nat_ok_entry(5) [OF ok i] obtain y where
      y: "mStore m r = Some y" "mOriginalLocal y = pSrc p" "mOriginalPort y = pSrcPort p" "mByReply m (reply_key m k y) = Some r"
      by (auto simp: k_def)
    have e: "x = Inr (y\<lparr>mSeen := now, mMeta := meta\<rparr>)" "m' = m\<lparr>mStore := (mStore m)(r \<mapsto> y\<lparr>mSeen := now, mMeta := meta\<rparr>)\<rparr>"
      using res Some y(1) by (auto simp: obtain_mapping_def k_def [symmetric] Let_def)
    have "nat_ok m'" unfolding e(2) by (rule nat_ok_touch [OF ok y(1)]) simp_all
    with e y rk [of y] show ?thesis by auto
  next
    case None
    define r0 where "r0 = answer_key p tun (pSrcPort p)"
    have r0: "r0\<lparr>rkTunnelPort := tp\<rparr> = answer_key p tun tp" for tp by (simp add: r0_def answer_key_def)
    obtain tp nxt where al: "(if mByReply m r0 = None then (Some (pSrcPort p), mNext m) else find_port 21000 (mByReply m) r0 (mNext m)) = (tp, nxt)"
      by force
    show ?thesis
    proof (cases tp)
      case None': None
      then have "x = Inl NNoPort" "m' = m\<lparr>mNext := nxt\<rparr>"
        using res None al by (auto simp: obtain_mapping_def k_def [symmetric] Let_def answer_key_def [symmetric] r0_def [symmetric])
      moreover have "nat_ok (m\<lparr>mNext := nxt\<rparr>)"
        using ok by simp
      ultimately show ?thesis by simp
    next
      case (Some t)
      define y where "y = \<lparr>mOriginalLocal = pSrc p, mOriginalPort = pSrcPort p, mTunnelPort = t, mMeta = meta, mSeen = now\<rparr>"
      have free: "mByReply m (answer_key p tun t) = None"
        using al Some find_port_free [of 21000 "mByReply m" r0 "mNext m" t nxt] r0 by (auto simp: r0_def split: if_splits)
      have e: "x = Inr y" "m' = m\<lparr>mNext := nxt, mFresh := mFresh m + 1, mStore := (mStore m)(mFresh m \<mapsto> y),
          mByOut := AList.update k (mFresh m) (mByOut m), mByReply := (mByReply m)(answer_key p tun t \<mapsto> mFresh m)\<rparr>"
        using res None al Some r0
        by (auto simp: obtain_mapping_def k_def [symmetric] Let_def answer_key_def [of p tun "pSrcPort p", symmetric] r0_def [symmetric] y_def)
      have rk': "answer_key p tun t = reply_key m k y" using rk [of y] by (simp add: y_def)
      have "nat_ok m'"
        by (rule nat_ok_add [OF ok None _ _ _ fam(2,1) e(2) [unfolded rk']]) (use free rk' in \<open>simp_all add: y_def k_def\<close>)
      with e show ?thesis by (auto simp: y_def)
    qed
  qed
  then show "nat_ok m'" "mV4 m' = mV4 m" "mV6 m' = mV6 m"
    "x = Inr mp \<Longrightarrow> mMeta mp = meta \<and> mOriginalLocal mp = pSrc p \<and> mOriginalPort mp = pSrcPort p \<and>
      (\<exists>r. mByReply m' (answer_key p tun (mTunnelPort mp)) = Some r \<and> mStore m' r = Some mp)" by simp_all
qed

lemma PrepareOutbound_ok:
  assumes "nat_ok m"
  shows "\<exists>e raw' m'. PrepareOutbound now raw meta m = Some (e, raw', m') \<and> nat_ok m' \<and> mV4 m' = mV4 m \<and> mV6 m' = mV6 m"
proof -
  obtain r where r: "Parse raw = Some r" using Parse_ne_None [of raw] by blast
  show ?thesis
  proof (cases r)
    case (Inl e)
    with r assms show ?thesis by (simp add: PrepareOutbound_def)
  next
    case (Inr p)
    have P: "Parse raw = Some (Inr p)" using r Inr by simp
    let ?tun = "tunnelFor m (pSrc p)"
    show ?thesis
    proof (cases "(pProtocol p = ProtoTCP \<or> pProtocol p = ProtoUDP) \<and> IsValid ?tun")
      case False
      with P assms show ?thesis by (auto simp: PrepareOutbound_def Let_def)
    next
      case True
      obtain x m' where om: "obtain_mapping now p ?tun meta m = (x, m')" by force
      have s: "wf_addr (pSrc p)" "Is4 (pSrc p) \<or> Is6 (pSrc p)" using Parse_wf_addr [OF P] Parse_version [OF P] by auto
      note o = obtain_mapping_ok [OF assms s refl _ om]
      have m': "nat_ok m'" "mV4 m' = mV4 m" "mV6 m' = mV6 m" using o(1-3) True by auto
      have "wf_addr ?tun" using assms by (simp add: nat_ok_def wf_tunnel_def tunnelFor_def)
      then obtain y where y: "RewriteSrc raw ?tun = Some y" using rewrite_ne_None(1) by blast
      have "\<exists>e raw'. PrepareOutbound now raw meta m = Some (e, raw', m')"
      proof (cases x)
        case (Inl e)
        with P True om show ?thesis by (auto simp: PrepareOutbound_def Let_def)
      next
        case (Inr mp)
        show ?thesis
        proof (cases y)
          case (Inl e)
          with P True om \<open>x = Inr mp\<close> y show ?thesis by (auto simp: PrepareOutbound_def Let_def)
        next
          case (Inr b)
          obtain z where z: "RewriteSrcPort b (mTunnelPort mp) = Some z" using rewrite_ne_None(3) by blast
          with P True om \<open>x = Inr mp\<close> y Inr show ?thesis
            by (cases z) (auto simp: PrepareOutbound_def Let_def)
        qed
      qed
      with m' show ?thesis by auto
    qed
  qed
qed

lemma RestoreInbound_ok:
  assumes "nat_ok m"
  shows "\<exists>x raw' m'. RestoreInbound now raw m = Some (x, raw', m') \<and> nat_ok m' \<and> mV4 m' = mV4 m \<and> mV6 m' = mV6 m"
proof -
  obtain r where r: "Parse raw = Some r" using Parse_ne_None [of raw] by blast
  show ?thesis
  proof (cases r)
    case (Inl e)
    with r assms show ?thesis by (simp add: RestoreInbound_def)
  next
    case (Inr p)
    let ?key = "\<lparr>rkProto = pProtocol p, rkRemote = pSrc p, rkTunnel = pDst p, rkRemotePort = pSrcPort p, rkTunnelPort = pDstPort p\<rparr>"
    show ?thesis
    proof (cases "(pProtocol p = ProtoTCP \<or> pProtocol p = ProtoUDP) \<and> mByReply m ?key \<noteq> None")
      case False
      with r Inr assms show ?thesis by (auto simp: RestoreInbound_def Let_def)
    next
      case True
      then obtain ref where ref: "mByReply m ?key = Some ref" by auto
      with assms obtain k mp where k: "(k, ref) \<in> set (mByOut m)" "mStore m ref = Some mp" unfolding nat_ok_def by blast
      have "wf_addr (mOriginalLocal mp)" using nat_ok_entry(3,5) [OF assms k(1)] k(2) by auto
      then obtain y where y: "RewriteDst raw (mOriginalLocal mp) = Some y" using rewrite_ne_None(2) by blast
      let ?m = "m\<lparr>mStore := (mStore m)(ref \<mapsto> mp\<lparr>mSeen := now\<rparr>)\<rparr>"
      have "\<exists>x raw'. RestoreInbound now raw m = Some (x, raw', ?m)"
      proof (cases y)
        case (Inl e)
        with r \<open>r = Inr p\<close> True ref k(2) y show ?thesis by (auto simp: RestoreInbound_def Let_def)
      next
        case (Inr b)
        obtain z where z: "RewriteDstPort b (mOriginalPort mp) = Some z" using rewrite_ne_None(4) by blast
        with r \<open>r = Inr p\<close> True ref k(2) y Inr show ?thesis
          by (cases z) (auto simp: RestoreInbound_def Let_def)
      qed
      moreover have "nat_ok ?m" by (rule nat_ok_touch [OF assms k(2)]) simp_all
      ultimately show ?thesis by auto
    qed
  qed
qed

lemma sweep_mapping_ok:
  assumes "nat_ok m" "(k, r) \<in> set (mByOut m)"
  shows "nat_ok (sweep_mapping cutoff (k, r) m)"
    "set (mByOut m) - {(k, r)} \<subseteq> set (mByOut (sweep_mapping cutoff (k, r) m))"
    "mV4 (sweep_mapping cutoff (k, r) m) = mV4 m \<and> mV6 (sweep_mapping cutoff (k, r) m) = mV6 m"
proof -
  from nat_ok_entry(5) [OF assms] obtain mp where mp: "mStore m r = Some mp" "mByReply m (reply_key m k mp) = Some r" by blast
  let ?m = "m\<lparr>mByOut := AList.delete k (mByOut m), mByReply := (mByReply m)(reply_key m k mp := None)\<rparr>"
  have rk: "reply_key ?m = reply_key m" "tunnelFor ?m = tunnelFor m"
    by (intro ext, simp add: reply_key_def tunnelFor_def)+
  have ds: "set (AList.delete k (mByOut m)) = {e \<in> set (mByOut m). fst e \<noteq> k}" by (auto simp: AList.delete_eq)
  have "nat_ok ?m"
  proof -
    have "linked ?m k' r'" if "(k', r') \<in> set (mByOut m)" "k' \<noteq> k" for k' r'
    proof -
      note e = nat_ok_entry [OF assms(1) that(1)]
      from e(5) obtain x where x: "mStore m r' = Some x" "mOriginalLocal x = okLocal k'" "mOriginalPort x = okLocalPort k'"
        "mByReply m (reply_key m k' x) = Some r'" by blast
      have "r' \<noteq> r" using nat_ok_ref_unique [OF assms(1) that(1)] assms(2) that(2) by auto
      then have "reply_key m k' x \<noteq> reply_key m k mp" using x(4) mp(2) by auto
      with x e show ?thesis unfolding linked_def rk by auto
    qed
    moreover have "\<exists>k' x. (k', r') \<in> set (mByOut ?m) \<and> mStore ?m r' = Some x \<and> rk' = reply_key ?m k' x"
      if "mByReply ?m rk' = Some r'" for rk' r'
    proof -
      from that have n: "rk' \<noteq> reply_key m k mp" and "mByReply m rk' = Some r'" by (auto split: if_splits)
      with assms(1) obtain k' x where x: "(k', r') \<in> set (mByOut m)" "mStore m r' = Some x" "rk' = reply_key m k' x"
        unfolding nat_ok_def by blast
      have "k' \<noteq> k"
      proof
        assume "k' = k"
        with x(1) nat_ok_entry(1) [OF assms] nat_ok_entry(1) [OF assms(1) x(1)] have "r' = r" by simp
        with x \<open>k' = k\<close> n mp(1) show False by simp
      qed
      with x show ?thesis unfolding rk by (auto simp: ds)
    qed
    moreover have "distinct (map snd (AList.delete k (mByOut m)))"
      using assms(1) by (simp add: AList.delete_eq nat_ok_def distinct_map_filter)
    ultimately show ?thesis
      using assms(1) unfolding nat_ok_def by (auto simp: ds distinct_delete wf_tunnel_def)
  qed
  then show "nat_ok (sweep_mapping cutoff (k, r) m)" using assms(1) mp(1) by (simp add: sweep_mapping_def)
  show "set (mByOut m) - {(k, r)} \<subseteq> set (mByOut (sweep_mapping cutoff (k, r) m))"
  proof clarify
    fix k' r' assume i: "(k', r') \<in> set (mByOut m)" and n: "(k', r') \<notin> set (mByOut (sweep_mapping cutoff (k, r) m))"
    from n i have "k' = k" using mp(1) by (auto simp: sweep_mapping_def ds split: if_splits)
    with nat_ok_entry(1) [OF assms] nat_ok_entry(1) [OF assms(1) i] show "k' = k \<and> r' = r" by simp
  qed
  show "mV4 (sweep_mapping cutoff (k, r) m) = mV4 m \<and> mV6 (sweep_mapping cutoff (k, r) m) = mV6 m"
    using mp(1) by (simp add: sweep_mapping_def)
qed

lemma SweepNat_ok:
  assumes "nat_ok m"
  shows "nat_ok (SweepNat now age m) \<and> mV4 (SweepNat now age m) = mV4 m \<and> mV6 (SweepNat now age m) = mV6 m"
proof -
  have "nat_ok (fold (sweep_mapping cutoff) es m) \<and> mV4 (fold (sweep_mapping cutoff) es m) = mV4 m \<and>
      mV6 (fold (sweep_mapping cutoff) es m) = mV6 m"
    if "nat_ok m" "set es \<subseteq> set (mByOut m)" "distinct es" for es cutoff and m :: Mapper
    using that
  proof (induction es arbitrary: m)
    case (Cons e es)
    obtain k r where e: "e = (k, r)" by (cases e)
    have i: "(k, r) \<in> set (mByOut m)" using Cons.prems(2) e by simp
    note s = sweep_mapping_ok [OF Cons.prems(1) i, of cutoff]
    have "set es \<subseteq> set (mByOut (sweep_mapping cutoff e m))" using s(2) Cons.prems(2,3) e by auto
    with Cons.IH [of "sweep_mapping cutoff e m"] s e Cons.prems(3) show ?case by simp
  qed simp
  moreover have "distinct (mByOut m)" using assms by (simp add: nat_ok_def distinct_map)
  ultimately show ?thesis using assms by (simp add: SweepNat_def)
qed

section \<open>Reachable states\<close>

text \<open>The mapper's life: the capture loop calls \<open>PrepareOutbound\<close>, the tunnel's receive loop
  \<open>RestoreInbound\<close>, and a timer \<open>Sweep\<close>; the mutex makes each of them one step.\<close>

inductive nat_use :: "Mapper \<Rightarrow> Mapper \<Rightarrow> bool" where
  use_out: "PrepareOutbound now raw meta m = Some (e, raw', m') \<Longrightarrow> nat_use m m'"
| use_in: "RestoreInbound now raw m = Some (x, raw', m') \<Longrightarrow> nat_use m m'"

inductive nat_step :: "Mapper \<Rightarrow> Mapper \<Rightarrow> bool" where
  step_use: "nat_use m m' \<Longrightarrow> nat_step m m'"
| step_sweep: "nat_step m (SweepNat now age m)"

inductive_cases nat_stepE: "nat_step m m'"

definition wf_pair :: "addr \<Rightarrow> addr \<Rightarrow> bool" where
  "wf_pair v4 v6 \<longleftrightarrow> wf_addr v4 \<and> wf_addr v6 \<and> (IsValid v4 \<longrightarrow> Is4 v4) \<and> (IsValid v6 \<longrightarrow> Is6 v6)"

lemma nat_use_ok:
  assumes "nat_use m m'" "nat_ok m"
  shows "nat_ok m' \<and> mV4 m' = mV4 m \<and> mV6 m' = mV6 m"
  using assms(1)
proof cases
  case (use_out now raw meta e raw')
  with PrepareOutbound_ok [OF assms(2), of now raw meta] show ?thesis by auto
next
  case (use_in now raw x raw')
  with RestoreInbound_ok [OF assms(2), of now raw] show ?thesis by auto
qed

lemma nat_step_ok: "nat_step m m' \<Longrightarrow> nat_ok m \<Longrightarrow> nat_ok m' \<and> mV4 m' = mV4 m \<and> mV6 m' = mV6 m"
  using nat_use_ok SweepNat_ok by (elim nat_stepE) auto

lemma nat_reachable_ok:
  assumes "nat_step\<^sup>*\<^sup>* (New v4 v6) m" "wf_pair v4 v6"
  shows "nat_ok m" "mV4 m = v4" "mV6 m = v6"
proof -
  have "nat_ok m \<and> mV4 m = v4 \<and> mV6 m = v6"
    using assms(1)
  proof (induction rule: rtranclp_induct)
    case base
    then show ?case using nat_ok_New [of v4 v6] assms(2) by (simp add: wf_pair_def New_def)
  next
    case (step y z)
    then show ?case using nat_step_ok by metis
  qed
  then show "nat_ok m" "mV4 m = v4" "mV6 m = v6" by simp_all
qed

section \<open>A mapping in use is kept\<close>

text \<open>The reply key \<open>rk\<close> leads to the local endpoint \<open>(a, port)\<close>.\<close>

definition leads_to :: "Mapper \<Rightarrow> replyKey \<Rightarrow> addr \<Rightarrow> u16 \<Rightarrow> bool" where
  "leads_to m rk a port \<longleftrightarrow> (\<exists>r mp. mByReply m rk = Some r \<and> mStore m r = Some mp \<and> mOriginalLocal mp = a \<and> mOriginalPort mp = port)"

lemma leads_to_touch:
  assumes "leads_to m rk a port" "mStore m r = Some mp" "mOriginalLocal mp' = mOriginalLocal mp" "mOriginalPort mp' = mOriginalPort mp"
  shows "leads_to (m\<lparr>mStore := (mStore m)(r \<mapsto> mp')\<rparr>) rk a port"
  using assms by (auto simp: leads_to_def)

lemma obtain_mapping_keeps:
  assumes "nat_ok m" "obtain_mapping now p tun meta m = (x, m')" "leads_to m rk a port"
  shows "leads_to m' rk a port"
proof -
  from assms(3) obtain r mp where r: "mByReply m rk = Some r" "mStore m r = Some mp" "mOriginalLocal mp = a" "mOriginalPort mp = port"
    by (auto simp: leads_to_def)
  from assms(1) r(1) obtain k where "(k, r) \<in> set (mByOut m)" unfolding nat_ok_def by blast
  then have fr: "r \<noteq> mFresh m" using nat_ok_entry(2) [OF assms(1)] by fastforce
  have ff: "mByReply m (k0\<lparr>rkTunnelPort := t\<rparr>) = None" if "find_port n (mByReply m) k0 s = (Some t, s')" for n k0 s t s'
    using find_port_free [OF that] .
  show ?thesis
  proof (cases "Option.bind (map_of (mByOut m) \<lparr>okProto = pProtocol p, okLocal = pSrc p, okRemote = pDst p,
      okLocalPort = pSrcPort p, okRemotePort = pDstPort p\<rparr>) (\<lambda>r. map_option (Pair r) (mStore m r))")
    case (Some q)
    then obtain ref y where q: "q = (ref, y)" "mStore m ref = Some y" by (auto split: bind_splits)
    with assms(2) Some have "m' = m\<lparr>mStore := (mStore m)(ref \<mapsto> y\<lparr>mSeen := now, mMeta := meta\<rparr>)\<rparr>"
      by (auto simp: obtain_mapping_def Let_def)
    with leads_to_touch [OF assms(3) q(2)] show ?thesis by simp
  next
    case None
    with assms(2) r fr show ?thesis
      by (auto simp: obtain_mapping_def Let_def leads_to_def dest!: ff split: if_splits option.splits prod.splits)
  qed
qed

lemma nat_use_keeps:
  assumes "nat_use m m'" "nat_ok m" "leads_to m rk a port"
  shows "leads_to m' rk a port"
  using assms(1)
proof cases
  case (use_out now raw meta e raw')
  show ?thesis
  proof (cases "m' = m")
    case False
    with use_out obtain p x where "obtain_mapping now p (tunnelFor m (pSrc p)) meta m = (x, m')"
      by (auto simp: PrepareOutbound_def Let_def split: bind_splits sum.splits if_splits prod.splits)
    from obtain_mapping_keeps [OF assms(2) this assms(3)] show ?thesis .
  qed (use assms(3) in simp)
next
  case (use_in now raw x raw')
  show ?thesis
  proof (cases "m' = m")
    case False
    with use_in obtain r mp where "m' = m\<lparr>mStore := (mStore m)(r \<mapsto> mp\<lparr>mSeen := now\<rparr>)\<rparr>" "mStore m r = Some mp"
      by (auto simp: RestoreInbound_def Let_def split: bind_splits sum.splits if_splits prod.splits option.splits)
    with leads_to_touch [OF assms(3)] show ?thesis by simp
  qed (use assms(3) in simp)
qed

lemma nat_uses_keep:
  "nat_use\<^sup>*\<^sup>* m m' \<Longrightarrow> nat_ok m \<Longrightarrow> leads_to m rk a port \<Longrightarrow> nat_ok m' \<and> leads_to m' rk a port"
  by (induction rule: rtranclp_induct) (auto dest: nat_use_ok nat_use_keeps)

section \<open>Port allocation\<close>

definition port_range :: "u16 \<Rightarrow> bool" where
  "port_range n \<longleftrightarrow> 40000 \<le> n \<and> n \<le> 60999"

lemma unat_advance: "port_range n \<Longrightarrow> unat (advance n) = 40000 + (unat n - 40000 + 1) mod 21000"
proof -
  assume "port_range n"
  then have r: "40000 \<le> unat n" "unat n \<le> 60999" by (simp_all add: port_range_def word_le_nat_alt)
  have s: "unat (n + 1) = unat n + 1" using r by (simp add: unat_word_ariths)
  show ?thesis
  proof (cases "unat n = 60999")
    case True
    then show ?thesis using s by (simp add: advance_def Let_def word_less_nat_alt)
  next
    case False
    with r have "unat n - 40000 + 1 < 21000" by simp
    with r s False show ?thesis by (simp add: advance_def Let_def word_less_nat_alt)
  qed
qed

lemma port_range_advance: "port_range n \<Longrightarrow> port_range (advance n)"
  using unat_advance [of n] mod_less_divisor [of 21000 "unat n - 40000 + 1"]
  by (simp add: port_range_def word_le_nat_alt)

lemma unat_advance_pow:
  assumes "port_range n"
  shows "port_range ((advance ^^ i) n) \<and> unat ((advance ^^ i) n) = 40000 + (unat n - 40000 + i) mod 21000"
proof (induction i)
  case 0
  then show ?case using assms by (auto simp: port_range_def word_le_nat_alt)
next
  case (Suc i)
  then show ?case
    using unat_advance [of "(advance ^^ i) n"] port_range_advance [of "(advance ^^ i) n"] by (simp add: mod_Suc_eq)
qed

lemma find_port_complete:
  assumes "byReply (rk\<lparr>rkTunnelPort := (advance ^^ i) n\<rparr>) = None" "i < k"
  shows "\<exists>tp n'. find_port k byReply rk n = (Some tp, n')"
  using assms
proof (induction k arbitrary: i n)
  case (Suc k)
  show ?case
  proof (cases i)
    case 0
    with Suc.prems show ?thesis by simp
  next
    case (Suc j)
    with Suc.prems Suc.IH [of j "advance n"] show ?thesis by (simp add: funpow_swap1)
  qed
qed simp

lemma port_reached:
  assumes "port_range n" "port_range t"
  shows "\<exists>i < 21000. (advance ^^ i) n = t"
proof -
  have r: "40000 \<le> unat n" "unat n \<le> 60999" "40000 \<le> unat t" "unat t \<le> 60999"
    using assms by (simp_all add: port_range_def word_le_nat_alt)
  define i where "i = (if unat n \<le> unat t then unat t - unat n else unat t + 21000 - unat n)"
  have "(unat n - 40000 + i) mod 21000 = unat t - 40000"
  proof (cases "unat n \<le> unat t")
    case False
    then have "unat n - 40000 + i = (unat t - 40000) + 21000" using r by (simp add: i_def)
    then have "(unat n - 40000 + i) mod 21000 = (unat t - 40000) mod 21000" by (simp only: mod_add_self2)
    then show ?thesis using r by simp
  qed (use r in \<open>simp add: i_def\<close>)
  then have "unat ((advance ^^ i) n) = unat t" using unat_advance_pow [OF assms(1), of i] r by simp
  moreover have "i < 21000" using r by (auto simp: i_def)
  ultimately show ?thesis by (metis word_unat_eq_iff)
qed

lemma find_port_range: "find_port k byReply rk n = (tp, n') \<Longrightarrow> port_range n \<Longrightarrow> port_range n'"
  by (induction k arbitrary: n) (auto simp: port_range_advance split: if_splits)

lemma obtain_mapping_range:
  "obtain_mapping now p tun meta m = (x, m') \<Longrightarrow> port_range (mNext m) \<Longrightarrow> port_range (mNext m')"
  by (auto simp: obtain_mapping_def Let_def dest!: find_port_range split: option.splits prod.splits if_splits)

lemma sweep_next: "mNext (SweepNat now age m) = mNext m"
proof -
  have "mNext (fold (sweep_mapping cutoff) es m) = mNext m" for es cutoff m
    by (induction es arbitrary: m) (auto simp: sweep_mapping_def split: option.split)
  then show ?thesis by (simp add: SweepNat_def)
qed

lemma nat_step_range: "nat_step m m' \<Longrightarrow> port_range (mNext m) \<Longrightarrow> port_range (mNext m')"
  by (erule nat_stepE, erule nat_use.cases)
    (auto simp: PrepareOutbound_def RestoreInbound_def Let_def sweep_next dest!: obtain_mapping_range
      split: bind_splits sum.splits if_splits prod.splits option.splits)

lemma nat_reachable_range: "nat_step\<^sup>*\<^sup>* (New v4 v6) m \<Longrightarrow> port_range (mNext m)"
proof (induction rule: rtranclp_induct)
  case base
  show ?case by (simp add: New_def port_range_def)
qed (rule nat_step_range)

lemma obtain_mapping_succeeds:
  assumes "nat_ok m" "port_range (mNext m)" "port_range t" "mByReply m (answer_key p tun t) = None"
  shows "\<exists>mp m'. obtain_mapping now p tun meta m = (Inr mp, m')"
proof -
  define rk where "rk = answer_key p tun (pSrcPort p)"
  have "rk\<lparr>rkTunnelPort := t\<rparr> = answer_key p tun t" by (simp add: rk_def answer_key_def)
  with assms(4) have "mByReply m (rk\<lparr>rkTunnelPort := t\<rparr>) = None" by simp
  with port_reached [OF assms(2,3)] obtain i where
    "mByReply m (rk\<lparr>rkTunnelPort := (advance ^^ i) (mNext m)\<rparr>) = None" "i < 21000" by blast
  from find_port_complete [of "mByReply m" i "mNext m" rk, OF this] obtain tp n' where "find_port 21000 (mByReply m) rk (mNext m) = (Some tp, n')" by blast
  then show ?thesis
    by (auto simp: obtain_mapping_def Let_def answer_key_def [symmetric] rk_def [symmetric] split: option.split)
qed

section \<open>Properties\<close>

text \<open>C19: In every state the mapper can reach from a new one, by any sequence of
  \<open>PrepareOutbound\<close>, \<open>RestoreInbound\<close> and \<open>Sweep\<close>, the two maps agree: every tracked connection
  has a mapping that holds its own local endpoint and that the reply map reaches under its reply
  key, every entry of the reply map belongs to a tracked connection, and two different
  connections have different reply keys, so a reply never reaches the wrong connection. The next
  packet, whatever it is, does not panic.\<close>

theorem nat_consistent:
  assumes "nat_step\<^sup>*\<^sup>* (New v4 v6) m" "wf_pair v4 v6"
  shows "(\<forall>(k, r) \<in> set (mByOut m). \<exists>mp. mStore m r = Some mp \<and> mOriginalLocal mp = okLocal k \<and>
      mOriginalPort mp = okLocalPort k \<and> mByReply m (reply_key m k mp) = Some r) \<and>
    (\<forall>rk r. mByReply m rk = Some r \<longrightarrow> (\<exists>k mp. (k, r) \<in> set (mByOut m) \<and> mStore m r = Some mp \<and> rk = reply_key m k mp)) \<and>
    (\<forall>k r k' r' mp mp'. (k, r) \<in> set (mByOut m) \<and> (k', r') \<in> set (mByOut m) \<and> k \<noteq> k' \<and>
      mStore m r = Some mp \<and> mStore m r' = Some mp' \<longrightarrow> reply_key m k mp \<noteq> reply_key m k' mp') \<and>
    PrepareOutbound now raw meta m \<noteq> None \<and> RestoreInbound now raw m \<noteq> None"
proof -
  note ok = nat_reachable_ok(1) [OF assms]
  note entry = nat_ok_entry [OF ok]
  have "\<forall>(k, r) \<in> set (mByOut m). \<exists>mp. mStore m r = Some mp \<and> mOriginalLocal mp = okLocal k \<and>
      mOriginalPort mp = okLocalPort k \<and> mByReply m (reply_key m k mp) = Some r"
    using entry(5) by blast
  moreover have "\<forall>rk r. mByReply m rk = Some r \<longrightarrow> (\<exists>k mp. (k, r) \<in> set (mByOut m) \<and> mStore m r = Some mp \<and> rk = reply_key m k mp)"
    using ok unfolding nat_ok_def by blast
  moreover have "\<forall>k r k' r' mp mp'. (k, r) \<in> set (mByOut m) \<and> (k', r') \<in> set (mByOut m) \<and> k \<noteq> k' \<and>
      mStore m r = Some mp \<and> mStore m r' = Some mp' \<longrightarrow> reply_key m k mp \<noteq> reply_key m k' mp'"
    using entry(5) nat_ok_ref_unique [OF ok] by (metis option.inject)
  moreover have "PrepareOutbound now raw meta m \<noteq> None \<and> RestoreInbound now raw m \<noteq> None"
    using PrepareOutbound_ok [OF ok, of now raw meta] RestoreInbound_ok [OF ok, of now raw] by auto
  ultimately show ?thesis by blast
qed

theorem nat_consistent_witness:
  "PrepareOutbound 0 [] zeroMeta (New (Addr4 [10, 0, 0, 2]) AddrInvalid) \<noteq> None"
  using nat_consistent [of "Addr4 [10, 0, 0, 2]" AddrInvalid "New (Addr4 [10, 0, 0, 2]) AddrInvalid" 0 "[]" zeroMeta]
  by (simp add: wf_pair_def)

text \<open>What \<open>PrepareOutbound\<close> does to a packet when it succeeds.\<close>

lemma PrepareOutbound_success:
  assumes ok: "nat_ok m" and P: "Parse raw = Some (Inr p)" and pr: "pProtocol p = ProtoTCP \<or> pProtocol p = ProtoUDP"
    and l4: "pL4 p + 4 \<le> pTotal p" and tun: "IsValid (tunnelFor m (pSrc p))"
    and om: "obtain_mapping now p (tunnelFor m (pSrc p)) meta m = (Inr mp, m')"
  shows "\<exists>raw'. PrepareOutbound now raw meta m = Some (None, raw', m') \<and>
    Parse raw' = Some (Inr (p\<lparr>pSrc := tunnelFor m (pSrc p), pSrcPort := mTunnelPort mp\<rparr>)) \<and>
    drop (pL4 p + 2) raw' = drop (pL4 p + 2) raw"
proof -
  let ?tun = "tunnelFor m (pSrc p)"
  have wf: "wf_addr ?tun" using ok by (simp add: nat_ok_def wf_tunnel_def tunnelFor_def)
  have "same_family ?tun (pSrc p)"
    using ok tun same_family_tunnel [of m "pSrc p"] Parse_version [OF P] by (auto simp: nat_ok_def)
  then have "same_family (pSrc p) ?tun" by (auto simp: same_family_def)
  then obtain b where b: "RewriteSrc raw ?tun = Some (Inr b)" "Parse b = Some (Inr (p\<lparr>pSrc := ?tun\<rparr>))"
    "drop (pL4 p) b = drop (pL4 p) raw" using RewriteSrc_ok [OF P wf] by blast
  have d: "drop (pL4 p + 2) b = drop (pL4 p + 2) raw"
    using arg_cong [OF b(3), of "drop 2"] by (simp add: add.commute)
  show ?thesis
  proof (cases "mTunnelPort mp = pSrcPort p")
    case True
    then have "p\<lparr>pSrc := ?tun, pSrcPort := mTunnelPort mp\<rparr> = p\<lparr>pSrc := ?tun\<rparr>" by simp
    with True b d P pr tun om show ?thesis by (auto simp: PrepareOutbound_def Let_def)
  next
    case False
    from RewriteSrcPort_ok [OF b(2), of "mTunnelPort mp"] pr l4 obtain c where
      "RewriteSrcPort b (mTunnelPort mp) = Some (Inr c)" "Parse c = Some (Inr (p\<lparr>pSrc := ?tun, pSrcPort := mTunnelPort mp\<rparr>))"
      "drop (pL4 p + 2) c = drop (pL4 p + 2) b" by auto
    with False b d P pr tun om show ?thesis by (auto simp: PrepareOutbound_def Let_def)
  qed
qed

lemma RestoreInbound_success:
  assumes "nat_ok m" "Parse raw = Some (Inr q)" "pProtocol q = ProtoTCP \<or> pProtocol q = ProtoUDP" "pL4 q + 4 \<le> pTotal q"
    and "leads_to m \<lparr>rkProto = pProtocol q, rkRemote = pSrc q, rkTunnel = pDst q, rkRemotePort = pSrcPort q, rkTunnelPort = pDstPort q\<rparr> a port"
  shows "\<exists>meta raw' m'. RestoreInbound now raw m = Some (Inr (meta, True), raw', m') \<and>
    Parse raw' = Some (Inr (q\<lparr>pDst := a, pDstPort := port\<rparr>)) \<and> drop (pL4 q + 4) raw' = drop (pL4 q + 4) raw"
proof -
  let ?key = "\<lparr>rkProto = pProtocol q, rkRemote = pSrc q, rkTunnel = pDst q, rkRemotePort = pSrcPort q, rkTunnelPort = pDstPort q\<rparr>"
  from assms(5) obtain r mp where r: "mByReply m ?key = Some r" "mStore m r = Some mp" "mOriginalLocal mp = a" "mOriginalPort mp = port"
    by (auto simp: leads_to_def)
  with assms(1) obtain k where k: "(k, r) \<in> set (mByOut m)" "?key = reply_key m k mp" unfolding nat_ok_def by force
  note e = nat_ok_entry [OF assms(1) k(1)]
  have a: "okLocal k = a" using e(5) r by auto
  have "pDst q = tunnelFor m (okLocal k)" using k(2) by (simp add: reply_key_def)
  with e(3,4) a have fam: "wf_addr a" "same_family (pDst q) a" by simp_all
  obtain b where b: "RewriteDst raw a = Some (Inr b)" "Parse b = Some (Inr (q\<lparr>pDst := a\<rparr>))"
    "drop (pL4 q) b = drop (pL4 q) raw" using RewriteDst_ok [OF assms(2) fam] by blast
  have d: "drop (pL4 q + 4) b = drop (pL4 q + 4) raw"
    using arg_cong [OF b(3), of "drop 4"] by (simp add: add.commute)
  show ?thesis
  proof (cases "pDstPort q = port")
    case True
    then have "q\<lparr>pDst := a, pDstPort := port\<rparr> = q\<lparr>pDst := a\<rparr>" by simp
    with True b d assms(2,3) r show ?thesis by (auto simp: RestoreInbound_def Let_def)
  next
    case False
    from RewriteDstPort_ok [OF b(2), of port] assms(3,4) obtain c where
      "RewriteDstPort b port = Some (Inr c)" "Parse c = Some (Inr (q\<lparr>pDst := a, pDstPort := port\<rparr>))"
      "drop (pL4 q + 4) c = drop (pL4 q + 4) b" by auto
    with False b d assms(2,3) r show ?thesis by (auto simp: RestoreInbound_def Let_def)
  qed
qed

text \<open>C20: Round trip. If \<open>PrepareOutbound\<close> sends a packet of a connection into the tunnel, then,
  after any further outbound and inbound packets, a packet that answers the rewritten packet
  (addresses and ports swapped) is recognised by \<open>RestoreInbound\<close> and delivered to the local
  address and port of the connection. Both rewrites leave the rest of the packet as it was.\<close>

theorem nat_roundtrip:
  assumes "nat_step\<^sup>*\<^sup>* (New v4 v6) m" "wf_pair v4 v6"
    and "Parse raw = Some (Inr p)" "pL4 p + 4 \<le> pTotal p" "PrepareOutbound now raw meta m = Some (None, raw', m')"
    and "nat_use\<^sup>*\<^sup>* m' m''" "Parse raw' = Some (Inr p')"
    and "Parse reply = Some (Inr q)" "pL4 q + 4 \<le> pTotal q" "pProtocol q = pProtocol p'"
    and "pSrc q = pDst p'" "pDst q = pSrc p'" "pSrcPort q = pDstPort p'" "pDstPort q = pSrcPort p'"
  shows "p' = p\<lparr>pSrc := tunnelFor m (pSrc p), pSrcPort := pSrcPort p'\<rparr> \<and> drop (pL4 p + 2) raw' = drop (pL4 p + 2) raw \<and>
    (\<exists>meta' reply' m3. RestoreInbound now' reply m'' = Some (Inr (meta', True), reply', m3) \<and>
       Parse reply' = Some (Inr (q\<lparr>pDst := pSrc p, pDstPort := pSrcPort p\<rparr>)) \<and>
       drop (pL4 q + 4) reply' = drop (pL4 q + 4) reply)"
proof -
  let ?tun = "tunnelFor m (pSrc p)"
  note ok = nat_reachable_ok(1) [OF assms(1,2)]
  obtain x m1 where om: "obtain_mapping now p ?tun meta m = (x, m1)" by force
  have pr: "pProtocol p = ProtoTCP \<or> pProtocol p = ProtoUDP" and tun: "IsValid ?tun"
    using assms(3,5) by (auto simp: PrepareOutbound_def Let_def split: if_splits)
  obtain mp where x: "x = Inr mp"
    using assms(3,5) om pr tun by (cases x) (auto simp: PrepareOutbound_def Let_def)
  have s: "wf_addr (pSrc p)" "Is4 (pSrc p) \<or> Is6 (pSrc p)"
    using Parse_wf_addr [OF assms(3)] Parse_version [OF assms(3)] by auto
  note o = obtain_mapping_ok [OF ok s refl tun om]
  from PrepareOutbound_success [OF ok assms(3) pr assms(4) tun om [unfolded x]] assms(5,7)
  have out: "m' = m1" "p' = p\<lparr>pSrc := ?tun, pSrcPort := mTunnelPort mp\<rparr>" "drop (pL4 p + 2) raw' = drop (pL4 p + 2) raw" by auto
  have "leads_to m1 (answer_key p ?tun (mTunnelPort mp)) (pSrc p) (pSrcPort p)"
    using o(4) [OF x] by (auto simp: leads_to_def)
  with nat_uses_keep [OF assms(6)] o(1) out(1)
  have "nat_ok m''" "leads_to m'' (answer_key p ?tun (mTunnelPort mp)) (pSrc p) (pSrcPort p)" by auto
  moreover have "answer_key p ?tun (mTunnelPort mp) = \<lparr>rkProto = pProtocol q, rkRemote = pSrc q, rkTunnel = pDst q,
      rkRemotePort = pSrcPort q, rkTunnelPort = pDstPort q\<rparr>"
    using assms(10-14) out(2) by (simp add: answer_key_def)
  moreover have "pProtocol q = ProtoTCP \<or> pProtocol q = ProtoUDP" using assms(10) out(2) pr by simp
  ultimately have "\<exists>meta' reply' m3. RestoreInbound now' reply m'' = Some (Inr (meta', True), reply', m3) \<and>
       Parse reply' = Some (Inr (q\<lparr>pDst := pSrc p, pDstPort := pSrcPort p\<rparr>)) \<and>
       drop (pL4 q + 4) reply' = drop (pL4 q + 4) reply"
    using RestoreInbound_success [OF _ assms(8) _ assms(9)] by simp
  with out show ?thesis by simp
qed

text \<open>Port allocation is complete: in a reachable state a TCP or UDP packet for which there is
  a tunnel address of its family is refused for lack of a port only if every one of the 21000 ports
  from 40000 to 60999 is taken towards its remote endpoint; if one is free, the packet is sent.\<close>

theorem nat_port_found:
  assumes "nat_step\<^sup>*\<^sup>* (New v4 v6) m" "wf_pair v4 v6"
    and "Parse raw = Some (Inr p)" "pProtocol p = ProtoTCP \<or> pProtocol p = ProtoUDP" "pL4 p + 4 \<le> pTotal p"
    and "IsValid (tunnelFor m (pSrc p))" "40000 \<le> t" "t \<le> 60999"
    and "mByReply m \<lparr>rkProto = pProtocol p, rkRemote = pDst p, rkTunnel = tunnelFor m (pSrc p),
      rkRemotePort = pDstPort p, rkTunnelPort = t\<rparr> = None"
  shows "\<exists>raw' m'. PrepareOutbound now raw meta m = Some (None, raw', m')"
proof -
  note ok = nat_reachable_ok(1) [OF assms(1,2)]
  have "port_range t" using assms(7,8) by (simp add: port_range_def)
  from obtain_mapping_succeeds [OF ok nat_reachable_range [OF assms(1)] this] assms(9) obtain mp m' where
    "obtain_mapping now p (tunnelFor m (pSrc p)) meta m = (Inr mp, m')" by (fastforce simp: answer_key_def)
  from PrepareOutbound_success [OF ok assms(3-6) this] show ?thesis by blast
qed

definition nat_example :: bytes where
  "nat_example = [0x45, 0, 0, 28, 0, 0, 0, 0, 64, 17, 0, 0, 192, 168, 0, 5, 8, 8, 8, 8, 0x30, 0x39, 0, 53, 0, 8, 0, 0]"

definition nat_answer :: bytes where
  "nat_answer = [0x45, 0, 0, 28, 0, 0, 0, 0, 64, 17, 0, 0, 8, 8, 8, 8, 10, 0, 0, 2, 0, 53, 0x30, 0x39, 0, 8, 0, 0]"

lemma nat_example_Parse:
  "Parse nat_example = Some (Inr \<lparr>pVersion = 4, pProtocol = 17, pSrc = Addr4 [192, 168, 0, 5], pDst = Addr4 [8, 8, 8, 8],
     pSrcPort = 12345, pDstPort = 53, pL4 = 20, pTotal = 28\<rparr>)"
  "Parse nat_answer = Some (Inr \<lparr>pVersion = 4, pProtocol = 17, pSrc = Addr4 [8, 8, 8, 8], pDst = Addr4 [10, 0, 0, 2],
     pSrcPort = 53, pDstPort = 12345, pL4 = 20, pTotal = 28\<rparr>)"
  by (simp_all add: nat_example_def nat_answer_def Parse_Inr_iff ok4_def pkt4_def with_ports_def ihl4_def tot4_def u16of_def
      ProtoTCP_def ProtoUDP_def)

theorem nat_port_found_witness:
  "\<exists>raw' m'. PrepareOutbound 7 nat_example zeroMeta (New (Addr4 [10, 0, 0, 2]) AddrInvalid) = Some (None, raw', m')"
  using nat_port_found [of "Addr4 [10, 0, 0, 2]" AddrInvalid "New (Addr4 [10, 0, 0, 2]) AddrInvalid" nat_example _ 40000 7 zeroMeta,
      OF _ _ nat_example_Parse(1)]
  by (simp add: wf_pair_def New_def tunnelFor_def ProtoTCP_def ProtoUDP_def)

theorem nat_roundtrip_witness:
  "\<exists>raw' m' meta' reply' m3. PrepareOutbound 7 nat_example zeroMeta (New (Addr4 [10, 0, 0, 2]) AddrInvalid) = Some (None, raw', m') \<and>
     RestoreInbound 8 nat_answer m' = Some (Inr (meta', True), reply', m3) \<and>
     Parse reply' = Some (Inr \<lparr>pVersion = 4, pProtocol = 17, pSrc = Addr4 [8, 8, 8, 8], pDst = Addr4 [192, 168, 0, 5],
       pSrcPort = 53, pDstPort = 12345, pL4 = 20, pTotal = 28\<rparr>)"
proof -
  let ?m = "New (Addr4 [10, 0, 0, 2]) AddrInvalid"
  let ?p = "\<lparr>pVersion = 4, pProtocol = 17, pSrc = Addr4 [192, 168, 0, 5], pDst = Addr4 [8, 8, 8, 8],
     pSrcPort = 12345, pDstPort = 53, pL4 = 20, pTotal = 28\<rparr>"
  have wf: "wf_pair (Addr4 [10, 0, 0, 2]) AddrInvalid" by (simp add: wf_pair_def)
  have tun: "tunnelFor ?m (pSrc ?p) = Addr4 [10, 0, 0, 2]" by (simp add: tunnelFor_def New_def)
  obtain mp m' where om: "obtain_mapping 7 ?p (tunnelFor ?m (pSrc ?p)) zeroMeta ?m = (Inr mp, m')" "mTunnelPort mp = 12345"
    by (simp add: obtain_mapping_def New_def Let_def)
  have ok: "nat_ok ?m" by (rule nat_ok_New) simp_all
  from PrepareOutbound_success [OF ok nat_example_Parse(1) _ _ _ om(1)] tun obtain raw' where
    r: "PrepareOutbound 7 nat_example zeroMeta ?m = Some (None, raw', m')"
      "Parse raw' = Some (Inr (?p\<lparr>pSrc := Addr4 [10, 0, 0, 2], pSrcPort := 12345\<rparr>))"
    by (auto simp: ProtoUDP_def om(2))
  from nat_roundtrip [where now' = 8, OF rtranclp.rtrancl_refl wf nat_example_Parse(1) _ r(1) rtranclp.rtrancl_refl r(2) nat_example_Parse(2)] r(1)
  show ?thesis by auto
qed

end
