(* ===== verification/Replay.thy ===== *)
theory Replay
  imports Prelude
begin

unbundle bit_operations_syntax

text \<open>
  The anti-replay window of \<open>internal/wireguard/client.go\<close> (\<open>type replay\<close> and \<open>Accept\<close>): the
  highest counter seen and a bitmap of the last 2048 counters, in 32 words of 64 bits.
\<close>

section \<open>Data and operation\<close>

record replay =
  rpMax :: u64
  rpInit :: bool
  rpSeen :: "u64 list"

definition newReplay :: replay where
  "newReplay = \<lparr>rpMax = 0, rpInit = False, rpSeen = replicate 32 0\<rparr>"

text \<open>\<open>r.seen[idx/64] |= 1 << (idx \% 64)\<close>, the same with \<open>&^=\<close>, and the test.\<close>

definition seen_set :: "u64 list \<Rightarrow> u64 \<Rightarrow> u64 list" where
  "seen_set s i = s[unat (i div 64) := (s ! unat (i div 64)) OR push_bit (unat (i mod 64)) 1]"

definition seen_clear :: "u64 list \<Rightarrow> u64 \<Rightarrow> u64 list" where
  "seen_clear s i = s[unat (i div 64) := (s ! unat (i div 64)) AND NOT (push_bit (unat (i mod 64)) 1)]"

definition seen_test :: "u64 list \<Rightarrow> u64 \<Rightarrow> bool" where
  "seen_test s i \<longleftrightarrow> (s ! unat (i div 64)) AND push_bit (unat (i mod 64)) 1 \<noteq> 0"

text \<open>\<open>for x := r.max + 1; x <= n; x++\<close>, on 64-bit counters: \<open>None\<close> is a loop that never ends.\<close>

partial_function (option) clear_loop :: "u64 list \<Rightarrow> u64 \<Rightarrow> u64 \<Rightarrow> u64 list option" where
  "clear_loop s x n = (if x \<le> n then clear_loop (seen_clear s (x mod 2048)) (x + 1) n else Some s)"

definition Accept :: "u64 \<Rightarrow> replay \<Rightarrow> (bool \<times> replay) option" where
  "Accept n r =
     (if \<not> rpInit r then
        Some (True, r\<lparr>rpInit := True, rpMax := n, rpSeen := (let s = rpSeen r in
          s[unat (n mod 2048 div 64) := (s ! unat (n mod 2048 div 64)) OR push_bit (unat (n mod 64)) 1])\<rparr>)
      else if n + 2048 \<le> rpMax r then Some (False, r)
      else do {
        r \<leftarrow> (if n > rpMax r then do {
               s \<leftarrow> (if n - rpMax r \<ge> 2048 then Some (map (\<lambda>_. 0) (rpSeen r))
                     else clear_loop (rpSeen r) (rpMax r + 1) n);
               Some (r\<lparr>rpSeen := s, rpMax := n\<rparr>)
             } else Some r);
        let i = n mod 2048;
        if seen_test (rpSeen r) i then Some (False, r)
        else Some (True, r\<lparr>rpSeen := seen_set (rpSeen r) i\<rparr>)
      })"

section \<open>The bitmap\<close>

lemma unat_mod_2048: "unat (n mod 2048 :: u64) = unat n mod 2048"
  by (simp add: unat_mod)

lemma unat_div_mod_64: "unat (i div 64 :: u64) = unat i div 64" "unat (i mod 64 :: u64) = unat i mod 64"
  by (simp_all add: unat_div unat_mod)

definition slot :: "u64 list \<Rightarrow> nat \<Rightarrow> bool" where
  "slot s j \<longleftrightarrow> bit (s ! (j div 64)) (j mod 64)"

lemma seen_test_slot: "seen_test s i = slot s (unat i)"
  by (simp add: seen_test_def slot_def unat_div_mod_64 bit_iff_and_push_bit_not_eq_0)

lemma length_seen [simp]: "length (seen_set s i) = length s" "length (seen_clear s i) = length s"
  by (simp_all add: seen_set_def seen_clear_def)

lemma slot_eq_iff: "j div 64 = k div 64 \<and> j mod 64 = k mod 64 \<longleftrightarrow> j = (k :: nat)"
  by (metis div_mult_mod_eq)

lemma slot_set:
  assumes "length s = 32" "unat i < 2048" "j < 2048"
  shows "slot (seen_set s i) j = (j = unat i \<or> slot s j)"
proof (cases "j div 64 = unat i div 64")
  case True
  then have "slot (seen_set s i) j = (bit (s ! (j div 64)) (j mod 64) \<or> j mod 64 = unat i mod 64)"
    using assms by (auto simp: slot_def seen_set_def unat_div_mod_64 bit_or_iff bit_exp_iff possible_bit_def less_mult_imp_div_less)
  then show ?thesis using True slot_eq_iff [of j "unat i"] by (auto simp: slot_def)
next
  case False
  then show ?thesis by (auto simp: slot_def seen_set_def unat_div_mod_64)
qed

lemma slot_clear:
  assumes "length s = 32" "unat i < 2048" "j < 2048"
  shows "slot (seen_clear s i) j = (j \<noteq> unat i \<and> slot s j)"
proof (cases "j div 64 = unat i div 64")
  case True
  then have "slot (seen_clear s i) j = (bit (s ! (j div 64)) (j mod 64) \<and> j mod 64 \<noteq> unat i mod 64)"
    using assms
    by (auto simp: slot_def seen_clear_def unat_div_mod_64 bit_and_iff bit_not_iff bit_exp_iff possible_bit_def less_mult_imp_div_less)
  then show ?thesis using True slot_eq_iff [of j "unat i"] by (auto simp: slot_def)
next
  case False
  then show ?thesis by (auto simp: slot_def seen_clear_def unat_div_mod_64)
qed

lemma all_range_split:
  "a \<le> b \<Longrightarrow> (\<forall>y :: nat. a \<le> y \<and> y \<le> b \<longrightarrow> Q y) = (Q a \<and> (\<forall>y. a + 1 \<le> y \<and> y \<le> b \<longrightarrow> Q y))"
  by (metis Suc_eq_plus1 Suc_leD le_antisym not_less_eq_eq order_refl)

lemma clear_loop_spec:
  assumes "length s = 32" "unat n < 2 ^ 64 - 1" "unat x \<le> unat n + 1"
  shows "\<exists>s'. clear_loop s x n = Some s' \<and> length s' = 32 \<and>
    (\<forall>j < 2048. slot s' j = (slot s j \<and> (\<forall>y. unat x \<le> y \<and> y \<le> unat n \<longrightarrow> y mod 2048 \<noteq> j)))"
  using assms
proof (induction "unat n + 1 - unat x" arbitrary: s x)
  case 0
  then have "\<not> x \<le> n" by (simp add: word_le_nat_alt)
  with 0 show ?case by (subst clear_loop.simps) auto
next
  case (Suc k)
  then have le: "x \<le> n" by (simp add: word_le_nat_alt)
  have x1: "unat (x + 1) = unat x + 1" using Suc.prems Suc.hyps(2) by (simp add: unat_word_ariths)
  let ?s = "seen_clear s (x mod 2048)"
  have "k = unat n + 1 - unat (x + 1)" "unat (x + 1) \<le> unat n + 1" using Suc.hyps(2) x1 le by (simp_all add: word_le_nat_alt)
  from Suc.hyps(1) [OF this(1) _ Suc.prems(2) this(2), of ?s] Suc.prems(1) obtain s' where
    s': "clear_loop ?s (x + 1) n = Some s'" "length s' = 32"
      "\<forall>j < 2048. slot s' j = (slot ?s j \<and> (\<forall>y. unat (x + 1) \<le> y \<and> y \<le> unat n \<longrightarrow> y mod 2048 \<noteq> j))" by auto
  have "slot s' j = (slot s j \<and> (\<forall>y. unat x \<le> y \<and> y \<le> unat n \<longrightarrow> y mod 2048 \<noteq> j))" if "j < 2048" for j
  proof -
    have "unat x \<le> unat n" using le by (simp add: word_le_nat_alt)
    note sp = all_range_split [OF this, of "\<lambda>y. y mod 2048 \<noteq> j"]
    have "slot ?s j = (j \<noteq> unat x mod 2048 \<and> slot s j)"
      using slot_clear [OF Suc.prems(1) _ that, of "x mod 2048"] by (simp add: unat_mod_2048)
    with s'(3) that show ?thesis unfolding sp by (auto simp: x1)
  qed
  with s' le show ?case by (subst clear_loop.simps) auto
qed

section \<open>Specification\<close>

text \<open>The abstract window: the set \<open>S\<close> of accepted counters. A counter is accepted if it was not
  accepted before and is not 2048 or more behind a counter of the set. The sum is the one of 64-bit
  counters: the last 2048 counters are compared after wrapping around.\<close>

definition window_accepts :: "nat \<Rightarrow> nat set \<Rightarrow> bool" where
  "window_accepts n S \<longleftrightarrow> n \<notin> S \<and> (\<forall>m \<in> S. m < (n + 2048) mod 2 ^ 64)"

definition rep :: "replay \<Rightarrow> nat set \<Rightarrow> bool" where
  "rep r S \<longleftrightarrow> length (rpSeen r) = 32 \<and> (rpInit r \<longleftrightarrow> S \<noteq> {}) \<and>
     (S = {} \<longrightarrow> rpSeen r = replicate 32 0) \<and>
     (S \<noteq> {} \<longrightarrow> unat (rpMax r) \<in> S \<and> (\<forall>m \<in> S. m \<le> unat (rpMax r)) \<and>
       (\<forall>m. m \<le> unat (rpMax r) \<and> unat (rpMax r) < m + 2048 \<longrightarrow> slot (rpSeen r) (m mod 2048) = (m \<in> S)))"

lemma rep_new: "rep newReplay {}"
  by (simp add: rep_def newReplay_def)

lemma mod_window_less:
  assumes "m < k" "k < m + 2048"
  shows "m mod 2048 \<noteq> (k mod 2048 :: nat)"
proof
  assume "m mod 2048 = k mod 2048"
  then have "2048 dvd k - m" using assms(1) mod_eq_dvd_iff_nat [of m k 2048] by simp
  with assms show False by (auto dest: dvd_imp_le)
qed

lemma mod_window: "m \<noteq> k \<Longrightarrow> m < k + 2048 \<Longrightarrow> k < m + 2048 \<Longrightarrow> m mod 2048 \<noteq> (k mod 2048 :: nat)"
  using mod_window_less [of m k] mod_window_less [of k m] by (cases "m < k") auto

lemma slot_zero: "j < 2048 \<Longrightarrow> \<not> slot (replicate 32 0) j"
  by (simp add: slot_def less_mult_imp_div_less)

lemma Accept_first:
  assumes r0: "rep r {}"
  shows "\<exists>r'. Accept n r = Some (True, r') \<and> rep r' {unat n}"
proof -
  let ?s = "seen_set (rpSeen r) (n mod 2048)"
  have s0: "rpSeen r = replicate 32 0" "\<not> rpInit r" using r0 by (simp_all add: rep_def)
  have "slot ?s (m mod 2048) = (m = unat n)" if "m \<le> unat n" "unat n < m + 2048" for m
    using slot_set [of "rpSeen r" "n mod 2048" "m mod 2048"] slot_zero [of "m mod 2048"] mod_window [of m "unat n"] that s0
    by (auto simp: unat_mod_2048)
  then have "rep (r\<lparr>rpInit := True, rpMax := n, rpSeen := ?s\<rparr>) {unat n}"
    using s0 by (auto simp: rep_def)
  moreover have "unat (n mod 64) = unat (n mod 2048 mod 64)"
    by (simp add: unat_mod mod_mod_cancel)
  ultimately show ?thesis using s0(2) by (simp add: Accept_def seen_set_def Let_def)
qed

text \<open>Moving the window up to a new highest counter.\<close>

lemma window_up:
  assumes "rep r S" "S \<noteq> {}" "rpMax r < n" "\<not> n + 2048 \<le> rpMax r"
  shows "\<exists>s. (if n - rpMax r \<ge> 2048 then Some (map (\<lambda>_. 0) (rpSeen r)) else clear_loop (rpSeen r) (rpMax r + 1) n) = Some s \<and>
    length s = 32 \<and> (\<forall>m. m \<le> unat n \<and> unat n < m + 2048 \<longrightarrow> slot s (m mod 2048) = (m \<in> S))"
proof -
  let ?M = "unat (rpMax r)"
  have r: "length (rpSeen r) = 32" "\<forall>m \<in> S. m \<le> ?M"
    "\<And>m. m \<le> ?M \<Longrightarrow> ?M < m + 2048 \<Longrightarrow> slot (rpSeen r) (m mod 2048) = (m \<in> S)"
    using assms(1,2) by (auto simp: rep_def)
  have lt: "?M < unat n" using assms(3) by (simp add: word_less_nat_alt)
  have d: "unat (n - rpMax r) = unat n - ?M" using assms(3) by (intro unat_sub) simp
  show ?thesis
  proof (cases "2048 \<le> unat n - ?M")
    case True
    then have "map (\<lambda>_. 0) (rpSeen r) = (replicate 32 0 :: u64 list)" "n - rpMax r \<ge> 2048"
      using r(1) d by (simp_all add: map_replicate_const word_le_nat_alt)
    moreover have "m \<notin> S" if "unat n < m + 2048" for m using that True r(2) by fastforce
    ultimately show ?thesis using slot_zero by auto
  next
    case False
    then have c: "\<not> n - rpMax r \<ge> 2048" using d by (simp add: word_le_nat_alt)
    have nb: "unat n < 2 ^ 64 - 2048"
    proof (rule ccontr)
      assume hi: "\<not> unat n < 2 ^ 64 - 2048"
      then have "unat (n + 2048) < 2048" using unsigned_less [of n, where ?'a = nat] by (simp add: unat_word_ariths mod_if) linarith
      with assms(4) have "?M < 2048" by (simp add: word_le_nat_alt)
      with hi False show False by simp
    qed
    have m1: "unat (rpMax r + 1) = ?M + 1" using nb lt by (simp add: unat_word_ariths)
    from clear_loop_spec [OF r(1), of n "rpMax r + 1"] nb lt m1 obtain s where
      s: "clear_loop (rpSeen r) (rpMax r + 1) n = Some s" "length s = 32"
        "\<forall>j < 2048. slot s j = (slot (rpSeen r) j \<and> (\<forall>y. ?M + 1 \<le> y \<and> y \<le> unat n \<longrightarrow> y mod 2048 \<noteq> j))" by auto
    have "slot s (m mod 2048) = (m \<in> S)" if m: "m \<le> unat n" "unat n < m + 2048" for m
    proof (cases "m \<le> ?M")
      case True
      have "y mod 2048 \<noteq> m mod 2048" if "?M + 1 \<le> y" "y \<le> unat n" for y
        using that True m by (intro mod_window) auto
      with s(3) r(3) [OF True] True m lt show ?thesis by auto
    next
      case False
      have "\<not> slot s (m mod 2048)"
      proof
        assume "slot s (m mod 2048)"
        with s(3) have "\<forall>y. ?M + 1 \<le> y \<and> y \<le> unat n \<longrightarrow> y mod 2048 \<noteq> m mod 2048" by simp
        then have "?M + 1 \<le> m \<and> m \<le> unat n \<longrightarrow> m mod 2048 \<noteq> m mod 2048" by (rule spec)
        with False m(1) show False by simp
      qed
      moreover have "m \<notin> S" using r(2) False by auto
      ultimately show ?thesis by blast
    qed
    with s c show ?thesis by auto
  qed
qed

lemma Accept_refines:
  assumes "rep r S"
  shows "\<exists>r'. Accept n r = Some (window_accepts (unat n) S, r') \<and>
    rep r' (if window_accepts (unat n) S then insert (unat n) S else S)"
proof (cases "S = {}")
  case True
  with Accept_first [of r n] assms show ?thesis by (auto simp: window_accepts_def)
next
  case False
  let ?M = "unat (rpMax r)"
  have r: "rpInit r" "length (rpSeen r) = 32" "?M \<in> S" "\<forall>m \<in> S. m \<le> ?M"
    "\<And>m. m \<le> ?M \<Longrightarrow> ?M < m + 2048 \<Longrightarrow> slot (rpSeen r) (m mod 2048) = (m \<in> S)"
    using assms False by (auto simp: rep_def)
  have old: "n + 2048 \<le> rpMax r \<longleftrightarrow> (unat n + 2048) mod 2 ^ 64 \<le> ?M"
    by (simp add: word_le_nat_alt unat_word_ariths)
  have wa: "window_accepts (unat n) S \<longleftrightarrow> unat n \<notin> S \<and> ?M < (unat n + 2048) mod 2 ^ 64"
    using r(3,4) by (force simp: window_accepts_def)
  show ?thesis
  proof (cases "(unat n + 2048) mod 2 ^ 64 \<le> ?M")
    case True
    then show ?thesis using assms r(1) old wa by (simp add: Accept_def)
  next
    case inw': False
    then have inw: "\<not> unat n + 2048 \<le> ?M" by (meson le_trans mod_less_eq_dividend)
    show ?thesis
    proof (cases "rpMax r < n")
      case True
      then have lt: "?M < unat n" by (simp add: word_less_nat_alt)
      then have nS: "unat n \<notin> S" using r(4) by force
      from window_up [OF assms False True] old inw' obtain s where
        s: "(if n - rpMax r \<ge> 2048 then Some (map (\<lambda>_. 0) (rpSeen r)) else clear_loop (rpSeen r) (rpMax r + 1) n) = Some s"
          "length s = 32" "\<And>m. m \<le> unat n \<Longrightarrow> unat n < m + 2048 \<Longrightarrow> slot s (m mod 2048) = (m \<in> S)" by blast
      have "\<not> seen_test s (n mod 2048)" using s(3) [of "unat n"] nS by (simp add: seen_test_slot unat_mod_2048)
      then have e: "Accept n r = Some (True, r\<lparr>rpMax := n, rpSeen := seen_set s (n mod 2048)\<rparr>)"
        using r(1) old inw' True s(1) by (simp add: Accept_def)
      have "slot (seen_set s (n mod 2048)) (m mod 2048) = (m = unat n \<or> m \<in> S)" if "m \<le> unat n" "unat n < m + 2048" for m
        using slot_set [OF s(2), of "n mod 2048" "m mod 2048"] s(3) [OF that] mod_window [of m "unat n"] that
        by (auto simp: unat_mod_2048)
      then have "rep (r\<lparr>rpMax := n, rpSeen := seen_set s (n mod 2048)\<rparr>) (insert (unat n) S)"
        using r(1,4) s(2) lt by (force simp: rep_def)
      with e wa nS inw' show ?thesis by simp
    next
      case ge: False
      then have le: "unat n \<le> ?M" by (simp add: word_less_nat_alt)
      have t: "seen_test (rpSeen r) (n mod 2048) = (unat n \<in> S)"
        using r(5) [OF le] inw by (simp add: seen_test_slot unat_mod_2048)
      have "slot (seen_set (rpSeen r) (n mod 2048)) (m mod 2048) = (m = unat n \<or> m \<in> S)" if "m \<le> ?M" "?M < m + 2048" for m
        using slot_set [OF r(2), of "n mod 2048" "m mod 2048"] r(5) [OF that] mod_window [of m "unat n"] that inw le
        by (auto simp: unat_mod_2048)
      then have "rep (r\<lparr>rpSeen := seen_set (rpSeen r) (n mod 2048)\<rparr>) (insert (unat n) S)"
        using r le by (auto simp: rep_def)
      then show ?thesis using r(1) old inw' ge t wa assms by (simp add: Accept_def)
    qed
  qed
qed

section \<open>Sequences of counters\<close>

text \<open>The calls of a session's receive path, in order, and what the specification answers.\<close>

fun accept_all :: "u64 list \<Rightarrow> replay \<Rightarrow> (bool list \<times> replay) option" where
  "accept_all [] r = Some ([], r)"
| "accept_all (n # ns) r = do {
     (b, r) \<leftarrow> Accept n r;
     (bs, r) \<leftarrow> accept_all ns r;
     Some (b # bs, r)
   }"

fun window_all :: "u64 list \<Rightarrow> nat set \<Rightarrow> bool list" where
  "window_all [] S = []"
| "window_all (n # ns) S = (let b = window_accepts (unat n) S in
     b # window_all ns (if b then insert (unat n) S else S))"

lemma accept_all_refines: "rep r S \<Longrightarrow> \<exists>r'. accept_all ns r = Some (window_all ns S, r')"
proof (induction ns arbitrary: r S)
  case (Cons n ns)
  from Accept_refines [OF Cons.prems, of n] obtain r1 where
    r1: "Accept n r = Some (window_accepts (unat n) S, r1)"
      "rep r1 (if window_accepts (unat n) S then insert (unat n) S else S)" by blast
  from Cons.IH [OF r1(2)] r1(1) show ?case by (auto simp: Let_def)
qed simp

lemma window_all_not_in: "k < length ns \<Longrightarrow> unat (ns ! k) \<in> S \<Longrightarrow> \<not> window_all ns S ! k"
proof (induction ns arbitrary: S k)
  case (Cons n ns)
  then show ?case by (cases k) (auto simp: Let_def window_accepts_def)
qed simp

lemma length_window_all [simp]: "length (window_all ns S) = length ns"
  by (induction ns arbitrary: S) (auto simp: Let_def)

lemma window_all_once:
  "j < k \<Longrightarrow> k < length ns \<Longrightarrow> ns ! j = ns ! k \<Longrightarrow> window_all ns S ! j \<Longrightarrow> \<not> window_all ns S ! k"
proof (induction ns arbitrary: S j k)
  case (Cons n ns)
  from Cons.prems obtain k' where k: "k = Suc k'" "k' < length ns" by (cases k) auto
  show ?case
  proof (cases j)
    case 0
    then show ?thesis using Cons.prems k window_all_not_in [of k' ns] by (auto simp: Let_def)
  next
    case (Suc j')
    then show ?thesis using Cons.IH [of j' k'] Cons.prems k by (auto simp: Let_def)
  qed
qed simp

text \<open>C21: For every sequence of counters, the calls of \<open>Accept\<close> on a fresh window all return (the
  clearing loop ends, also at the top of the 64-bit range), and their answers are those of the
  abstract window over the set of accepted counters: a counter is accepted exactly if it was not
  accepted before and is not 2048 or more behind an accepted one, compared on 64 bits.\<close>

theorem replay_refines: "map_option fst (accept_all ns newReplay) = Some (window_all ns {})"
  using accept_all_refines [OF rep_new, of ns] by auto

text \<open>No counter is accepted twice: if the call for the \<open>j\<close>-th counter accepted it, a later call
  for the same counter rejects it.\<close>

theorem replay_no_duplicates:
  assumes "accept_all ns newReplay = Some (bs, r)" "j < k" "k < length ns" "ns ! j = ns ! k" "bs ! j"
  shows "\<not> bs ! k"
  using window_all_once [OF assms(2-4), of "{}"] accept_all_refines [OF rep_new, of ns] assms(1,5) by auto

theorem replay_no_duplicates_witness:
  "\<exists>bs r. accept_all [5, 3, 5] newReplay = Some (bs, r) \<and> bs ! 0 \<and> bs ! 1 \<and> \<not> bs ! 2"
proof -
  obtain r where r: "accept_all [5, 3, 5] newReplay = Some (window_all [5, 3, 5] {}, r)"
    using accept_all_refines [OF rep_new] by blast
  have "window_all [5, 3, 5] {} ! 0" "window_all [5, 3, 5] {} ! 1" by (simp_all add: Let_def window_accepts_def)
  with replay_no_duplicates [OF r, of 0 2] r show ?thesis by auto
qed

end
