(* ===== verification/Go_Strings.thy ===== *)
theory Go_Strings
  imports Prelude
begin

text \<open>
  What the code uses of Go's \<open>strings\<close>, \<open>path/filepath\<close>, \<open>bufio\<close> and \<open>strconv\<close>. A Go string is a
  byte string, here a list of 8-bit characters. \<open>ToLower\<close> and \<open>TrimSpace\<close> act as in Go on ASCII text:
  letter case and white space outside ASCII are left alone. \<open>filepath\<close> is the Windows one, because
  the program runs there.
\<close>

section \<open>strings\<close>

definition is_space :: "char \<Rightarrow> bool" where
  "is_space c \<longleftrightarrow> (let n = of_char c :: nat in n = 32 \<or> 9 \<le> n \<and> n \<le> 13)"

definition TrimSpace :: "string \<Rightarrow> string" where
  "TrimSpace s = rev (dropWhile is_space (rev (dropWhile is_space s)))"

definition lower_char :: "char \<Rightarrow> char" where
  "lower_char c = (let n = of_char c :: nat in if 65 \<le> n \<and> n \<le> 90 then char_of (n + 32) else c)"

definition ToLower :: "string \<Rightarrow> string" where
  "ToLower s = map lower_char s"

text \<open>\<open>ReplaceAll\<close> with a pattern and a replacement of one byte each.\<close>

definition ReplaceAll :: "string \<Rightarrow> char \<Rightarrow> char \<Rightarrow> string" where
  "ReplaceAll s a b = map (\<lambda>c. if c = a then b else c) s"

definition HasPrefix :: "string \<Rightarrow> string \<Rightarrow> bool" where
  "HasPrefix s p \<longleftrightarrow> take (length p) s = p"

definition HasSuffix :: "string \<Rightarrow> string \<Rightarrow> bool" where
  "HasSuffix s p \<longleftrightarrow> length p \<le> length s \<and> drop (length s - length p) s = p"

definition TrimPrefix :: "string \<Rightarrow> string \<Rightarrow> string" where
  "TrimPrefix s p = (if HasPrefix s p then drop (length p) s else s)"

definition TrimSuffix :: "string \<Rightarrow> string \<Rightarrow> string" where
  "TrimSuffix s p = (if HasSuffix s p then take (length s - length p) s else s)"

definition ContainsAny :: "string \<Rightarrow> string \<Rightarrow> bool" where
  "ContainsAny s cs \<longleftrightarrow> list_ex (\<lambda>c. c \<in> set cs) s"

text \<open>\<open>Cut\<close> and \<open>Split\<close> at a separator of one byte.\<close>

fun Cut :: "string \<Rightarrow> char \<Rightarrow> (string \<times> string) option" where
  "Cut [] c = None"
| "Cut (x # xs) c = (if x = c then Some ([], xs) else map_option (\<lambda>(a, b). (x # a, b)) (Cut xs c))"

fun Split :: "string \<Rightarrow> char \<Rightarrow> string list" where
  "Split [] c = [[]]"
| "Split (x # xs) c = (if x = c then [] # Split xs c
     else (case Split xs c of [] \<Rightarrow> [[x]] | y # ys \<Rightarrow> (x # y) # ys))"

section \<open>filepath, on Windows\<close>

abbreviation slash :: char where "slash \<equiv> CHR ''/''"
abbreviation backslash :: char where "backslash \<equiv> CHR 0x5C"

definition IsPathSeparator :: "char \<Rightarrow> bool" where
  "IsPathSeparator c \<longleftrightarrow> c = slash \<or> c = backslash"

text \<open>The end of a UNC volume name: the second separator after the prefix.\<close>

fun unc_loop :: "nat \<Rightarrow> nat \<Rightarrow> string \<Rightarrow> nat" where
  "unc_loop i k [] = i"
| "unc_loop i k (c # cs) =
     (if IsPathSeparator c then (if k = 1 then i else unc_loop (i + 1) (k + 1) cs) else unc_loop (i + 1) k cs)"

definition uncLen :: "string \<Rightarrow> nat \<Rightarrow> nat" where
  "uncLen s n = (if length s \<le> n then length s else unc_loop n 0 (drop n s))"

definition upper_char :: "char \<Rightarrow> char" where
  "upper_char c = (let n = of_char c :: nat in if 97 \<le> n \<and> n \<le> 122 then char_of (n - 32) else c)"

definition pathHasPrefixFold :: "string \<Rightarrow> string \<Rightarrow> bool" where
  "pathHasPrefixFold s p \<longleftrightarrow> length p \<le> length s \<and>
     list_all (\<lambda>(a, b). if IsPathSeparator a then IsPathSeparator b else upper_char a = upper_char b) (zip p s) \<and>
     (length p < length s \<longrightarrow> IsPathSeparator (s ! length p))"

definition volumeNameLen :: "string \<Rightarrow> nat" where
  "volumeNameLen s =
     (if 2 \<le> length s \<and> s ! 1 = CHR '':'' then 2
      else if s = [] \<or> \<not> IsPathSeparator (s ! 0) then 0
      else if pathHasPrefixFold s (backslash # backslash # CHR ''.'' # backslash # ''UNC'') then uncLen s 8
      else if pathHasPrefixFold s [backslash, backslash, CHR ''.''] \<or> pathHasPrefixFold s [backslash, backslash, CHR ''?''] \<or>
              pathHasPrefixFold s [backslash, CHR ''?'', CHR ''?''] then
        (if length s = 3 then 3
         else 4 + length (takeWhile (\<lambda>c. \<not> IsPathSeparator c) (drop 4 s)))
      else if 2 \<le> length s \<and> IsPathSeparator (s ! 1) then uncLen s 2
      else 0)"

definition Base :: "string \<Rightarrow> string" where
  "Base s =
     (if s = [] then ''.''
      else let s = rev (dropWhile IsPathSeparator (rev s));
               s = drop (volumeNameLen s) s;
               s = rev (takeWhile (\<lambda>c. \<not> IsPathSeparator c) (rev s))
           in if s = [] then [backslash] else s)"

section \<open>Lines and numbers\<close>

text \<open>
  \<open>bufio.Scanner\<close> with \<open>ScanLines\<close>: the lines without their line end (a final carriage return is
  dropped too), up to the first line of 65536 bytes or more, where the scanner stops with an error.
\<close>

definition drop_cr :: "string \<Rightarrow> string" where
  "drop_cr s = (if s \<noteq> [] \<and> last s = CHR 0x0D then butlast s else s)"

definition raw_lines :: "string \<Rightarrow> string list" where
  "raw_lines s = (let xs = Split s (CHR 0x0A) in if last xs = [] then butlast xs else xs)"

definition ScanLines :: "string \<Rightarrow> string list \<times> bool" where
  "ScanLines s = (let xs = raw_lines s; ys = takeWhile (\<lambda>l. length l < 65536) xs
     in (map drop_cr ys, length ys < length xs))"

definition is_digit :: "char \<Rightarrow> bool" where
  "is_digit c \<longleftrightarrow> (let n = of_char c :: nat in 48 \<le> n \<and> n \<le> 57)"

definition digits_val :: "string \<Rightarrow> int" where
  "digits_val s = foldl (\<lambda>a c. a * 10 + (int (of_char c) - 48)) 0 s"

text \<open>\<open>strconv.Atoi\<close> on a 64-bit platform; \<open>None\<close> is the syntax or range error.\<close>

definition Atoi :: "string \<Rightarrow> int option" where
  "Atoi s =
     (let neg = (s \<noteq> [] \<and> hd s = CHR ''-'');
          ds = (if s \<noteq> [] \<and> (hd s = CHR ''-'' \<or> hd s = CHR ''+'') then tl s else s)
      in if ds = [] \<or> \<not> list_all is_digit ds then None
         else let v = (if neg then - digits_val ds else digits_val ds)
              in if - (2 ^ 63) \<le> v \<and> v < 2 ^ 63 then Some v else None)"

section \<open>Facts\<close>

lemma of_char_lt: "of_char c < (256 :: nat)"
  by (metis of_char_of nat_of_char_less_256)

lemma lower_char_idem [simp]: "lower_char (lower_char c) = lower_char c"
  by (auto simp: lower_char_def Let_def)

lemma ToLower_idem [simp]: "ToLower (ToLower s) = ToLower s"
  by (simp add: ToLower_def)

lemma length_ToLower [simp]: "length (ToLower s) = length s"
  by (simp add: ToLower_def)

lemma ToLower_Nil [simp]: "ToLower s = [] \<longleftrightarrow> s = []" "ToLower [] = []"
  by (simp_all add: ToLower_def)

lemma is_space_lower [simp]: "is_space (lower_char c) = is_space c"
  by (auto simp: is_space_def lower_char_def Let_def)

lemma dropWhile_space_lower: "dropWhile is_space (map lower_char s) = map lower_char (dropWhile is_space s)"
  by (induction s) auto

lemma TrimSpace_ToLower: "TrimSpace (ToLower s) = ToLower (TrimSpace s)"
  by (simp add: TrimSpace_def ToLower_def dropWhile_space_lower rev_map)

lemma TrimSpace_Nil [simp]: "TrimSpace [] = []"
  by (simp add: TrimSpace_def)

lemma dropWhile_idem_iff: "dropWhile P s = s \<longleftrightarrow> s = [] \<or> \<not> P (hd s)"
proof (cases s)
  case (Cons a t)
  then show ?thesis using length_dropWhile_le [of P t] by (auto dest: arg_cong [of _ _ length])
qed simp

lemma TrimSpace_fix_iff: "TrimSpace s = s \<longleftrightarrow> s = [] \<or> \<not> is_space (hd s) \<and> \<not> is_space (last s)"
proof (cases "s = []")
  case False
  have le: "length (TrimSpace s) \<le> length (dropWhile is_space s)"
    by (metis TrimSpace_def length_dropWhile_le length_rev)
  show ?thesis
  proof (cases "is_space (hd s)")
    case True
    then have "length (dropWhile is_space s) < length s" using False length_dropWhile_le [of is_space "tl s"] by (cases s) auto
    then show ?thesis using le True False by auto
  next
    case hd: False
    then have "dropWhile is_space s = s" using False by (simp add: dropWhile_idem_iff)
    then have "TrimSpace s = s \<longleftrightarrow> dropWhile is_space (rev s) = rev s" by (metis TrimSpace_def rev_rev_ident)
    then show ?thesis using hd False by (simp add: dropWhile_idem_iff hd_rev)
  qed
qed simp

lemma TrimSpace_ends: "TrimSpace s \<noteq> [] \<Longrightarrow> \<not> is_space (hd (TrimSpace s)) \<and> \<not> is_space (last (TrimSpace s))"
proof -
  assume ne: "TrimSpace s \<noteq> []"
  let ?d = "dropWhile is_space s"
  have 1: "\<not> is_space (last (TrimSpace s))"
    using hd_dropWhile [OF ne [unfolded TrimSpace_def rev_is_Nil_conv]] by (simp only: TrimSpace_def last_rev not_False_eq_True)
  have "?d \<noteq> []" using ne unfolding TrimSpace_def by force
  then have "\<not> is_space (hd ?d)" by (rule hd_dropWhile)
  moreover have "?d = TrimSpace s @ rev (takeWhile is_space (rev ?d))"
    by (metis TrimSpace_def rev_append rev_rev_ident takeWhile_dropWhile_id)
  then have "hd ?d = hd (TrimSpace s)" using ne by (metis hd_append2)
  ultimately show ?thesis using 1 by simp
qed

lemma TrimSpace_idem [simp]: "TrimSpace (TrimSpace s) = TrimSpace s"
  using TrimSpace_fix_iff [of "TrimSpace s"] TrimSpace_ends [of s] by blast

lemma HasPrefix_append [simp]: "HasPrefix (p @ s) p"
  by (simp add: HasPrefix_def)

lemma HasPrefix_iff: "HasPrefix s p \<longleftrightarrow> (\<exists>t. s = p @ t)"
  by (auto simp: HasPrefix_def) (metis append_take_drop_id)

lemma HasSuffix_iff: "HasSuffix s p \<longleftrightarrow> (\<exists>t. s = t @ p)"
  by (auto simp: HasSuffix_def) (metis append_take_drop_id)

lemma Split_not_Nil [simp]: "Split s c \<noteq> []"
  by (induction s) (auto split: list.splits)

lemma Split_free: "x \<in> set (Split s c) \<Longrightarrow> c \<notin> set x"
  by (induction s arbitrary: x) (auto split: list.splits if_splits)

lemma Cut_Some: "Cut s c = Some (a, b) \<Longrightarrow> s = a @ c # b \<and> c \<notin> set a"
  by (induction s arbitrary: a) (auto split: if_splits)

lemma Cut_None: "Cut s c = None \<longleftrightarrow> c \<notin> set s"
  by (induction s) auto

end
