(* ===== verification/Flow_Index.thy ===== *)
theory Flow_Index
  imports Netip Go_Strings "HOL-Library.AList"
begin

text \<open>
  \<open>internal/flow/index.go\<close>: which process owns a connection. The maps that the code only looks up and
  filters are HOL maps; a bucket of sockets is an association list, because \<open>newest\<close> iterates over it
  and its length is tested. The mutex makes every operation atomic; \<open>now\<close> is the time it reads.
\<close>

section \<open>Data\<close>

record Key =
  kProto :: byte
  kLocal :: addr
  kRemote :: addr
  kLocalPort :: u16
  kRemotePort :: u16

record localKey =
  lkProto :: byte
  lkLocal :: addr
  lkPort :: u16

record Process =
  prPID :: u32
  prName :: string
  prPath :: string

record entry =
  eProc :: Process
  eSeen :: int

record socketEntry =
  seKey :: localKey
  seEntry :: entry

type_synonym bucket = "(u64 \<times> entry) list"

record Index =
  ixM :: "Key \<rightharpoonup> entry"
  ixSnapshotExact :: "Key \<rightharpoonup> entry"
  ixLocals :: "localKey \<rightharpoonup> entry"
  ixSockets :: "u64 \<rightharpoonup> socketEntry"
  ixSocketLocal :: "localKey \<rightharpoonup> bucket"
  ixNotify :: bool

definition NewIndex :: Index where
  "NewIndex = \<lparr>ixM = Map.empty, ixSnapshotExact = Map.empty, ixLocals = Map.empty, ixSockets = Map.empty,
     ixSocketLocal = Map.empty, ixNotify = False\<rparr>"

section \<open>Operations\<close>

definition NormalizeProcess :: "Process \<Rightarrow> Process" where
  "NormalizeProcess p =
     (let p = p\<lparr>prName := TrimSpace (prName p)\<rparr> in
      if prName p = [] \<and> prPath p \<noteq> [] then p\<lparr>prName := Base (ReplaceAll (prPath p) backslash slash)\<rparr> else p)"

definition normalizeLocal :: "addr \<Rightarrow> addr" where
  "normalizeLocal a = (if \<not> IsValid a \<or> IsUnspecified a then AddrInvalid else Unmap a)"

text \<open>\<open>signal\<close>: a send on a channel of capacity one that never blocks.\<close>

definition signal :: "Index \<Rightarrow> Index" where
  "signal i = i\<lparr>ixNotify := True\<rparr>"

definition Add :: "int \<Rightarrow> Key \<Rightarrow> Process \<Rightarrow> Index \<Rightarrow> Index" where
  "Add now k p i = signal (i\<lparr>ixM := (ixM i)(k \<mapsto> \<lparr>eProc = NormalizeProcess p, eSeen = now\<rparr>)\<rparr>)"

definition AddSnapshotExact :: "int \<Rightarrow> Key \<Rightarrow> Process \<Rightarrow> Index \<Rightarrow> Index" where
  "AddSnapshotExact now k p i =
     signal (i\<lparr>ixSnapshotExact := (ixSnapshotExact i)(k \<mapsto> \<lparr>eProc = NormalizeProcess p, eSeen = now\<rparr>)\<rparr>)"

definition AddLocal :: "int \<Rightarrow> byte \<Rightarrow> addr \<Rightarrow> u16 \<Rightarrow> Process \<Rightarrow> Index \<Rightarrow> Index" where
  "AddLocal now proto local port p i =
     (if port = 0 then i
      else signal (i\<lparr>ixLocals := (ixLocals i)(\<lparr>lkProto = proto, lkLocal = normalizeLocal local, lkPort = port\<rparr>
             \<mapsto> \<lparr>eProc = NormalizeProcess p, eSeen = now\<rparr>)\<rparr>))"

definition deleteSocketIndexLocked :: "u64 \<Rightarrow> localKey \<Rightarrow> Index \<Rightarrow> Index" where
  "deleteSocketIndexLocked endpointID lk i =
     (let i = i\<lparr>ixSockets := (ixSockets i)(endpointID := None)\<rparr> in
      case ixSocketLocal i lk of
        None \<Rightarrow> i
      | Some b \<Rightarrow>
          let b = AList.delete endpointID b in
          if b = [] then i\<lparr>ixSocketLocal := (ixSocketLocal i)(lk := None)\<rparr>
          else i\<lparr>ixSocketLocal := (ixSocketLocal i)(lk \<mapsto> b)\<rparr>)"

definition AddSocket :: "int \<Rightarrow> u64 \<Rightarrow> byte \<Rightarrow> addr \<Rightarrow> u16 \<Rightarrow> Process \<Rightarrow> Index \<Rightarrow> Index" where
  "AddSocket now endpointID proto local port p i =
     (if endpointID = 0 \<or> port = 0 then AddLocal now proto local port p i
      else
        let lk = \<lparr>lkProto = proto, lkLocal = normalizeLocal local, lkPort = port\<rparr>;
            i = (case ixSockets i endpointID of
                   Some old \<Rightarrow> deleteSocketIndexLocked endpointID (seKey old) i
                 | None \<Rightarrow> i);
            e = \<lparr>eProc = NormalizeProcess p, eSeen = now\<rparr>;
            b = (case ixSocketLocal i lk of None \<Rightarrow> [] | Some b \<Rightarrow> b)
        in signal (i\<lparr>ixSockets := (ixSockets i)(endpointID \<mapsto> \<lparr>seKey = lk, seEntry = e\<rparr>),
             ixSocketLocal := (ixSocketLocal i)(lk \<mapsto> AList.update endpointID e b)\<rparr>))"

definition DeleteFlow :: "Key \<Rightarrow> Index \<Rightarrow> Index" where
  "DeleteFlow k i = i\<lparr>ixM := (ixM i)(k := None)\<rparr>"

definition DeleteLocal :: "byte \<Rightarrow> addr \<Rightarrow> u16 \<Rightarrow> Index \<Rightarrow> Index" where
  "DeleteLocal proto local port i =
     (let local = normalizeLocal local;
          m = (ixLocals i)(\<lparr>lkProto = proto, lkLocal = local, lkPort = port\<rparr> := None)
      in i\<lparr>ixLocals := (if IsValid local then m(\<lparr>lkProto = proto, lkLocal = AddrInvalid, lkPort = port\<rparr> := None) else m)\<rparr>)"

definition DeleteSocket :: "u64 \<Rightarrow> Index \<Rightarrow> Index" where
  "DeleteSocket endpointID i =
     (if endpointID = 0 then i
      else (case ixSockets i endpointID of
        Some old \<Rightarrow> deleteSocketIndexLocked endpointID (seKey old) i
      | None \<Rightarrow> i))"

text \<open>\<open>newest\<close>: the loop of the code, which keeps the first of the entries with the latest time.\<close>

fun newest_loop :: "entry option \<Rightarrow> bucket \<Rightarrow> entry option" where
  "newest_loop best [] = best"
| "newest_loop best ((_, e) # b) =
     newest_loop (case best of None \<Rightarrow> Some e | Some x \<Rightarrow> if eSeen e > eSeen x then Some e else Some x) b"

definition newest :: "bucket option \<Rightarrow> entry option" where
  "newest b = newest_loop None (case b of None \<Rightarrow> [] | Some b \<Rightarrow> b)"

definition Lookup :: "Key \<Rightarrow> Index \<Rightarrow> Process option" where
  "Lookup k i =
     (let exactLocal = \<lparr>lkProto = kProto k, lkLocal = normalizeLocal (kLocal k), lkPort = kLocalPort k\<rparr>;
          wildLocal = \<lparr>lkProto = kProto k, lkLocal = AddrInvalid, lkPort = kLocalPort k\<rparr>;
          e = ixM i k;
          e = (if e = None then newest (ixSocketLocal i exactLocal) else e);
          e = (if e = None \<and> IsValid (lkLocal exactLocal) then newest (ixSocketLocal i wildLocal) else e);
          e = (if e = None then ixSnapshotExact i k else e);
          e = (if e = None then ixLocals i exactLocal else e);
          e = (if e = None \<and> IsValid (lkLocal exactLocal) then ixLocals i wildLocal else e)
      in map_option eProc e)"

text \<open>
  \<open>WaitLookup\<close> after a failed first lookup: what the \<open>select\<close> receives next, a notification (with the
  index as it is then) or the deadline. \<open>None\<close> is a wait that has not ended with these events.
\<close>

datatype wake = Notified Index | TimedOut

fun wait_loop :: "Key \<Rightarrow> wake list \<Rightarrow> Process option option" where
  "wait_loop k [] = None"
| "wait_loop k (TimedOut # ws) = Some None"
| "wait_loop k (Notified i # ws) = (case Lookup k i of Some p \<Rightarrow> Some (Some p) | None \<Rightarrow> wait_loop k ws)"

definition WaitLookup :: "Key \<Rightarrow> Index \<Rightarrow> wake list \<Rightarrow> Process option option" where
  "WaitLookup k i ws = (case Lookup k i of Some p \<Rightarrow> Some (Some p) | None \<Rightarrow> wait_loop k ws)"

definition sweep_entries :: "int \<Rightarrow> ('k \<rightharpoonup> entry) \<Rightarrow> 'k \<rightharpoonup> entry" where
  "sweep_entries c m = (\<lambda>k. case m k of None \<Rightarrow> None | Some e \<Rightarrow> if eSeen e < c then None else Some e)"

definition SweepIndex :: "int \<Rightarrow> int \<Rightarrow> Index \<Rightarrow> Index" where
  "SweepIndex now age i = i\<lparr>ixM := sweep_entries (now - age) (ixM i),
     ixSnapshotExact := sweep_entries (now - age) (ixSnapshotExact i),
     ixLocals := sweep_entries (now - age) (ixLocals i)\<rparr>"

fun match_loop :: "string \<Rightarrow> string \<Rightarrow> string list \<Rightarrow> bool" where
  "match_loop name path [] = False"
| "match_loop name path (x # xs) =
     (let x = ToLower (TrimSpace x) in
      if x = [] then match_loop name path xs
      else if backslash \<in> set x then (path = ReplaceAll x slash backslash \<or> match_loop name path xs)
      else (name = ToLower (Base (ReplaceAll x backslash slash)) \<or> match_loop name path xs))"

definition Match :: "Process \<Rightarrow> string list \<Rightarrow> bool" where
  "Match p names = match_loop (ToLower (prName p)) (ToLower (ReplaceAll (prPath p) slash backslash)) names"

section \<open>Consistency of the socket maps\<close>

text \<open>The two maps of live sockets hold the same sockets, and no bucket is empty.\<close>

definition index_ok :: "Index \<Rightarrow> bool" where
  "index_ok i \<longleftrightarrow>
     (\<forall>e s. ixSockets i e = Some s \<longrightarrow> (\<exists>b. ixSocketLocal i (seKey s) = Some b \<and> map_of b e = Some (seEntry s))) \<and>
     (\<forall>lk b. ixSocketLocal i lk = Some b \<longrightarrow> b \<noteq> [] \<and> distinct (map fst b) \<and>
        (\<forall>e en. map_of b e = Some en \<longrightarrow> ixSockets i e = Some \<lparr>seKey = lk, seEntry = en\<rparr>))"

lemma index_okD:
  assumes "index_ok i"
  shows "ixSockets i e = Some s \<Longrightarrow> \<exists>b. ixSocketLocal i (seKey s) = Some b \<and> map_of b e = Some (seEntry s)"
    "ixSocketLocal i lk = Some b \<Longrightarrow> b \<noteq> [] \<and> distinct (map fst b)"
    "ixSocketLocal i lk = Some b \<Longrightarrow> map_of b e = Some en \<Longrightarrow> ixSockets i e = Some \<lparr>seKey = lk, seEntry = en\<rparr>"
  using assms by (auto simp: index_ok_def)

lemma index_ok_cong:
  "ixSockets i = ixSockets j \<Longrightarrow> ixSocketLocal i = ixSocketLocal j \<Longrightarrow> index_ok i = index_ok j"
  by (simp add: index_ok_def)

lemma index_ok_New: "index_ok NewIndex"
  by (simp add: index_ok_def NewIndex_def)

lemma map_of_delete: "map_of (AList.delete k b) = (map_of b)(k := None)"
  by (simp add: delete_conv')

lemma map_of_Nil_iff: "map_of b = Map.empty \<longleftrightarrow> b = []"
  by (cases b) (auto simp: fun_eq_iff)

lemma sockets_delete [simp]:
  "ixSockets (deleteSocketIndexLocked e lk i) = (ixSockets i)(e := None)"
  by (simp add: deleteSocketIndexLocked_def Let_def split: option.splits)

lemma socketLocal_delete:
  "ixSocketLocal (deleteSocketIndexLocked e lk i) =
     (case ixSocketLocal i lk of None \<Rightarrow> ixSocketLocal i
      | Some b \<Rightarrow> (ixSocketLocal i)(lk := (if AList.delete e b = [] then None else Some (AList.delete e b))))"
  by (auto simp: deleteSocketIndexLocked_def Let_def split: option.splits)

lemma index_ok_delete:
  assumes "index_ok i" "ixSockets i e = Some s"
  shows "index_ok (deleteSocketIndexLocked e (seKey s) i)"
proof -
  obtain b where b: "ixSocketLocal i (seKey s) = Some b" "map_of b e = Some (seEntry s)"
    using index_okD(1) [OF assms] by blast
  let ?b = "AList.delete e b"
  have sl: "ixSocketLocal (deleteSocketIndexLocked e (seKey s) i) = (ixSocketLocal i)(seKey s := (if ?b = [] then None else Some ?b))"
    by (simp add: socketLocal_delete b(1))
  have d: "distinct (map fst ?b)" using index_okD(2) [OF assms(1) b(1)] by (simp add: distinct_delete)
  have other: "map_of b' e = None" if "ixSocketLocal i lk = Some b'" "lk \<noteq> seKey s" for lk b'
    using index_okD(3) [OF assms(1) that(1), of e] assms(2) that(2) by (cases "map_of b' e") auto
  show ?thesis unfolding index_ok_def sl sockets_delete
  proof (intro conjI allI impI)
    fix e' s'
    assume "((ixSockets i)(e := None)) e' = Some s'"
    then have e': "e' \<noteq> e" "ixSockets i e' = Some s'" by (auto split: if_splits)
    then obtain b' where b': "ixSocketLocal i (seKey s') = Some b'" "map_of b' e' = Some (seEntry s')"
      using index_okD(1) [OF assms(1)] by blast
    show "\<exists>b. ((ixSocketLocal i)(seKey s := if ?b = [] then None else Some ?b)) (seKey s') = Some b \<and> map_of b e' = Some (seEntry s')"
    proof (cases "seKey s' = seKey s")
      case True
      then have "map_of ?b e' = Some (seEntry s')" using b b' e' by (simp add: map_of_delete)
      moreover from this have "?b \<noteq> []" by auto
      ultimately show ?thesis using True by simp
    qed (use b' in auto)
  next
    fix lk b' e' en
    assume *: "((ixSocketLocal i)(seKey s := if ?b = [] then None else Some ?b)) lk = Some b'"
    then show "b' \<noteq> []" "distinct (map fst b')" using d index_okD(2) [OF assms(1), of lk b'] by (auto split: if_splits)
    assume en: "map_of b' e' = Some en"
    show "((ixSockets i)(e := None)) e' = Some \<lparr>seKey = lk, seEntry = en\<rparr>"
    proof (cases "lk = seKey s")
      case True
      with * have "b' = ?b" by (auto split: if_splits)
      with en have "e' \<noteq> e" "map_of b e' = Some en" by (auto simp: map_of_delete split: if_splits)
      then show ?thesis using index_okD(3) [OF assms(1) b(1)] True by simp
    next
      case False
      with * have "ixSocketLocal i lk = Some b'" by simp
      with other [OF this False] en index_okD(3) [OF assms(1) this, of e' en] show ?thesis by auto
    qed
  qed
qed

lemma index_ok_insert:
  assumes "index_ok i" "ixSockets i e = None" "b = (case ixSocketLocal i lk of None \<Rightarrow> [] | Some b \<Rightarrow> b)"
  shows "index_ok (i\<lparr>ixSockets := (ixSockets i)(e \<mapsto> \<lparr>seKey = lk, seEntry = en\<rparr>),
    ixSocketLocal := (ixSocketLocal i)(lk \<mapsto> AList.update e en b), ixNotify := n\<rparr>)"
proof -
  have fresh: "map_of b' e = None" if "ixSocketLocal i lk' = Some b'" for lk' b'
    using index_okD(3) [OF assms(1) that, of e] assms(2) by (cases "map_of b' e") auto
  have d: "distinct (map fst b)" using index_okD(2) [OF assms(1), of lk] assms(3) by (auto split: option.splits)
  have b: "ixSocketLocal i lk = Some b" if "map_of b e' = Some x" for e' x using that assms(3) by (auto split: option.splits)
  show ?thesis unfolding index_ok_def
  proof (intro conjI allI impI, goal_cases)
    case (1 e' s)
    then show ?case
      using index_okD(1) [OF assms(1), of e' s] assms(3) by (auto simp: update_conv' split: if_splits)
  next
    case (2 lk' b')
    then show ?case using index_okD(2) [OF assms(1), of lk' b'] by (auto split: if_splits simp: update_nonempty)
  next
    case (3 lk' b')
    then show ?case using d index_okD(2) [OF assms(1), of lk' b'] by (auto split: if_splits simp: distinct_update)
  next
    case (4 lk' b' e' en')
    show ?case
    proof (cases "lk' = lk")
      case True
      then show ?thesis using 4 index_okD(3) [OF assms(1) b, of e' en' e' en'] by (auto simp: update_conv' split: if_splits)
    next
      case False
      with 4 fresh [of lk' b'] index_okD(3) [OF assms(1), of lk' b' e' en'] show ?thesis by auto
    qed
  qed
qed

section \<open>Histories\<close>

text \<open>The calls that change an index, with the time of the call.\<close>

datatype flow_op =
    OpAdd Key Process
  | OpSnapshotExact Key Process
  | OpLocal byte addr u16 Process
  | OpSocket u64 byte addr u16 Process
  | OpDelete Key
  | OpDeleteLocal byte addr u16
  | OpDeleteSocket u64
  | OpSweep int

fun flow_step :: "int \<times> flow_op \<Rightarrow> Index \<Rightarrow> Index" where
  "flow_step (now, OpAdd k p) i = Add now k p i"
| "flow_step (now, OpSnapshotExact k p) i = AddSnapshotExact now k p i"
| "flow_step (now, OpLocal pr a po p) i = AddLocal now pr a po p i"
| "flow_step (now, OpSocket e pr a po p) i = AddSocket now e pr a po p i"
| "flow_step (now, OpDelete k) i = DeleteFlow k i"
| "flow_step (now, OpDeleteLocal pr a po) i = DeleteLocal pr a po i"
| "flow_step (now, OpDeleteSocket e) i = DeleteSocket e i"
| "flow_step (now, OpSweep age) i = SweepIndex now age i"

text \<open>Specification: the live sockets after a history. A socket is opened or rebound by its endpoint
  id and lives until its own close; nothing else ends it.\<close>

fun live_step :: "int \<times> flow_op \<Rightarrow> (u64 \<rightharpoonup> socketEntry) \<Rightarrow> u64 \<rightharpoonup> socketEntry" where
  "live_step (now, OpSocket e pr a po p) L =
     (if e = 0 \<or> po = 0 then L
      else L(e \<mapsto> \<lparr>seKey = \<lparr>lkProto = pr, lkLocal = normalizeLocal a, lkPort = po\<rparr>,
                   seEntry = \<lparr>eProc = NormalizeProcess p, eSeen = now\<rparr>\<rparr>))"
| "live_step (now, OpDeleteSocket e) L = (if e = 0 then L else L(e := None))"
| "live_step _ L = L"

lemma AddLocal_sockets [simp]:
  "ixSockets (AddLocal now pr a po p i) = ixSockets i" "ixSocketLocal (AddLocal now pr a po p i) = ixSocketLocal i"
  by (simp_all add: AddLocal_def signal_def)

lemma deleteSocket_absent: "ixSockets i e = None \<Longrightarrow> (ixSockets i)(e := None) = ixSockets i"
  by auto

lemma flow_step_live: "ixSockets (flow_step c i) = live_step c (ixSockets i)"
  by (cases "(c, ixSockets i)" rule: live_step.cases)
    (auto simp: Add_def AddSnapshotExact_def DeleteFlow_def DeleteLocal_def SweepIndex_def signal_def
      DeleteSocket_def AddSocket_def Let_def fun_eq_iff split: option.splits)

lemma AddSocket_ok:
  assumes "index_ok i"
  shows "index_ok (AddSocket now e pr a po p i)"
proof (cases "e = 0 \<or> po = 0")
  case True
  then show ?thesis using assms index_ok_cong [of i "AddLocal now pr a po p i"] by (simp add: AddSocket_def)
next
  case False
  let ?i = "case ixSockets i e of Some old \<Rightarrow> deleteSocketIndexLocked e (seKey old) i | None \<Rightarrow> i"
  have "index_ok ?i" "ixSockets ?i e = None" using index_ok_delete [OF assms] assms by (auto split: option.splits)
  from index_ok_insert [OF this refl] False show ?thesis by (simp add: AddSocket_def signal_def Let_def)
qed

lemma flow_step_ok:
  assumes "index_ok i"
  shows "index_ok (flow_step (now, c) i)"
proof (cases c)
  case (OpDeleteSocket e)
  then show ?thesis using assms index_ok_delete [OF assms, of e] by (auto simp: DeleteSocket_def split: option.splits)
next
  case (OpSocket e pr a po p)
  then show ?thesis using AddSocket_ok [OF assms] by simp
qed (rule index_ok_cong [THEN iffD2, OF _ _ assms];
  simp add: Add_def AddSnapshotExact_def DeleteFlow_def DeleteLocal_def SweepIndex_def signal_def Let_def)+

section \<open>The owner of a connection\<close>

definition newest_of :: "entry set \<Rightarrow> entry \<Rightarrow> bool" where
  "newest_of S e \<longleftrightarrow> e \<in> S \<and> (\<forall>x \<in> S. eSeen x \<le> eSeen e)"

definition owners :: "(u64 \<rightharpoonup> socketEntry) \<Rightarrow> localKey \<Rightarrow> entry set" where
  "owners L lk = {en. \<exists>e. L e = Some \<lparr>seKey = lk, seEntry = en\<rparr>}"

lemma newest_loop_Some:
  "\<exists>y. newest_loop (Some x) b = Some y \<and> newest_of (insert x (snd ` set b)) y"
proof (induction b arbitrary: x)
  case Nil
  then show ?case by (simp add: newest_of_def)
next
  case (Cons a b)
  obtain k e where a: "a = (k, e)" by fastforce
  show ?case
    using Cons.IH [of e] Cons.IH [of x] by (fastforce simp: a newest_of_def)
qed

lemma newest_Some: "b \<noteq> [] \<Longrightarrow> \<exists>y. newest (Some b) = Some y \<and> newest_of (snd ` set b) y"
proof (cases b)
  case (Cons a b')
  then show ?thesis using newest_loop_Some [of "snd a" b'] by (cases a) (simp add: newest_def)
qed simp

lemma owners_bucket:
  assumes "index_ok i"
  shows "ixSocketLocal i lk = None \<Longrightarrow> owners (ixSockets i) lk = {}"
    and "ixSocketLocal i lk = Some b \<Longrightarrow> owners (ixSockets i) lk = snd ` set b \<and> b \<noteq> []"
proof -
  show "owners (ixSockets i) lk = {}" if "ixSocketLocal i lk = None"
    using index_okD(1) [OF assms] that by (fastforce simp: owners_def)
  assume b: "ixSocketLocal i lk = Some b"
  note ok = index_okD(2) [OF assms b] index_okD(3) [OF assms b]
  have "en \<in> snd ` set b" if s: "ixSockets i e = Some \<lparr>seKey = lk, seEntry = en\<rparr>" for e en
    using index_okD(1) [OF assms s] b map_of_SomeD by (force simp: image_iff)
  moreover have "\<exists>e. ixSockets i e = Some \<lparr>seKey = lk, seEntry = en\<rparr>" if "en \<in> snd ` set b" for en
    using ok that by (force simp: image_iff)
  ultimately have "owners (ixSockets i) lk = snd ` set b" unfolding owners_def by blast
  with ok show "owners (ixSockets i) lk = snd ` set b \<and> b \<noteq> []" by simp
qed

lemma newest_owner:
  assumes "index_ok i"
  shows "if owners (ixSockets i) lk = {} then newest (ixSocketLocal i lk) = None
    else \<exists>e. newest_of (owners (ixSockets i) lk) e \<and> newest (ixSocketLocal i lk) = Some e"
proof (cases "ixSocketLocal i lk")
  case None
  then show ?thesis using owners_bucket(1) [OF assms None] by (simp add: newest_def)
next
  case (Some b)
  then show ?thesis using owners_bucket(2) [OF assms Some] newest_Some [of b] by auto
qed

text \<open>The specified owner: what the lookup of \<open>k\<close> has to find, given the live sockets \<open>L\<close>.\<close>

definition exact_key :: "Key \<Rightarrow> localKey" where
  "exact_key k = \<lparr>lkProto = kProto k, lkLocal = normalizeLocal (kLocal k), lkPort = kLocalPort k\<rparr>"

definition wild_key :: "Key \<Rightarrow> localKey" where
  "wild_key k = \<lparr>lkProto = kProto k, lkLocal = AddrInvalid, lkPort = kLocalPort k\<rparr>"

definition fallback :: "Key \<Rightarrow> Index \<Rightarrow> entry option" where
  "fallback k i = (case ixSnapshotExact i k of Some e \<Rightarrow> Some e
     | None \<Rightarrow> (case ixLocals i (exact_key k) of Some e \<Rightarrow> Some e
     | None \<Rightarrow> ixLocals i (wild_key k)))"

definition owner_ok :: "(u64 \<rightharpoonup> socketEntry) \<Rightarrow> Key \<Rightarrow> Index \<Rightarrow> bool" where
  "owner_ok L k i \<longleftrightarrow>
     (case ixM i k of
        Some e \<Rightarrow> Lookup k i = Some (eProc e)
      | None \<Rightarrow>
          if owners L (exact_key k) \<noteq> {} then \<exists>e. newest_of (owners L (exact_key k)) e \<and> Lookup k i = Some (eProc e)
          else if owners L (wild_key k) \<noteq> {} then \<exists>e. newest_of (owners L (wild_key k)) e \<and> Lookup k i = Some (eProc e)
          else Lookup k i = map_option eProc (fallback k i))"

lemma normalizeLocal_invalid: "\<not> IsValid (normalizeLocal a) \<Longrightarrow> normalizeLocal a = AddrInvalid"
  by (auto simp: normalizeLocal_def split: if_splits)

lemma Lookup_eq:
  "Lookup k i = map_option eProc
     (case ixM i k of Some e \<Rightarrow> Some e
      | None \<Rightarrow> (case newest (ixSocketLocal i (exact_key k)) of Some e \<Rightarrow> Some e
      | None \<Rightarrow> (case newest (ixSocketLocal i (wild_key k)) of Some e \<Rightarrow> Some e
      | None \<Rightarrow> fallback k i)))"
proof (cases "IsValid (normalizeLocal (kLocal k))")
  case True
  then show ?thesis
    unfolding Lookup_def Let_def exact_key_def [symmetric] wild_key_def [symmetric] fallback_def
    by (simp add: exact_key_def split: option.split)
next
  case False
  then have "exact_key k = wild_key k" by (simp add: exact_key_def wild_key_def normalizeLocal_invalid)
  with False show ?thesis
    unfolding Lookup_def Let_def exact_key_def [symmetric] wild_key_def [symmetric] fallback_def
    by (simp add: wild_key_def split: option.split)
qed

lemma Lookup_owner:
  assumes "index_ok i"
  shows "owner_ok (ixSockets i) k i"
  using newest_owner [OF assms, of "exact_key k"] newest_owner [OF assms, of "wild_key k"]
  by (cases "ixM i k") (auto simp: owner_ok_def Lookup_eq split: if_splits)

lemma flow_history:
  "index_ok (fold flow_step ops i) \<and> ixSockets (fold flow_step ops i) = fold live_step ops (ixSockets i)" if "index_ok i" for i
  using that
proof (induction ops arbitrary: i)
  case (Cons c ops)
  have "index_ok (flow_step c i)" using flow_step_ok [OF Cons.prems, of "fst c" "snd c"] by simp
  from Cons.IH [OF this] show ?case by (simp add: flow_step_live)
qed simp

text \<open>C23: After any history of calls on a new index, \<open>Lookup\<close> of a connection answers as specified: the
  exact flow entry if there is one; otherwise the most recently opened live socket bound to the
  connection's local address and port; otherwise one bound to the port on every address; otherwise
  the snapshot fallbacks. The live sockets are those of the history: a socket is live from the call
  that opens its endpoint id to the call that closes that id, so a late close of an old endpoint, a
  sweep, or any other call never removes the owner of a newer socket on the same address and port.\<close>

theorem flow_lookup_refines: "owner_ok (fold live_step ops Map.empty) k (fold flow_step ops NewIndex)"
  using flow_history [OF index_ok_New, of ops] Lookup_owner [of "fold flow_step ops NewIndex" k]
  by (simp add: NewIndex_def)

text \<open>A flow for the worked examples.\<close>

definition example_key :: Key where
  "example_key = \<lparr>kProto = 6, kLocal = Addr4 [10, 0, 0, 2], kRemote = Addr4 [1, 1, 1, 1], kLocalPort = 5000, kRemotePort = 443\<rparr>"

end
