(* ===== verification/Routes.thy ===== *)
theory Routes
  imports Flow_Index
begin

text \<open>
  \<open>internal/engine/flowroute.go\<close> and \<open>internal/engine/proxyroute.go\<close>: the routes of the flows already
  seen and of the connections made by the local proxy. Both are tables whose entries a lookup
  refreshes and a sweep expires; \<open>route_table\<close> states that contract, and both tables implement it.
\<close>

section \<open>The contract\<close>

text \<open>The use of one flow's route: lookups (\<open>Inl\<close>, at a time) and the sweeps in between (\<open>Inr\<close>, at a
  time and for an age), and that every sweep finds the route used within its age.\<close>

fun uses :: "(int \<Rightarrow> Key \<Rightarrow> 't \<Rightarrow> 'v option \<times> 't) \<Rightarrow> (int \<Rightarrow> int \<Rightarrow> 't \<Rightarrow> 't) \<Rightarrow> Key \<Rightarrow> (int + int \<times> int) list \<Rightarrow> 't \<Rightarrow> 't" where
  "uses lookup sweep k [] t = t"
| "uses lookup sweep k (Inl now # us) t = uses lookup sweep k us (snd (lookup now k t))"
| "uses lookup sweep k (Inr (now, age) # us) t = uses lookup sweep k us (sweep now age t)"

fun recent :: "int \<Rightarrow> (int + int \<times> int) list \<Rightarrow> bool" where
  "recent s [] = True"
| "recent s (Inl now # us) = recent now us"
| "recent s (Inr (now, age) # us) = (now - age \<le> s \<and> recent s us)"

text \<open>
  \<open>content t k\<close> is the route of \<open>k\<close> and the time it was last used; \<open>canon\<close> maps the flow key a client
  asks for to the key of the table.
\<close>

locale route_table =
  fixes canon :: "Key \<Rightarrow> 'k"
    and content :: "'t \<Rightarrow> 'k \<Rightarrow> ('v \<times> int) option"
    and lookup :: "int \<Rightarrow> Key \<Rightarrow> 't \<Rightarrow> 'v option \<times> 't"
    and delete :: "Key \<Rightarrow> 't \<Rightarrow> 't"
    and sweep :: "int \<Rightarrow> int \<Rightarrow> 't \<Rightarrow> 't"
  assumes lookup_result: "fst (lookup now k t) = map_option fst (content t (canon k))"
    and lookup_content: "content (snd (lookup now k t)) j =
      (if j = canon k then map_option (\<lambda>(v, _). (v, now)) (content t j) else content t j)"
    and delete_content: "content (delete k t) j = (if j = canon k then None else content t j)"
    and sweep_content: "content (sweep now age t) j =
      (case content t j of None \<Rightarrow> None | Some (v, s) \<Rightarrow> if s < now - age then None else Some (v, s))"
begin

lemma active_route_kept:
  "content t (canon k) = Some (v, s) \<Longrightarrow> recent s us \<Longrightarrow> \<exists>s'. content (uses lookup sweep k us t) (canon k) = Some (v, s')"
proof (induction s us arbitrary: t rule: recent.induct)
  case (2 s now us)
  then show ?case by (simp add: lookup_content)
next
  case (3 s now age us)
  then have "content (sweep now age t) (canon k) = Some (v, s)" by (simp add: sweep_content)
  with 3 show ?case by simp
qed simp

lemma idle_route_expires:
  "content t (canon k) = Some (v, s) \<Longrightarrow> s < now - age \<Longrightarrow> fst (lookup now' k (sweep now age t)) = None"
  by (simp add: lookup_result sweep_content)

end

section \<open>Flow routes\<close>

record flowRouteEntry =
  frTunnel :: bool
  frProc :: Process
  frKnown :: bool
  frSeen :: int

record flowRouteTable =
  frM :: "Key \<rightharpoonup> flowRouteEntry"

definition newFlowRouteTable :: flowRouteTable where
  "newFlowRouteTable = \<lparr>frM = Map.empty\<rparr>"

definition LookupRoute :: "int \<Rightarrow> Key \<Rightarrow> flowRouteTable \<Rightarrow> flowRouteEntry option \<times> flowRouteTable" where
  "LookupRoute now k t = (case frM t k of
     None \<Rightarrow> (None, t)
   | Some e \<Rightarrow> let e = e\<lparr>frSeen := now\<rparr> in (Some e, t\<lparr>frM := (frM t)(k \<mapsto> e)\<rparr>))"

definition SetRoute :: "int \<Rightarrow> Key \<Rightarrow> bool \<Rightarrow> Process \<Rightarrow> bool \<Rightarrow> flowRouteTable \<Rightarrow> flowRouteTable" where
  "SetRoute now k tunnel proc known t =
     (if frM t k = None then
        t\<lparr>frM := (frM t)(k \<mapsto> \<lparr>frTunnel = tunnel, frProc = proc, frKnown = known, frSeen = now\<rparr>)\<rparr>
      else t)"

definition DeleteRoute :: "Key \<Rightarrow> flowRouteTable \<Rightarrow> flowRouteTable" where
  "DeleteRoute k t = t\<lparr>frM := (frM t)(k := None)\<rparr>"

definition SweepRoutes :: "int \<Rightarrow> int \<Rightarrow> flowRouteTable \<Rightarrow> flowRouteTable" where
  "SweepRoutes now age t = t\<lparr>frM := (\<lambda>k. case frM t k of None \<Rightarrow> None
     | Some e \<Rightarrow> if frSeen e < now - age then None else Some e)\<rparr>"

definition fr_value :: "flowRouteEntry \<Rightarrow> bool \<times> Process \<times> bool" where
  "fr_value e = (frTunnel e, frProc e, frKnown e)"

definition fr_content :: "flowRouteTable \<Rightarrow> Key \<Rightarrow> ((bool \<times> Process \<times> bool) \<times> int) option" where
  "fr_content t k = map_option (\<lambda>e. (fr_value e, frSeen e)) (frM t k)"

definition fr_lookup :: "int \<Rightarrow> Key \<Rightarrow> flowRouteTable \<Rightarrow> (bool \<times> Process \<times> bool) option \<times> flowRouteTable" where
  "fr_lookup now k t = map_prod (map_option fr_value) id (LookupRoute now k t)"

interpretation fr: route_table "\<lambda>k. k" fr_content fr_lookup DeleteRoute SweepRoutes
  by unfold_locales
    (auto simp: fr_content_def fr_lookup_def fr_value_def LookupRoute_def DeleteRoute_def SweepRoutes_def Let_def split: option.splits)

section \<open>Proxy routes\<close>

record proxyRouteKey =
  pkProto :: byte
  pkLocalPort :: u16
  pkRemote :: addr
  pkRemotePort :: u16

record proxyRouteEntry =
  pxTunnel :: bool
  pxSeen :: int

record proxyRouteTable =
  pxM :: "proxyRouteKey \<rightharpoonup> proxyRouteEntry"

definition newProxyRouteTable :: proxyRouteTable where
  "newProxyRouteTable = \<lparr>pxM = Map.empty\<rparr>"

definition proxyKeyFromFlow :: "Key \<Rightarrow> proxyRouteKey" where
  "proxyKeyFromFlow k = \<lparr>pkProto = kProto k, pkLocalPort = kLocalPort k, pkRemote = Unmap (kRemote k), pkRemotePort = kRemotePort k\<rparr>"

definition SetProxy :: "int \<Rightarrow> proxyRouteKey \<Rightarrow> bool \<Rightarrow> proxyRouteTable \<Rightarrow> proxyRouteTable" where
  "SetProxy now k tunnel t =
     (if pkProto k = 0 \<or> pkLocalPort k = 0 \<or> \<not> IsValid (pkRemote k) \<or> pkRemotePort k = 0 then t
      else let k = k\<lparr>pkRemote := Unmap (pkRemote k)\<rparr>
           in t\<lparr>pxM := (pxM t)(k \<mapsto> \<lparr>pxTunnel = tunnel, pxSeen = now\<rparr>)\<rparr>)"

text \<open>The two results \<open>tunnel, ok\<close> of \<open>Lookup\<close> as an option.\<close>

definition LookupProxy :: "int \<Rightarrow> Key \<Rightarrow> proxyRouteTable \<Rightarrow> bool option \<times> proxyRouteTable" where
  "LookupProxy now k t = (let pk = proxyKeyFromFlow k in
     case pxM t pk of
       None \<Rightarrow> (None, t)
     | Some e \<Rightarrow> let e = e\<lparr>pxSeen := now\<rparr> in (Some (pxTunnel e), t\<lparr>pxM := (pxM t)(pk \<mapsto> e)\<rparr>))"

definition DeleteProxyFlow :: "Key \<Rightarrow> proxyRouteTable \<Rightarrow> proxyRouteTable" where
  "DeleteProxyFlow k t = t\<lparr>pxM := (pxM t)(proxyKeyFromFlow k := None)\<rparr>"

definition DeleteProxyKey :: "proxyRouteKey \<Rightarrow> proxyRouteTable \<Rightarrow> proxyRouteTable" where
  "DeleteProxyKey k t = t\<lparr>pxM := (pxM t)(k\<lparr>pkRemote := Unmap (pkRemote k)\<rparr> := None)\<rparr>"

definition SweepProxy :: "int \<Rightarrow> int \<Rightarrow> proxyRouteTable \<Rightarrow> proxyRouteTable" where
  "SweepProxy now age t = t\<lparr>pxM := (\<lambda>k. case pxM t k of None \<Rightarrow> None
     | Some e \<Rightarrow> if pxSeen e < now - age then None else Some e)\<rparr>"

definition px_content :: "proxyRouteTable \<Rightarrow> proxyRouteKey \<Rightarrow> (bool \<times> int) option" where
  "px_content t k = map_option (\<lambda>e. (pxTunnel e, pxSeen e)) (pxM t k)"

interpretation px: route_table proxyKeyFromFlow px_content LookupProxy DeleteProxyFlow SweepProxy
  by unfold_locales
    (auto simp: px_content_def LookupProxy_def DeleteProxyFlow_def SweepProxy_def Let_def split: option.splits)

section \<open>Properties\<close>

text \<open>The calls on the flow route table, with their times.\<close>

datatype route_op =
    RLookup Key
  | RSet Key bool Process bool
  | RDelete Key
  | RSweep int

fun route_step :: "int \<times> route_op \<Rightarrow> flowRouteTable \<Rightarrow> flowRouteTable" where
  "route_step (now, RLookup k) t = snd (LookupRoute now k t)"
| "route_step (now, RSet k b p n) t = SetRoute now k b p n t"
| "route_step (now, RDelete k) t = DeleteRoute k t"
| "route_step (now, RSweep age) t = SweepRoutes now age t"

text \<open>No call of the history ends the route of \<open>k\<close>, last used at \<open>s\<close>: no delete of \<open>k\<close>, and every sweep
  finds it used within its age.\<close>

fun keeps :: "Key \<Rightarrow> int \<Rightarrow> (int \<times> route_op) list \<Rightarrow> bool" where
  "keeps k s [] = True"
| "keeps k s ((now, c) # cs) = (case c of
     RLookup j \<Rightarrow> keeps k (if j = k then now else s) cs
   | RSet j b p n \<Rightarrow> keeps k s cs
   | RDelete j \<Rightarrow> j \<noteq> k \<and> keeps k s cs
   | RSweep age \<Rightarrow> now - age \<le> s \<and> keeps k s cs)"

lemma SetRoute_content:
  "fr_content (SetRoute now k b p n t) j =
     (if j = k \<and> fr_content t k = None then Some ((b, p, n), now) else fr_content t j)"
  by (auto simp: SetRoute_def fr_content_def fr_value_def)

lemma LookupRoute_content:
  "fr_content (snd (LookupRoute now k t)) j =
     (if j = k then map_option (\<lambda>(v, _). (v, now)) (fr_content t j) else fr_content t j)"
  using fr.lookup_content [of now k t j] by (simp add: fr_lookup_def)

lemma route_kept:
  "fr_content t k = Some (v, s) \<Longrightarrow> keeps k s cs \<Longrightarrow> \<exists>s'. fr_content (fold route_step cs t) k = Some (v, s')"
proof (induction cs arbitrary: t s)
  case (Cons c cs)
  obtain now c' where c: "c = (now, c')" by fastforce
  show ?case
  proof (cases c')
    case (RLookup j)
    then have "fr_content (route_step c t) k = Some (v, if j = k then now else s)"
      using Cons.prems c by (cases v) (auto simp: LookupRoute_content)
    with Cons.IH [OF this] Cons.prems c RLookup show ?thesis by simp
  next
    case (RSet j b p n)
    then have "fr_content (route_step c t) k = Some (v, s)" using Cons.prems c by (auto simp: SetRoute_content)
    with Cons.IH [OF this] Cons.prems c RSet show ?thesis by simp
  next
    case (RDelete j)
    then have "fr_content (route_step c t) k = Some (v, s)" using Cons.prems c by (auto simp: fr.delete_content)
    with Cons.IH [OF this] Cons.prems c RDelete show ?thesis by simp
  next
    case (RSweep age)
    then have "fr_content (route_step c t) k = Some (v, s)" using Cons.prems c by (simp add: fr.sweep_content)
    with Cons.IH [OF this] Cons.prems c RSweep show ?thesis by simp
  qed
qed simp

text \<open>C24: Routes are sticky. Once a flow's route is set in a table that had none for it, every later
  lookup returns that route, whatever other routes are set meanwhile (also for the same flow), as
  long as the flow is not deleted and every sweep finds it used within the sweep's age.\<close>

theorem flow_route_sticky:
  assumes "frM t k = None" "keeps k now cs"
  shows "map_option fr_value (fst (LookupRoute now' k (fold route_step cs (SetRoute now k tunnel proc known t))))
    = Some (tunnel, proc, known)"
proof -
  have "fr_content (SetRoute now k tunnel proc known t) k = Some ((tunnel, proc, known), now)"
    using assms(1) by (simp add: SetRoute_content) (simp add: fr_content_def)
  from route_kept [OF this assms(2)] fr.lookup_result [of now' k] show ?thesis by (auto simp: fr_lookup_def)
qed

theorem flow_route_sticky_witness:
  "map_option fr_value (fst (LookupRoute 9 example_key (fold route_step [(3, RSet example_key False \<lparr>prPID = 0, prName = [], prPath = []\<rparr> True),
       (4, RLookup example_key), (8, RSweep 5)]
       (SetRoute 1 example_key True \<lparr>prPID = 7, prName = ''a.exe'', prPath = []\<rparr> True newFlowRouteTable))))
    = Some (True, \<lparr>prPID = 7, prName = ''a.exe'', prPath = []\<rparr>, True)"
  by (rule flow_route_sticky) (simp_all add: newFlowRouteTable_def)

text \<open>The proxy's choice reaches the packets of its connection: a route registered for an outgoing
  connection is found under every flow key with the same protocol, local port, remote address (also
  in its IPv4-mapped form) and remote port, and stays so while lookups use it within the age of the
  sweeps; a route unused for longer is gone after the next sweep.\<close>

theorem proxy_route_found:
  assumes "pkProto pk \<noteq> 0" "pkLocalPort pk \<noteq> 0" "IsValid (pkRemote pk)" "pkRemotePort pk \<noteq> 0"
    and "kProto k = pkProto pk" "kLocalPort k = pkLocalPort pk" "kRemotePort k = pkRemotePort pk"
    and "Unmap (kRemote k) = Unmap (pkRemote pk)"
  shows "(recent now us \<longrightarrow> fst (LookupProxy now' k (uses LookupProxy SweepProxy k us (SetProxy now pk tunnel t))) = Some tunnel) \<and>
    (now < later - age \<longrightarrow> fst (LookupProxy now' k (SweepProxy later age (SetProxy now pk tunnel t))) = None)"
proof -
  have "proxyKeyFromFlow k = pk\<lparr>pkRemote := Unmap (pkRemote pk)\<rparr>"
    using assms by (simp add: proxyKeyFromFlow_def)
  then have c: "px_content (SetProxy now pk tunnel t) (proxyKeyFromFlow k) = Some (tunnel, now)"
    using assms by (simp add: SetProxy_def px_content_def Let_def)
  show ?thesis
    using px.active_route_kept [OF c] px.idle_route_expires [OF c] px.lookup_result by fastforce
qed

theorem proxy_route_found_witness:
  "fst (LookupProxy 9 example_key (uses LookupProxy SweepProxy example_key [Inl 3, Inr (5, 4)]
     (SetProxy 1 (proxyKeyFromFlow example_key) True newProxyRouteTable))) = Some True \<and>
   fst (LookupProxy 9 example_key (SweepProxy 8 5 (SetProxy 1 (proxyKeyFromFlow example_key) True newProxyRouteTable))) = None"
  using proxy_route_found [of "proxyKeyFromFlow example_key" example_key 1 "[Inl 3, Inr (5, 4)]" 9 True newProxyRouteTable 8 5]
  by (simp add: proxyKeyFromFlow_def example_key_def)

end
