(* ===== verification/Go_Parse.thy ===== *)
theory Go_Parse
  imports Netip Go_Strings
begin

unbundle bit_operations_syntax

text \<open>
  The text formats of Go's standard library that configuration files use: addresses and prefixes
  (\<open>netip.ParseAddr\<close>, \<open>netip.ParsePrefix\<close>), keys (\<open>base64.StdEncoding\<close>) and quoted strings
  (\<open>strconv.Unquote\<close>). An address with an IPv6 zone parses, but its zone is not kept.
\<close>

definition char_byte :: "char \<Rightarrow> byte" where
  "char_byte c = of_char c"

definition byte_char :: "byte \<Rightarrow> char" where
  "byte_char b = char_of (unat b)"

lemma byte_char_byte [simp]: "byte_char (char_byte c) = c"
proof -
  have "(of_char c :: byte) = word_of_nat (of_char c)" by (rule of_nat_of_char [symmetric])
  moreover have "take_bit 8 (of_char c :: nat) = of_char c" using of_char_lt [of c] by (simp add: take_bit_nat_eq_self)
  ultimately have "unat (of_char c :: byte) = of_char c" by (simp add: unsigned_of_nat)
  then show ?thesis by (simp add: char_byte_def byte_char_def)
qed

section \<open>Addresses\<close>

definition ipv4_field :: "string \<Rightarrow> byte option" where
  "ipv4_field f =
     (if f = [] \<or> \<not> list_all is_digit f \<or> (1 < length f \<and> hd f = CHR ''0'') \<or> digits_val f > 255 then None
      else Some (word_of_int (digits_val f)))"

definition parseIPv4Fields :: "string \<Rightarrow> bytes option" where
  "parseIPv4Fields s =
     (let fs = map ipv4_field (Split s (CHR ''.'')) in
      if length fs = 4 \<and> list_all (\<lambda>f. f \<noteq> None) fs then Some (map the fs) else None)"

definition hex_val :: "char \<Rightarrow> nat option" where
  "hex_val c = (let n = of_char c :: nat in
     if 48 \<le> n \<and> n \<le> 57 then Some (n - 48)
     else if 97 \<le> n \<and> n \<le> 102 then Some (n - 87)
     else if 65 \<le> n \<and> n \<le> 70 then Some (n - 55) else None)"

definition hex_digits :: "string \<Rightarrow> string" where
  "hex_digits s = takeWhile (\<lambda>c. hex_val c \<noteq> None) s"

definition hex_number :: "string \<Rightarrow> nat" where
  "hex_number s = foldl (\<lambda>a c. a * 16 + the (hex_val c)) 0 s"

text \<open>
  The loop of \<open>parseIPv6\<close>: the bytes so far, the position of the \<open>::\<close> and the rest of the text. It
  returns the bytes and the position at the end of the text.
\<close>

function ipv6_loop :: "bytes \<Rightarrow> nat option \<Rightarrow> string \<Rightarrow> (bytes \<times> nat option) option" where
  "ipv6_loop ip ell s =
     (if 16 \<le> length ip then (if s = [] then Some (ip, ell) else None)
      else
        let h = hex_digits s; r = drop (length h) s in
        if h = [] \<or> 4 < length h then None
        else if r \<noteq> [] \<and> hd r = CHR ''.'' then
          (if ell = None \<and> length ip \<noteq> 12 \<or> 16 < length ip + 4 then None
           else map_option (\<lambda>v4. (ip @ v4, ell)) (parseIPv4Fields s))
        else
          let ip = ip @ u16be (word_of_nat (hex_number h)) in
          if r = [] then Some (ip, ell)
          else if hd r \<noteq> CHR '':'' \<or> length r = 1 then None
          else let s = tl r in
            if hd s = CHR '':'' then
              (if ell \<noteq> None then None
               else if tl s = [] then Some (ip, Some (length ip))
               else ipv6_loop ip (Some (length ip)) (tl s))
            else ipv6_loop ip ell s)"
  by pat_completeness auto
termination by (relation "measure (\<lambda>(ip, _, _). 16 - length ip)") auto

definition ipv6_bytes :: "string \<Rightarrow> bytes option" where
  "ipv6_bytes s =
     (case (if HasPrefix s ''::'' then
              (if length s = 2 then Some ([], Some 0) else ipv6_loop [] (Some 0) (drop 2 s))
            else ipv6_loop [] None s) of
        None \<Rightarrow> None
      | Some (ip, ell) \<Rightarrow>
          if length ip < 16 then
            (case ell of None \<Rightarrow> None
             | Some e \<Rightarrow> Some (take e ip @ replicate (16 - length ip) 0 @ drop e ip))
          else if ell \<noteq> None then None else Some ip)"

text \<open>The address and whether it has a zone.\<close>

definition parse_addr :: "string \<Rightarrow> (addr \<times> bool) option" where
  "parse_addr s =
     (case dropWhile (\<lambda>c. c \<notin> set ''.:%'') s of
        [] \<Rightarrow> None
      | c # _ \<Rightarrow>
          if c = CHR ''.'' then map_option (\<lambda>v. (Addr4 v, False)) (parseIPv4Fields s)
          else if c = CHR '':'' then
            (case Cut s (CHR ''%'') of
               None \<Rightarrow> map_option (\<lambda>v. (Addr6 v, False)) (ipv6_bytes s)
             | Some (a, zone) \<Rightarrow> if zone = [] then None else map_option (\<lambda>v. (Addr6 v, True)) (ipv6_bytes a))
          else None)"

definition ParseAddr :: "string \<Rightarrow> addr option" where
  "ParseAddr s = map_option fst (parse_addr s)"

definition ParsePrefix :: "string \<Rightarrow> prefix option" where
  "ParsePrefix s =
     (if slash \<notin> set s then None
      else let bs = rev (takeWhile (\<lambda>c. c \<noteq> slash) (rev s)); a = take (length s - length bs - 1) s in
        case parse_addr a of
          None \<Rightarrow> None
        | Some (ip, zone) \<Rightarrow>
            if zone \<or> (1 < length bs \<and> \<not> (CHR ''0'' \<noteq> hd bs \<and> is_digit (hd bs))) then None
            else (case Atoi bs of None \<Rightarrow> None
              | Some n \<Rightarrow> if n < 0 \<or> n > (if Is4 ip then 32 else 128) then None
                  else Some \<lparr>pfx_addr = ip, pfx_bits = nat n\<rparr>))"

text \<open>\<open>Masked\<close> clears the bits after the prefix.\<close>

definition mask_byte :: "nat \<Rightarrow> byte \<Rightarrow> byte" where
  "mask_byte n x = x AND NOT (mask (8 - min n 8))"

fun mask_bytes :: "nat \<Rightarrow> bytes \<Rightarrow> bytes" where
  "mask_bytes n [] = []"
| "mask_bytes n (x # xs) = mask_byte n x # mask_bytes (n - 8) xs"

fun mask_addr :: "nat \<Rightarrow> addr \<Rightarrow> addr" where
  "mask_addr n AddrInvalid = AddrInvalid"
| "mask_addr n (Addr4 v) = Addr4 (mask_bytes n v)"
| "mask_addr n (Addr6 v) = Addr6 (mask_bytes n v)"

definition Masked :: "prefix \<Rightarrow> prefix" where
  "Masked p = p\<lparr>pfx_addr := mask_addr (pfx_bits p) (pfx_addr p)\<rparr>"

section \<open>base64\<close>

definition b64_val :: "char \<Rightarrow> nat option" where
  "b64_val c = (let n = of_char c :: nat in
     if 65 \<le> n \<and> n \<le> 90 then Some (n - 65)
     else if 97 \<le> n \<and> n \<le> 122 then Some (n - 71)
     else if 48 \<le> n \<and> n \<le> 57 then Some (n + 4)
     else if c = CHR ''+'' then Some 62 else if c = slash then Some 63 else None)"

definition b64_bytes :: "nat \<Rightarrow> bytes" where
  "b64_bytes n = [word_of_nat (n div 65536), word_of_nat (n div 256), word_of_nat n]"

fun b64_loop :: "string \<Rightarrow> bytes option" where
  "b64_loop [] = Some []"
| "b64_loop [a, b, c, d] = do {
     x \<leftarrow> b64_val a;
     y \<leftarrow> b64_val b;
     if d = CHR ''='' then
       (if c = CHR ''='' then Some (take 1 (b64_bytes (x * 262144 + y * 4096)))
        else do { z \<leftarrow> b64_val c; Some (take 2 (b64_bytes (x * 262144 + y * 4096 + z * 64))) })
     else do { z \<leftarrow> b64_val c; w \<leftarrow> b64_val d; Some (b64_bytes (x * 262144 + y * 4096 + z * 64 + w)) }
   }"
| "b64_loop (a # b # c # d # r) = do {
     x \<leftarrow> b64_val a; y \<leftarrow> b64_val b; z \<leftarrow> b64_val c; w \<leftarrow> b64_val d;
     bs \<leftarrow> b64_loop r;
     Some (b64_bytes (x * 262144 + y * 4096 + z * 64 + w) @ bs)
   }"
| "b64_loop _ = None"

definition DecodeString :: "string \<Rightarrow> bytes option" where
  "DecodeString s = b64_loop (filter (\<lambda>c. c \<noteq> CHR 0x0A \<and> c \<noteq> CHR 0x0D) s)"

section \<open>Quoted strings\<close>

definition utf8 :: "nat \<Rightarrow> string option" where
  "utf8 r =
     (if r < 128 then Some [char_of r]
      else if r < 2048 then Some [char_of (192 + r div 64), char_of (128 + r mod 64)]
      else if 55296 \<le> r \<and> r \<le> 57343 then None
      else if r < 65536 then Some [char_of (224 + r div 4096), char_of (128 + r div 64 mod 64), char_of (128 + r mod 64)]
      else if r \<le> 1114111 then Some [char_of (240 + r div 262144), char_of (128 + r div 4096 mod 64),
        char_of (128 + r div 64 mod 64), char_of (128 + r mod 64)]
      else None)"

definition hex_escape :: "nat \<Rightarrow> string \<Rightarrow> nat option" where
  "hex_escape n s = (if n \<le> length s \<and> list_all (\<lambda>c. hex_val c \<noteq> None) (take n s) then Some (hex_number (take n s)) else None)"

definition is_octal :: "char \<Rightarrow> bool" where
  "is_octal c \<longleftrightarrow> (let n = of_char c :: nat in 48 \<le> n \<and> n \<le> 55)"

text \<open>The escape sequence after a backslash, in double quotes: its text and the number of bytes read.\<close>

definition escape :: "string \<Rightarrow> (string \<times> nat) option" where
  "escape s = (case s of [] \<Rightarrow> None | c # r \<Rightarrow>
     if c = CHR ''a'' then Some ([CHR 7], 1) else if c = CHR ''b'' then Some ([CHR 8], 1)
     else if c = CHR ''f'' then Some ([CHR 12], 1) else if c = CHR ''n'' then Some ([CHR 10], 1)
     else if c = CHR ''r'' then Some ([CHR 13], 1) else if c = CHR ''t'' then Some ([CHR 9], 1)
     else if c = CHR ''v'' then Some ([CHR 11], 1)
     else if c = CHR ''x'' then map_option (\<lambda>n. ([char_of n], 3)) (hex_escape 2 r)
     else if c = CHR ''u'' then map_option (\<lambda>t. (t, 5)) (Option.bind (hex_escape 4 r) utf8)
     else if c = CHR ''U'' then map_option (\<lambda>t. (t, 9)) (Option.bind (hex_escape 8 r) utf8)
     else if is_octal c then
       (if 3 \<le> length s \<and> list_all is_octal (take 3 s) \<and> hex_number (take 1 s) * 64 + hex_number (take 1 (drop 1 s)) * 8 + hex_number (take 1 (drop 2 s)) \<le> 255
        then Some ([char_of (hex_number (take 1 s) * 64 + hex_number (take 1 (drop 1 s)) * 8 + hex_number (take 1 (drop 2 s)))], 3)
        else None)
     else if c = backslash then Some ([backslash], 1)
     else if c = CHR 0x22 then Some ([CHR 0x22], 1)
     else None)"

function unquote_loop :: "string \<Rightarrow> (string \<times> string) option" where
  "unquote_loop [] = None"
| "unquote_loop (c # r) =
     (if c = CHR 0x22 then Some ([], r)
      else if c = CHR 10 then None
      else if c = backslash then
        (case escape r of None \<Rightarrow> None
         | Some (t, n) \<Rightarrow> map_option (\<lambda>(a, b). (t @ a, b)) (unquote_loop (drop n r)))
      else map_option (\<lambda>(a, b). (c # a, b)) (unquote_loop r))"
  by pat_completeness auto
termination by (relation "measure length") auto

text \<open>\<open>Unquote\<close> of a string that starts with a double quote.\<close>

definition Unquote :: "string \<Rightarrow> string option" where
  "Unquote s = (case s of [] \<Rightarrow> None | c # r \<Rightarrow>
     if c \<noteq> CHR 0x22 then None
     else (case unquote_loop r of Some (t, []) \<Rightarrow> Some t | _ \<Rightarrow> None))"

end
