(* ===== verification/Config.thy ===== *)
theory Config
  imports Go_Parse
begin

text \<open>
  \<open>internal/config/config.go\<close>: the WireGuard configuration with SplitWire's sections, its parser, its
  validation and the domain patterns. File contents are strings; reading a file is the argument
  \<open>read\<close> of \<open>Load\<close>. \<open>parseInto\<close> works on a state of its local variables, one line at a time.
\<close>

section \<open>Data\<close>

record Peer =
  peerPublicKey :: string
  peerPresharedKey :: string
  peerEndpoint :: string
  peerKeepalive :: int

record Group =
  gName :: string
  gApps :: "string list"
  gDomains :: "string list"
  gNetworks :: "prefix list"

record Config =
  cPrivateKey :: string
  cAddresses :: "prefix list"
  cDNSServers :: "addr list"
  cPeer :: Peer
  cGroups :: "Group list"
  cPhysicalInterface :: string
  cMTU :: int
  cDNSRefreshSeconds :: int
  cUsedDefaultRules :: bool
  cDefaultRulesPath :: string

definition Defaults :: Config where
  "Defaults = \<lparr>cPrivateKey = [], cAddresses = [], cDNSServers = [],
     cPeer = \<lparr>peerPublicKey = [], peerPresharedKey = [], peerEndpoint = [], peerKeepalive = 0\<rparr>,
     cGroups = [], cPhysicalInterface = [], cMTU = 1380, cDNSRefreshSeconds = 60,
     cUsedDefaultRules = False, cDefaultRulesPath = []\<rparr>"

datatype lerr =
    LNoGroupName | LBadQuote string | LEmptyGroupName | LTwoPeers | LKeyValue | LAddress string
  | LKeepalive | LMTU | LRefresh | LGroupState | LNetwork string

datatype verr =
    VPrivateKey | VPublicKey | VPresharedKey | VEndpoint | VAddress | VMTU int | VNoGroups
  | VEmptyName nat | VDuplicate string | VApps string | VDestinations string | VDomain string string

datatype cerr = CRead string | CNoRules | CDefaultRead string | CDefault cerr | CLine nat lerr | CTooLong | CValidate verr

section \<open>Domain patterns\<close>

definition validateDomainPattern :: "string \<Rightarrow> bool" where
  "validateDomainPattern p \<longleftrightarrow>
     (if p = ''*'' then True
      else if CHR ''*'' \<in> set p \<and> (\<not> HasPrefix p ''*.'' \<or> CHR ''*'' \<in> set (drop 2 p) \<or> length p \<le> 2) then False
      else let base = TrimPrefix p ''*.'' in
        \<not> (base = [] \<or> ContainsAny base (CHR '' '' # slash # backslash # '':'') \<or> HasPrefix base ''.'' \<or> HasSuffix base ''.''))"

definition AppsAll :: "Group \<Rightarrow> bool" where
  "AppsAll g \<longleftrightarrow> gApps g = [''*'']"

definition DomainsAll :: "Group \<Rightarrow> bool" where
  "DomainsAll g \<longleftrightarrow> gDomains g = [''*'']"

definition MatchDomainPattern :: "string \<Rightarrow> string \<Rightarrow> bool" where
  "MatchDomainPattern pattern host =
     (let p = ToLower (TrimSuffix (TrimSpace pattern) ''.'');
          h = ToLower (TrimSuffix (TrimSpace host) ''.'') in
      if p = ''*'' then h \<noteq> []
      else if HasPrefix p ''*.'' then (let base = drop 2 p in h \<noteq> base \<and> HasSuffix h (CHR ''.'' # base))
      else h = p)"

definition MatchesDomain :: "Group \<Rightarrow> string \<Rightarrow> bool" where
  "MatchesDomain g host = list_ex (\<lambda>p. MatchDomainPattern p host) (gDomains g)"

fun proxy_patterns :: "string list \<Rightarrow> string list \<Rightarrow> string list" where
  "proxy_patterns seen [] = []"
| "proxy_patterns seen (p # ps) =
     (if p = ''*'' \<or> ToLower p \<in> set seen then proxy_patterns seen ps
      else p # proxy_patterns (ToLower p # seen) ps)"

definition ProxyDomainPatterns :: "Config \<Rightarrow> string list" where
  "ProxyDomainPatterns c = proxy_patterns [] (concat (map gDomains (cGroups c)))"

definition TunnelIPv4 :: "Config \<Rightarrow> addr" where
  "TunnelIPv4 c = (case find (\<lambda>p. Is4 (pfx_addr p)) (cAddresses c) of Some p \<Rightarrow> pfx_addr p | None \<Rightarrow> AddrInvalid)"

definition TunnelIPv6 :: "Config \<Rightarrow> addr" where
  "TunnelIPv6 c = (case find (\<lambda>p. Is6 (pfx_addr p)) (cAddresses c) of Some p \<Rightarrow> pfx_addr p | None \<Rightarrow> AddrInvalid)"

section \<open>Validation\<close>

definition validWGKey :: "string \<Rightarrow> bool" where
  "validWGKey s \<longleftrightarrow> (case DecodeString (TrimSpace s) of None \<Rightarrow> False | Some b \<Rightarrow> length b = 32)"

definition DecodeKey :: "string \<Rightarrow> bytes option" where
  "DecodeKey s = (case DecodeString (TrimSpace s) of None \<Rightarrow> None | Some b \<Rightarrow> if length b = 32 then Some b else None)"

fun dedupe_loop :: "bool \<Rightarrow> string list \<Rightarrow> string list \<Rightarrow> string list" where
  "dedupe_loop lower seen [] = []"
| "dedupe_loop lower seen (x # xs) =
     (let x = TrimSpace x; x = (if lower then ToLower x else x) in
      if x = [] then dedupe_loop lower seen xs
      else if ToLower x \<in> set seen then dedupe_loop lower seen xs
      else x # dedupe_loop lower (ToLower x # seen) xs)"

definition dedupe :: "string list \<Rightarrow> bool \<Rightarrow> string list" where
  "dedupe xs lower = dedupe_loop lower [] xs"

definition normalizeApps :: "string list \<Rightarrow> string list" where
  "normalizeApps xs = (let out = dedupe xs False in if ''*'' \<in> set out then [''*''] else out)"

definition normalizeDomains :: "string list \<Rightarrow> string list" where
  "normalizeDomains xs =
     (let out = dedupe (map (\<lambda>x. ToLower (TrimSuffix (TrimSpace x) ''.'')) xs) True
      in if ''*'' \<in> set out then [''*''] else out)"

text \<open>One group of \<open>Validate\<close>: \<open>i\<close> is its index, \<open>seen\<close> the lower-case names before it.\<close>

definition validate_group :: "nat \<Rightarrow> string list \<Rightarrow> Group \<Rightarrow> verr + Group" where
  "validate_group i seen g =
     (let g = g\<lparr>gName := TrimSpace (gName g)\<rparr> in
      if gName g = [] then Inl (VEmptyName (i + 1))
      else if ToLower (gName g) \<in> set seen then Inl (VDuplicate (gName g))
      else
        let g = g\<lparr>gApps := normalizeApps (gApps g), gDomains := normalizeDomains (gDomains g)\<rparr> in
        if gApps g = [] then Inl (VApps (gName g))
        else if gDomains g = [] \<and> gNetworks g = [] then Inl (VDestinations (gName g))
        else (case find (\<lambda>d. \<not> validateDomainPattern d) (gDomains g) of
          Some d \<Rightarrow> Inl (VDomain (gName g) d)
        | None \<Rightarrow> Inr g))"

fun validate_groups :: "nat \<Rightarrow> string list \<Rightarrow> Group list \<Rightarrow> verr + Group list" where
  "validate_groups i seen [] = Inr []"
| "validate_groups i seen (g # gs) =
     (case validate_group i seen g of
        Inl e \<Rightarrow> Inl e
      | Inr g \<Rightarrow>
          (case validate_groups (i + 1) (ToLower (gName g) # seen) gs of
             Inl e \<Rightarrow> Inl e
           | Inr gs \<Rightarrow> Inr (g # gs)))"

definition Validate :: "Config \<Rightarrow> verr + Config" where
  "Validate c =
     (if \<not> validWGKey (cPrivateKey c) then Inl VPrivateKey
      else if \<not> validWGKey (peerPublicKey (cPeer c)) then Inl VPublicKey
      else if peerPresharedKey (cPeer c) \<noteq> [] \<and> \<not> validWGKey (peerPresharedKey (cPeer c)) then Inl VPresharedKey
      else if TrimSpace (peerEndpoint (cPeer c)) = [] then Inl VEndpoint
      else if cAddresses c = [] then Inl VAddress
      else if cMTU c < 576 \<or> cMTU c > 9000 then Inl (VMTU (cMTU c))
      else
        let c = (if cDNSRefreshSeconds c < 10 then c\<lparr>cDNSRefreshSeconds := 10\<rparr> else c) in
        if cGroups c = [] then Inl VNoGroups
        else (case validate_groups 0 [] (cGroups c) of
          Inl e \<Rightarrow> Inl e
        | Inr gs \<Rightarrow> Inr (c\<lparr>cGroups := gs\<rparr>)))"

section \<open>Parsing\<close>

definition splitList :: "string \<Rightarrow> string list" where
  "splitList v = filter (\<lambda>x. x \<noteq> []) (map TrimSpace (Split v (CHR '','')))"

definition lowerList :: "string \<Rightarrow> string list" where
  "lowerList v = map (\<lambda>x. ToLower (TrimSuffix x ''.'')) (splitList v)"

definition stripComment :: "string \<Rightarrow> string" where
  "stripComment s = takeWhile (\<lambda>c. c \<noteq> CHR ''#'' \<and> c \<noteq> CHR '';'') s"

definition is_group_header :: "string \<Rightarrow> bool" where
  "is_group_header low \<longleftrightarrow> low = ''group'' \<or> HasPrefix low ''group '' \<or> HasPrefix low (''group'' @ [CHR 0x09])"

fun has_split_lines :: "string list \<Rightarrow> bool" where
  "has_split_lines [] = False"
| "has_split_lines (l # ls) =
     (let line = TrimSpace (stripComment l) in
      if length line < 2 \<or> hd line \<noteq> CHR ''['' \<or> last line \<noteq> CHR '']'' then has_split_lines ls
      else let low = ToLower (TrimSpace (butlast (tl line))) in
        (low = ''splitwire'' \<or> is_group_header low) \<or> has_split_lines ls)"

definition hasSplitSections :: "string \<Rightarrow> bool" where
  "hasSplitSections d = has_split_lines (fst (ScanLines d))"

datatype sectionKind = SectionOther | SectionInterface | SectionPeer | SectionSplitWire | SectionGroup

definition parseSection :: "string \<Rightarrow> lerr + sectionKind \<times> string" where
  "parseSection raw =
     (let raw = TrimSpace raw; low = ToLower raw in
      if low = ''interface'' then Inr (SectionInterface, [])
      else if low = ''peer'' then Inr (SectionPeer, [])
      else if low = ''splitwire'' then Inr (SectionSplitWire, [])
      else if is_group_header low then
        (let rest = TrimSpace (drop 5 raw) in
         if rest = [] then Inl LNoGroupName
         else (case (if hd rest = CHR 0x22 then Unquote rest else Some rest) of
           None \<Rightarrow> Inl (LBadQuote rest)
         | Some name \<Rightarrow>
             let name = TrimSpace name in
             if name = [] then Inl LEmptyGroupName else Inr (SectionGroup, name)))
      else Inr (SectionOther, []))"

record pstate =
  psCfg :: Config
  psKind :: sectionKind
  psPeerSeen :: bool
  psGroup :: "nat option"

fun parse_prefixes :: "string list \<Rightarrow> string + prefix list" where
  "parse_prefixes [] = Inr []"
| "parse_prefixes (p # ps) =
     (case ParsePrefix p of
        None \<Rightarrow> Inl p
      | Some x \<Rightarrow> (case parse_prefixes ps of Inl e \<Rightarrow> Inl e | Inr xs \<Rightarrow> Inr (x # xs)))"

definition parse_interface :: "string \<Rightarrow> string \<Rightarrow> Config \<Rightarrow> lerr + Config" where
  "parse_interface k v c =
     (if k = ''privatekey'' then Inr (c\<lparr>cPrivateKey := v\<rparr>)
      else if k = ''address'' then
        (case parse_prefixes (splitList v) of
           Inl p \<Rightarrow> Inl (LAddress p)
         | Inr ps \<Rightarrow> Inr (c\<lparr>cAddresses := cAddresses c @ ps\<rparr>))
      else if k = ''dns'' then
        Inr (c\<lparr>cDNSServers := cDNSServers c @ map Unmap (List.map_filter (\<lambda>x. ParseAddr (TrimSpace x)) (splitList v))\<rparr>)
      else Inr c)"

definition parse_peer :: "string \<Rightarrow> string \<Rightarrow> Config \<Rightarrow> lerr + Config" where
  "parse_peer k v c =
     (if k = ''publickey'' then Inr (c\<lparr>cPeer := (cPeer c)\<lparr>peerPublicKey := v\<rparr>\<rparr>)
      else if k = ''presharedkey'' then Inr (c\<lparr>cPeer := (cPeer c)\<lparr>peerPresharedKey := v\<rparr>\<rparr>)
      else if k = ''endpoint'' then Inr (c\<lparr>cPeer := (cPeer c)\<lparr>peerEndpoint := v\<rparr>\<rparr>)
      else if k = ''persistentkeepalive'' then
        (case Atoi v of None \<Rightarrow> Inl LKeepalive | Some n \<Rightarrow> Inr (c\<lparr>cPeer := (cPeer c)\<lparr>peerKeepalive := n\<rparr>\<rparr>))
      else Inr c)"

definition parse_splitwire :: "string \<Rightarrow> string \<Rightarrow> Config \<Rightarrow> lerr + Config" where
  "parse_splitwire k v c =
     (if k = ''physicalinterface'' \<or> k = ''interface'' then Inr (c\<lparr>cPhysicalInterface := v\<rparr>)
      else if k = ''mtu'' then (case Atoi v of None \<Rightarrow> Inl LMTU | Some n \<Rightarrow> Inr (c\<lparr>cMTU := n\<rparr>))
      else if k = ''dnsrefreshseconds'' then
        (case Atoi v of None \<Rightarrow> Inl LRefresh | Some n \<Rightarrow> Inr (c\<lparr>cDNSRefreshSeconds := n\<rparr>))
      else Inr c)"

definition parse_group :: "string \<Rightarrow> string \<Rightarrow> Group \<Rightarrow> lerr + Group" where
  "parse_group k v g =
     (if k = ''apps'' \<or> k = ''applications'' then Inr (g\<lparr>gApps := splitList v\<rparr>)
      else if k = ''domains'' then Inr (g\<lparr>gDomains := lowerList v\<rparr>)
      else if k = ''networks'' \<or> k = ''ips'' \<or> k = ''addresses'' then
        (case parse_prefixes (splitList v) of
           Inl p \<Rightarrow> Inl (LNetwork p)
         | Inr ps \<Rightarrow> Inr (g\<lparr>gNetworks := map Masked ps\<rparr>))
      else Inr g)"

text \<open>A section header, given the text between the brackets.\<close>

definition parse_header :: "bool \<Rightarrow> string \<Rightarrow> pstate \<Rightarrow> lerr + pstate" where
  "parse_header allowWireGuard inner st =
     (case parseSection (TrimSpace inner) of
        Inl e \<Rightarrow> Inl e
      | Inr (kind, name) \<Rightarrow>
          let c = psCfg st;
              st = (if kind = SectionGroup then
                  st\<lparr>psKind := kind, psCfg := c\<lparr>cGroups := cGroups c @ [\<lparr>gName = name, gApps = [], gDomains = [], gNetworks = []\<rparr>]\<rparr>,
                     psGroup := Some (length (cGroups c))\<rparr>
                else st\<lparr>psKind := kind, psGroup := None\<rparr>)
          in if allowWireGuard \<and> kind = SectionPeer then
               (if psPeerSeen st then Inl LTwoPeers else Inr (st\<lparr>psPeerSeen := True\<rparr>))
             else Inr st)"

definition parse_setting :: "bool \<Rightarrow> string \<Rightarrow> string \<Rightarrow> pstate \<Rightarrow> lerr + pstate" where
  "parse_setting allowWireGuard k v st =
     (case psKind st of
        SectionOther \<Rightarrow> Inr st
      | SectionInterface \<Rightarrow>
          if \<not> allowWireGuard then Inr st
          else (case parse_interface k v (psCfg st) of Inl e \<Rightarrow> Inl e | Inr c \<Rightarrow> Inr (st\<lparr>psCfg := c\<rparr>))
      | SectionPeer \<Rightarrow>
          if \<not> allowWireGuard then Inr st
          else (case parse_peer k v (psCfg st) of Inl e \<Rightarrow> Inl e | Inr c \<Rightarrow> Inr (st\<lparr>psCfg := c\<rparr>))
      | SectionSplitWire \<Rightarrow>
          (case parse_splitwire k v (psCfg st) of Inl e \<Rightarrow> Inl e | Inr c \<Rightarrow> Inr (st\<lparr>psCfg := c\<rparr>))
      | SectionGroup \<Rightarrow>
          (case psGroup st of
             None \<Rightarrow> Inl LGroupState
           | Some i \<Rightarrow>
               if length (cGroups (psCfg st)) \<le> i then Inl LGroupState
               else (case parse_group k v (cGroups (psCfg st) ! i) of
                 Inl e \<Rightarrow> Inl e
               | Inr g \<Rightarrow> Inr (st\<lparr>psCfg := (psCfg st)\<lparr>cGroups := (cGroups (psCfg st))[i := g]\<rparr>\<rparr>))))"

definition parse_line :: "bool \<Rightarrow> string \<Rightarrow> pstate \<Rightarrow> lerr + pstate" where
  "parse_line allowWireGuard raw st =
     (let line = TrimSpace (stripComment raw) in
      if line = [] then Inr st
      else if hd line = CHR ''['' \<and> last line = CHR '']'' then parse_header allowWireGuard (butlast (tl line)) st
      else (case Cut line (CHR ''='') of
        None \<Rightarrow> Inl LKeyValue
      | Some (k, v) \<Rightarrow> parse_setting allowWireGuard (ToLower (TrimSpace k)) (TrimSpace v) st))"

fun parse_lines :: "bool \<Rightarrow> nat \<Rightarrow> string list \<Rightarrow> pstate \<Rightarrow> cerr + pstate" where
  "parse_lines allow n [] st = Inr st"
| "parse_lines allow n (l # ls) st =
     (case parse_line allow l st of Inl e \<Rightarrow> Inl (CLine n e) | Inr st \<Rightarrow> parse_lines allow (n + 1) ls st)"

definition parseInto :: "string \<Rightarrow> Config \<Rightarrow> bool \<Rightarrow> cerr + Config" where
  "parseInto data cfg allowWireGuard =
     (let (ls, tooLong) = ScanLines data in
      case parse_lines allowWireGuard 1 ls \<lparr>psCfg = cfg, psKind = SectionOther, psPeerSeen = False, psGroup = None\<rparr> of
        Inl e \<Rightarrow> Inl e
      | Inr st \<Rightarrow> if tooLong then Inl CTooLong else Inr (psCfg st))"

definition finish_load :: "string \<Rightarrow> Config \<Rightarrow> cerr + Config" where
  "finish_load wgData cfg =
     (case parseInto wgData cfg True of
        Inl e \<Rightarrow> Inl e
      | Inr cfg \<Rightarrow> (case Validate cfg of Inl e \<Rightarrow> Inl (CValidate e) | Inr cfg \<Rightarrow> Inr cfg))"

definition LoadFromData :: "string \<Rightarrow> string \<Rightarrow> cerr + Config" where
  "LoadFromData wgData defaultData =
     (if hasSplitSections wgData then finish_load wgData Defaults
      else if defaultData = [] then Inl CNoRules
      else (case parseInto defaultData Defaults False of
        Inl e \<Rightarrow> Inl (CDefault e)
      | Inr cfg \<Rightarrow> finish_load wgData (cfg\<lparr>cUsedDefaultRules := True\<rparr>)))"

definition Load :: "(string \<Rightarrow> string option) \<Rightarrow> string \<Rightarrow> string \<Rightarrow> cerr + Config" where
  "Load read path defaultRulesPath =
     (case read path of
        None \<Rightarrow> Inl (CRead path)
      | Some wgData \<Rightarrow>
          if hasSplitSections wgData then finish_load wgData Defaults
          else if TrimSpace defaultRulesPath = [] then Inl CNoRules
          else (case read defaultRulesPath of
            None \<Rightarrow> Inl (CDefaultRead defaultRulesPath)
          | Some defaultData \<Rightarrow>
              (case parseInto defaultData Defaults False of
                 Inl e \<Rightarrow> Inl (CDefault e)
               | Inr cfg \<Rightarrow> finish_load wgData (cfg\<lparr>cUsedDefaultRules := True, cDefaultRulesPath := defaultRulesPath\<rparr>))))"

section \<open>What validation establishes\<close>

definition group_ok :: "Group \<Rightarrow> bool" where
  "group_ok g \<longleftrightarrow> gName g \<noteq> [] \<and> TrimSpace (gName g) = gName g \<and>
     gApps g \<noteq> [] \<and> (''*'' \<in> set (gApps g) \<longrightarrow> gApps g = [''*'']) \<and> distinct (map ToLower (gApps g)) \<and>
     list_all (\<lambda>a. a \<noteq> [] \<and> TrimSpace a = a) (gApps g) \<and>
     (gDomains g \<noteq> [] \<or> gNetworks g \<noteq> []) \<and> (''*'' \<in> set (gDomains g) \<longrightarrow> gDomains g = [''*'']) \<and>
     distinct (gDomains g) \<and> list_all (\<lambda>d. ToLower d = d \<and> TrimSpace d = d \<and> validateDomainPattern d) (gDomains g)"

definition config_ok :: "Config \<Rightarrow> bool" where
  "config_ok c \<longleftrightarrow> validWGKey (cPrivateKey c) \<and> validWGKey (peerPublicKey (cPeer c)) \<and>
     (peerPresharedKey (cPeer c) = [] \<or> validWGKey (peerPresharedKey (cPeer c))) \<and>
     TrimSpace (peerEndpoint (cPeer c)) \<noteq> [] \<and> cAddresses c \<noteq> [] \<and> 576 \<le> cMTU c \<and> cMTU c \<le> 9000 \<and>
     10 \<le> cDNSRefreshSeconds c \<and> cGroups c \<noteq> [] \<and> list_all group_ok (cGroups c) \<and>
     distinct (map (\<lambda>g. ToLower (gName g)) (cGroups c))"

lemma dedupe_loop_step:
  "dedupe_loop lower seen (x # xs) =
     (let y = (if lower then ToLower (TrimSpace x) else TrimSpace x) in
      if y = [] \<or> ToLower y \<in> set seen then dedupe_loop lower seen xs else y # dedupe_loop lower (ToLower y # seen) xs)"
  by (simp add: Let_def)

lemma dedupe_loop_mem:
  "x \<in> set (dedupe_loop lower seen xs) \<Longrightarrow> x \<noteq> [] \<and> TrimSpace x = x \<and> (lower \<longrightarrow> ToLower x = x) \<and> ToLower x \<notin> set seen"
proof (induction xs arbitrary: seen)
  case (Cons y xs)
  let ?y = "if lower then ToLower (TrimSpace y) else TrimSpace y"
  show ?case
  proof (cases "?y = [] \<or> ToLower ?y \<in> set seen")
    case True
    then show ?thesis using Cons.prems unfolding dedupe_loop_step Let_def by (intro Cons.IH) simp
  next
    case False
    then consider "x = ?y" | "x \<in> set (dedupe_loop lower (ToLower ?y # seen) xs)"
      using Cons.prems unfolding dedupe_loop_step Let_def by auto
    then show ?thesis
    proof cases
      case 1
      then show ?thesis using False by (auto simp: TrimSpace_ToLower)
    next
      case 2
      from Cons.IH [OF this] show ?thesis by simp
    qed
  qed
qed simp

lemma dedupe_loop_distinct: "distinct (map ToLower (dedupe_loop lower seen xs))"
proof (induction xs arbitrary: seen)
  case (Cons y xs)
  then show ?case unfolding dedupe_loop_step Let_def using dedupe_loop_mem [of _ lower _ xs] by fastforce
qed simp

lemma dedupe_loop_id:
  "distinct (map ToLower xs) \<Longrightarrow> (\<And>x. x \<in> set xs \<Longrightarrow> x \<noteq> [] \<and> TrimSpace x = x \<and> (lower \<longrightarrow> ToLower x = x) \<and> ToLower x \<notin> set seen) \<Longrightarrow>
    dedupe_loop lower seen xs = xs"
proof (induction xs arbitrary: seen)
  case (Cons y xs)
  have "dedupe_loop lower (ToLower y # seen) xs = xs"
  proof (rule Cons.IH)
    fix x assume x: "x \<in> set xs"
    then have "ToLower x \<noteq> ToLower y" using Cons.prems(1) by (auto dest: image_eqI [OF sym])
    with x Cons.prems(2) [of x] show "x \<noteq> [] \<and> TrimSpace x = x \<and> (lower \<longrightarrow> ToLower x = x) \<and> ToLower x \<notin> set (ToLower y # seen)" by simp
  qed (use Cons.prems in simp)
  moreover have "(if lower then ToLower (TrimSpace y) else TrimSpace y) = y" "y \<noteq> []" "ToLower y \<notin> set seen"
    using Cons.prems(2) [of y] by auto
  ultimately show ?case unfolding dedupe_loop_step Let_def by simp
qed simp

lemma star_lower: "ToLower ''*'' = ''*''" "TrimSpace ''*'' = ''*''"
  by (simp_all add: ToLower_def lower_char_def TrimSpace_fix_iff is_space_def)

lemma normalizeApps_props:
  "''*'' \<in> set (normalizeApps xs) \<Longrightarrow> normalizeApps xs = [''*'']"
  "distinct (map ToLower (normalizeApps xs))"
  "list_all (\<lambda>a. a \<noteq> [] \<and> TrimSpace a = a) (normalizeApps xs)"
  using dedupe_loop_mem [of _ False "[]" xs] dedupe_loop_distinct [of False "[]" xs] star_lower
  by (auto simp: normalizeApps_def dedupe_def Let_def list_all_iff split: if_splits)

lemma normalizeApps_id:
  "distinct (map ToLower xs) \<Longrightarrow> list_all (\<lambda>a. a \<noteq> [] \<and> TrimSpace a = a) xs \<Longrightarrow> (''*'' \<in> set xs \<longrightarrow> xs = [''*'']) \<Longrightarrow>
    normalizeApps xs = xs"
  using dedupe_loop_id [where xs = xs and lower = False and seen = "[]"] by (auto simp: normalizeApps_def dedupe_def Let_def list_all_iff)

lemma normalizeDomains_props:
  "''*'' \<in> set (normalizeDomains xs) \<Longrightarrow> normalizeDomains xs = [''*'']"
  "distinct (normalizeDomains xs)"
  "list_all (\<lambda>d. ToLower d = d \<and> TrimSpace d = d) (normalizeDomains xs)"
proof -
  define out where "out = dedupe (map (\<lambda>x. ToLower (TrimSuffix (TrimSpace x) ''.'')) xs) True"
  have n: "normalizeDomains xs = (if ''*'' \<in> set out then [''*''] else out)"
    by (simp add: normalizeDomains_def out_def Let_def)
  have "distinct (map ToLower out)" unfolding out_def dedupe_def by (rule dedupe_loop_distinct)
  then have d: "distinct out" by (simp add: distinct_map)
  have m: "ToLower x = x \<and> TrimSpace x = x" if "x \<in> set out" for x
    using dedupe_loop_mem that unfolding out_def dedupe_def by blast
  show "''*'' \<in> set (normalizeDomains xs) \<Longrightarrow> normalizeDomains xs = [''*'']" by (simp add: n split: if_splits)
  show "distinct (normalizeDomains xs)" using d by (simp add: n)
  show "list_all (\<lambda>d. ToLower d = d \<and> TrimSpace d = d) (normalizeDomains xs)"
    using m star_lower by (auto simp: n list_all_iff)
qed

lemma domain_clean:
  assumes "ToLower d = d" "TrimSpace d = d" "validateDomainPattern d"
  shows "ToLower (TrimSuffix (TrimSpace d) ''.'') = d" "d \<noteq> []"
proof -
  have "\<not> HasSuffix d ''.''"
  proof
    assume s: "HasSuffix d ''.''"
    then obtain t where t: "d = t @ ''.''" by (auto simp: HasSuffix_iff)
    show False
    proof (cases "HasPrefix d ''*.''")
      case True
      then obtain u where u: "d = ''*.'' @ u" by (auto simp: HasPrefix_iff)
      show False
      proof (cases "u = []")
        case True
        then show False using assms(3) u by (simp add: validateDomainPattern_def TrimPrefix_def HasPrefix_def)
      next
        case False
        then have "HasSuffix u ''.''" using t u by (cases u rule: rev_cases) (auto simp: HasSuffix_iff)
        then show False using assms(3) u by (auto simp: validateDomainPattern_def TrimPrefix_def HasPrefix_def Let_def split: if_splits)
      qed
    next
      case False
      then show False using assms(3) s t by (auto simp: validateDomainPattern_def TrimPrefix_def Let_def split: if_splits)
    qed
  qed
  then show "ToLower (TrimSuffix (TrimSpace d) ''.'') = d" using assms by (simp add: TrimSuffix_def)
  show "d \<noteq> []" using assms(3) by (auto simp: validateDomainPattern_def TrimPrefix_def HasPrefix_def)
qed

lemma normalizeDomains_id:
  assumes "distinct xs" "list_all (\<lambda>d. ToLower d = d \<and> TrimSpace d = d \<and> validateDomainPattern d) xs" "''*'' \<in> set xs \<longrightarrow> xs = [''*'']"
  shows "normalizeDomains xs = xs"
proof -
  have m: "map (\<lambda>x. ToLower (TrimSuffix (TrimSpace x) ''.'')) xs = xs"
    using assms(2) domain_clean(1) by (intro map_idI) (auto simp: list_all_iff)
  have l: "map ToLower xs = xs" using assms(2) by (intro map_idI) (auto simp: list_all_iff)
  have "dedupe xs True = xs" unfolding dedupe_def
    using assms(1,2) domain_clean(2) l by (intro dedupe_loop_id) (auto simp: list_all_iff)
  with m assms(3) show ?thesis by (simp add: normalizeDomains_def Let_def)
qed

lemma validate_group_ok:
  "validate_group i seen g = Inr g' \<Longrightarrow> group_ok g' \<and> ToLower (gName g') \<notin> set seen"
  using normalizeApps_props [where xs = "gApps g"] normalizeDomains_props [where xs = "gDomains g"]
  by (auto simp: validate_group_def group_ok_def Let_def list_all_iff find_None_iff split: if_splits option.splits)

lemma validate_group_id:
  "group_ok g \<Longrightarrow> ToLower (gName g) \<notin> set seen \<Longrightarrow> validate_group i seen g = Inr g"
  by (auto simp: validate_group_def group_ok_def Let_def normalizeApps_id normalizeDomains_id find_None_iff list_all_iff split: option.splits dest!: find_Some_iff [THEN iffD1])

lemma validate_groups_ok:
  "validate_groups i seen gs = Inr gs' \<Longrightarrow>
    list_all group_ok gs' \<and> distinct (map (\<lambda>g. ToLower (gName g)) gs') \<and> (\<forall>g \<in> set gs'. ToLower (gName g) \<notin> set seen) \<and> length gs' = length gs"
proof (induction i seen gs arbitrary: gs' rule: validate_groups.induct)
  case (2 i seen g gs)
  from "2.prems" obtain g' gt where g': "validate_group i seen g = Inr g'"
    "validate_groups (i + 1) (ToLower (gName g') # seen) gs = Inr gt" "gs' = g' # gt" by (auto split: sum.splits)
  from "2.IH" [OF g'(1,2)] validate_group_ok [OF g'(1)] g'(3) show ?case by auto
qed simp

lemma validate_groups_id:
  "list_all group_ok gs \<Longrightarrow> distinct (map (\<lambda>g. ToLower (gName g)) gs) \<Longrightarrow> \<forall>g \<in> set gs. ToLower (gName g) \<notin> set seen \<Longrightarrow>
    validate_groups i seen gs = Inr gs"
proof (induction gs arbitrary: i seen)
  case (Cons g gs)
  then have "ToLower (gName h) \<noteq> ToLower (gName g)" if "h \<in> set gs" for h
    using that by (auto dest: image_eqI [OF sym])
  with Cons.prems have "validate_groups (i + 1) (ToLower (gName g) # seen) gs = Inr gs" by (intro Cons.IH) auto
  with Cons.prems show ?case by (simp add: validate_group_id)
qed simp

lemma Validate_ok:
  assumes "Validate c = Inr c'"
  shows "config_ok c'"
proof -
  let ?c = "if cDNSRefreshSeconds c < 10 then c\<lparr>cDNSRefreshSeconds := 10\<rparr> else c"
  from assms obtain gs where gs: "validate_groups 0 [] (cGroups c) = Inr gs" "c' = ?c\<lparr>cGroups := gs\<rparr>" "cGroups c \<noteq> []"
    and k: "validWGKey (cPrivateKey c)" "validWGKey (peerPublicKey (cPeer c))"
      "peerPresharedKey (cPeer c) = [] \<or> validWGKey (peerPresharedKey (cPeer c))"
      "TrimSpace (peerEndpoint (cPeer c)) \<noteq> []" "cAddresses c \<noteq> []" "576 \<le> cMTU c" "cMTU c \<le> 9000"
    by (auto simp: Validate_def Let_def split: if_splits sum.splits)
  from validate_groups_ok [OF gs(1)] gs k show ?thesis by (auto simp: config_ok_def)
qed

lemma Validate_id: "config_ok c \<Longrightarrow> Validate c = Inr c"
  by (simp add: config_ok_def Validate_def validate_groups_id)

lemma finish_load_Validate: "finish_load w c = Inr c' \<Longrightarrow> \<exists>d. Validate d = Inr c'"
  by (auto simp: finish_load_def split: sum.splits)

lemma Load_validated: "Load read path defaultRulesPath = Inr c \<Longrightarrow> \<exists>d. Validate d = Inr c"
  by (auto simp: Load_def split: option.splits if_splits sum.splits dest!: finish_load_Validate)

text \<open>C25: Every configuration that \<open>Load\<close> returns is well formed: keys of 32 bytes, an endpoint, an
  address, an MTU from 576 to 9000, a refresh interval of at least 10 seconds, and at least one group;
  group names are distinct up to case, every group has applications and destinations, its lists have
  no duplicates and no wildcard beside other entries, and its domain patterns are lower-case and
  valid. Validating such a configuration again changes nothing.\<close>

theorem Load_wf:
  assumes "Load read path defaultRulesPath = Inr c"
  shows "config_ok c \<and> Validate c = Inr c"
  using Load_validated [OF assms] Validate_ok Validate_id by blast

section \<open>Default rules cannot change the tunnel\<close>

text \<open>The part of a configuration that identifies the tunnel.\<close>

definition wg_part :: "Config \<Rightarrow> string \<times> prefix list \<times> addr list \<times> Peer" where
  "wg_part c = (cPrivateKey c, cAddresses c, cDNSServers c, cPeer c)"

definition group_state_ok :: "pstate \<Rightarrow> bool" where
  "group_state_ok st \<longleftrightarrow> (psKind st = SectionGroup \<longrightarrow> (\<exists>i. psGroup st = Some i \<and> i < length (cGroups (psCfg st))))"

definition ps_rel :: "pstate \<Rightarrow> pstate \<Rightarrow> bool" where
  "ps_rel s t \<longleftrightarrow> psKind s = psKind t \<and> psPeerSeen s = psPeerSeen t \<and> wg_part (psCfg s) = wg_part (psCfg t) \<and>
     group_state_ok s \<and> group_state_ok t"

lemma parse_interface_rel:
  "wg_part c = wg_part d \<Longrightarrow> rel_sum (=) (\<lambda>a b. wg_part a = wg_part b \<and> cGroups a = cGroups c \<and> cGroups b = cGroups d)
    (parse_interface k v c) (parse_interface k v d)"
  by (auto simp: parse_interface_def wg_part_def split: sum.splits)

lemma parse_peer_rel:
  "wg_part c = wg_part d \<Longrightarrow> rel_sum (=) (\<lambda>a b. wg_part a = wg_part b \<and> cGroups a = cGroups c \<and> cGroups b = cGroups d)
    (parse_peer k v c) (parse_peer k v d)"
  by (auto simp: parse_peer_def wg_part_def split: option.splits)

lemma parse_splitwire_rel:
  "wg_part c = wg_part d \<Longrightarrow> rel_sum (=) (\<lambda>a b. wg_part a = wg_part b \<and> cGroups a = cGroups c \<and> cGroups b = cGroups d)
    (parse_splitwire k v c) (parse_splitwire k v d)"
  by (auto simp: parse_splitwire_def wg_part_def split: option.splits)

lemma parse_group_rel: "rel_sum (=) (\<lambda>_ _. True) (parse_group k v g) (parse_group k v h)"
  by (auto simp: parse_group_def split: sum.splits)

lemma wg_part_groups [simp]: "wg_part (c\<lparr>cGroups := gs\<rparr>) = wg_part c"
  by (simp add: wg_part_def)

lemma parse_header_rel: "ps_rel s t \<Longrightarrow> rel_sum (=) ps_rel (parse_header a l s) (parse_header a l t)"
  by (auto simp: parse_header_def ps_rel_def group_state_ok_def Let_def split: sum.splits)

lemma rel_sum_case:
  assumes "rel_sum (=) R x y" and "\<And>a b. R a b \<Longrightarrow> S (f a) (g b)"
  shows "rel_sum (=) S (case x of Inl e \<Rightarrow> Inl e | Inr a \<Rightarrow> Inr (f a)) (case y of Inl e \<Rightarrow> Inl e | Inr b \<Rightarrow> Inr (g b))"
  using assms by (cases x; cases y) auto

lemma parse_setting_rel:
  assumes "ps_rel s t"
  shows "rel_sum (=) ps_rel (parse_setting a k v s) (parse_setting a k v t)"
proof -
  note r = assms [unfolded ps_rel_def group_state_ok_def]
  show ?thesis
  proof (cases "psKind t")
    case SectionOther
    then show ?thesis using r by (simp add: parse_setting_def assms)
  next
    case SectionInterface
    then show ?thesis using r assms unfolding parse_setting_def
      by (auto intro!: rel_sum_case [OF parse_interface_rel] simp: ps_rel_def group_state_ok_def)
  next
    case SectionPeer
    then show ?thesis using r assms unfolding parse_setting_def
      by (auto intro!: rel_sum_case [OF parse_peer_rel] simp: ps_rel_def group_state_ok_def)
  next
    case SectionSplitWire
    then show ?thesis using r assms unfolding parse_setting_def
      by (auto intro!: rel_sum_case [OF parse_splitwire_rel] simp: ps_rel_def group_state_ok_def)
  next
    case SectionGroup
    then show ?thesis using r unfolding parse_setting_def
      by (auto intro!: rel_sum_case [OF parse_group_rel] simp: ps_rel_def group_state_ok_def)
  qed
qed

lemma parse_line_rel: "ps_rel s t \<Longrightarrow> rel_sum (=) ps_rel (parse_line a l s) (parse_line a l t)"
  by (auto simp: parse_line_def Let_def parse_header_rel parse_setting_rel split: option.splits)

lemma parse_lines_rel: "ps_rel s t \<Longrightarrow> rel_sum (=) ps_rel (parse_lines a n ls s) (parse_lines a n ls t)"
proof (induction ls arbitrary: s t n)
  case (Cons l ls)
  from parse_line_rel [OF Cons.prems, of a l] show ?case
    by (cases "parse_line a l s"; cases "parse_line a l t") (auto intro: Cons.IH)
qed simp

lemma parseInto_rel:
  assumes "wg_part c = wg_part d"
  shows "rel_sum (=) (\<lambda>a b. wg_part a = wg_part b) (parseInto w c a) (parseInto w d a)"
proof -
  let ?s = "\<lambda>c. \<lparr>psCfg = c, psKind = SectionOther, psPeerSeen = False, psGroup = None\<rparr>"
  have "ps_rel (?s c) (?s d)" using assms by (simp add: ps_rel_def group_state_ok_def)
  from parse_lines_rel [OF this, of a 1 "fst (ScanLines w)"] show ?thesis
    by (cases "parse_lines a 1 (fst (ScanLines w)) (?s c)"; cases "parse_lines a 1 (fst (ScanLines w)) (?s d)")
      (auto simp: parseInto_def Let_def ps_rel_def split_beta)
qed

text \<open>Without permission for WireGuard sections the parser leaves the tunnel alone.\<close>

lemma parse_line_False: "parse_line False l s = Inr t \<Longrightarrow> wg_part (psCfg t) = wg_part (psCfg s)"
  by (auto simp: parse_line_def parse_header_def parse_setting_def parse_splitwire_def Let_def wg_part_def
      split: if_splits option.splits sum.splits sectionKind.splits)

lemma parse_lines_False: "parse_lines False n ls s = Inr t \<Longrightarrow> wg_part (psCfg t) = wg_part (psCfg s)"
  by (induction ls arbitrary: s n) (auto split: sum.splits dest!: parse_line_False)

lemma parseInto_False: "parseInto w c False = Inr d \<Longrightarrow> wg_part d = wg_part c"
  by (auto simp: parseInto_def split: sum.splits if_splits prod.splits dest!: parse_lines_False)

lemma Validate_wg: "Validate c = Inr d \<Longrightarrow> wg_part d = wg_part c"
  by (auto simp: Validate_def Let_def wg_part_def split: if_splits sum.splits)

lemma finish_load_wg:
  assumes "wg_part c = wg_part d" "finish_load w c = Inr c'" "finish_load w d = Inr d'"
  shows "wg_part c' = wg_part d'"
  using parseInto_rel [OF assms(1), of w True] assms(2,3)
  by (auto simp: finish_load_def split: sum.splits dest!: Validate_wg)

lemma Load_start:
  assumes "Load read path dp = Inr c" "read path = Some w"
  shows "\<exists>d. wg_part d = wg_part Defaults \<and> finish_load w d = Inr c"
proof (cases "hasSplitSections w")
  case True
  then show ?thesis using assms by (auto simp: Load_def)
next
  case False
  then obtain dd d where "read dp = Some dd" "parseInto dd Defaults False = Inr d"
    "finish_load w (d\<lparr>cUsedDefaultRules := True, cDefaultRulesPath := dp\<rparr>) = Inr c"
    using assms by (auto simp: Load_def split: if_splits option.splits sum.splits)
  then show ?thesis using parseInto_False by (intro exI [of _ "d\<lparr>cUsedDefaultRules := True, cDefaultRulesPath := dp\<rparr>"]) (auto simp: wg_part_def)
qed

text \<open>The default rules cannot change the tunnel: the private key, the addresses, the DNS servers
  and the peer of a loaded configuration are determined by the WireGuard file alone. Two loads of
  the same WireGuard file agree on them, whatever the default rules file, its path and its own
  \<open>[Interface]\<close> and \<open>[Peer]\<close> sections are.\<close>

theorem default_rules_keep_tunnel:
  assumes "read1 path = read2 path" "Load read1 path dp1 = Inr c1" "Load read2 path dp2 = Inr c2"
  shows "wg_part c1 = wg_part c2"
proof -
  from assms(2) obtain w where w: "read1 path = Some w" by (cases "read1 path") (auto simp: Load_def)
  from Load_start [OF assms(2) w] obtain d1 where d1: "wg_part d1 = wg_part Defaults" "finish_load w d1 = Inr c1" by blast
  from Load_start [OF assms(3)] w assms(1) obtain d2 where d2: "wg_part d2 = wg_part Defaults" "finish_load w d2 = Inr c2" by auto
  from finish_load_wg [OF _ d1(2) d2(2)] d1(1) d2(1) show ?thesis by simp
qed

section \<open>A worked example\<close>

definition example_key_text :: string where
  "example_key_text = ''AAAAAAAAAAAAAAAAAAAAAAAAAAAAAAAAAAAAAAAAAAA=''"

definition example_wg :: string where
  "example_wg = concat (map (\<lambda>l. l @ [CHR 0x0A]) [''[Interface]'', ''PrivateKey='' @ example_key_text, ''Address=10.0.0.2/32'', ''[Peer]'',
     ''PublicKey='' @ example_key_text, ''Endpoint=vpn:51820''])"

definition example_rules :: "string \<Rightarrow> string" where
  "example_rules app = concat (map (\<lambda>l. l @ [CHR 0x0A]) [''[Interface]'', ''PrivateKey=none'', ''[Group AI]'', ''Apps='' @ app, ''Domains=*.example.com''])"

definition example_files :: "string \<Rightarrow> string \<Rightarrow> string option" where
  "example_files app p = (if p = ''wg'' then Some example_wg else if p = ''rules'' then Some (example_rules app) else None)"

lemmas text_eval = TrimSpace_def is_space_def stripComment_def ToLower_def lower_char_def char_of_def bit_Suc_0_iff Let_def

lemma example_rules_lines:
  "app = ''*'' \<or> app = ''a.exe'' \<Longrightarrow>
    ScanLines (example_rules app) = ([''[Interface]'', ''PrivateKey=none'', ''[Group AI]'', ''Apps='' @ app, ''Domains=*.example.com''], False)"
  by (auto simp: ScanLines_def raw_lines_def example_rules_def drop_cr_def)

lemma example_wg_lines:
  "ScanLines example_wg = ([''[Interface]'', ''PrivateKey='' @ example_key_text, ''Address=10.0.0.2/32'', ''[Peer]'',
     ''PublicKey='' @ example_key_text, ''Endpoint=vpn:51820''], False)"
  by (simp add: ScanLines_def raw_lines_def example_wg_def drop_cr_def example_key_text_def)

lemma example_settings:
  "parse_line a ''Domains=*.example.com'' st = parse_setting a ''domains'' ''*.example.com'' st"
  "parse_line a ''Apps=*'' st = parse_setting a ''apps'' ''*'' st"
  "parse_line a ''Apps=a.exe'' st = parse_setting a ''apps'' ''a.exe'' st"
  "parse_line a ''PrivateKey=none'' st = parse_setting a ''privatekey'' ''none'' st"
  "parse_line a (''PrivateKey='' @ example_key_text) st = parse_setting a ''privatekey'' example_key_text st"
  "parse_line a (''PublicKey='' @ example_key_text) st = parse_setting a ''publickey'' example_key_text st"
  "parse_line a ''Address=10.0.0.2/32'' st = parse_setting a ''address'' ''10.0.0.2/32'' st"
  "parse_line a ''Endpoint=vpn:51820'' st = parse_setting a ''endpoint'' ''vpn:51820'' st"
  by (simp_all add: parse_line_def example_key_text_def text_eval)

lemma example_headers:
  "parse_line a ''[Interface]'' st = parse_header a ''Interface'' st"
  "parse_line a ''[Peer]'' st = parse_header a ''Peer'' st"
  "parse_line a ''[Group AI]'' st = parse_header a ''Group AI'' st"
  "parseSection (TrimSpace ''Interface'') = Inr (SectionInterface, [])"
  "parseSection (TrimSpace ''Peer'') = Inr (SectionPeer, [])"
  "parseSection (TrimSpace ''Group AI'') = Inr (SectionGroup, ''AI'')"
  by (simp_all add: parse_line_def parseSection_def is_group_header_def HasPrefix_def text_eval)

lemma example_values:
  "splitList ''*'' = [''*'']" "splitList ''a.exe'' = [''a.exe'']" "lowerList ''*.example.com'' = [''*.example.com'']"
  "splitList ''10.0.0.2/32'' = [''10.0.0.2/32'']"
  "ParsePrefix ''10.0.0.2/32'' = Some \<lparr>pfx_addr = Addr4 [10, 0, 0, 2], pfx_bits = 32\<rparr>"
  by (simp_all add: splitList_def lowerList_def text_eval TrimSuffix_def HasSuffix_def) code_simp

lemma example_key: "validWGKey example_key_text"
  by (simp add: validWGKey_def example_key_text_def DecodeString_def b64_val_def b64_bytes_def TrimSpace_def is_space_def)

lemma example_no_split: "\<not> hasSplitSections example_wg"
  by (simp add: hasSplitSections_def example_wg_lines is_group_header_def HasPrefix_def example_key_text_def text_eval)

lemma example_group:
  "group_ok \<lparr>gName = ''AI'', gApps = [''*''], gDomains = [''*.example.com''], gNetworks = []\<rparr>"
  "group_ok \<lparr>gName = ''AI'', gApps = [''a.exe''], gDomains = [''*.example.com''], gNetworks = []\<rparr>"
  by (simp_all add: group_ok_def validateDomainPattern_def TrimPrefix_def HasPrefix_def HasSuffix_def ContainsAny_def text_eval)

lemma example_rules_parsed:
  assumes "app = ''*'' \<or> app = ''a.exe''"
  shows "parseInto (example_rules app) Defaults False =
    Inr (Defaults\<lparr>cGroups := [\<lparr>gName = ''AI'', gApps = [app], gDomains = [''*.example.com''], gNetworks = []\<rparr>]\<rparr>)"
  using assms example_rules_lines [OF assms]
  by (auto simp: parseInto_def example_settings [simplified] example_headers parse_header_def parse_setting_def parse_group_def
      example_values Defaults_def Let_def)

lemma example_wg_parsed:
  "parseInto example_wg c True = Inr (c\<lparr>cPrivateKey := example_key_text, cAddresses := cAddresses c @ [\<lparr>pfx_addr = Addr4 [10, 0, 0, 2], pfx_bits = 32\<rparr>],
     cPeer := (cPeer c)\<lparr>peerPublicKey := example_key_text, peerEndpoint := ''vpn:51820''\<rparr>\<rparr>)"
  using example_wg_lines
  by (simp add: parseInto_def example_settings [simplified] example_headers parse_header_def parse_setting_def parse_interface_def parse_peer_def
      example_values Let_def)

lemma example_load:
  assumes "app = ''*'' \<or> app = ''a.exe''"
  shows "\<exists>c. Load (example_files app) ''wg'' ''rules'' = Inr c \<and>
    cGroups c = [\<lparr>gName = ''AI'', gApps = [app], gDomains = [''*.example.com''], gNetworks = []\<rparr>] \<and>
    cPhysicalInterface c = []"
proof -
  let ?c = "Defaults\<lparr>cGroups := [\<lparr>gName = ''AI'', gApps = [app], gDomains = [''*.example.com''], gNetworks = []\<rparr>],
    cUsedDefaultRules := True, cDefaultRulesPath := ''rules'', cPrivateKey := example_key_text,
    cAddresses := [\<lparr>pfx_addr = Addr4 [10, 0, 0, 2], pfx_bits = 32\<rparr>],
    cPeer := (cPeer Defaults)\<lparr>peerPublicKey := example_key_text, peerEndpoint := ''vpn:51820''\<rparr>\<rparr>"
  have "config_ok ?c"
    using assms example_group example_key by (auto simp: config_ok_def Defaults_def TrimSpace_def is_space_def)
  then have "Validate ?c = Inr ?c" by (rule Validate_id)
  moreover have "TrimSpace ''rules'' \<noteq> []" by (simp add: TrimSpace_def is_space_def)
  ultimately show ?thesis
    by (simp add: Load_def example_files_def example_no_split finish_load_def example_rules_parsed [OF assms] example_wg_parsed)
      (simp add: Defaults_def)
qed

theorem Load_wf_witness:
  "\<exists>c. Load (example_files ''*'') ''wg'' ''rules'' = Inr c \<and> config_ok c \<and> Validate c = Inr c"
proof -
  obtain c where c: "Load (example_files ''*'') ''wg'' ''rules'' = Inr c" using example_load [of "''*''"] by auto
  with Load_wf [OF c] show ?thesis by blast
qed

theorem default_rules_keep_tunnel_witness:
  "\<exists>c d. Load (example_files ''*'') ''wg'' ''rules'' = Inr c \<and> Load (example_files ''a.exe'') ''wg'' ''rules'' = Inr d \<and> wg_part c = wg_part d"
proof -
  obtain c d where c: "Load (example_files ''*'') ''wg'' ''rules'' = Inr c" and d: "Load (example_files ''a.exe'') ''wg'' ''rules'' = Inr d"
    using example_load [of "''*''"] example_load [of "''a.exe''"] by auto
  have "example_files ''*'' ''wg'' = example_files ''a.exe'' ''wg''" by (simp add: example_files_def)
  with default_rules_keep_tunnel [OF _ c d] c d show ?thesis by blast
qed

section \<open>The patterns given to the system proxy\<close>

lemma lower_char_dot: "lower_char c = CHR ''.'' \<longleftrightarrow> c = CHR ''.''"
proof
  assume a: "lower_char c = CHR ''.''"
  have "of_char (CHR ''.'') = (46 :: nat)" by simp
  with a have "of_char (lower_char c) = (46 :: nat)" by simp
  then have "lower_char c = c" by (auto simp: lower_char_def Let_def split: if_splits)
  with a show "c = CHR ''.''" by simp
qed (simp add: lower_char_def)

lemma TrimSuffix_ToLower: "TrimSuffix (ToLower s) ''.'' = ToLower (TrimSuffix s ''.'')"
proof (cases s rule: rev_cases)
  case (snoc t c)
  then show ?thesis by (auto simp: TrimSuffix_def HasSuffix_def ToLower_def lower_char_dot)
qed (simp add: TrimSuffix_def HasSuffix_def)

lemma MatchDomainPattern_lower: "MatchDomainPattern (ToLower p) h = MatchDomainPattern p h"
  by (simp add: MatchDomainPattern_def TrimSpace_ToLower TrimSuffix_ToLower)

lemma proxy_patterns_props:
  "p \<in> set (proxy_patterns seen ps) \<Longrightarrow> p \<in> set ps \<and> p \<noteq> ''*'' \<and> ToLower p \<notin> set seen"
  "distinct (map ToLower (proxy_patterns seen ps))"
  "p \<in> set ps \<Longrightarrow> p \<noteq> ''*'' \<Longrightarrow> ToLower p \<in> set seen \<or> ToLower p \<in> ToLower ` set (proxy_patterns seen ps)"
proof -
  show m: "p \<in> set (proxy_patterns seen ps) \<Longrightarrow> p \<in> set ps \<and> p \<noteq> ''*'' \<and> ToLower p \<notin> set seen" for p seen ps
    by (induction seen ps rule: proxy_patterns.induct) (auto split: if_splits)
  show "distinct (map ToLower (proxy_patterns seen ps))"
    by (induction seen ps rule: proxy_patterns.induct) (auto dest!: m)
  show "p \<in> set ps \<Longrightarrow> p \<noteq> ''*'' \<Longrightarrow> ToLower p \<in> set seen \<or> ToLower p \<in> ToLower ` set (proxy_patterns seen ps)"
    by (induction seen ps rule: proxy_patterns.induct) (auto split: if_splits)
qed

text \<open>The patterns given to the system proxy: no two are equal up to case, none is the catch-all
  \<open>*\<close>, and they select exactly the hosts that a pattern other than \<open>*\<close> of some group matches.\<close>

theorem ProxyDomainPatterns_correct:
  "distinct (map ToLower (ProxyDomainPatterns c)) \<and> ''*'' \<notin> set (ProxyDomainPatterns c) \<and>
   list_ex (\<lambda>p. MatchDomainPattern p h) (ProxyDomainPatterns c) =
     list_ex (\<lambda>g. list_ex (\<lambda>p. p \<noteq> ''*'' \<and> MatchDomainPattern p h) (gDomains g)) (cGroups c)"
proof -
  let ?ps = "concat (map gDomains (cGroups c))"
  have 1: "\<exists>q \<in> set (ProxyDomainPatterns c). MatchDomainPattern q h" if p: "p \<in> set ?ps" "p \<noteq> ''*''" "MatchDomainPattern p h" for p
  proof -
    from proxy_patterns_props(3) [OF p(1,2), of "[]"] obtain q where
      q: "q \<in> set (ProxyDomainPatterns c)" "ToLower q = ToLower p" by (auto simp: ProxyDomainPatterns_def)
    with p(3) have "MatchDomainPattern q h" using MatchDomainPattern_lower [of q h] MatchDomainPattern_lower [of p h] by simp
    with q show ?thesis by blast
  qed
  have 2: "q \<in> set ?ps \<and> q \<noteq> ''*''" if "q \<in> set (ProxyDomainPatterns c)" for q
    using proxy_patterns_props(1) [of q "[]" ?ps] that by (simp add: ProxyDomainPatterns_def)
  have "distinct (map ToLower (ProxyDomainPatterns c))" unfolding ProxyDomainPatterns_def by (rule proxy_patterns_props(2))
  moreover have "list_ex (\<lambda>p. MatchDomainPattern p h) (ProxyDomainPatterns c) =
     list_ex (\<lambda>g. list_ex (\<lambda>p. p \<noteq> ''*'' \<and> MatchDomainPattern p h) (gDomains g)) (cGroups c)"
    using 1 2 by (fastforce simp: list_ex_iff)
  ultimately show ?thesis using 2 by blast
qed

end
