(* ===== verification/Domain_Tracker.thy ===== *)
theory Domain_Tracker
  imports Config "HOL-Library.AList"
begin

text \<open>
  \<open>internal/domain/tracker.go\<close>: the addresses learned for the domain groups, each with an expiry per
  group. Times are nanoseconds. Both levels of Go maps are association lists, because \<open>Sweep\<close>,
  \<open>Contains\<close> and \<open>Count\<close> iterate over them or measure them. The clock \<open>t.now()\<close> is an argument.
\<close>

section \<open>Data and operations\<close>

record Tracker =
  tIps :: "(addr \<times> (int \<times> int) list) list"
  tGroups :: "Group list"

definition NewTracker :: "Group list \<Rightarrow> Tracker" where
  "NewTracker groups = \<lparr>tIps = [], tGroups = groups\<rparr>"

definition second :: int where
  "second = 1000000000"

definition NameGroups :: "string \<Rightarrow> Tracker \<Rightarrow> int list" where
  "NameGroups name t =
     (let name = ToLower (TrimSuffix (TrimSpace name) ''.'') in
      if name = [] then []
      else map (\<lambda>i. int i) (filter (\<lambda>i. \<not> DomainsAll (tGroups t ! i) \<and> MatchesDomain (tGroups t ! i) name) [0..<length (tGroups t)]))"

definition NameMatches :: "string \<Rightarrow> Tracker \<Rightarrow> bool" where
  "NameMatches name t \<longleftrightarrow> length (NameGroups name t) \<noteq> 0"

text \<open>The result lists the keys of a Go map; here they are in the order of their first occurrence.\<close>

definition GroupsForNames :: "string list \<Rightarrow> Tracker \<Rightarrow> int list" where
  "GroupsForNames names t = rev (remdups (rev (concat (map (\<lambda>n. NameGroups n t) names))))"

definition clampTTL :: "int \<Rightarrow> int" where
  "clampTTL ttl = (if ttl < 10 * second then 10 * second else if ttl > 24 * 3600 * second then 24 * 3600 * second else ttl)"

definition add_expiry :: "nat \<Rightarrow> int \<Rightarrow> int \<Rightarrow> (int \<times> int) list \<Rightarrow> (int \<times> int) list" where
  "add_expiry n e i m =
     (if i < 0 \<or> i \<ge> int n then m
      else (case map_of m i of
        None \<Rightarrow> AList.update i e m
      | Some old \<Rightarrow> if old < e then AList.update i e m else m))"

definition AddGroups :: "int \<Rightarrow> addr \<Rightarrow> int list \<Rightarrow> int \<Rightarrow> Tracker \<Rightarrow> Tracker" where
  "AddGroups now ip groups ttl t =
     (if \<not> IsValid ip \<or> groups = [] then t
      else
        let ip = Unmap ip; e = now + clampTTL ttl;
            m = (case map_of (tIps t) ip of None \<Rightarrow> [] | Some m \<Rightarrow> m)
        in t\<lparr>tIps := AList.update ip (fold (add_expiry (length (tGroups t)) e) groups m) (tIps t)\<rparr>)"

definition AddForName :: "int \<Rightarrow> string \<Rightarrow> addr \<Rightarrow> int \<Rightarrow> Tracker \<Rightarrow> int list \<times> Tracker" where
  "AddForName now name ip ttl t = (let groups = NameGroups name t in (groups, AddGroups now ip groups ttl t))"

definition ContainsGroup :: "int \<Rightarrow> addr \<Rightarrow> int \<Rightarrow> Tracker \<Rightarrow> bool" where
  "ContainsGroup now ip gi t =
     (case map_of (tIps t) (Unmap ip) of
        None \<Rightarrow> False
      | Some m \<Rightarrow> (case map_of m gi of None \<Rightarrow> False | Some e \<Rightarrow> now < e))"

definition ContainsAddr :: "int \<Rightarrow> addr \<Rightarrow> Tracker \<Rightarrow> bool" where
  "ContainsAddr now ip t =
     (case map_of (tIps t) (Unmap ip) of None \<Rightarrow> False | Some m \<Rightarrow> list_ex (\<lambda>(_, e). now < e) m)"

definition SweepTracker :: "int \<Rightarrow> Tracker \<Rightarrow> Tracker" where
  "SweepTracker now t =
     t\<lparr>tIps := filter (\<lambda>(ip, m). m \<noteq> []) (map (\<lambda>(ip, m). (ip, filter (\<lambda>(g, e). now < e) m)) (tIps t))\<rparr>"

definition Count :: "Tracker \<Rightarrow> nat" where
  "Count t = length (tIps t)"

text \<open>
  \<open>ResolveBootstrapWithResolver\<close>. The resolver is the argument \<open>resolve\<close>: for a name the time at which
  it answers and the addresses, or nothing. \<open>string(rune(gi))\<close> is the UTF-8 text of the index.
\<close>

definition rune_string :: "nat \<Rightarrow> string" where
  "rune_string n = (case utf8 n of Some s \<Rightarrow> s | None \<Rightarrow> map char_of [239, 191, 189 :: nat])"

fun bootstrap_patterns :: "nat \<Rightarrow> string list \<Rightarrow> string list \<Rightarrow> (string \<times> nat) list \<times> string list" where
  "bootstrap_patterns gi seen [] = ([], seen)"
| "bootstrap_patterns gi seen (p # ps) =
     (let name = TrimPrefix p ''*.''; key = ToLower name @ CHR 0x00 # rune_string gi in
      if name = [] \<or> name = ''*'' \<or> key \<in> set seen then bootstrap_patterns gi seen ps
      else let (items, seen) = bootstrap_patterns gi (key # seen) ps in ((name, gi) # items, seen))"

fun bootstrap_items :: "nat \<Rightarrow> string list \<Rightarrow> Group list \<Rightarrow> (string \<times> nat) list" where
  "bootstrap_items gi seen [] = []"
| "bootstrap_items gi seen (g # gs) =
     (if DomainsAll g then bootstrap_items (gi + 1) seen gs
      else let (items, seen) = bootstrap_patterns gi seen (gDomains g) in items @ bootstrap_items (gi + 1) seen gs)"

definition ResolveBootstrap :: "(string \<Rightarrow> (int \<times> addr list) option) \<Rightarrow> int \<Rightarrow> Tracker \<Rightarrow> Tracker" where
  "ResolveBootstrap resolve ttl t =
     fold (\<lambda>(name, gi) t. case resolve name of
         None \<Rightarrow> t
       | Some (now, ips) \<Rightarrow> fold (\<lambda>ip. AddGroups now ip [int gi] ttl) ips t)
       (bootstrap_items 0 [] (tGroups t)) t"

section \<open>What the tracker knows\<close>

text \<open>The expiry of an address in a group, and the sweep as it acts on it.\<close>

definition expiry :: "Tracker \<Rightarrow> addr \<Rightarrow> int \<Rightarrow> int option" where
  "expiry t ip g = Option.bind (map_of (tIps t) ip) (\<lambda>m. map_of m g)"

definition wf_tracker :: "Tracker \<Rightarrow> bool" where
  "wf_tracker t \<longleftrightarrow> distinct (map fst (tIps t)) \<and> (\<forall>(ip, m) \<in> set (tIps t). distinct (map fst m))"

lemma ContainsGroup_expiry: "ContainsGroup now ip g t \<longleftrightarrow> (\<exists>e. expiry t (Unmap ip) g = Some e \<and> now < e)"
  by (auto simp: ContainsGroup_def expiry_def split: option.splits)

lemma map_of_add_expiry:
  "map_of (add_expiry n e i m) g =
     (if g = i \<and> 0 \<le> i \<and> i < int n then Some (case map_of m i of None \<Rightarrow> e | Some old \<Rightarrow> max old e) else map_of m g)"
  by (auto simp: add_expiry_def update_conv' split: option.splits)

lemma distinct_add_expiry: "distinct (map fst m) \<Longrightarrow> distinct (map fst (add_expiry n e i m))"
  by (auto simp: add_expiry_def distinct_update split: option.splits)

lemma map_of_add_expiries:
  "map_of (fold (add_expiry n e) gs m) g =
     (if g \<in> set gs \<and> 0 \<le> g \<and> g < int n then Some (case map_of m g of None \<Rightarrow> e | Some old \<Rightarrow> max old e) else map_of m g)"
  by (induction gs arbitrary: m) (auto simp: map_of_add_expiry split: option.splits)

lemma distinct_add_expiries: "distinct (map fst m) \<Longrightarrow> distinct (map fst (fold (add_expiry n e) gs m))"
  by (induction gs arbitrary: m) (auto simp: distinct_add_expiry)

definition adds :: "addr \<Rightarrow> int list \<Rightarrow> nat \<Rightarrow> addr \<Rightarrow> int \<Rightarrow> bool" where
  "adds ip groups n a g \<longleftrightarrow> IsValid ip \<and> a = Unmap ip \<and> g \<in> set groups \<and> 0 \<le> g \<and> g < int n"

lemma expiry_AddGroups:
  "expiry (AddGroups now ip groups ttl t) a g =
     (if adds ip groups (length (tGroups t)) a g
      then Some (case expiry t a g of None \<Rightarrow> now + clampTTL ttl | Some old \<Rightarrow> max old (now + clampTTL ttl))
      else expiry t a g)"
proof (cases "a = Unmap ip")
  case True
  then show ?thesis
    by (cases "map_of (tIps t) (Unmap ip)")
      (auto simp: AddGroups_def expiry_def adds_def Let_def update_conv' map_of_add_expiries)
qed (auto simp: AddGroups_def expiry_def adds_def Let_def update_conv')

lemma in_set_update: "x \<in> set (AList.update k v xs) \<Longrightarrow> x = (k, v) \<or> x \<in> set xs"
  by (induction xs) (auto split: if_splits)

lemma wf_AddGroups: "wf_tracker t \<Longrightarrow> wf_tracker (AddGroups now ip groups ttl t)"
proof (cases "IsValid ip \<and> groups \<noteq> []")
  case True
  assume wf: "wf_tracker t"
  let ?m = "case map_of (tIps t) (Unmap ip) of None \<Rightarrow> [] | Some m \<Rightarrow> m"
  let ?m' = "fold (add_expiry (length (tGroups t)) (now + clampTTL ttl)) groups ?m"
  have "distinct (map fst ?m)" using wf by (auto simp: wf_tracker_def split: option.splits dest!: map_of_SomeD)
  then have "distinct (map fst ?m')" by (rule distinct_add_expiries)
  then have "\<forall>(a, m) \<in> set (AList.update (Unmap ip) ?m' (tIps t)). distinct (map fst m)"
    using wf by (auto simp: wf_tracker_def dest!: in_set_update)
  then show ?thesis using True wf by (simp add: AddGroups_def wf_tracker_def Let_def distinct_update)
qed (simp add: AddGroups_def)

lemma map_of_filter_distinct:
  "distinct (map fst m) \<Longrightarrow> map_of (filter (\<lambda>(g, e). P e) m) g = (case map_of m g of None \<Rightarrow> None | Some e \<Rightarrow> if P e then Some e else None)"
proof (induction m)
  case (Cons x m)
  then have "fst x \<notin> fst ` set m" by simp
  then have "map_of m (fst x) = None" by (simp add: map_of_eq_None_iff)
  with Cons show ?case by (cases x) (auto split: option.splits)
qed simp

lemma expiry_Sweep:
  assumes "wf_tracker t"
  shows "expiry (SweepTracker now t) a g = (case expiry t a g of None \<Rightarrow> None | Some e \<Rightarrow> if now < e then Some e else None)"
proof -
  let ?f = "\<lambda>m. filter (\<lambda>(g, e). now < e) m"
  have 1: "map_of (filter (\<lambda>(ip, m). m \<noteq> []) (map (\<lambda>(ip, m). (ip, ?f m)) xs)) a =
      (case map_of xs a of None \<Rightarrow> None | Some m \<Rightarrow> if ?f m \<noteq> [] then Some (?f m) else None)"
    if "distinct (map fst xs)" for xs :: "(addr \<times> (int \<times> int) list) list"
  proof -
    have m: "map_of (map (\<lambda>(ip, m). (ip, ?f m)) xs) a = map_option ?f (map_of xs a)"
      by (induction xs) auto
    have "distinct (map fst (map (\<lambda>(ip, m). (ip, ?f m)) xs))" using that by (simp add: comp_def split_beta)
    from map_of_filter_distinct [OF this, of "\<lambda>m. m \<noteq> []" a] m show ?thesis by (auto split: option.splits)
  qed
  have "distinct (map fst (tIps t))" using assms by (simp add: wf_tracker_def)
  from 1 [OF this] have e: "expiry (SweepTracker now t) a g =
      (case map_of (tIps t) a of None \<Rightarrow> None | Some m \<Rightarrow> map_of (?f m) g)"
    by (auto simp: expiry_def SweepTracker_def split: option.splits)
  show ?thesis
  proof (cases "map_of (tIps t) a")
    case (Some m)
    then have "distinct (map fst m)" using assms by (auto simp: wf_tracker_def dest!: map_of_SomeD)
    from map_of_filter_distinct [OF this, of "\<lambda>e. now < e" g] e Some show ?thesis by (simp add: expiry_def)
  next
    case None
    then have "expiry t a g = None" by (simp add: expiry_def)
    with e None show ?thesis by simp
  qed
qed

lemma wf_Sweep: "wf_tracker t \<Longrightarrow> wf_tracker (SweepTracker now t)"
  by (auto simp: wf_tracker_def SweepTracker_def comp_def split_beta distinct_map_filter)

section \<open>Histories\<close>

datatype tracker_op = TAdd addr "int list" int | TSweep

fun tracker_step :: "int \<times> tracker_op \<Rightarrow> Tracker \<Rightarrow> Tracker" where
  "tracker_step (now, TAdd ip gs ttl) t = AddGroups now ip gs ttl t"
| "tracker_step (now, TSweep) t = SweepTracker now t"

text \<open>Specification: the address was learned for the group by an entry of the history that has not
  expired at the time asked for.\<close>

fun learned :: "nat \<Rightarrow> int \<Rightarrow> addr \<Rightarrow> int \<Rightarrow> int \<times> tracker_op \<Rightarrow> bool" where
  "learned n now a g (t, TAdd ip gs ttl) \<longleftrightarrow> adds ip gs n (Unmap a) g \<and> now < t + clampTTL ttl"
| "learned n now a g (t, TSweep) \<longleftrightarrow> False"

lemma tGroups_step [simp]: "tGroups (tracker_step c t) = tGroups t"
  by (cases "(c, t)" rule: tracker_step.cases) (auto simp: AddGroups_def SweepTracker_def Let_def)

lemma tracker_step_learned:
  assumes "wf_tracker t" "fst c \<le> now"
  shows "ContainsGroup now a g (tracker_step c t) \<longleftrightarrow> ContainsGroup now a g t \<or> learned (length (tGroups t)) now a g c"
proof (cases "(c, t)" rule: tracker_step.cases)
  case (1 s ip gs ttl)
  then show ?thesis by (auto simp: ContainsGroup_expiry expiry_AddGroups split: option.splits)
next
  case (2 s)
  then show ?thesis using assms by (auto simp: ContainsGroup_expiry expiry_Sweep split: option.splits if_splits)
qed

lemma tracker_history:
  "wf_tracker t \<Longrightarrow> list_all (\<lambda>c. fst c \<le> now) h \<Longrightarrow>
    ContainsGroup now a g (fold tracker_step h t) \<longleftrightarrow> ContainsGroup now a g t \<or> list_ex (learned (length (tGroups t)) now a g) h"
proof (induction h arbitrary: t)
  case (Cons c h)
  have "wf_tracker (tracker_step c t)"
    using Cons.prems(1) by (cases "(c, t)" rule: tracker_step.cases) (auto simp: wf_AddGroups wf_Sweep)
  from Cons.IH [OF this] Cons.prems tracker_step_learned [of t c now a g] show ?case by auto
qed simp

text \<open>C26: The tracker forgets nothing early and remembers nothing late: after any history of learned
  addresses and sweeps up to the time \<open>now\<close>, an address counts as belonging to a domain group exactly
  if some entry of the history learned it (as itself or as its IPv4-mapped form) for that group and
  its life time, clamped to between 10 seconds and 24 hours, has not passed. Sweeps change nothing
  that can be observed.\<close>

theorem tracker_refines:
  assumes "list_all (\<lambda>c. fst c \<le> now) h"
  shows "ContainsGroup now a g (fold tracker_step h (NewTracker groups)) \<longleftrightarrow> list_ex (learned (length groups) now a g) h"
proof -
  have "wf_tracker (NewTracker groups)" "\<not> ContainsGroup now a g (NewTracker groups)"
    by (auto simp: NewTracker_def wf_tracker_def ContainsGroup_def)
  with tracker_history [OF this(1) assms] show ?thesis by (simp add: NewTracker_def)
qed

theorem tracker_refines_witness:
  "ContainsGroup (20 * second) (Addr4 [1, 2, 3, 4]) 0
     (fold tracker_step [(5 * second, TAdd (Addr4 [1, 2, 3, 4]) [0] (60 * second)), (8 * second, TSweep)]
       (NewTracker [\<lparr>gName = ''AI'', gApps = [''*''], gDomains = [''*.example.com''], gNetworks = []\<rparr>]))"
  using tracker_refines [of "20 * second" "[(5 * second, TAdd (Addr4 [1, 2, 3, 4]) [0] (60 * second)), (8 * second, TSweep)]"
      "Addr4 [1, 2, 3, 4]" 0 "[\<lparr>gName = ''AI'', gApps = [''*''], gDomains = [''*.example.com''], gNetworks = []\<rparr>]"]
  by (simp add: second_def adds_def clampTTL_def)

text \<open>The groups of a name: those, other than catch-all groups, with a pattern that matches it.\<close>

lemma NameGroups_mem:
  "g \<in> set (NameGroups name t) \<longleftrightarrow> TrimSuffix (TrimSpace name) ''.'' \<noteq> [] \<and>
     (\<exists>i < length (tGroups t). g = int i \<and> \<not> DomainsAll (tGroups t ! i) \<and> MatchesDomain (tGroups t ! i) (ToLower (TrimSuffix (TrimSpace name) ''.'')))"
  by (auto simp: NameGroups_def Let_def)

lemma NameGroups_range: "g \<in> set (NameGroups name t) \<Longrightarrow> 0 \<le> g \<and> g < int (length (tGroups t))"
  by (auto simp: NameGroups_mem)

text \<open>An address learned for a name counts for every group the name belongs to, until it expires.\<close>

lemma AddForName_learns:
  assumes "AddForName now name ip ttl t = (gs, t')" "IsValid ip" "g \<in> set gs" "later < now + clampTTL ttl"
  shows "ContainsGroup later ip g t'"
  using assms NameGroups_range [of g name t]
  by (auto simp: AddForName_def Let_def ContainsGroup_expiry expiry_AddGroups adds_def split: option.splits)

end
