(* ===== verification/Policy.thy ===== *)
theory Policy
  imports Domain_Tracker Flow_Index
begin

text \<open>
  \<open>internal/policy/policy.go\<close>: which packets take the tunnel. The engine compiles the application
  selectors of the groups once, into a list of the groups for every application and two maps from
  names and paths to group indices; the decisions scan only those candidates. The domain tracker is
  shared with the rest of the program and passed to the decisions, with the time; \<open>None\<close> is \<open>nil\<close>.
  Indexing \<open>cfg.Groups\<close> out of range would panic, hence the type \<open>go\<close> of the results.
\<close>

section \<open>Data and operations\<close>

record Decision =
  dTunnel :: bool
  dReason :: string
  dGroup :: string

definition noDecision :: Decision where
  "noDecision = \<lparr>dTunnel = False, dReason = [], dGroup = []\<rparr>"

record Policy =
  poGroups :: "Group list"
  poInternal :: "string list"
  poGlobal :: "nat list"
  poByName :: "string \<Rightarrow> nat list"
  poByPath :: "string \<Rightarrow> nat list"

definition canonPath :: "string \<Rightarrow> string" where
  "canonPath s = ToLower (ReplaceAll (TrimSpace s) slash backslash)"

definition canonName :: "string \<Rightarrow> string" where
  "canonName s = ToLower (Base (ReplaceAll (TrimSpace s) backslash slash))"

text \<open>A missing key of \<open>byName\<close> or \<open>byPath\<close> reads as the empty slice.\<close>

definition compile_app :: "nat \<Rightarrow> string \<Rightarrow> Policy \<Rightarrow> Policy" where
  "compile_app i app e =
     (if ContainsAny app [backslash, slash] then
        (let k = canonPath app in e\<lparr>poByPath := (poByPath e)(k := poByPath e k @ [i])\<rparr>)
      else (let k = canonName app in e\<lparr>poByName := (poByName e)(k := poByName e k @ [i])\<rparr>))"

definition compile_group :: "nat \<times> Group \<Rightarrow> Policy \<Rightarrow> Policy" where
  "compile_group = (\<lambda>(i, g) e.
     if AppsAll g then e\<lparr>poGlobal := poGlobal e @ [i]\<rparr> else fold (compile_app i) (gApps g) e)"

definition compileApps :: "Policy \<Rightarrow> Policy" where
  "compileApps e =
     (let e = e\<lparr>poByName := (\<lambda>_. []), poByPath := (\<lambda>_. [])\<rparr>
      in fold compile_group (zip [0..<length (poGroups e)] (poGroups e)) e)"

definition NewPolicy :: "Group list \<Rightarrow> Policy" where
  "NewPolicy groups = compileApps \<lparr>poGroups = groups, poInternal = [], poGlobal = [], poByName = (\<lambda>_. []), poByPath = (\<lambda>_. [])\<rparr>"

definition NewWithInternal :: "Group list \<Rightarrow> string list \<Rightarrow> Policy" where
  "NewWithInternal groups internal = (NewPolicy groups)\<lparr>poInternal := internal\<rparr>"

definition candidateSlices :: "Policy \<Rightarrow> Process \<Rightarrow> nat list \<times> nat list \<times> nat list" where
  "candidateSlices e proc = (poGlobal e, poByName e (canonName (prName proc)), poByPath e (canonPath (prPath proc)))"

definition groupDestinationMatches :: "int \<Rightarrow> Tracker option \<Rightarrow> nat \<Rightarrow> Group \<Rightarrow> addr \<Rightarrow> bool" where
  "groupDestinationMatches now tr i g dst =
     (if DomainsAll g then True
      else if list_ex (\<lambda>n. Contains n dst) (gNetworks g) then True
      else (case tr of None \<Rightarrow> False | Some t \<Rightarrow> ContainsGroup now dst (int i) t))"

fun decideIDs :: "int \<Rightarrow> Tracker option \<Rightarrow> Policy \<Rightarrow> nat list \<Rightarrow> addr \<Rightarrow> Decision go" where
  "decideIDs now tr e [] dst = Some noDecision"
| "decideIDs now tr e (i # ids) dst = do {
     g \<leftarrow> idx (poGroups e) i;
     if \<not> groupDestinationMatches now tr i g dst then decideIDs now tr e ids dst
     else Some \<lparr>dTunnel = True, dReason = ''group:'' @ gName g, dGroup = gName g\<rparr>
   }"

definition Decide :: "int \<Rightarrow> Tracker option \<Rightarrow> Policy \<Rightarrow> Process \<Rightarrow> addr \<Rightarrow> Decision go" where
  "Decide now tr e proc dst = (let dst = Unmap dst; (global, names, paths) = candidateSlices e proc in do {
     d \<leftarrow> decideIDs now tr e global dst;
     if dTunnel d then Some d else do {
       d \<leftarrow> decideIDs now tr e names dst;
       if dTunnel d then Some d else decideIDs now tr e paths dst
     }
   })"

fun decideHostIDs :: "Policy \<Rightarrow> nat list \<Rightarrow> string \<Rightarrow> Decision go" where
  "decideHostIDs e [] host = Some noDecision"
| "decideHostIDs e (i # ids) host = do {
     g \<leftarrow> idx (poGroups e) i;
     if DomainsAll g \<or> \<not> MatchesDomain g host then decideHostIDs e ids host
     else Some \<lparr>dTunnel = True, dReason = ''host-group:'' @ gName g, dGroup = gName g\<rparr>
   }"

definition DecideHost :: "Policy \<Rightarrow> Process \<Rightarrow> string \<Rightarrow> Decision go" where
  "DecideHost e proc host = (let (global, names, paths) = candidateSlices e proc in do {
     d \<leftarrow> decideHostIDs e global host;
     if dTunnel d then Some d else do {
       d \<leftarrow> decideHostIDs e names host;
       if dTunnel d then Some d else decideHostIDs e paths host
     }
   })"

definition IsInternal :: "Policy \<Rightarrow> Process \<Rightarrow> bool" where
  "IsInternal e proc = Match proc (poInternal e)"

text \<open>The loops that only ask whether a candidate group has a property.\<close>

fun any_group :: "(nat \<Rightarrow> Group \<Rightarrow> bool) \<Rightarrow> Policy \<Rightarrow> nat list \<Rightarrow> bool go" where
  "any_group P e [] = Some False"
| "any_group P e (i # ids) = do { g \<leftarrow> idx (poGroups e) i; if P i g then Some True else any_group P e ids }"

definition CouldTunnelWithoutProcess :: "int \<Rightarrow> Tracker option \<Rightarrow> Policy \<Rightarrow> addr \<Rightarrow> bool go" where
  "CouldTunnelWithoutProcess now tr e dst = (let dst = Unmap dst in
     any_group (\<lambda>i g. groupDestinationMatches now tr i g dst) e (poGlobal e))"

definition needsTLSIDs :: "Policy \<Rightarrow> nat list \<Rightarrow> bool go" where
  "needsTLSIDs e ids = any_group (\<lambda>i g. \<not> DomainsAll g \<and> gDomains g \<noteq> []) e ids"

text \<open>\<open>a || b\<close> with operands that may panic.\<close>

definition or_go :: "bool go \<Rightarrow> bool go \<Rightarrow> bool go" where
  "or_go a b = do { x \<leftarrow> a; if x then Some True else b }"

definition NeedsTLSDiscovery :: "Policy \<Rightarrow> Process \<Rightarrow> bool go" where
  "NeedsTLSDiscovery e proc = (let (global, names, paths) = candidateSlices e proc in
     or_go (needsTLSIDs e global) (or_go (needsTLSIDs e names) (needsTLSIDs e paths)))"

definition ShouldSuppressQUIC :: "Policy \<Rightarrow> Process \<Rightarrow> bool go" where
  "ShouldSuppressQUIC e proc =
     or_go (any_group (\<lambda>i g. \<not> DomainsAll g \<and> gDomains g \<noteq> []) e (poByName e (canonName (prName proc))))
       (any_group (\<lambda>i g. \<not> DomainsAll g \<and> gDomains g \<noteq> []) e (poByPath e (canonPath (prPath proc))))"

definition domainIPIDs :: "int \<Rightarrow> Tracker option \<Rightarrow> Policy \<Rightarrow> nat list \<Rightarrow> addr \<Rightarrow> bool go" where
  "domainIPIDs now tr e ids dst =
     any_group (\<lambda>i g. \<not> DomainsAll g \<and> (case tr of None \<Rightarrow> False | Some t \<Rightarrow> ContainsGroup now dst (int i) t)) e ids"

definition IsDomainIPForProcess :: "int \<Rightarrow> Tracker option \<Rightarrow> Policy \<Rightarrow> Process \<Rightarrow> addr \<Rightarrow> bool go" where
  "IsDomainIPForProcess now tr e proc dst = (let dst = Unmap dst; (global, names, paths) = candidateSlices e proc in
     or_go (domainIPIDs now tr e global dst) (or_go (domainIPIDs now tr e names dst) (domainIPIDs now tr e paths dst)))"

section \<open>The compiled selectors\<close>

text \<open>Reference: a group selects a process if it is for all applications, or one of its selectors is
  the process's path (a selector with a slash) or its name (one without).\<close>

definition selects_name :: "Group \<Rightarrow> string \<Rightarrow> bool" where
  "selects_name g k \<longleftrightarrow> \<not> AppsAll g \<and> list_ex (\<lambda>a. \<not> ContainsAny a [backslash, slash] \<and> canonName a = k) (gApps g)"

definition selects_path :: "Group \<Rightarrow> string \<Rightarrow> bool" where
  "selects_path g k \<longleftrightarrow> \<not> AppsAll g \<and> list_ex (\<lambda>a. ContainsAny a [backslash, slash] \<and> canonPath a = k) (gApps g)"

definition selects :: "Group \<Rightarrow> Process \<Rightarrow> bool" where
  "selects g proc \<longleftrightarrow> AppsAll g \<or> selects_name g (canonName (prName proc)) \<or> selects_path g (canonPath (prPath proc))"

lemma compile_app_sets:
  "poGroups (fold (compile_app i) apps e) = poGroups e" "poGlobal (fold (compile_app i) apps e) = poGlobal e"
  "poInternal (fold (compile_app i) apps e) = poInternal e"
  "set (poByName (fold (compile_app i) apps e) k) =
     set (poByName e k) \<union> (if list_ex (\<lambda>a. \<not> ContainsAny a [backslash, slash] \<and> canonName a = k) apps then {i} else {})"
  "set (poByPath (fold (compile_app i) apps e) k) =
     set (poByPath e k) \<union> (if list_ex (\<lambda>a. ContainsAny a [backslash, slash] \<and> canonPath a = k) apps then {i} else {})"
  by (induction apps arbitrary: e) (auto simp: compile_app_def Let_def)

lemma compile_groups_sets:
  "poGroups (fold compile_group igs e) = poGroups e \<and> poInternal (fold compile_group igs e) = poInternal e \<and>
   set (poGlobal (fold compile_group igs e)) = set (poGlobal e) \<union> {i. \<exists>g. (i, g) \<in> set igs \<and> AppsAll g} \<and>
   set (poByName (fold compile_group igs e) k) = set (poByName e k) \<union> {i. \<exists>g. (i, g) \<in> set igs \<and> selects_name g k} \<and>
   set (poByPath (fold compile_group igs e) l) = set (poByPath e l) \<union> {i. \<exists>g. (i, g) \<in> set igs \<and> selects_path g l}"
proof (induction igs arbitrary: e)
  case (Cons x igs)
  obtain i g where x: "x = (i, g)" by fastforce
  have "poGroups (compile_group x e) = poGroups e" "poInternal (compile_group x e) = poInternal e"
    "set (poGlobal (compile_group x e)) = set (poGlobal e) \<union> (if AppsAll g then {i} else {})"
    "set (poByName (compile_group x e) k) = set (poByName e k) \<union> (if selects_name g k then {i} else {})"
    "set (poByPath (compile_group x e) l) = set (poByPath e l) \<union> (if selects_path g l then {i} else {})"
    by (auto simp: x compile_group_def compile_app_sets selects_name_def selects_path_def)
  then show ?case using Cons.IH [of "compile_group x e"] by (auto simp: x)
qed simp

lemma in_zip_index: "(i, g) \<in> set (zip [0..<length gs] gs) \<longleftrightarrow> i < length gs \<and> g = gs ! i"
  by (auto simp: in_set_zip intro!: exI [of _ i])

lemma NewWithInternal_sets:
  "poGroups (NewWithInternal groups internal) = groups" "poInternal (NewWithInternal groups internal) = internal"
  "set (poGlobal (NewWithInternal groups internal)) = {i. i < length groups \<and> AppsAll (groups ! i)}"
  "set (poByName (NewWithInternal groups internal) k) = {i. i < length groups \<and> selects_name (groups ! i) k}"
  "set (poByPath (NewWithInternal groups internal) l) = {i. i < length groups \<and> selects_path (groups ! i) l}"
  using compile_groups_sets [of "zip [0..<length groups] groups"
      "\<lparr>poGroups = groups, poInternal = [], poGlobal = [], poByName = (\<lambda>_. []), poByPath = (\<lambda>_. [])\<rparr>" k l]
  by (auto simp: NewWithInternal_def NewPolicy_def compileApps_def Let_def in_zip_index)

section \<open>Correctness of the decisions\<close>

lemma any_group_correct:
  assumes "\<forall>i \<in> set ids. i < length (poGroups e)"
  shows "any_group P e ids = Some (\<exists>i \<in> set ids. P i (poGroups e ! i))"
  using assms by (induction ids) auto

text \<open>A scan over the candidates \<open>A\<close> decides by \<open>Q\<close>, and names a group of which \<open>Q\<close> holds.\<close>

definition scan_ok :: "Decision go \<Rightarrow> nat set \<Rightarrow> (nat \<Rightarrow> bool) \<Rightarrow> (nat \<Rightarrow> string) \<Rightarrow> bool" where
  "scan_ok r A Q f \<longleftrightarrow> (\<exists>d. r = Some d \<and> (dTunnel d \<longleftrightarrow> (\<exists>i \<in> A. Q i)) \<and>
     (if dTunnel d then \<exists>i \<in> A. Q i \<and> dGroup d = f i else d = noDecision))"

lemma decideIDs_scan:
  assumes "\<forall>i \<in> set ids. i < length gs" "poGroups e = gs"
  shows "scan_ok (decideIDs now tr e ids dst) (set ids) (\<lambda>i. groupDestinationMatches now tr i (gs ! i) dst) (\<lambda>i. gName (gs ! i))"
  using assms by (induction ids) (auto simp: noDecision_def scan_ok_def)

lemma decideHostIDs_scan:
  assumes "\<forall>i \<in> set ids. i < length gs" "poGroups e = gs"
  shows "scan_ok (decideHostIDs e ids host) (set ids) (\<lambda>i. \<not> DomainsAll (gs ! i) \<and> MatchesDomain (gs ! i) host) (\<lambda>i. gName (gs ! i))"
  using assms by (induction ids) (auto simp: noDecision_def scan_ok_def)

lemma three_scans:
  assumes "scan_ok a A Q f" "scan_ok b B Q f" "scan_ok c C Q f"
  shows "scan_ok (a \<bind> (\<lambda>d. if dTunnel d then Some d else b \<bind> (\<lambda>d. if dTunnel d then Some d else c))) (A \<union> B \<union> C) Q f"
  using assms by (auto simp: scan_ok_def split: if_splits)

abbreviation candidates :: "Policy \<Rightarrow> Process \<Rightarrow> nat set" where
  "candidates e proc \<equiv> set (poGlobal e) \<union> set (poByName e (canonName (prName proc))) \<union> set (poByPath e (canonPath (prPath proc)))"

lemma candidates_iff:
  "i \<in> candidates (NewWithInternal groups internal) proc \<longleftrightarrow> i < length groups \<and> selects (groups ! i) proc"
  by (auto simp: NewWithInternal_sets selects_def)

lemma Decide_scan:
  "scan_ok (Decide now tr (NewWithInternal groups internal) proc dst) (candidates (NewWithInternal groups internal) proc)
     (\<lambda>i. groupDestinationMatches now tr i (groups ! i) (Unmap dst)) (\<lambda>i. gName (groups ! i))"
  unfolding Decide_def candidateSlices_def Let_def prod.case
  by (intro three_scans decideIDs_scan) (auto simp: NewWithInternal_sets)

lemma DecideHost_scan:
  "scan_ok (DecideHost (NewWithInternal groups internal) proc host) (candidates (NewWithInternal groups internal) proc)
     (\<lambda>i. \<not> DomainsAll (groups ! i) \<and> MatchesDomain (groups ! i) host) (\<lambda>i. gName (groups ! i))"
  unfolding DecideHost_def candidateSlices_def Let_def prod.case
  by (intro three_scans decideHostIDs_scan) (auto simp: NewWithInternal_sets)

lemma scan_selected:
  "scan_ok r (candidates (NewWithInternal groups internal) proc) Q f \<Longrightarrow>
    \<exists>d. r = Some d \<and> (dTunnel d \<longleftrightarrow> (\<exists>i < length groups. selects (groups ! i) proc \<and> Q i)) \<and>
     (if dTunnel d then \<exists>i < length groups. selects (groups ! i) proc \<and> Q i \<and> dGroup d = f i else d = noDecision)"
  unfolding scan_ok_def Bex_def candidates_iff by (simp only: conj_assoc)

text \<open>C22: The compiled policy decides as the groups say. For every process and destination the decision
  does not panic, and it is to tunnel exactly if some group selects the process and matches the
  destination (all destinations, one of its networks, or an address learned for its domains); the
  group it names is such a group. A packet no group asks for is never tunneled.\<close>

theorem Decide_correct:
  "\<exists>d. Decide now tr (NewWithInternal groups internal) proc dst = Some d \<and>
     (dTunnel d \<longleftrightarrow> (\<exists>i < length groups. selects (groups ! i) proc \<and> groupDestinationMatches now tr i (groups ! i) (Unmap dst))) \<and>
     (if dTunnel d then \<exists>i < length groups. selects (groups ! i) proc \<and>
          groupDestinationMatches now tr i (groups ! i) (Unmap dst) \<and> dGroup d = gName (groups ! i)
      else d = noDecision)"
  using scan_selected [OF Decide_scan] .

text \<open>The decision by host name, made by the proxy and by TLS discovery: to tunnel exactly if some
  group that selects the process is not a catch-all group and has a pattern that matches the host.\<close>

theorem DecideHost_correct:
  "\<exists>d. DecideHost (NewWithInternal groups internal) proc host = Some d \<and>
     (dTunnel d \<longleftrightarrow> (\<exists>i < length groups. selects (groups ! i) proc \<and> \<not> DomainsAll (groups ! i) \<and> MatchesDomain (groups ! i) host))"
  using scan_selected [OF DecideHost_scan] by blast

text \<open>The short cuts of the packet path are sound. A destination for which
  \<open>CouldTunnelWithoutProcess\<close> answers true is tunneled for every process, so its owner need not be
  known; QUIC is suppressed only for processes that need TLS discovery, and TLS discovery is needed
  exactly for the processes of a group restricted to domains, the only ones whose decision a learned
  address can change.\<close>

theorem policy_shortcuts:
  "\<exists>could needs quic. CouldTunnelWithoutProcess now tr (NewWithInternal groups internal) dst = Some could \<and>
     NeedsTLSDiscovery (NewWithInternal groups internal) proc = Some needs \<and>
     ShouldSuppressQUIC (NewWithInternal groups internal) proc = Some quic \<and>
     (could \<longrightarrow> (\<forall>p. map_option dTunnel (Decide now tr (NewWithInternal groups internal) p dst) = Some True)) \<and>
     (quic \<longrightarrow> needs) \<and>
     (needs \<longleftrightarrow> (\<exists>g \<in> set groups. selects g proc \<and> \<not> DomainsAll g \<and> gDomains g \<noteq> []))"
proof -
  let ?e = "NewWithInternal groups internal"
  let ?P = "\<lambda>i g. \<not> DomainsAll g \<and> gDomains g \<noteq> []"
  let ?n = "canonName (prName proc)" and ?p = "canonPath (prPath proc)"
  have any: "any_group P ?e ids = Some (\<exists>i \<in> set ids. P i (groups ! i))" if "\<forall>i \<in> set ids. i < length groups" for P ids
    using any_group_correct [of ids ?e P] that by (simp add: NewWithInternal_sets)
  have r: "\<forall>i \<in> set (poGlobal ?e). i < length groups" "\<forall>i \<in> set (poByName ?e ?n). i < length groups"
    "\<forall>i \<in> set (poByPath ?e ?p). i < length groups" by (auto simp: NewWithInternal_sets)
  have could: "CouldTunnelWithoutProcess now tr ?e dst = Some (\<exists>i \<in> set (poGlobal ?e). groupDestinationMatches now tr i (groups ! i) (Unmap dst))"
    by (simp add: CouldTunnelWithoutProcess_def Let_def any [OF r(1)])
  have quic: "ShouldSuppressQUIC ?e proc = Some ((\<exists>i \<in> set (poByName ?e ?n). ?P i (groups ! i)) \<or> (\<exists>i \<in> set (poByPath ?e ?p). ?P i (groups ! i)))"
    unfolding ShouldSuppressQUIC_def any [OF r(2)] any [OF r(3)] by (auto simp: or_go_def)
  have needs: "NeedsTLSDiscovery ?e proc = Some ((\<exists>i \<in> set (poGlobal ?e). ?P i (groups ! i)) \<or> (\<exists>i \<in> set (poByName ?e ?n). ?P i (groups ! i)) \<or> (\<exists>i \<in> set (poByPath ?e ?p). ?P i (groups ! i)))"
    unfolding NeedsTLSDiscovery_def candidateSlices_def Let_def prod.case needsTLSIDs_def any [OF r(1)] any [OF r(2)] any [OF r(3)]
    by (auto simp: or_go_def)
  have d: "map_option dTunnel (Decide now tr ?e p dst) = Some True"
    if i: "i \<in> set (poGlobal ?e)" "groupDestinationMatches now tr i (groups ! i) (Unmap dst)" for p i
  proof -
    have "i < length groups" "selects (groups ! i) p" using i(1) by (auto simp: NewWithInternal_sets selects_def)
    with i(2) scan_selected [OF Decide_scan, of now tr groups internal p dst] show ?thesis by auto
  qed
  have "(\<exists>i \<in> set (poGlobal ?e). ?P i (groups ! i)) \<or> (\<exists>i \<in> set (poByName ?e ?n). ?P i (groups ! i)) \<or> (\<exists>i \<in> set (poByPath ?e ?p). ?P i (groups ! i))
    \<longleftrightarrow> (\<exists>i \<in> candidates ?e proc. ?P i (groups ! i))" by blast
  also have "\<dots> \<longleftrightarrow> (\<exists>i < length groups. selects (groups ! i) proc \<and> ?P i (groups ! i))"
    unfolding Bex_def candidates_iff by blast
  also have "\<dots> \<longleftrightarrow> (\<exists>g \<in> set groups. selects g proc \<and> \<not> DomainsAll g \<and> gDomains g \<noteq> [])"
    unfolding Bex_def in_set_conv_nth by blast
  finally have n: "(\<exists>i \<in> set (poGlobal ?e). ?P i (groups ! i)) \<or> (\<exists>i \<in> set (poByName ?e ?n). ?P i (groups ! i)) \<or> (\<exists>i \<in> set (poByPath ?e ?p). ?P i (groups ! i))
    \<longleftrightarrow> (\<exists>g \<in> set groups. selects g proc \<and> \<not> DomainsAll g \<and> gDomains g \<noteq> [])" .
  show ?thesis unfolding could quic needs n [symmetric] using d by blast
qed

theorem policy_shortcuts_witness:
  "CouldTunnelWithoutProcess 0 None (NewWithInternal [\<lparr>gName = ''all'', gApps = [''*''], gDomains = [''*''], gNetworks = []\<rparr>] []) (Addr4 [1, 2, 3, 4]) = Some True \<and>
   map_option dTunnel (Decide 0 None (NewWithInternal [\<lparr>gName = ''all'', gApps = [''*''], gDomains = [''*''], gNetworks = []\<rparr>] [])
     \<lparr>prPID = 4, prName = ''a.exe'', prPath = []\<rparr> (Addr4 [1, 2, 3, 4])) = Some True"
proof -
  let ?e = "NewWithInternal [\<lparr>gName = ''all'', gApps = [''*''], gDomains = [''*''], gNetworks = []\<rparr>] []"
  have "CouldTunnelWithoutProcess 0 None ?e (Addr4 [1, 2, 3, 4]) = Some True"
    by (simp add: CouldTunnelWithoutProcess_def NewWithInternal_def NewPolicy_def compileApps_def compile_group_def AppsAll_def
        groupDestinationMatches_def DomainsAll_def)
  with policy_shortcuts [of 0 None "[\<lparr>gName = ''all'', gApps = [''*''], gDomains = [''*''], gNetworks = []\<rparr>]" "[]" "Addr4 [1, 2, 3, 4]"
      "\<lparr>prPID = 4, prName = ''a.exe'', prPath = []\<rparr>"]
  show ?thesis by auto
qed

end
