(* ===== verification/Dns.thy ===== *)
theory Dns
  imports Domain_Tracker
begin

unbundle bit_operations_syntax

text \<open>
  \<open>internal/domain/dns.go\<close>: the parser of DNS responses that the engine sees on the wire. Slices out
  of range would panic, hence \<open>go\<close>; a rejected message is \<open>Inl\<close>.
\<close>

section \<open>Names\<close>

datatype derr = DShort | DNotResponse | DLoop | DNameOverflow | DBadPointer | DBadLabel | DShortQuestion | DShortAnswer | DShortRdata

text \<open>
  The loop of \<open>readName\<close>: \<open>out\<close> is the text so far, \<open>off\<close> the position. The loop ends at its first
  compression pointer, so the variable \<open>jumped\<close> of the code is false wherever it is tested and
  \<open>next\<close> is the position after what was read. The recursive call for a pointer includes the depth
  test at the start of \<open>readName\<close>.
\<close>

function name_loop :: "bytes \<Rightarrow> nat \<Rightarrow> string \<Rightarrow> nat \<Rightarrow> derr + string \<times> nat" where
  "name_loop msg depth out off =
     (if length msg \<le> off then Inl DNameOverflow
      else
        let l = msg ! off in
        if l = 0 then Inr (out, off + 1)
        else if l AND 0xc0 = 0xc0 then
          (if length msg \<le> off + 1 then Inl DBadPointer
           else if 16 < depth + 1 then Inl DLoop
           else
             let ptr = unat (l AND 0x3f) * 256 + unat (msg ! (off + 1)) in
             case name_loop msg (depth + 1) [] ptr of
               Inl e \<Rightarrow> Inl e
             | Inr (suffix, _) \<Rightarrow>
                 Inr ((if out \<noteq> [] \<and> suffix \<noteq> [] then out @ ''.'' else out) @ suffix, off + 2))
        else
          let n = unat l; off = off + 1 in
          if 63 < n \<or> length msg < off + n then Inl DBadLabel
          else name_loop msg depth ((if out \<noteq> [] then out @ ''.'' else out) @ map byte_char (take n (drop off msg))) (off + n))"
  by pat_completeness auto
termination
  by (relation "measures [\<lambda>(msg, depth, out, off). 17 - depth, \<lambda>(msg, depth, out, off). length msg - off]") auto

declare name_loop.simps [simp del]

definition readName :: "bytes \<Rightarrow> nat \<Rightarrow> nat \<Rightarrow> derr + string \<times> nat" where
  "readName msg off depth = (if 16 < depth then Inl DLoop else name_loop msg depth [] off)"

section \<open>Messages\<close>

record DNSResult =
  dnsNames :: "string list"
  dnsIPs :: "addr list"
  dnsTTL :: int

record answer =
  anName :: string
  anType :: u16
  anTTL :: u32
  anOff :: nat
  anLen :: nat

text \<open>The questions: the position after them, their names, and whether one matches.\<close>

fun parse_questions :: "bytes \<Rightarrow> (string \<Rightarrow> bool) \<Rightarrow> nat \<Rightarrow> nat \<Rightarrow> string list \<Rightarrow> bool \<Rightarrow> derr + nat \<times> string list \<times> bool" where
  "parse_questions msg match 0 off names matched = Inr (off, names, matched)"
| "parse_questions msg match (Suc n) off names matched =
     (case readName msg off 0 of
        Inl e \<Rightarrow> Inl e
      | Inr (name, off) \<Rightarrow>
          if length msg < off + 4 then Inl DShortQuestion
          else parse_questions msg match n (off + 4) (names @ [name]) (if match name then True else matched))"

text \<open>The answers: also the alias names of CNAME records.\<close>

fun parse_answers :: "bytes \<Rightarrow> (string \<Rightarrow> bool) \<Rightarrow> nat \<Rightarrow> nat \<Rightarrow> string list \<Rightarrow> bool \<Rightarrow> answer list \<Rightarrow>
    (derr + string list \<times> bool \<times> answer list) go" where
  "parse_answers msg match 0 off names matched answers = Some (Inr (names, matched, answers))"
| "parse_answers msg match (Suc n) off names matched answers =
     (case readName msg off 0 of
        Inl e \<Rightarrow> Some (Inl e)
      | Inr (name, off) \<Rightarrow>
          if length msg < off + 10 then Some (Inl DShortAnswer)
          else do {
            typ \<leftarrow> be16_at msg off;
            ttl \<leftarrow> be32_at msg (off + 4);
            rd \<leftarrow> be16_at msg (off + 8);
            let ro = off + 10;
            let rd = unat rd;
            if length msg < ro + rd then Some (Inl DShortRdata)
            else
              let answers = answers @ [\<lparr>anName = name, anType = typ, anTTL = ttl, anOff = ro, anLen = rd\<rparr>];
                  matched = (if match name then True else matched);
                  (names, matched) = (if typ = 5 then
                    (case readName msg ro 0 of
                       Inl _ \<Rightarrow> (names, matched)
                     | Inr (cn, _) \<Rightarrow> (names @ [cn], if match cn then True else matched))
                    else (names, matched))
              in parse_answers msg match n (ro + rd) names matched answers
          })"

text \<open>The addresses of the answers and the least of their life times.\<close>

fun collect_ips :: "bytes \<Rightarrow> answer list \<Rightarrow> addr list \<Rightarrow> u32 \<Rightarrow> (addr list \<times> u32) go" where
  "collect_ips msg [] ips minTTL = Some (ips, minTTL)"
| "collect_ips msg (a # as) ips minTTL =
     (if anType a = 1 \<and> anLen a = 4 then do {
        v \<leftarrow> slice msg (anOff a) (anOff a + 4);
        collect_ips msg as (ips @ [Addr4 v]) (if anTTL a < minTTL then anTTL a else minTTL)
      }
      else if anType a = 28 \<and> anLen a = 16 then do {
        v \<leftarrow> slice msg (anOff a) (anOff a + 16);
        collect_ips msg as (ips @ [Addr6 v]) (if anTTL a < minTTL then anTTL a else minTTL)
      }
      else collect_ips msg as ips minTTL)"

definition ParseDNSResponse :: "bytes \<Rightarrow> (string \<Rightarrow> bool) \<Rightarrow> (derr + DNSResult) go" where
  "ParseDNSResponse msg match =
     (if length msg < 12 then Some (Inl DShort)
      else do {
        flags \<leftarrow> be16_at msg 2;
        if flags AND 0x8000 = 0 then Some (Inl DNotResponse)
        else do {
          qd \<leftarrow> be16_at msg 4;
          an \<leftarrow> be16_at msg 6;
          (case parse_questions msg match (unat qd) 12 [] False of
             Inl e \<Rightarrow> Some (Inl e)
           | Inr (off, names, matched) \<Rightarrow> do {
               r \<leftarrow> parse_answers msg match (unat an) off names matched [];
               (case r of
                  Inl e \<Rightarrow> Some (Inl e)
                | Inr (names, matched, answers) \<Rightarrow>
                    if \<not> matched then Some (Inr \<lparr>dnsNames = names, dnsIPs = [], dnsTTL = 5 * 60 * second\<rparr>)
                    else do {
                      (ips, minTTL) \<leftarrow> collect_ips msg answers [] 86400;
                      Some (Inr \<lparr>dnsNames = names, dnsIPs = ips,
                        dnsTTL = (if minTTL \<noteq> 86400 then uint minTTL * second else 5 * 60 * second)\<rparr>)
                    })
             })
        }
      })"

section \<open>Safety\<close>

definition answer_ok :: "bytes \<Rightarrow> answer \<Rightarrow> bool" where
  "answer_ok msg a \<longleftrightarrow> anOff a + anLen a \<le> length msg"

lemma parse_answers_safe:
  "list_all (answer_ok msg) answers \<Longrightarrow>
    \<exists>r. parse_answers msg match n off names matched answers = Some r \<and>
      (case r of Inl _ \<Rightarrow> True | Inr (_, _, as) \<Rightarrow> list_all (answer_ok msg) as)"
proof (induction n arbitrary: off names matched answers)
  case (Suc n)
  show ?case
  proof (cases "readName msg off 0")
    case (Inr p)
    obtain name o' where p: "p = (name, o')" by fastforce
    show ?thesis
    proof (cases "length msg < o' + 10")
      case False
      then show ?thesis using Suc.prems Inr p
        by (auto simp: Let_def answer_ok_def split: prod.splits intro!: Suc.IH)
    qed (use Inr p in simp)
  qed simp
qed simp

lemma collect_ips_safe:
  "list_all (answer_ok msg) as \<Longrightarrow> list_all (\<lambda>a. wf_addr a \<and> IsValid a) ips \<Longrightarrow>
    \<exists>ips' m. collect_ips msg as ips ttl = Some (ips', m) \<and> list_all (\<lambda>a. wf_addr a \<and> IsValid a) ips' \<and> m \<le> ttl"
proof (induction as arbitrary: ips ttl)
  case (Cons a as)
  have le: "(if anTTL a < ttl then anTTL a else ttl) \<le> ttl" by auto
  consider "anType a = 1 \<and> anLen a = 4" | "anType a \<noteq> 1 \<or> anLen a \<noteq> 4" "anType a = 28 \<and> anLen a = 16"
    | "anType a \<noteq> 1 \<or> anLen a \<noteq> 4" "anType a \<noteq> 28 \<or> anLen a \<noteq> 16" by blast
  then show ?case
  proof cases
    case 1
    then have "list_all (\<lambda>a. wf_addr a \<and> IsValid a) (ips @ [Addr4 (take 4 (drop (anOff a) msg))])"
      using Cons.prems by (auto simp: answer_ok_def)
    from Cons.IH [OF _ this, of "if anTTL a < ttl then anTTL a else ttl"] Cons.prems obtain ips' m where
      m: "collect_ips msg as (ips @ [Addr4 (take 4 (drop (anOff a) msg))]) (if anTTL a < ttl then anTTL a else ttl) = Some (ips', m)"
      "list_all (\<lambda>a. wf_addr a \<and> IsValid a) ips'" "m \<le> (if anTTL a < ttl then anTTL a else ttl)" by auto
    then show ?thesis using 1 Cons.prems order.trans [OF m(3) le] by (simp add: answer_ok_def)
  next
    case 2
    then have "list_all (\<lambda>a. wf_addr a \<and> IsValid a) (ips @ [Addr6 (take 16 (drop (anOff a) msg))])"
      using Cons.prems by (auto simp: answer_ok_def)
    from Cons.IH [OF _ this, of "if anTTL a < ttl then anTTL a else ttl"] Cons.prems obtain ips' m where
      m: "collect_ips msg as (ips @ [Addr6 (take 16 (drop (anOff a) msg))]) (if anTTL a < ttl then anTTL a else ttl) = Some (ips', m)"
      "list_all (\<lambda>a. wf_addr a \<and> IsValid a) ips'" "m \<le> (if anTTL a < ttl then anTTL a else ttl)" by auto
    then show ?thesis using 2 Cons.prems order.trans [OF m(3) le] by (simp add: answer_ok_def)
  next
    case 3
    then show ?thesis using Cons by auto
  qed
qed simp

lemma ParseDNSResponse_ne_None: "ParseDNSResponse msg match \<noteq> None"
proof (cases "length msg < 12")
  case False
  have A: "\<exists>y. parse_answers msg match n off names matched [] \<bind> g = Some y"
    if "\<And>names matched as. list_all (answer_ok msg) as \<Longrightarrow> g (Inr (names, matched, as)) \<noteq> None" "\<And>e. g (Inl e) \<noteq> None"
    for n off names matched g
    using parse_answers_safe [of msg "[]" match n off names matched] that by (fastforce split: sum.splits)
  have B: "\<exists>y. collect_ips msg as [] 86400 \<bind> h = Some y" if "list_all (answer_ok msg) as" "\<And>ips m. h (ips, m) \<noteq> None" for as h
    using collect_ips_safe [of msg as "[]" 86400] that by auto
  show ?thesis using False
    by (auto simp: ParseDNSResponse_def not_less split: sum.split intro!: A B)
qed (simp add: ParseDNSResponse_def)


section \<open>Round trip\<close>

text \<open>A response to one question, with A records whose names are pointers to the question's name, as
  DNS servers write them.\<close>

definition label_bytes :: "bytes list \<Rightarrow> bytes" where
  "label_bytes ls = concat (map (\<lambda>l. word_of_nat (length l) # l) ls) @ [0]"

definition a_record :: "u32 \<times> bytes \<Rightarrow> bytes" where
  "a_record = (\<lambda>(ttl, ip). [0xc0, 0x0c] @ u16be 1 @ u16be 1 @ u32be ttl @ u16be 4 @ ip)"

definition dns_message :: "bytes \<Rightarrow> bytes list \<Rightarrow> (u32 \<times> bytes) list \<Rightarrow> bytes" where
  "dns_message qid ls rs = qid @ u16be 0x8180 @ u16be 1 @ u16be (word_of_nat (length rs)) @ u16be 0 @ u16be 0 @
     label_bytes ls @ u16be 1 @ u16be 1 @ concat (map a_record rs)"

fun dotted :: "string \<Rightarrow> bytes list \<Rightarrow> string" where
  "dotted out [] = out"
| "dotted out (l # ls) = dotted ((if out \<noteq> [] then out @ ''.'' else out) @ map byte_char l) ls"

lemma label_byte:
  assumes "0 < n" "n \<le> 63"
  shows "(word_of_nat n :: byte) \<noteq> 0" "(word_of_nat n :: byte) AND 0xc0 \<noteq> 0xc0" "unat (word_of_nat n :: byte) = n"
proof -
  show u: "unat (word_of_nat n :: byte) = n" using assms by (simp add: unsigned_of_nat take_bit_nat_eq_self)
  then show "(word_of_nat n :: byte) \<noteq> 0" using assms by auto
  show "(word_of_nat n :: byte) AND 0xc0 \<noteq> 0xc0"
  proof
    assume "(word_of_nat n :: byte) AND 0xc0 = 0xc0"
    then have "(0xc0 :: byte) \<le> word_of_nat n" by (metis word_and_le2)
    with u assms(2) show False by (simp add: word_le_nat_alt)
  qed
qed

lemma name_loop_labels:
  assumes "drop off msg = label_bytes ls @ rest" "\<forall>l \<in> set ls. 0 < length l \<and> length l \<le> 63"
  shows "name_loop msg depth out off = Inr (dotted out ls, off + length (label_bytes ls))"
  using assms
proof (induction ls arbitrary: out off)
  case Nil
  then have "drop off msg = 0 # rest" by (simp add: label_bytes_def)
  then have "off < length msg" "msg ! off = 0" by (metis drop_all list.distinct(1) not_le, metis nth_via_drop)
  then show ?case by (subst name_loop.simps) (simp add: label_bytes_def)
next
  case (Cons l ls)
  let ?n = "word_of_nat (length l) :: byte"
  have d: "drop off msg = ?n # l @ label_bytes ls @ rest" using Cons.prems(1) by (simp add: label_bytes_def)
  then have off: "off < length msg" "msg ! off = ?n" by (metis drop_all list.distinct(1) not_le, metis nth_via_drop)
  have "length (drop off msg) = 1 + length l + length (label_bytes ls @ rest)" by (simp add: d)
  then have len: "off + 1 + length l \<le> length msg" using off by simp
  have s: "drop (Suc off) msg = l @ label_bytes ls @ rest" using d by (metis drop_Suc list.sel(3) tl_drop)
  then have "drop (off + 1 + length l) msg = label_bytes ls @ rest"
    by (metis add.commute add_Suc_right append_eq_conv_conj drop_drop plus_1_eq_Suc)
  from Cons.IH [OF this] Cons.prems(2)
  have IH: "name_loop msg depth out (off + 1 + length l) = Inr (dotted out ls, off + 1 + length l + length (label_bytes ls))" for out by simp
  have l: "0 < length l" "length l \<le> 63" using Cons.prems(2) by auto
  show ?case using off len s IH label_byte [OF l] l
    by (subst name_loop.simps) (simp add: Let_def label_bytes_def)
qed

fun answers_at :: "string \<Rightarrow> nat \<Rightarrow> (u32 \<times> bytes) list \<Rightarrow> answer list" where
  "answers_at name off [] = []"
| "answers_at name off ((ttl, ip) # rs) =
     \<lparr>anName = name, anType = 1, anTTL = ttl, anOff = off + 12, anLen = 4\<rparr> # answers_at name (off + 16) rs"

lemma length_a_record: "length ip = 4 \<Longrightarrow> length (a_record (ttl, ip)) = 16"
  by (simp add: a_record_def)

lemma readName_pointer:
  assumes "drop 12 msg = label_bytes ls @ rest" "\<forall>l \<in> set ls. 0 < length l \<and> length l \<le> 63"
    and "drop off msg = [0xc0, 0x0c] @ rest'"
  shows "readName msg off 0 = Inr (dotted [] ls, off + 2)"
proof -
  have o: "off < length msg" "msg ! off = 0xc0" "off + 1 < length msg" "msg ! (off + 1) = 0x0c"
    using nth_of_drop [OF assms(3), of 0] nth_of_drop [OF assms(3), of 1] by simp_all
  have "name_loop msg 1 [] 12 = Inr (dotted [] ls, 12 + length (label_bytes ls))"
    by (rule name_loop_labels [OF assms(1,2)])
  with o show ?thesis unfolding readName_def by (subst name_loop.simps) (simp add: Let_def)
qed

lemma parse_answers_records:
  assumes "drop 12 msg = label_bytes ls @ rest" "\<forall>l \<in> set ls. 0 < length l \<and> length l \<le> 63"
    and "drop off msg = concat (map a_record rs)" "\<forall>r \<in> set rs. length (snd r) = 4"
  shows "parse_answers msg match (length rs) off names True as = Some (Inr (names, True, as @ answers_at (dotted [] ls) off rs))"
  using assms(3,4)
proof (induction rs arbitrary: off as)
  case (Cons r rs)
  obtain ttl ip where r: "r = (ttl, ip)" by fastforce
  have ip: "length ip = 4" using Cons.prems r by simp
  have d: "drop off msg = a_record r @ concat (map a_record rs)" using Cons.prems by simp
  have n: "readName msg off 0 = Inr (dotted [] ls, off + 2)"
    using readName_pointer [OF assms(1,2), of off] d r by (simp add: a_record_def)
  have len: "off + 16 \<le> length msg" using nth_of_drop [OF d, of 15] ip r by (simp add: length_a_record)
  have dk: "drop (off + k) msg = drop k (a_record (ttl, ip) @ concat (map a_record rs))" for k
    by (metis d r add.commute drop_drop)
  have dk2: "drop (off + 2 + k) msg = drop (2 + k) (a_record (ttl, ip) @ concat (map a_record rs))" for k
    by (metis dk add.assoc)
  have v: "be16_at msg (off + 2) = Some 1" "be32_at msg (off + 2 + 4) = Some ttl" "be16_at msg (off + 2 + 8) = Some 4"
    by (rule be16_of_drop, subst dk, simp add: a_record_def)
      (rule be32_of_drop, subst dk2, simp add: a_record_def, rule be16_of_drop, subst dk2, simp add: a_record_def)
  have "drop (off + 16) msg = concat (map a_record rs)"
    using d length_a_record [OF ip, of ttl] r by (metis add.commute append_eq_conv_conj drop_drop)
  from Cons.IH [OF this] Cons.prems(2)
  have IH: "parse_answers msg match (length rs) (off + 16) names True bs = Some (Inr (names, True, bs @ answers_at (dotted [] ls) (off + 16) rs))" for bs by simp
  show ?case unfolding list.size(4) add_0_right add_Suc_right parse_answers.simps n sum.case prod.case v Option.bind.simps Let_def
    using len IH by (simp add: r add.commute [of off])
qed simp

lemma collect_records:
  assumes "drop off msg = concat (map a_record rs)" "\<forall>r \<in> set rs. length (snd r) = 4"
  shows "collect_ips msg (answers_at name off rs) ips m = Some (ips @ map (\<lambda>r. Addr4 (snd r)) rs, fold (\<lambda>r. min (fst r)) rs m)"
  using assms
proof (induction rs arbitrary: off ips m)
  case (Cons r rs)
  obtain ttl ip where r: "r = (ttl, ip)" by fastforce
  have ip: "length ip = 4" using Cons.prems r by simp
  have d: "drop off msg = a_record r @ concat (map a_record rs)" using Cons.prems by simp
  have len: "off + 16 \<le> length msg" using nth_of_drop [OF d, of 15] ip r by (simp add: length_a_record)
  have "drop (off + 16) msg = concat (map a_record rs)"
    using d length_a_record [OF ip, of ttl] r by (metis add.commute append_eq_conv_conj drop_drop)
  note IH = Cons.IH [OF this]
  have "drop (off + 12) msg = drop 12 (a_record r @ concat (map a_record rs))" by (metis d add.commute drop_drop)
  then have "take 4 (drop (off + 12) msg) = ip" using ip by (simp add: r a_record_def u16be_def u32be_def)
  moreover have "(if ttl < m then ttl else m) = min ttl m" by (auto simp: min_def)
  ultimately show ?case using IH len Cons.prems(2) by (simp add: r)
qed simp

text \<open>C28: A response that answers one question with A records is read back: the question's name with its
  labels joined by dots, the addresses in order, and the least of the records' life times (five
  minutes if none is below 24 hours), for every name whose labels have 1 to 63 bytes and every
  number of records.\<close>

theorem ParseDNSResponse_roundtrip:
  assumes "length qid = 2" "\<forall>l \<in> set ls. 0 < length l \<and> length l \<le> 63" "length rs < 65536"
    "\<forall>r \<in> set rs. length (snd r) = 4" "match (dotted [] ls)"
  shows "ParseDNSResponse (dns_message qid ls rs) match = Some (Inr \<lparr>dnsNames = [dotted [] ls], dnsIPs = map (\<lambda>r. Addr4 (snd r)) rs,
    dnsTTL = (let m = fold (\<lambda>r. min (fst r)) rs 86400 in if m \<noteq> 86400 then uint m * second else 5 * 60 * second)\<rparr>)"
proof -
  let ?m = "dns_message qid ls rs"
  let ?tail = "label_bytes ls @ u16be 1 @ u16be 1 @ concat (map a_record rs)"
  obtain a b where qid: "qid = [a, b]" using assms(1) by (auto simp: length_Suc_conv numeral_2_eq_2)
  have m: "?m = [a, b, 0x81, 0x80, 0, 1, u16hi (word_of_nat (length rs)), u16lo (word_of_nat (length rs)), 0, 0, 0, 0] @ ?tail"
    by (simp add: dns_message_def qid u16be_def u16hi_def u16lo_def)
  have d12: "drop 12 ?m = label_bytes ls @ u16be 1 @ u16be 1 @ concat (map a_record rs)" by (simp add: m)
  let ?off = "12 + length (label_bytes ls) + 4"
  have doff: "drop ?off ?m = concat (map a_record rs)"
  proof -
    have "drop ?off ?m = drop (length (label_bytes ls) + 4) (drop 12 ?m)" by (simp add: add.commute add.left_commute)
    then show ?thesis by (simp add: d12 u16be_def)
  qed
  have len: "12 + length (label_bytes ls) + 4 \<le> length ?m" by (simp add: m)
  have f: "be16_at ?m 2 = Some 0x8180" "be16_at ?m 4 = Some 1" "be16_at ?m 6 = Some (word_of_nat (length rs))"
    by (simp_all add: m be16_at_def u16of_def [of "0x81"] u16of_def [of 0])
  have q: "parse_questions ?m match 1 12 [] False = Inr (?off, [dotted [] ls], True)"
    using name_loop_labels [OF d12 assms(2), of 0 "[]"] len assms(5) by (simp add: readName_def)
  have n: "unat (word_of_nat (length rs) :: u16) = length rs" using assms(3) by (simp add: unat_u16_of_nat)
  have "0x8180 AND (0x8000 :: u16) \<noteq> 0" "\<not> length ?m < 12" by (simp_all add: m)
  then show ?thesis
    using q parse_answers_records [OF d12 assms(2) doff assms(4), of match "[dotted [] ls]" "[]"]
      collect_records [OF doff assms(4), of "dotted [] ls" "[]" 86400]
    by (simp add: ParseDNSResponse_def f n Let_def)
qed

theorem ParseDNSResponse_roundtrip_witness:
  "ParseDNSResponse (dns_message [1, 2] [[0x61], [0x62, 0x63]] [(60, [1, 2, 3, 4]), (30, [5, 6, 7, 8])]) (\<lambda>n. n = ''a.bc'') =
   Some (Inr \<lparr>dnsNames = [''a.bc''], dnsIPs = [Addr4 [1, 2, 3, 4], Addr4 [5, 6, 7, 8]], dnsTTL = 30 * second\<rparr>)"
proof -
  have "dotted [] [[0x61], [0x62, 0x63]] = ''a.bc''" by (simp add: byte_char_def char_of_def bit_Suc_0_iff)
  with ParseDNSResponse_roundtrip [of "[1, 2]" "[[0x61], [0x62, 0x63]]" "[(60, [1, 2, 3, 4]), (30, [5, 6, 7, 8])]" "\<lambda>n. n = ''a.bc''"]
  show ?thesis by (simp add: Let_def)
qed

end
