(* ===== verification/Tls_Hello.thy ===== *)
theory Tls_Hello
  imports Go_Parse
begin

text \<open>
  \<open>internal/tlshello/sni.go\<close>: the server name of a TLS ClientHello, from the bytes received so far. The
  three results of the code, \<open>(name, complete, err)\<close>, are one of three answers: more bytes are needed
  (\<open>complete\<close> is false), the data is no well-formed ClientHello, or the name (empty if there is none).
\<close>

section \<open>Parser\<close>

datatype terr = TNotClientHello | TMalformed

datatype tls_answer = TNeedMore | TFailed terr | TName string

text \<open>The entries of the server name list \<open>x\<close>, up to position \<open>limit\<close>.\<close>

function name_entries :: "bytes \<Rightarrow> nat \<Rightarrow> nat \<Rightarrow> tls_answer go" where
  "name_entries x p limit =
     (if p + 3 \<le> limit then do {
        nameType \<leftarrow> idx x p;
        n \<leftarrow> be16_at x (p + 1);
        let n = unat n;
        let p = p + 3;
        if limit < p + n then Some (TFailed TMalformed)
        else if nameType = 0 \<and> 0 < n then do {
          s \<leftarrow> slice x p (p + n);
          Some (TName (ToLower (TrimSuffix (map byte_char s) ''.'')))
        }
        else name_entries x (p + n) limit
      }
      else Some (TName []))"
  by pat_completeness auto
termination by (relation "measure (\<lambda>(x, p, limit). limit - p)") auto

function ext_loop :: "bytes \<Rightarrow> nat \<Rightarrow> nat \<Rightarrow> tls_answer go" where
  "ext_loop b off ending =
     (if off + 4 \<le> ending then do {
        typ \<leftarrow> be16_at b off;
        ln \<leftarrow> be16_at b (off + 2);
        let ln = unat ln;
        let off = off + 4;
        if ending < off + ln then Some (TFailed TMalformed)
        else if typ = 0 then do {
          x \<leftarrow> slice b off (off + ln);
          if length x < 2 then Some (TFailed TMalformed)
          else do {
            listLen \<leftarrow> be16_at x 0;
            if length x < 2 + unat listLen then Some (TFailed TMalformed)
            else name_entries x 2 (2 + unat listLen)
          }
        }
        else ext_loop b (off + ln) ending
      }
      else Some (TName []))"
  by pat_completeness auto
termination by (relation "measure (\<lambda>(b, off, ending). ending - off)") auto

declare name_entries.simps [simp del] ext_loop.simps [simp del]

definition u24 :: "byte \<Rightarrow> byte \<Rightarrow> byte \<Rightarrow> nat" where
  "u24 a b c = unat a * 65536 + unat b * 256 + unat c"

text \<open>The body of the handshake message after its session id, from the cipher suites on.\<close>

definition hello_tail :: "bytes \<Rightarrow> nat \<Rightarrow> tls_answer go" where
  "hello_tail b off = do {
     csLen \<leftarrow> be16_at b off;
     let csLen = unat csLen;
     let off = off + 2;
     if csLen = 0 \<or> csLen mod 2 \<noteq> 0 \<or> length b < off + csLen + 1 then Some (TFailed TMalformed)
     else do {
       let off = off + csLen;
       compLen \<leftarrow> idx b off;
       let compLen = unat compLen;
       let off = off + 1;
       if length b < off + compLen then Some (TFailed TMalformed)
       else
         let off = off + compLen in
         if off = length b then Some (TName [])
         else if length b < off + 2 then Some (TFailed TMalformed)
         else do {
           extLen \<leftarrow> be16_at b off;
           let off = off + 2;
           if length b < off + unat extLen then Some (TFailed TMalformed)
           else ext_loop b off (off + unat extLen)
         }
     }
   }"

definition parseClientHello :: "bytes \<Rightarrow> tls_answer go" where
  "parseClientHello hs =
     (if length hs < 4 then Some (TFailed TNotClientHello)
      else do {
        h0 \<leftarrow> idx hs 0;
        if h0 \<noteq> 1 then Some (TFailed TNotClientHello)
        else do {
          h1 \<leftarrow> idx hs 1; h2 \<leftarrow> idx hs 2; h3 \<leftarrow> idx hs 3;
          let hlen = u24 h1 h2 h3;
          if length hs < 4 + hlen then Some TNeedMore
          else do {
            b \<leftarrow> slice hs 4 (4 + hlen);
            if length b < 34 then Some (TFailed TMalformed)
            else if length b \<le> 34 then Some (TFailed TMalformed)
            else do {
              sidLen \<leftarrow> idx b 34;
              if length b < 35 + unat sidLen + 2 then Some (TFailed TMalformed)
              else hello_tail b (35 + unat sidLen)
            }
          }
        }
      })"

text \<open>The loop over the records: \<open>hs\<close> is the handshake data so far.\<close>

function record_loop :: "bytes \<Rightarrow> bytes \<Rightarrow> nat \<Rightarrow> tls_answer go" where
  "record_loop data hs off =
     (if length data < off + 5 then Some TNeedMore
      else do {
        typ \<leftarrow> idx data off;
        ln \<leftarrow> be16_at data (off + 3);
        let ln = unat ln;
        if 32768 < ln then Some (TFailed TMalformed)
        else if length data < off + 5 + ln then Some TNeedMore
        else do {
          part \<leftarrow> slice data (off + 5) (off + 5 + ln);
          let hs = (if typ = 22 then hs @ part else hs);
          let off = off + 5 + ln;
          if 4 \<le> length hs then do {
            h1 \<leftarrow> idx hs 1; h2 \<leftarrow> idx hs 2; h3 \<leftarrow> idx hs 3;
            let hlen = u24 h1 h2 h3;
            if 1048576 < hlen then Some (TFailed TMalformed)
            else if 4 + hlen \<le> length hs then do {
              h \<leftarrow> slice hs 0 (4 + hlen);
              parseClientHello h
            }
            else if length data \<le> off then Some TNeedMore
            else record_loop data hs off
          }
          else if length data \<le> off then Some TNeedMore
          else record_loop data hs off
        }
      })"
  by pat_completeness auto
termination by (relation "measure (\<lambda>(data, hs, off). length data - off)") auto

declare record_loop.simps [simp del]

definition ServerName :: "bytes \<Rightarrow> tls_answer go" where
  "ServerName data =
     (if length data < 5 then Some TNeedMore
      else do {
        t \<leftarrow> idx data 0;
        if t \<noteq> 22 then Some (TFailed TNotClientHello)
        else record_loop data [] 0
      })"

section \<open>Safety\<close>

lemma name_entries_safe: "limit \<le> length x \<Longrightarrow> name_entries x p limit \<noteq> None"
proof (induction x p limit rule: name_entries.induct)
  case (1 x p limit)
  show ?case
    by (subst name_entries.simps, intro safe "1.IH") (use "1.prems" in auto)
qed

lemma ext_loop_safe: "ending \<le> length b \<Longrightarrow> ext_loop b off ending \<noteq> None"
proof (induction b off ending rule: ext_loop.induct)
  case (1 b off ending)
  show ?case
    by (subst ext_loop.simps, intro safe "1.IH" name_entries_safe) (use "1.prems" in \<open>auto dest!: slice_length\<close>)
qed

lemma hello_tail_safe: "off + 2 \<le> length b \<Longrightarrow> hello_tail b off \<noteq> None"
  unfolding hello_tail_def by (intro safe ext_loop_safe) auto

lemma parseClientHello_safe: "parseClientHello hs \<noteq> None"
  unfolding parseClientHello_def by (intro safe hello_tail_safe) auto

lemma record_loop_safe: "record_loop data hs off \<noteq> None"
proof (induction data hs off rule: record_loop.induct)
  case (1 data hs off)
  show ?case
    by (subst record_loop.simps, intro safe parseClientHello_safe;
      ((rule "1.IH"(1); assumption) | (rule "1.IH"(2); assumption) | simp))
qed

section \<open>One record at a time\<close>

definition hello_len :: "bytes \<Rightarrow> nat" where
  "hello_len hs = u24 (hs ! 1) (hs ! 2) (hs ! 3)"

definition record_len :: "bytes \<Rightarrow> nat \<Rightarrow> nat" where
  "record_len data off = unat (u16of (data ! (off + 3)) (data ! (off + 4)))"

definition add_record :: "bytes \<Rightarrow> bytes \<Rightarrow> nat \<Rightarrow> bytes" where
  "add_record data hs off = (if data ! off = 22 then hs @ take (record_len data off) (drop (off + 5) data) else hs)"

lemma record_loop_step:
  "record_loop data hs off =
     (if length data < off + 5 then Some TNeedMore
      else if 32768 < record_len data off then Some (TFailed TMalformed)
      else if length data < off + 5 + record_len data off then Some TNeedMore
      else
        let hs = add_record data hs off; off = off + 5 + record_len data off in
        if 4 \<le> length hs \<and> 1048576 < hello_len hs then Some (TFailed TMalformed)
        else if 4 \<le> length hs \<and> 4 + hello_len hs \<le> length hs then parseClientHello (take (4 + hello_len hs) hs)
        else if length data \<le> off then Some TNeedMore
        else record_loop data hs off)"
proof (cases "length data < off + 5")
  case False
  let ?ln = "record_len data off" and ?hs = "add_record data hs off"
  have i: "idx data off = Some (data ! off)" "be16_at data (off + 3) = Some (u16of (data ! (off + 3)) (data ! (off + 4)))"
    using False by (simp_all add: add.commute [of off])
  note unf = record_loop.simps [of data hs off] i Option.bind.simps Let_def record_len_def [symmetric]
  show ?thesis
  proof (cases "32768 < ?ln \<or> length data < off + 5 + ?ln")
    case True
    then show ?thesis using False unfolding unf by (cases "32768 < ?ln") simp_all
  next
    case ok: False
    then have s: "slice data (off + 5) (off + 5 + ?ln) = Some (take ?ln (drop (off + 5) data))" by simp
    note unf' = unf s add_record_def [symmetric]
    show ?thesis
    proof (cases "4 \<le> length ?hs")
      case True
      then have j: "idx ?hs 1 = Some (?hs ! 1)" "idx ?hs 2 = Some (?hs ! 2)" "idx ?hs 3 = Some (?hs ! 3)" by simp_all
      show ?thesis
      proof (cases "4 + hello_len ?hs \<le> length ?hs")
        case le: True
        then have "slice ?hs 0 (4 + hello_len ?hs) = Some (take (4 + hello_len ?hs) ?hs)" by simp
        then show ?thesis using False ok True le unfolding unf' j Option.bind.simps hello_len_def [symmetric] by simp
      next
        case gt: False
        then show ?thesis using False ok True unfolding unf' j Option.bind.simps hello_len_def [symmetric] by simp
      qed
    next
      case lt: False
      then show ?thesis using False ok unfolding unf' by simp
    qed
  qed
qed (subst record_loop.simps, simp)

text \<open>An answer other than ``more'' does not depend on later bytes.\<close>

lemma record_loop_extend:
  "record_loop data hs off = Some a \<Longrightarrow> a \<noteq> TNeedMore \<Longrightarrow> record_loop (data @ e) hs off = Some a"
proof (induction "length data - off" arbitrary: hs off rule: less_induct)
  case less
  have n5: "\<not> length data < off + 5" using less.prems by (subst (asm) record_loop_step) (auto split: if_splits)
  then have rl: "record_len (data @ e) off = record_len data off" by (simp add: record_len_def nth_append)
  show ?case
  proof (cases "32768 < record_len data off")
    case True
    then show ?thesis using less.prems(1) n5 by (subst record_loop_step, subst (asm) record_loop_step) (simp add: rl)
  next
    case False
    with less.prems n5 have nl: "\<not> length data < off + 5 + record_len data off"
      by (subst (asm) record_loop_step) (auto split: if_splits)
    then have ar: "add_record (data @ e) hs off = add_record data hs off"
      by (simp add: add_record_def rl nth_append)
    let ?hs = "add_record data hs off" and ?off = "off + 5 + record_len data off"
    show ?thesis
    proof (cases "4 \<le> length ?hs \<and> (1048576 < hello_len ?hs \<or> 4 + hello_len ?hs \<le> length ?hs)")
      case True
      then show ?thesis using less.prems(1) n5 nl False
        by (subst record_loop_step, subst (asm) record_loop_step) (auto simp: rl ar Let_def)
    next
      case more: False
      then have r: "record_loop data hs off = (if length data \<le> ?off then Some TNeedMore else record_loop data ?hs ?off)"
        using n5 nl False by (subst record_loop_step) (auto simp: Let_def)
      with less.prems have lt: "\<not> length data \<le> ?off" "record_loop data ?hs ?off = Some a" by (auto split: if_splits)
      from less.hyps [OF _ lt(2) less.prems(2)] lt(1) have "record_loop (data @ e) ?hs ?off = Some a" by simp
      then show ?thesis using more n5 nl False lt(1) by (subst record_loop_step) (auto simp: rl ar Let_def)
    qed
  qed
qed

lemma ServerName_safe: "\<exists>a. ServerName data = Some a"
  using record_loop_safe [of data "[]" 0] by (auto simp: ServerName_def idx_def)

lemma ServerName_stable:
  assumes "ServerName data = Some a" "a \<noteq> TNeedMore"
  shows "ServerName (data @ e) = Some a"
proof -
  have n: "\<not> length data < 5" using assms by (auto simp: ServerName_def)
  then have i: "idx data 0 = Some (data ! 0)" "idx (data @ e) 0 = Some (data ! 0)"
    by (auto simp: idx_def nth_append)
  show ?thesis using assms n i record_loop_extend [of data "[]" 0 a e] by (auto simp: ServerName_def split: if_splits)
qed

text \<open>Looking for the server name is safe and incremental. For all bytes the parser returns and does
  not panic; once it has an answer other than ``more bytes are needed'', every longer input with the
  same beginning has the same answer.\<close>

theorem ServerName_incremental:
  "\<exists>a. ServerName data = Some a \<and> (a = TNeedMore \<or> ServerName (data @ e) = Some a)"
  using ServerName_safe [of data] ServerName_stable [of data _ e] by blast

section \<open>Round trip\<close>

text \<open>ClientHello messages as clients write them: the fields before the session id (version and
  random), the session id, the cipher suites, the compression methods and the extensions.\<close>

definition extension :: "u16 \<times> bytes \<Rightarrow> bytes" where
  "extension = (\<lambda>(t, d). u16be t @ u16be (word_of_nat (length d)) @ d)"

definition sni_data :: "bytes \<Rightarrow> bytes" where
  "sni_data name = u16be (word_of_nat (3 + length name)) @ [0] @ u16be (word_of_nat (length name)) @ name"

definition hello_body :: "bytes \<Rightarrow> bytes \<Rightarrow> bytes \<Rightarrow> bytes \<Rightarrow> bytes \<Rightarrow> bytes" where
  "hello_body pre sid cs cmp exts = pre @ [word_of_nat (length sid)] @ sid @ u16be (word_of_nat (length cs)) @ cs @
     [word_of_nat (length cmp)] @ cmp @ u16be (word_of_nat (length exts)) @ exts"

definition client_hello :: "bytes \<Rightarrow> bytes" where
  "client_hello body = [1, word_of_nat (length body div 65536), word_of_nat (length body div 256), word_of_nat (length body)] @ body"

definition tls_record :: "bytes \<Rightarrow> bytes" where
  "tls_record c = [22, 3, 1] @ u16be (word_of_nat (length c)) @ c"

lemma unat_u16_nat: "n < 65536 \<Longrightarrow> unat (word_of_nat n :: u16) = n"
  by (simp add: unat_u16_of_nat)

lemma drop_drop_append: "drop off b = xs @ ys \<Longrightarrow> drop (off + length xs) b = ys"
  by (metis add.commute append_eq_conv_conj drop_drop)

lemma length_of_drop: "drop off b = xs @ ys \<Longrightarrow> xs \<noteq> [] \<Longrightarrow> off + length xs \<le> length b"
proof -
  assume d: "drop off b = xs @ ys" and ne: "xs \<noteq> []"
  have "length (drop off b) = length xs + length ys" by (simp add: d)
  then show ?thesis using ne by (cases xs) auto
qed

lemma name_entries_sni:
  assumes "0 < length name" "3 + length name < 65536"
  shows "name_entries (sni_data name) 2 (2 + (3 + length name)) = Some (TName (ToLower (TrimSuffix (map byte_char name) ''.'')))"
proof -
  have v: "idx (sni_data name) 2 = Some 0" by (simp add: sni_data_def idx_def u16be_def)
  have "drop 3 (sni_data name) = u16be (word_of_nat (length name)) @ name" by (simp add: sni_data_def u16be_def)
  then have n: "be16_at (sni_data name) (2 + 1) = Some (word_of_nat (length name))" by (intro be16_of_drop) simp
  have s: "slice (sni_data name) (2 + 3) (2 + 3 + length name) = Some name" by (simp add: sni_data_def slice_def u16be_def)
  have u: "unat (word_of_nat (length name) :: u16) = length name" using assms(2) by (intro unat_u16_nat) simp
  show ?thesis
    unfolding name_entries.simps [of _ 2] v n Option.bind.simps Let_def u s using assms(1) by simp
qed

lemma ext_loop_skip:
  assumes "drop off b = extension (t, d) @ rest" "t \<noteq> 0" "length d < 65536" "off + 4 + length d \<le> ending"
  shows "ext_loop b off ending = ext_loop b (off + 4 + length d) ending"
proof -
  have 1: "be16_at b off = Some t" using assms(1) by (intro be16_of_drop) (simp add: extension_def)
  have "drop (off + 2) b = u16be (word_of_nat (length d)) @ d @ rest"
    using drop_drop_append [of off b "u16be t" "u16be (word_of_nat (length d)) @ d @ rest"] assms(1) by (simp add: extension_def)
  then have 2: "be16_at b (off + 2) = Some (word_of_nat (length d))" by (rule be16_of_drop)
  show ?thesis using assms(2-4) unat_u16_nat [OF assms(3)]
    unfolding ext_loop.simps [of b off] 1 2 Option.bind.simps Let_def by simp
qed

lemma ext_loop_sni:
  assumes "drop off b = extension (0, sni_data name) @ rest" "0 < length name" "length name + 5 < 65536" "off + 4 + length (sni_data name) \<le> ending"
  shows "ext_loop b off ending = Some (TName (ToLower (TrimSuffix (map byte_char name) ''.'')))"
proof -
  let ?d = "sni_data name"
  have l: "length ?d = 5 + length name" by (simp add: sni_data_def)
  have 1: "be16_at b off = Some 0" using assms(1) by (intro be16_of_drop) (simp add: extension_def)
  have "drop (off + 2) b = u16be (word_of_nat (length ?d)) @ ?d @ rest"
    using drop_drop_append [of off b "u16be 0" "u16be (word_of_nat (length ?d)) @ ?d @ rest"] assms(1) by (simp add: extension_def)
  then have 2: "be16_at b (off + 2) = Some (word_of_nat (length ?d))" by (rule be16_of_drop)
  have "drop (off + 4) b = ?d @ rest"
    using drop_drop_append [of off b "u16be 0 @ u16be (word_of_nat (length ?d))" "?d @ rest"] assms(1) by (simp add: extension_def)
  moreover from this have "off + 4 + length ?d \<le> length b" using l by (intro length_of_drop) auto
  ultimately have 3: "slice b (off + 4) (off + 4 + length ?d) = Some ?d" by (simp add: slice_def)
  have 4: "be16_at ?d 0 = Some (word_of_nat (3 + length name))"
    by (intro be16_of_drop) (simp add: sni_data_def)
  have u: "unat (word_of_nat (length ?d) :: u16) = length ?d" "unat (word_of_nat (3 + length name) :: u16) = 3 + length name"
    using assms(3) l by (auto intro!: unat_u16_nat simp del: of_nat_add)
  show ?thesis unfolding ext_loop.simps [of b off] 1 2 Option.bind.simps Let_def u 3 4
    using assms(4) l name_entries_sni [OF assms(2)] assms(3) by simp
qed

lemma ext_loop_exts:
  assumes "drop off b = concat (map extension es) @ extension (0, sni_data name) @ rest"
    "\<forall>(t, d) \<in> set es. t \<noteq> 0 \<and> length d < 65536" "0 < length name" "length name + 5 < 65536"
    "off + length (concat (map extension es)) + 4 + length (sni_data name) \<le> ending"
  shows "ext_loop b off ending = Some (TName (ToLower (TrimSuffix (map byte_char name) ''.'')))"
  using assms(1,2,5)
proof (induction es arbitrary: off)
  case Nil
  then show ?case using ext_loop_sni [of off b name rest] assms(3,4) by simp
next
  case (Cons e es)
  obtain t d where e: "e = (t, d)" by fastforce
  let ?r = "concat (map extension es) @ extension (0, sni_data name) @ rest"
  have d: "drop off b = extension (t, d) @ ?r" using Cons.prems(1) e by simp
  have l: "length (extension (t, d)) = 4 + length d" by (simp add: extension_def)
  have "drop (off + 4 + length d) b = ?r" using drop_drop_append [OF d] l by (simp add: add.assoc)
  from Cons.IH [OF this] Cons.prems(2,3) e l
  have "ext_loop b (off + 4 + length d) ending = Some (TName (ToLower (TrimSuffix (map byte_char name) ''.'')))" by simp
  moreover have "ext_loop b off ending = ext_loop b (off + 4 + length d) ending"
    using ext_loop_skip [OF d] Cons.prems(2,3) e l by simp
  ultimately show ?case by simp
qed

lemma unat_byte_nat: "unat (word_of_nat n :: byte) = n mod 256"
  by (simp add: unsigned_of_nat take_bit_eq_mod)

lemma u24_bytes: "n < 16777216 \<Longrightarrow> u24 (word_of_nat (n div 65536)) (word_of_nat (n div 256)) (word_of_nat n) = n"
proof -
  assume n: "n < 16777216"
  have "n div 65536 = n div 256 div 256" by (simp add: div_mult2_eq [symmetric])
  moreover have "n div 65536 < 256" using n by (simp add: less_mult_imp_div_less)
  moreover have "n div 256 = n div 256 div 256 * 256 + n div 256 mod 256" "n = n div 256 * 256 + n mod 256"
    by (simp_all only: div_mult_mod_eq)
  ultimately show ?thesis unfolding u24_def unat_byte_nat by (simp only: mod_less)
qed

lemma hello_len_client: "length body < 16777216 \<Longrightarrow> hello_len (client_hello body) = length body"
  by (simp add: hello_len_def client_hello_def u24_bytes)

lemma hello_tail_exts:
  assumes d: "drop off b = u16be (word_of_nat (length cs)) @ cs @ [word_of_nat (length cmp)] @ cmp @ u16be (word_of_nat (length exts)) @ exts"
    and cs: "0 < length cs" "even (length cs)" "length cs < 65536" and cmp: "length cmp < 256"
    and exts: "exts = concat (map extension es) @ extension (0, sni_data name) @ more_exts" "length exts < 65536"
      "\<forall>(t, d) \<in> set es. t \<noteq> 0 \<and> length d < 65536" "0 < length name" "length name + 5 < 65536"
  shows "hello_tail b off = Some (TName (ToLower (TrimSuffix (map byte_char name) ''.'')))"
proof -
  let ?o2 = "off + 2 + length cs" and ?o4 = "off + 2 + length cs + 1 + length cmp"
  have 1: "be16_at b off = Some (word_of_nat (length cs))" using d by (intro be16_of_drop)
  have d2: "drop ?o2 b = [word_of_nat (length cmp)] @ cmp @ u16be (word_of_nat (length exts)) @ exts"
    using drop_drop_append [of off b "u16be (word_of_nat (length cs)) @ cs"] d by (simp add: add.assoc)
  have 2: "idx b ?o2 = Some (word_of_nat (length cmp))" using nth_of_drop [OF d2, of 0] by (simp add: idx_def)
  have d4: "drop ?o4 b = u16be (word_of_nat (length exts)) @ exts"
    using drop_drop_append [of ?o2 b "[word_of_nat (length cmp)] @ cmp"] d2 by (simp add: add.assoc)
  have 3: "be16_at b ?o4 = Some (word_of_nat (length exts))" using d4 by (intro be16_of_drop)
  have d5: "drop (?o4 + 2) b = exts" using drop_drop_append [OF d4] by simp
  have len: "?o4 + 2 + length exts \<le> length b" using length_of_drop [of ?o4 b "u16be (word_of_nat (length exts)) @ exts" "[]"] d4
    by (simp add: u16be_def)
  have u: "unat (word_of_nat (length cs) :: u16) = length cs" "unat (word_of_nat (length exts) :: u16) = length exts"
    "unat (word_of_nat (length cmp) :: byte) = length cmp"
    using cs cmp exts(2) by (simp_all add: unat_u16_nat unat_byte_nat)
  have e: "ext_loop b (?o4 + 2) (?o4 + 2 + length exts) = Some (TName (ToLower (TrimSuffix (map byte_char name) ''.'')))"
    by (rule ext_loop_exts [of _ _ es name more_exts]) (use d5 exts in \<open>auto simp: extension_def\<close>)
  show ?thesis unfolding hello_tail_def 1 Option.bind.simps Let_def u 2 3
    using len cs e by (simp add: even_iff_mod_2_eq_zero [symmetric])
qed

lemma parseClientHello_client:
  assumes "length pre = 34" "length sid < 256" and cs: "0 < length cs" "even (length cs)" "length cs < 65536" and cmp: "length cmp < 256"
    and exts: "exts = concat (map extension es) @ extension (0, sni_data name) @ more_exts" "length exts < 65536"
      "\<forall>(t, d) \<in> set es. t \<noteq> 0 \<and> length d < 65536" "0 < length name" "length name + 5 < 65536"
  shows "parseClientHello (client_hello (hello_body pre sid cs cmp exts)) = Some (TName (ToLower (TrimSuffix (map byte_char name) ''.'')))"
proof -
  let ?b = "hello_body pre sid cs cmp exts"
  let ?h = "client_hello ?b"
  have lb: "length ?b = 34 + 1 + length sid + 2 + length cs + 1 + length cmp + 2 + length exts"
    using assms(1) by (simp add: hello_body_def)
  then have n: "length ?b < 16777216" using assms(2) cs cmp exts by simp
  have h: "idx ?h 0 = Some 1" "idx ?h 1 = Some (?h ! 1)" "idx ?h 2 = Some (?h ! 2)" "idx ?h 3 = Some (?h ! 3)"
    "length ?h = 4 + length ?b" by (simp_all add: client_hello_def idx_def)
  have hl: "u24 (?h ! 1) (?h ! 2) (?h ! 3) = length ?b" using hello_len_client [OF n] by (simp add: hello_len_def)
  have s: "slice ?h 4 (4 + length ?b) = Some ?b" by (simp add: client_hello_def slice_def)
  have d34: "drop 34 ?b = [word_of_nat (length sid)] @ sid @ u16be (word_of_nat (length cs)) @ cs @
     [word_of_nat (length cmp)] @ cmp @ u16be (word_of_nat (length exts)) @ exts" using assms(1) by (simp add: hello_body_def)
  have i: "idx ?b 34 = Some (word_of_nat (length sid))" using nth_of_drop [OF d34, of 0] by (simp add: idx_def)
  have "drop (35 + length sid) ?b = u16be (word_of_nat (length cs)) @ cs @ [word_of_nat (length cmp)] @ cmp @ u16be (word_of_nat (length exts)) @ exts"
    using drop_drop_append [of 34 ?b "[word_of_nat (length sid)] @ sid"] d34 by simp
  from hello_tail_exts [OF this cs cmp exts]
  have t: "hello_tail ?b (35 + length sid) = Some (TName (ToLower (TrimSuffix (map byte_char name) ''.'')))" .
  have u: "unat (word_of_nat (length sid) :: byte) = length sid" using assms(2) by (simp add: unat_byte_nat)
  show ?thesis unfolding parseClientHello_def h Option.bind.simps Let_def hl s i u
    using t lb by simp
qed

lemma record_loop_hello:
  assumes "drop off data = concat (map tls_record chunks) @ rest" "hs @ concat chunks = client_hello body" "length body \<le> 1048576"
    "\<forall>c \<in> set chunks. length c \<le> 32768" "length hs < 4 + length body"
  shows "record_loop data hs off = parseClientHello (client_hello body)"
  using assms(1,2,4,5)
proof (induction chunks arbitrary: hs off)
  case Nil
  then show ?case by (simp add: client_hello_def)
next
  case (Cons c cs)
  let ?r = "concat (map tls_record cs) @ rest"
  have d: "drop off data = tls_record c @ ?r" using Cons.prems(1) by simp
  have lc: "length c \<le> 32768" using Cons.prems(3) by simp
  have lt: "length (tls_record c) = 5 + length c" by (simp add: tls_record_def)
  have len: "off + 5 + length c \<le> length data" using length_of_drop [OF d] lt by (auto simp: tls_record_def)
  have ty: "data ! off = 22" using nth_of_drop [OF d, of 0] by (simp add: tls_record_def)
  have "data ! (off + 3) = u16hi (word_of_nat (length c))" "data ! (off + 4) = u16lo (word_of_nat (length c))"
    using nth_of_drop [OF d, of 3] nth_of_drop [OF d, of 4] by (simp_all add: tls_record_def u16be_def)
  then have rl: "record_len data off = length c" using lc by (simp add: record_len_def unat_u16_nat)
  have "drop (off + 5) data = c @ ?r"
    using drop_drop_append [of off data "[22, 3, 1] @ u16be (word_of_nat (length c))" "c @ ?r"] d by (simp add: tls_record_def)
  then have ar: "add_record data hs off = hs @ c" by (simp add: add_record_def ty rl)
  have d': "drop (off + 5 + length c) data = ?r" using drop_drop_append [OF d] lt by (simp add: add.assoc)
  have full: "(hs @ c) @ concat cs = client_hello body" using Cons.prems(2) by simp
  have lh: "length (client_hello body) = 4 + length body" by (simp add: client_hello_def)
  have hl: "hello_len (hs @ c) = length body" if "4 \<le> length (hs @ c)"
  proof -
    have "(hs @ c) ! i = client_hello body ! i" if "i < length (hs @ c)" for i using that full by (metis nth_append)
    then have "hello_len (hs @ c) = hello_len (client_hello body)" using \<open>4 \<le> length (hs @ c)\<close> by (simp add: hello_len_def)
    then show ?thesis using hello_len_client [of body] assms(3) by simp
  qed
  show ?case
  proof (cases "4 + length body \<le> length (hs @ c)")
    case True
    then have "length (hs @ c) = 4 + length body" using full lh by (metis append_eq_append_conv2 le_add1 le_antisym length_append)
    then have "hs @ c = client_hello body" using full lh by (metis append_eq_append_conv append_Nil2 length_append add_cancel_right_right length_0_conv)
    then show ?thesis using True len rl ar hl lc assms(3) lh by (subst record_loop_step) (simp add: Let_def)
  next
    case False
    then have "concat cs \<noteq> []" using full lh by (metis append_Nil2 order_refl)
    then obtain c' cs' where "cs = c' # cs'" by (cases cs) auto
    then have "off + 5 + length c < length data" using d' by (auto simp: tls_record_def dest: arg_cong [of _ _ length])
    moreover have "record_loop data (hs @ c) (off + 5 + length c) = parseClientHello (client_hello body)"
      using Cons.IH [OF d' full] Cons.prems(3) False by simp
    ultimately show ?thesis using False len rl ar hl lc assms(3) by (subst record_loop_step) (auto simp: Let_def)
  qed
qed

text \<open>C29: The server name a client writes is the name that is found: for every ClientHello with a
  server name extension, whatever the other extensions around it, and however the handshake message
  is cut into records, the parser returns the name, in lower case and without a final dot.\<close>

theorem ServerName_roundtrip:
  assumes "length pre = 34" "length sid < 256" and cs: "0 < length cs" "even (length cs)" "length cs < 65536" and cmp: "length cmp < 256"
    and exts: "exts = concat (map extension es) @ extension (0, sni_data name) @ more_exts" "length exts < 65536"
      "\<forall>(t, d) \<in> set es. t \<noteq> 0 \<and> length d < 65536" "0 < length name" "length name + 5 < 65536"
    and chunks: "concat chunks = client_hello (hello_body pre sid cs cmp exts)" "\<forall>c \<in> set chunks. length c \<le> 32768"
  shows "ServerName (concat (map tls_record chunks) @ rest) = Some (TName (ToLower (TrimSuffix (map byte_char name) ''.'')))"
proof -
  let ?b = "hello_body pre sid cs cmp exts"
  let ?data = "concat (map tls_record chunks) @ rest"
  have "length ?b \<le> 1048576" using assms by (simp add: hello_body_def)
  from record_loop_hello [of 0 ?data chunks rest "[]", OF _ _ this] chunks
  have r: "record_loop ?data [] 0 = parseClientHello (client_hello ?b)" by simp
  obtain c cs' where c: "chunks = c # cs'" using chunks(1) by (cases chunks) (auto simp: client_hello_def)
  then have "idx ?data 0 = Some 22" "\<not> length ?data < 5" by (simp_all add: tls_record_def idx_def)
  then show ?thesis using r parseClientHello_client [OF assms(1,2) cs cmp exts] by (simp add: ServerName_def)
qed

theorem ServerName_roundtrip_witness:
  "\<exists>exts chunks. exts = extension (0, sni_data [0x41, 0x2e, 0x62, 0x2e]) \<and>
     concat chunks = client_hello (hello_body (replicate 34 0) [] [0x13, 0x01] [0] exts) \<and> length chunks = 2 \<and>
     ServerName (concat (map tls_record chunks)) = Some (TName ''a.b'')"
proof -
  let ?e = "extension (0, sni_data [0x41, 0x2e, 0x62, 0x2e])"
  let ?h = "client_hello (hello_body (replicate 34 0) [] [0x13, 0x01] [0] ?e)"
  let ?c = "[take 10 ?h, drop 10 ?h]"
  have l: "length ?h = 4 + 34 + 1 + 2 + 2 + 1 + 1 + 2 + 13" by (simp add: client_hello_def hello_body_def extension_def sni_data_def)
  have "ToLower (TrimSuffix (map byte_char [0x41, 0x2e, 0x62, 0x2e]) ''.'') = ''a.b''"
    by (simp add: byte_char_def char_of_def bit_Suc_0_iff TrimSuffix_def HasSuffix_def ToLower_def lower_char_def)
  moreover have "ServerName (concat (map tls_record ?c) @ []) = Some (TName (ToLower (TrimSuffix (map byte_char [0x41, 0x2e, 0x62, 0x2e]) ''.'')))"
    by (rule ServerName_roundtrip [where es = "[]" and more_exts = "[]" and pre = "replicate 34 0" and sid = "[]" and cs = "[0x13, 0x01]" and cmp = "[0]"
          and exts = ?e]) (use l in \<open>auto simp: extension_def sni_data_def\<close>)
  ultimately show ?thesis by (intro exI [of _ ?e] exI [of _ ?c]) simp
qed

end
