(* ===== verification/Discovery.thy ===== *)
theory Discovery
  imports Packet_Tcp Tls_Hello Flow_Index Domain_Tracker
begin

text \<open>
  \<open>internal/browserdisc/discovery.go\<close>: finding the host name of a TLS connection from the segments of
  its ClientHello, and keeping first-contact QUIC packets back for a moment so that a browser falls
  back to TCP. Times are nanoseconds.
\<close>

section \<open>Data and operations\<close>

datatype TLSResult = TLSNeedMore | TLSClientHello | TLSNotClientHello

record tlsState =
  tsBuf :: bytes
  tsNextSeq :: u32
  tsSetSeq :: bool
  tsExpires :: int
  tsDone :: bool
  tsResult :: TLSResult
  tsName :: string

record quicState =
  qBlockUntil :: int
  qCoolUntil :: int

record Discovery =
  dcTls :: "Key \<rightharpoonup> tlsState"
  dcQuic :: "addr \<rightharpoonup> quicState"

definition NewDiscovery :: Discovery where
  "NewDiscovery = \<lparr>dcTls = Map.empty, dcQuic = Map.empty\<rparr>"

definition freshTLS :: "int \<Rightarrow> tlsState" where
  "freshTLS now = \<lparr>tsBuf = [], tsNextSeq = 0, tsSetSeq = False, tsExpires = now + 30 * second, tsDone = False,
     tsResult = TLSNeedMore, tsName = []\<rparr>"

text \<open>The part of \<open>FeedTLS\<close> after the state of the flow is found.\<close>

definition feed_segment :: "u32 \<Rightarrow> bytes \<Rightarrow> tlsState \<Rightarrow> ((string \<times> TLSResult) \<times> tlsState) go" where
  "feed_segment sq payload s =
     (if tsDone s then Some ((tsName s, tsResult s), s)
      else
        let s = (if \<not> tsSetSeq s then s\<lparr>tsNextSeq := sq, tsSetSeq := True\<rparr> else s);
            over = unat (tsNextSeq s - sq) in
        if sq < tsNextSeq s \<and> over \<ge> length payload then Some (([], TLSNeedMore), s)
        else do {
          payload \<leftarrow> (if sq < tsNextSeq s then slice payload over (length payload) else Some payload);
          let sq = (if sq < tsNextSeq s then tsNextSeq s else sq);
          let s = (if sq \<noteq> tsNextSeq s then s\<lparr>tsBuf := [], tsNextSeq := sq\<rparr> else s);
          if length (tsBuf s) + length payload > 64 * 1024 then
            Some (([], TLSNotClientHello), s\<lparr>tsDone := True, tsResult := TLSNotClientHello\<rparr>)
          else do {
            let s = s\<lparr>tsBuf := tsBuf s @ payload, tsNextSeq := tsNextSeq s + word_of_nat (length payload)\<rparr>;
            a \<leftarrow> ServerName (tsBuf s);
            (case a of
               TNeedMore \<Rightarrow> Some (([], TLSNeedMore), s)
             | TFailed _ \<Rightarrow> Some (([], TLSNotClientHello), s\<lparr>tsDone := True, tsResult := TLSNotClientHello\<rparr>)
             | TName name \<Rightarrow> Some ((name, TLSClientHello), s\<lparr>tsDone := True, tsResult := TLSClientHello, tsName := name\<rparr>))
          }
        })"

definition FeedTLS :: "int \<Rightarrow> Key \<Rightarrow> bytes \<Rightarrow> Discovery \<Rightarrow> ((string \<times> TLSResult) \<times> Discovery) go" where
  "FeedTLS now k raw d = do {
     r \<leftarrow> ParseTCPInfo raw;
     (case r of
        Inl _ \<Rightarrow> Some (([], TLSNeedMore), d)
      | Inr (_, ti) \<Rightarrow>
          if tPayload ti = [] then Some (([], TLSNeedMore), d)
          else do {
            let s = (case dcTls d k of
                None \<Rightarrow> freshTLS now
              | Some s \<Rightarrow> if tsExpires s < now then freshTLS now else s);
            (r, s) \<leftarrow> feed_segment (tSeq ti) (tPayload ti) s;
            Some (r, d\<lparr>dcTls := (dcTls d)(k \<mapsto> s)\<rparr>)
          })
   }"

definition DeleteTLSFlow :: "Key \<Rightarrow> Discovery \<Rightarrow> Discovery" where
  "DeleteTLSFlow k d = d\<lparr>dcTls := (dcTls d)(k := None)\<rparr>"

definition SuppressUnknownQUIC :: "int \<Rightarrow> addr \<Rightarrow> Discovery \<Rightarrow> bool \<times> Discovery" where
  "SuppressUnknownQUIC now ip d =
     (let ip = Unmap ip;
          contact = (True, d\<lparr>dcQuic := (dcQuic d)(ip \<mapsto> \<lparr>qBlockUntil = now + 4 * second, qCoolUntil = now + 600 * second\<rparr>)\<rparr>)
      in case dcQuic d ip of
           None \<Rightarrow> contact
         | Some s \<Rightarrow> if qCoolUntil s < now then contact else (now < qBlockUntil s, d))"

definition SweepDiscovery :: "int \<Rightarrow> Discovery \<Rightarrow> Discovery" where
  "SweepDiscovery now d =
     d\<lparr>dcTls := (\<lambda>k. case dcTls d k of None \<Rightarrow> None | Some s \<Rightarrow> if tsExpires s < now then None else Some s),
       dcQuic := (\<lambda>ip. case dcQuic d ip of None \<Rightarrow> None | Some s \<Rightarrow> if qCoolUntil s < now then None else Some s)\<rparr>"

section \<open>Segments of one stream\<close>

text \<open>The answer of the discovery for the bytes seen so far.\<close>

fun tls_result :: "tls_answer \<Rightarrow> string \<times> TLSResult" where
  "tls_result TNeedMore = ([], TLSNeedMore)"
| "tls_result (TFailed _) = ([], TLSNotClientHello)"
| "tls_result (TName name) = (name, TLSClientHello)"

definition seen_answer :: "bytes \<Rightarrow> string \<times> TLSResult" where
  "seen_answer b = tls_result (the (ServerName b))"

text \<open>
  The state after the first \<open>c\<close> bytes of a stream that starts at sequence number \<open>s0\<close>: either the name
  is not decided yet and the buffer holds those bytes, or an answer was found earlier and stays.
\<close>

definition stream_state :: "bytes \<Rightarrow> u32 \<Rightarrow> nat \<Rightarrow> tlsState \<Rightarrow> bool" where
  "stream_state stream s0 c s \<longleftrightarrow> c \<le> length stream \<and>
     (if tsDone s then (tsName s, tsResult s) = seen_answer (take c stream) \<and> ServerName (take c stream) \<noteq> Some TNeedMore
      else ServerName (take c stream) = Some TNeedMore \<and> tsBuf s = take c stream \<and>
        (if tsSetSeq s then tsNextSeq s = s0 + word_of_nat c else c = 0) \<and> tsName s = [])"

lemma ServerName_Nil: "ServerName [] = Some TNeedMore"
  by (simp add: ServerName_def)

lemma stream_state_fresh: "stream_state stream s0 0 (freshTLS now)"
  by (simp add: stream_state_def freshTLS_def ServerName_Nil)

lemma stable_prefix:
  assumes "ServerName (take c stream) \<noteq> Some TNeedMore" "c \<le> c'"
  shows "ServerName (take c' stream) = ServerName (take c stream)"
proof -
  obtain a where a: "ServerName (take c stream) = Some a" using ServerName_safe by blast
  have "take c' stream = take c stream @ take (c' - c) (drop c stream)" using assms(2)
    by (metis le_add_diff_inverse take_add)
  then show ?thesis using ServerName_stable [OF a] assms(1) a by auto
qed

lemma seq_arith:
  fixes s0 :: u32
  assumes "unat s0 + m < 2 ^ 32" "j \<le> c" "c \<le> m"
  shows "s0 + word_of_nat j < s0 + word_of_nat c \<longleftrightarrow> j < c" "unat (s0 + word_of_nat c - (s0 + word_of_nat j)) = c - j"
proof -
  have u: "unat (s0 + word_of_nat n) = unat s0 + n" if "n \<le> m" for n
    using assms(1) that by (simp add: unat_word_ariths unat_of_nat)
  show "s0 + word_of_nat j < s0 + word_of_nat c \<longleftrightarrow> j < c" using assms u by (simp add: word_less_nat_alt)
  have "unat (word_of_nat c - word_of_nat j :: u32) = c - j"
    using assms by (simp add: of_nat_diff [symmetric] unat_of_nat del: of_nat_diff)
  then show "unat (s0 + word_of_nat c - (s0 + word_of_nat j)) = c - j" by simp
qed

text \<open>The bytes of a segment that are new, when the first \<open>c\<close> bytes are there.\<close>

lemma new_bytes:
  assumes "p = take (length p) (drop j stream)" "j \<le> c" "c \<le> j + length p" "j + length p \<le> length stream"
  shows "take c stream @ drop (c - j) p = take (j + length p) stream" "length (drop (c - j) p) = j + length p - c"
proof -
  have "drop (c - j) (take n (drop j stream)) = take (n - (c - j)) (drop c stream)" for n
    using assms(2) by (simp add: drop_take)
  then have "drop (c - j) p = take (length p - (c - j)) (drop c stream)" by (metis assms(1))
  moreover have "j + length p = c + (length p - (c - j))" using assms(2,3) by simp
  ultimately show "take c stream @ drop (c - j) p = take (j + length p) stream" by (metis take_add)
  show "length (drop (c - j) p) = j + length p - c" using assms(2,3) by simp
qed

lemma feed_segment_stream:
  assumes st: "stream_state stream s0 c s" and seg: "j \<le> c" "j + length p \<le> length stream" "p = take (length p) (drop j stream)"
    and first: "tsSetSeq s \<or> tsDone s \<or> j = 0"
    and small: "length stream \<le> 65536" "unat s0 + length stream < 2 ^ 32"
  shows "\<exists>s'. feed_segment (s0 + word_of_nat j) p s = Some (seen_answer (take (max c (j + length p)) stream), s') \<and>
    stream_state stream s0 (max c (j + length p)) s' \<and> (tsSetSeq s' \<or> tsDone s') \<and> tsExpires s' = tsExpires s"
proof (cases "tsDone s")
  case True
  then have s: "(tsName s, tsResult s) = seen_answer (take c stream)" "ServerName (take c stream) \<noteq> Some TNeedMore" "c \<le> length stream"
    using st by (auto simp: stream_state_def)
  have "ServerName (take (max c (j + length p)) stream) = ServerName (take c stream)"
    by (rule stable_prefix [OF s(2)]) simp
  then show ?thesis using True s seg(2) by (auto simp: feed_segment_def stream_state_def seen_answer_def)
next
  case False
  define s1 where "s1 = (if \<not> tsSetSeq s then s\<lparr>tsNextSeq := s0 + word_of_nat j, tsSetSeq := True\<rparr> else s)"
  have s1: "tsNextSeq s1 = s0 + word_of_nat c" "tsSetSeq s1" "tsBuf s1 = take c stream" "\<not> tsDone s1" "tsName s1 = []"
    "tsExpires s1 = tsExpires s" "ServerName (take c stream) = Some TNeedMore" "c \<le> length stream"
    using st False first seg(1) by (auto simp: stream_state_def s1_def)
  note ar = seq_arith [OF small(2) seg(1) s1(8)]
  have fs: "feed_segment (s0 + word_of_nat j) p s =
     (if j < c \<and> length p \<le> c - j then Some (([], TLSNeedMore), s1)
      else do {
          payload \<leftarrow> (if j < c then slice p (c - j) (length p) else Some p);
          let sq = (if j < c then tsNextSeq s1 else s0 + word_of_nat j);
          let s = (if sq \<noteq> tsNextSeq s1 then s1\<lparr>tsBuf := [], tsNextSeq := sq\<rparr> else s1);
          if length (tsBuf s) + length payload > 64 * 1024 then
            Some (([], TLSNotClientHello), s\<lparr>tsDone := True, tsResult := TLSNotClientHello\<rparr>)
          else do {
            let s = s\<lparr>tsBuf := tsBuf s @ payload, tsNextSeq := tsNextSeq s + word_of_nat (length payload)\<rparr>;
            a \<leftarrow> ServerName (tsBuf s);
            (case a of
               TNeedMore \<Rightarrow> Some (([], TLSNeedMore), s)
             | TFailed _ \<Rightarrow> Some (([], TLSNotClientHello), s\<lparr>tsDone := True, tsResult := TLSNotClientHello\<rparr>)
             | TName name \<Rightarrow> Some ((name, TLSClientHello), s\<lparr>tsDone := True, tsResult := TLSClientHello, tsName := name\<rparr>))
          }
        })"
    using False unfolding feed_segment_def s1_def [symmetric] Let_def [of s1] Let_def [of "unat _"] s1(1) ar by simp
  show ?thesis
  proof (cases "j < c \<and> length p \<le> c - j")
    case True
    then have "max c (j + length p) = c" by auto
    then show ?thesis using True s1 by (simp add: fs stream_state_def seen_answer_def)
  next
    case nw: False
    then have c: "c \<le> j + length p" "max c (j + length p) = j + length p" using seg(1) by auto
    note nb = new_bytes [OF seg(3,1) c(1) seg(2)]
    have sl: "(if j < c then slice p (c - j) (length p) else Some p) = Some (drop (c - j) p)" using nw c(1) by (auto simp: slice_def)
    have sq: "(if j < c then tsNextSeq s1 else s0 + word_of_nat j) = tsNextSeq s1" using seg(1) s1(1) by (cases "j = c") auto
    have nx: "tsNextSeq s1 + word_of_nat (length (drop (c - j) p)) = s0 + word_of_nat (j + length p)"
      using nb(2) c(1) by (simp add: s1(1) of_nat_diff)
    have "length (tsBuf s1) + length (drop (c - j) p) = j + length p" using nb(2) c(1) s1(3,8) by simp
    then have le: "\<not> length (tsBuf s1) + length (drop (c - j) p) > 64 * 1024" using seg(2) small(1) by simp
    obtain a where a: "ServerName (take (j + length p) stream) = Some a" using ServerName_safe by blast
    have buf: "tsBuf s1 @ drop (c - j) p = take (j + length p) stream" using nb(1) s1(3) by simp
    define s2 where "s2 = s1\<lparr>tsBuf := take (j + length p) stream, tsNextSeq := s0 + word_of_nat (j + length p)\<rparr>"
    have "feed_segment (s0 + word_of_nat j) p s = (case a of
         TNeedMore \<Rightarrow> Some (([], TLSNeedMore), s2)
       | TFailed _ \<Rightarrow> Some (([], TLSNotClientHello), s2\<lparr>tsDone := True, tsResult := TLSNotClientHello\<rparr>)
       | TName name \<Rightarrow> Some ((name, TLSClientHello), s2\<lparr>tsDone := True, tsResult := TLSClientHello, tsName := name\<rparr>))"
      unfolding fs if_not_P [OF nw] sl sq Let_def Option.bind.simps simp_thms if_False if_not_P [OF le] buf nx s2_def
      by (cases a) (simp_all add: a add.assoc)
    then show ?thesis
      using a s1 seg(2) by (cases a) (simp_all add: c(2) stream_state_def seen_answer_def s2_def)
  qed
qed

text \<open>A packet of the flow carries the bytes of the stream from position \<open>j\<close> to position \<open>j + n\<close>.\<close>

definition carries :: "bytes \<Rightarrow> u32 \<Rightarrow> bytes \<Rightarrow> nat \<Rightarrow> nat \<Rightarrow> bool" where
  "carries stream s0 raw j n \<longleftrightarrow> 0 < n \<and> j + n \<le> length stream \<and>
     (\<exists>p ti. ParseTCPInfo raw = Some (Inr (p, ti)) \<and> tSeq ti = s0 + word_of_nat j \<and> tPayload ti = take n (drop j stream))"

text \<open>
  A sequence of packets of one stream, each with its time and the range it carries, that leaves no
  gap: every packet starts within the first \<open>c\<close> bytes, which the packets before it carried. Packets may
  repeat and overlap. \<open>covered\<close> is the number of bytes carried in the end.
\<close>

fun gapless :: "bytes \<Rightarrow> u32 \<Rightarrow> int \<Rightarrow> nat \<Rightarrow> (int \<times> bytes \<times> nat \<times> nat) list \<Rightarrow> bool" where
  "gapless stream s0 expires c [] = True"
| "gapless stream s0 expires c ((now, raw, j, n) # ps) =
     (now \<le> expires \<and> j \<le> c \<and> carries stream s0 raw j n \<and> gapless stream s0 expires (max c (j + n)) ps)"

fun covered :: "nat \<Rightarrow> (int \<times> bytes \<times> nat \<times> nat) list \<Rightarrow> nat" where
  "covered c [] = c"
| "covered c ((now, raw, j, n) # ps) = covered (max c (j + n)) ps"

text \<open>The answers of \<open>FeedTLS\<close> to the packets.\<close>

fun feed_all :: "Key \<Rightarrow> (int \<times> bytes \<times> nat \<times> nat) list \<Rightarrow> Discovery \<Rightarrow> (string \<times> TLSResult) list go" where
  "feed_all k [] d = Some []"
| "feed_all k ((now, raw, _) # ps) d = do {
     (r, d) \<leftarrow> FeedTLS now k raw d;
     rs \<leftarrow> feed_all k ps d;
     Some (r # rs)
   }"

lemma FeedTLS_stream:
  assumes d: "dcTls d k = Some s" "now \<le> tsExpires s" and st: "stream_state stream s0 c s" and fst: "tsSetSeq s \<or> tsDone s \<or> j = 0"
    and j: "j \<le> c" "carries stream s0 raw j n" and small: "length stream \<le> 65536" "unat s0 + length stream < 2 ^ 32"
  shows "\<exists>d' s'. FeedTLS now k raw d = Some (seen_answer (take (max c (j + n)) stream), d') \<and> dcTls d' k = Some s' \<and>
    stream_state stream s0 (max c (j + n)) s' \<and> (tsSetSeq s' \<or> tsDone s') \<and> tsExpires s' = tsExpires s"
proof -
  from j(2) obtain p ti where ti: "ParseTCPInfo raw = Some (Inr (p, ti))" "tSeq ti = s0 + word_of_nat j" "tPayload ti = take n (drop j stream)"
    and n: "0 < n" "j + n \<le> length stream" by (auto simp: carries_def)
  let ?p = "take n (drop j stream)"
  have lp: "length ?p = n" using n(2) by simp
  then have ne: "?p \<noteq> []" using n(1) by auto
  from feed_segment_stream [OF st j(1) _ _ fst small, of ?p] lp n(2) obtain s' where
    s': "feed_segment (s0 + word_of_nat j) ?p s = Some (seen_answer (take (max c (j + n)) stream), s')"
      "stream_state stream s0 (max c (j + n)) s'" "tsSetSeq s' \<or> tsDone s'" "tsExpires s' = tsExpires s" by auto
  have "\<not> tsExpires s < now" using d(2) by simp
  then show ?thesis using ti ne s' d(1) by (simp add: FeedTLS_def)
qed

lemma FeedTLS_first:
  assumes "dcTls d k = None" "carries stream s0 raw 0 n" and small: "length stream \<le> 65536" "unat s0 + length stream < 2 ^ 32"
  shows "\<exists>d' s'. FeedTLS now k raw d = Some (seen_answer (take n stream), d') \<and> dcTls d' k = Some s' \<and>
    stream_state stream s0 n s' \<and> (tsSetSeq s' \<or> tsDone s') \<and> tsExpires s' = now + 30 * second"
proof -
  let ?d = "d\<lparr>dcTls := (dcTls d)(k \<mapsto> freshTLS now)\<rparr>"
  have "FeedTLS now k raw ?d = FeedTLS now k raw d"
    using assms(1,2) by (auto simp: FeedTLS_def carries_def freshTLS_def second_def split: option.splits)
  moreover have "dcTls ?d k = Some (freshTLS now)" "now \<le> tsExpires (freshTLS now)" by (simp_all add: freshTLS_def second_def)
  note FeedTLS_stream [OF this stream_state_fresh _ _ assms(2) small]
  ultimately show ?thesis by (simp add: freshTLS_def)
qed

lemma feed_all_stream:
  assumes "dcTls d k = Some s" "stream_state stream s0 c s" "tsSetSeq s \<or> tsDone s" "gapless stream s0 (tsExpires s) c ps" "ps \<noteq> []"
    and small: "length stream \<le> 65536" "unat s0 + length stream < 2 ^ 32"
  shows "\<exists>rs. feed_all k ps d = Some rs \<and> rs \<noteq> [] \<and> last rs = seen_answer (take (covered c ps) stream)"
  using assms(1-5)
proof (induction ps arbitrary: d s c)
  case (Cons x ps)
  obtain now raw j n where x: "x = (now, raw, j, n)" by (cases x)
  from Cons.prems x have g: "now \<le> tsExpires s" "j \<le> c" "carries stream s0 raw j n" "gapless stream s0 (tsExpires s) (max c (j + n)) ps" by auto
  from FeedTLS_stream [OF Cons.prems(1) g(1) Cons.prems(2) _ g(2,3) small] Cons.prems(3) obtain d' s' where
    d': "FeedTLS now k raw d = Some (seen_answer (take (max c (j + n)) stream), d')" "dcTls d' k = Some s'"
      "stream_state stream s0 (max c (j + n)) s'" "tsSetSeq s' \<or> tsDone s'" "tsExpires s' = tsExpires s" by blast
  show ?case
  proof (cases "ps = []")
    case True
    then show ?thesis using d'(1) x by simp
  next
    case False
    from Cons.IH [OF d'(2-4) _ False] g(4) d'(5) d'(1) x show ?thesis by auto
  qed
qed simp

text \<open>C30: Host names are found in reassembled streams. When the packets of a flow that the discovery does
  not know yet carry a stream of at most 64 KiB from its beginning, without gaps but possibly
  repeated, overlapping and cut anywhere, within 30 seconds, then the answer to the last of them is
  what the bytes carried so far say: the server name of their ClientHello, that they are none, or
  that more are needed. (The stream's sequence numbers do not wrap around.)\<close>

theorem FeedTLS_reassembles:
  assumes "dcTls d k = None" "carries stream s0 raw 0 n" "gapless stream s0 (now + 30 * second) n ps"
    and "length stream \<le> 65536" "unat s0 + length stream < 2 ^ 32"
  shows "\<exists>rs. feed_all k ((now, raw, 0, n) # ps) d = Some rs \<and> last rs = seen_answer (take (covered n ps) stream)"
proof -
  from FeedTLS_first [OF assms(1,2,4,5), of now] obtain d' s' where
    d': "FeedTLS now k raw d = Some (seen_answer (take n stream), d')" "dcTls d' k = Some s'"
      "stream_state stream s0 n s'" "tsSetSeq s' \<or> tsDone s'" "tsExpires s' = now + 30 * second" by blast
  show ?thesis
  proof (cases "ps = []")
    case False
    from feed_all_stream [OF d'(2-4) _ False assms(4,5)] assms(3) d'(1,5) show ?thesis by auto
  qed (use d'(1) in simp)
qed

definition http_packet :: bytes where
  "http_packet = [0x45, 0, 0, 45, 0, 0, 0, 0, 64, 6, 0, 0, 10, 0, 0, 2, 1, 1, 1, 1, 0xC0, 0, 1, 0xBB, 0, 0, 0, 100, 0, 0, 0, 0,
     0x50, 0x18, 0, 0, 0, 0, 0, 0, 71, 69, 84, 32, 47]"

lemma http_packet_carries: "carries [71, 69, 84, 32, 47] 100 http_packet 0 5"
proof -
  have "case ParseTCPInfo http_packet of Some (Inr (p, ti)) \<Rightarrow> tSeq ti = 100 \<and> tPayload ti = [71, 69, 84, 32, 47] | _ \<Rightarrow> False"
    by code_simp
  then show ?thesis by (auto simp: carries_def split: option.splits sum.splits)
qed

theorem FeedTLS_reassembles_witness:
  "\<exists>rs. feed_all example_key [(0, http_packet, 0, 5), (1, http_packet, 0, 5)] NewDiscovery = Some rs \<and> last rs = ([], TLSNotClientHello)"
proof -
  have "seen_answer [71, 69, 84, 32, 47] = ([], TLSNotClientHello)" by (simp add: seen_answer_def ServerName_def idx_def)
  with FeedTLS_reassembles [of NewDiscovery example_key "[71, 69, 84, 32, 47]" 100 http_packet 5 0 "[(1, http_packet, 0, 5)]"]
  show ?thesis using http_packet_carries by (simp add: NewDiscovery_def second_def)
qed

section \<open>QUIC suppression\<close>

datatype quic_op = QContact addr | QSweep

fun quic_step :: "int \<times> quic_op \<Rightarrow> Discovery \<Rightarrow> bool \<times> Discovery" where
  "quic_step (now, QContact ip) d = SuppressUnknownQUIC now ip d"
| "quic_step (now, QSweep) d = (False, SweepDiscovery now d)"

text \<open>The times at which packets to \<open>ip\<close> are suppressed.\<close>

fun suppressed :: "addr \<Rightarrow> (int \<times> quic_op) list \<Rightarrow> Discovery \<Rightarrow> int list" where
  "suppressed ip [] d = []"
| "suppressed ip ((now, c) # cs) d =
     (let (b, d') = quic_step (now, c) d; ts = suppressed ip cs d'
      in if b \<and> (\<exists>a. c = QContact a \<and> Unmap a = Unmap ip) then now # ts else ts)"

text \<open>After a suppression at \<open>t\<close>, in the window that began at \<open>w\<close>: the entry of the window is still there,
  or its cooldown is over.\<close>

definition window_open :: "addr \<Rightarrow> int \<Rightarrow> int \<Rightarrow> Discovery \<Rightarrow> bool" where
  "window_open ip w now d \<longleftrightarrow> w + 600 * second < now \<or>
     dcQuic d (Unmap ip) = Some \<lparr>qBlockUntil = w + 4 * second, qCoolUntil = w + 600 * second\<rparr>"

lemma window_open_step:
  assumes "window_open ip w t d" "t \<le> now" "quic_step (now, c) d = (b, d')"
  shows "window_open ip w now d'"
  using assms by (cases c) (auto simp: window_open_def SuppressUnknownQUIC_def SweepDiscovery_def Let_def split: option.splits if_splits)

lemma window_open_answer:
  assumes "window_open ip w t d" "t \<le> now" "quic_step (now, QContact a) d = (True, d')" "Unmap a = Unmap ip"
  shows "now < w + 4 * second \<or> w + 600 * second < now"
  using assms by (auto simp: window_open_def SuppressUnknownQUIC_def Let_def split: option.splits if_splits)

lemma suppressed_after:
  "window_open ip w t d \<Longrightarrow> sorted (t # map fst cs) \<Longrightarrow> t' \<in> set (suppressed ip cs d) \<Longrightarrow> t' < w + 4 * second \<or> w + 600 * second < t'"
proof (induction cs arbitrary: t d)
  case (Cons x cs)
  obtain now c where x: "x = (now, c)" by fastforce
  obtain b d' where st: "quic_step (now, c) d = (b, d')" by fastforce
  have t: "t \<le> now" "sorted (now # map fst cs)" using Cons.prems(2) x by auto
  note w = window_open_step [OF Cons.prems(1) t(1) st]
  show ?case
  proof (cases "t' \<in> set (suppressed ip cs d')")
    case True
    from Cons.IH [OF w t(2) this] show ?thesis .
  next
    case False
    then have "b" "\<exists>a. c = QContact a \<and> Unmap a = Unmap ip" "t' = now" using Cons.prems(3) x st by (auto simp: Let_def split: if_splits)
    then show ?thesis using window_open_answer [OF Cons.prems(1) t(1)] st by auto
  qed
qed simp

definition quic_wf :: "addr \<Rightarrow> int \<Rightarrow> Discovery \<Rightarrow> bool" where
  "quic_wf ip now d \<longleftrightarrow> (case dcQuic d (Unmap ip) of None \<Rightarrow> True
     | Some s \<Rightarrow> \<exists>w. w \<le> now \<and> s = \<lparr>qBlockUntil = w + 4 * second, qCoolUntil = w + 600 * second\<rparr>)"

lemma quic_wf_step:
  assumes "quic_wf ip t d" "t \<le> now" "quic_step (now, c) d = (b, d')"
  shows "quic_wf ip now d'"
    and "b \<Longrightarrow> c = QContact a \<Longrightarrow> Unmap a = Unmap ip \<Longrightarrow> \<exists>w. w \<le> now \<and> now < w + 4 * second \<and> window_open ip w now d'"
proof -
  have le: "\<exists>w. w \<le> now \<and> s = \<lparr>qBlockUntil = w + 4 * second, qCoolUntil = w + 600 * second\<rparr>" if "dcQuic d (Unmap ip) = Some s" for s
    using assms(1,2) that by (auto simp: quic_wf_def intro: order.trans)
  show "quic_wf ip now d'"
    using assms(3) le by (cases c) (auto simp: quic_wf_def SuppressUnknownQUIC_def SweepDiscovery_def Let_def split: option.splits if_splits)
  show "\<exists>w. w \<le> now \<and> now < w + 4 * second \<and> window_open ip w now d'" if "b" "c = QContact a" "Unmap a = Unmap ip"
  proof (cases "dcQuic d (Unmap ip)")
    case None
    then show ?thesis using assms(3) that by (intro exI [of _ now]) (auto simp: SuppressUnknownQUIC_def window_open_def second_def Let_def)
  next
    case (Some s)
    from le [OF this] obtain w where w: "w \<le> now" "s = \<lparr>qBlockUntil = w + 4 * second, qCoolUntil = w + 600 * second\<rparr>" by blast
    show ?thesis
    proof (cases "w + 600 * second < now")
      case True
      then show ?thesis using assms(3) that Some w by (intro exI [of _ now]) (auto simp: SuppressUnknownQUIC_def window_open_def second_def Let_def)
    next
      case False
      then show ?thesis using assms(3) that Some w by (intro exI [of _ w]) (auto simp: SuppressUnknownQUIC_def window_open_def Let_def)
    qed
  qed
qed

lemma suppressed_spread:
  "quic_wf ip t d \<Longrightarrow> sorted (t # map fst cs) \<Longrightarrow>
    sorted_wrt (\<lambda>a b. b - a < 4 * second \<or> 596 * second < b - a) (suppressed ip cs d)"
proof (induction cs arbitrary: t d)
  case (Cons x cs)
  obtain now c where x: "x = (now, c)" by fastforce
  obtain b d' where st: "quic_step (now, c) d = (b, d')" by fastforce
  have t: "t \<le> now" "sorted (now # map fst cs)" using Cons.prems(2) x by auto
  note wf = quic_wf_step [OF Cons.prems(1) t(1) st]
  note IH = Cons.IH [OF wf(1) t(2)]
  show ?case
  proof (cases "b \<and> (\<exists>a. c = QContact a \<and> Unmap a = Unmap ip)")
    case True
    then obtain w where w: "w \<le> now" "now < w + 4 * second" "window_open ip w now d'" using wf(2) by blast
    have "t' - now < 4 * second \<or> 596 * second < t' - now" if "t' \<in> set (suppressed ip cs d')" for t'
      using suppressed_after [OF w(3) t(2) that] w(1,2) by (auto simp: second_def)
    then show ?thesis using IH True x st by (auto simp: Let_def)
  next
    case False
    then show ?thesis using IH x st by (auto simp: Let_def)
  qed
qed simp

text \<open>QUIC is held back only briefly. Over any sequence of packets and sweeps in order of time, any two
  packets to the same destination that are held back are less than 4 seconds apart, or more than 596
  seconds: a destination loses at most one window of 4 seconds in about ten minutes.\<close>

theorem QUIC_suppression_bounded:
  assumes "sorted (map fst cs)"
  shows "sorted_wrt (\<lambda>a b. b - a < 4 * second \<or> 596 * second < b - a) (suppressed ip cs NewDiscovery)"
proof (cases cs)
  case (Cons x cs')
  have "quic_wf ip (fst x) NewDiscovery" by (simp add: quic_wf_def NewDiscovery_def)
  from suppressed_spread [OF this, of cs] assms Cons show ?thesis by simp
qed simp

theorem QUIC_suppression_bounded_witness:
  "suppressed (Addr4 [1, 1, 1, 1]) [(0, QContact (Addr4 [1, 1, 1, 1])), (3 * second, QContact (Addr4 [1, 1, 1, 1])),
       (9 * second, QContact (Addr4 [1, 1, 1, 1]))] NewDiscovery = [0, 3 * second] \<and>
   sorted_wrt (\<lambda>a b. b - a < 4 * second \<or> 596 * second < b - a) (suppressed (Addr4 [1, 1, 1, 1])
     [(0, QContact (Addr4 [1, 1, 1, 1])), (3 * second, QContact (Addr4 [1, 1, 1, 1])), (9 * second, QContact (Addr4 [1, 1, 1, 1]))] NewDiscovery)"
proof -
  let ?cs = "[(0, QContact (Addr4 [1, 1, 1, 1])), (3 * second, QContact (Addr4 [1, 1, 1, 1])), (9 * second, QContact (Addr4 [1, 1, 1, 1]))]"
  have "sorted (map fst ?cs)" by (simp add: second_def)
  from QUIC_suppression_bounded [OF this] show ?thesis
    by (simp add: SuppressUnknownQUIC_def NewDiscovery_def second_def Let_def)
qed

end
