(* ===== verification/Cryptox.thy ===== *)
theory Cryptox
  imports Prelude
begin

unbundle bit_operations_syntax

text \<open>
  The cryptographic primitives of \<open>internal/cryptox\<close>: BLAKE2s, HMAC and the WireGuard key
  derivation (\<open>blake2s.go\<close>), the ChaCha20 block functions (\<open>chacha_core.go\<close>), the portable
  ChaCha20-Poly1305 (\<open>aead_other.go\<close>) and the XChaCha wrapper (\<open>aead.go\<close>). Fixed-size Go arrays
  are lists of that length, 32-bit arithmetic is on \<open>32 word\<close>, and \<open>big.Int\<close> is \<open>int\<close>. The
  routines are related to their published definitions: BLAKE2s to the block-by-block form, the
  stream cipher to its byte-wise form, Poly1305 to the polynomial over \<open>2^130 - 5\<close>; the AEADs
  satisfy the interface \<open>aead\<close> that the WireGuard client relies on.
\<close>

section \<open>BLAKE2s\<close>

datatype cerr = ErrOutLen | ErrKeyLen | ErrNonce | ErrXNonce | ErrAuth | ErrCNG

definition blakeIV :: "u32 list" where
  "blakeIV = [0x6A09E667, 0xBB67AE85, 0x3C6EF372, 0xA54FF53A, 0x510E527F, 0x9B05688C, 0x1F83D9AB, 0x5BE0CD19]"

definition sigma :: "nat list list" where
  "sigma = [
    [0, 1, 2, 3, 4, 5, 6, 7, 8, 9, 10, 11, 12, 13, 14, 15],
    [14, 10, 4, 8, 9, 15, 13, 6, 1, 12, 0, 2, 11, 7, 5, 3],
    [11, 8, 12, 0, 5, 2, 15, 13, 10, 14, 3, 6, 7, 1, 9, 4],
    [7, 9, 3, 1, 13, 12, 11, 14, 2, 6, 5, 10, 4, 0, 15, 8],
    [9, 0, 5, 7, 2, 4, 10, 15, 14, 1, 11, 12, 6, 8, 3, 13],
    [2, 12, 6, 10, 0, 11, 8, 3, 4, 13, 7, 5, 15, 14, 1, 9],
    [12, 5, 1, 15, 14, 13, 4, 10, 0, 7, 6, 3, 9, 2, 8, 11],
    [13, 11, 7, 14, 12, 1, 3, 9, 5, 0, 15, 4, 8, 6, 2, 10],
    [6, 15, 14, 9, 11, 3, 0, 8, 12, 2, 13, 7, 1, 4, 10, 5],
    [10, 2, 8, 4, 7, 6, 1, 5, 15, 11, 9, 14, 3, 12, 13, 0]]"

definition ror :: "u32 \<Rightarrow> nat \<Rightarrow> u32" where
  "ror x n = drop_bit n x OR push_bit (32 - n) x"

definition g_mix :: "nat \<Rightarrow> nat \<Rightarrow> nat \<Rightarrow> nat \<Rightarrow> u32 \<Rightarrow> u32 \<Rightarrow> u32 list \<Rightarrow> u32 list" where
  "g_mix a b c d x y v =
     (let v = v[a := v ! a + v ! b + x];
          v = v[d := ror (v ! d XOR v ! a) 16];
          v = v[c := v ! c + v ! d];
          v = v[b := ror (v ! b XOR v ! c) 12];
          v = v[a := v ! a + v ! b + y];
          v = v[d := ror (v ! d XOR v ! a) 8];
          v = v[c := v ! c + v ! d]
      in v[b := ror (v ! b XOR v ! c) 7])"

text \<open>One turn of \<open>for r := 0; r < 10; r++\<close>.\<close>

definition blake_round :: "u32 list \<Rightarrow> nat list \<Rightarrow> u32 list \<Rightarrow> u32 list" where
  "blake_round m s v =
     (let v = g_mix 0 4 8 12 (m ! (s ! 0)) (m ! (s ! 1)) v;
          v = g_mix 1 5 9 13 (m ! (s ! 2)) (m ! (s ! 3)) v;
          v = g_mix 2 6 10 14 (m ! (s ! 4)) (m ! (s ! 5)) v;
          v = g_mix 3 7 11 15 (m ! (s ! 6)) (m ! (s ! 7)) v;
          v = g_mix 0 5 10 15 (m ! (s ! 8)) (m ! (s ! 9)) v;
          v = g_mix 1 6 11 12 (m ! (s ! 10)) (m ! (s ! 11)) v;
          v = g_mix 2 7 8 13 (m ! (s ! 12)) (m ! (s ! 13)) v
      in g_mix 3 4 9 14 (m ! (s ! 14)) (m ! (s ! 15)) v)"

definition compress :: "u32 list \<Rightarrow> bytes \<Rightarrow> u64 \<Rightarrow> bool \<Rightarrow> u32 list" where
  "compress h block t last_block =
     (let m = map (\<lambda>i. le32 block (i * 4)) [0..<16];
          v = h @ blakeIV;
          v = v[12 := v ! 12 XOR ucast t];
          v = v[13 := v ! 13 XOR ucast (drop_bit 32 t)];
          v = (if last_block then v[14 := NOT (v ! 14)] else v);
          v = fold (\<lambda>r. blake_round m (sigma ! r)) [0..<10] v
      in map (\<lambda>i. h ! i XOR (v ! i XOR v ! (i + 8))) [0..<8])"

text \<open>\<open>var block [64]byte; copy(block[:], msg)\<close>.\<close>

definition pad_block :: "nat \<Rightarrow> bytes \<Rightarrow> bytes" where
  "pad_block n msg = take n msg @ replicate (n - length msg) 0"

function blake_loop :: "u32 list \<Rightarrow> bytes \<Rightarrow> u64 \<Rightarrow> u32 list" where
  "blake_loop h msg sofar =
     (if length msg > 64 then blake_loop (compress h (take 64 msg) (sofar + 64) False) (drop 64 msg) (sofar + 64)
      else compress h (pad_block 64 msg) (sofar + word_of_nat (length msg)) True)"
  by pat_completeness auto
termination by (relation "measure (\<lambda>(h, msg, s). length msg)") auto

declare blake_loop.simps [simp del]

definition Blake2s :: "bytes \<Rightarrow> bytes \<Rightarrow> int \<Rightarrow> cerr + bytes" where
  "Blake2s data key outLen =
     (if outLen < 1 \<or> outLen > 32 then Inl ErrOutLen
      else if length key > 32 then Inl ErrKeyLen
      else
        let h = blakeIV[0 := blakeIV ! 0 XOR (0x01010000 XOR push_bit 8 (word_of_nat (length key)) XOR word_of_int outLen)];
            msg = (if length key > 0 then pad_block 64 key else []) @ data;
            h = (if length msg = 0 then compress h (replicate 64 0) 0 True else blake_loop h msg 0)
        in Inr (take (nat outLen) (concat (map u32le h))))"

definition Blake2s256 :: "bytes \<Rightarrow> bytes" where
  "Blake2s256 data = pad_block 32 (case Blake2s data [] 32 of Inl _ \<Rightarrow> [] | Inr x \<Rightarrow> x)"

definition Blake2s128Keyed :: "bytes \<Rightarrow> bytes \<Rightarrow> bytes" where
  "Blake2s128Keyed key data = pad_block 16 (case Blake2s data key 16 of Inl _ \<Rightarrow> [] | Inr x \<Rightarrow> x)"

section \<open>HMAC and key derivation\<close>

definition HMACBlake2s :: "bytes \<Rightarrow> bytes list \<Rightarrow> bytes" where
  "HMACBlake2s key parts =
     (let key = (if length key > 64 then Blake2s256 key else key);
          ipad = map (\<lambda>i. if i < length key then 0x36 XOR key ! i else 0x36) [0..<64];
          opad = map (\<lambda>i. if i < length key then 0x5c XOR key ! i else 0x5c) [0..<64];
          inner = ipad @ concat parts;
          ih = Blake2s256 inner
      in Blake2s256 (opad @ ih))"

definition KDF1 :: "bytes \<Rightarrow> bytes \<Rightarrow> bytes" where
  "KDF1 key input = (let prk = HMACBlake2s key [input] in HMACBlake2s prk [[1]])"

definition KDF2 :: "bytes \<Rightarrow> bytes \<Rightarrow> bytes \<times> bytes" where
  "KDF2 key input =
     (let prk = HMACBlake2s key [input]; t0 = HMACBlake2s prk [[1]]; t1 = HMACBlake2s prk [t0, [2]] in (t0, t1))"

definition KDF3 :: "bytes \<Rightarrow> bytes \<Rightarrow> bytes \<times> bytes \<times> bytes" where
  "KDF3 key input =
     (let prk = HMACBlake2s key [input]; t0 = HMACBlake2s prk [[1]]; t1 = HMACBlake2s prk [t0, [2]];
          t2 = HMACBlake2s prk [t1, [3]] in (t0, t1, t2))"

section \<open>ChaCha20\<close>

definition rol :: "u32 \<Rightarrow> nat \<Rightarrow> u32" where
  "rol x n = push_bit n x OR drop_bit (32 - n) x"

text \<open>The closure \<open>qr\<close> that \<open>chachaBlock\<close> and \<open>hChaCha20\<close> both declare, and their ten double rounds.\<close>

definition qr :: "nat \<Rightarrow> nat \<Rightarrow> nat \<Rightarrow> nat \<Rightarrow> u32 list \<Rightarrow> u32 list" where
  "qr a b c d x =
     (let x = x[a := x ! a + x ! b];
          x = x[d := rol (x ! d XOR x ! a) 16];
          x = x[c := x ! c + x ! d];
          x = x[b := rol (x ! b XOR x ! c) 12];
          x = x[a := x ! a + x ! b];
          x = x[d := rol (x ! d XOR x ! a) 8];
          x = x[c := x ! c + x ! d]
      in x[b := rol (x ! b XOR x ! c) 7])"

definition double_round :: "u32 list \<Rightarrow> u32 list" where
  "double_round x =
     (let x = qr 0 4 8 12 x; x = qr 1 5 9 13 x; x = qr 2 6 10 14 x; x = qr 3 7 11 15 x;
          x = qr 0 5 10 15 x; x = qr 1 6 11 12 x; x = qr 2 7 8 13 x
      in qr 3 4 9 14 x)"

definition chacha_consts :: "u32 list" where
  "chacha_consts = [0x61707865, 0x3320646e, 0x79622d32, 0x6b206574]"

definition chachaBlock :: "bytes \<Rightarrow> u32 \<Rightarrow> bytes \<Rightarrow> bytes" where
  "chachaBlock key counter nonce =
     (let s = chacha_consts @ map (\<lambda>i. le32 key (i * 4)) [0..<8] @ [counter, le32 nonce 0, le32 nonce 4, le32 nonce 8];
          x = (double_round ^^ 10) s
      in concat (map (\<lambda>i. u32le (x ! i + s ! i)) [0..<16]))"

definition hChaCha20 :: "bytes \<Rightarrow> bytes \<Rightarrow> bytes" where
  "hChaCha20 key nonce16 =
     (let x = chacha_consts @ map (\<lambda>i. le32 key (i * 4)) [0..<8] @ map (\<lambda>i. le32 nonce16 (i * 4)) [0..<4];
          x = (double_round ^^ 10) x
      in concat (map u32le [x ! 0, x ! 1, x ! 2, x ! 3, x ! 12, x ! 13, x ! 14, x ! 15]))"

text \<open>What \<open>xorStream\<close> writes to \<open>dst\<close>; \<open>counter++\<close> wraps at 32 bits.\<close>

function xorStream :: "bytes \<Rightarrow> bytes \<Rightarrow> bytes \<Rightarrow> u32 \<Rightarrow> bytes" where
  "xorStream src key nonce counter =
     (if length src > 0 then
        let b = chachaBlock key counter nonce;
            n = (if length src > 64 then 64 else length src)
        in map (\<lambda>i. src ! i XOR b ! i) [0..<n] @ xorStream (drop n src) key nonce (counter + 1)
      else [])"
  by pat_completeness auto
termination by (relation "measure (\<lambda>(src, k, n, c). length src)") auto

declare xorStream.simps [simp del]

section \<open>Poly1305\<close>

text \<open>\<open>big.Int.SetBytes\<close> and \<open>big.Int.Bytes\<close>: big-endian, without leading zero bytes.\<close>

definition SetBytes :: "bytes \<Rightarrow> int" where
  "SetBytes b = foldl (\<lambda>a x. a * 256 + uint x) 0 b"

function big_Bytes :: "int \<Rightarrow> bytes" where
  "big_Bytes n = (if n \<le> 0 then [] else big_Bytes (n div 256) @ [word_of_int (n mod 256)])"
  by pat_completeness auto
termination by (relation "measure nat") auto

declare big_Bytes.simps [simp del]

definition leBig :: "bytes \<Rightarrow> int" where
  "leBig b = SetBytes (rev b)"

definition clamp_r :: "bytes \<Rightarrow> bytes" where
  "clamp_r r =
     (let r = r[3 := r ! 3 AND 15]; r = r[7 := r ! 7 AND 15]; r = r[11 := r ! 11 AND 15]; r = r[15 := r ! 15 AND 15];
          r = r[4 := r ! 4 AND 252]; r = r[8 := r ! 8 AND 252]
      in r[12 := r ! 12 AND 252])"

function poly_loop :: "int \<Rightarrow> int \<Rightarrow> bytes \<Rightarrow> int" where
  "poly_loop acc r msg =
     (if length msg > 0 then
        let n = (if length msg < 16 then length msg else 16)
        in poly_loop ((acc + leBig (take n msg @ [1])) * r mod (2 ^ 130 - 5)) r (drop n msg)
      else acc)"
  by pat_completeness auto
termination by (relation "measure (\<lambda>(a, r, msg). length msg)") auto

declare poly_loop.simps [simp del]

definition poly1305Raw :: "bytes \<Rightarrow> bytes \<Rightarrow> bytes" where
  "poly1305Raw key msg =
     (let r = leBig (clamp_r (take 16 key));
          s = leBig (drop 16 key);
          acc = (poly_loop 0 r msg + s) AND (2 ^ 128 - 1);
          be = big_Bytes acc
      in map (\<lambda>i. if i < length be then be ! (length be - 1 - i) else 0) [0..<16])"

text \<open>\<open>for len(msg)\%16 != 0 { msg = append(msg, 0) }\<close>.\<close>

definition pad16 :: "bytes \<Rightarrow> bytes" where
  "pad16 msg = msg @ replicate ((16 - length msg mod 16) mod 16) 0"

definition poly1305Big :: "bytes \<Rightarrow> bytes \<Rightarrow> bytes \<Rightarrow> bytes" where
  "poly1305Big key aad ct =
     poly1305Raw key (pad16 (pad16 aad @ ct) @ u64le (word_of_nat (length aad)) @ u64le (word_of_nat (length ct)))"

section \<open>The AEADs\<close>

definition pureSeal :: "bytes \<Rightarrow> bytes \<Rightarrow> bytes \<Rightarrow> bytes \<Rightarrow> cerr + bytes" where
  "pureSeal key nonce pt aad =
     (if length nonce \<noteq> 12 then Inl ErrNonce
      else
        let polyKey = take 32 (chachaBlock key 0 nonce);
            c = xorStream pt key nonce 1
        in Inr (c @ poly1305Big polyKey aad c))"

definition pureOpen :: "bytes \<Rightarrow> bytes \<Rightarrow> bytes \<Rightarrow> bytes \<Rightarrow> cerr + bytes" where
  "pureOpen key nonce ct aad =
     (if length nonce \<noteq> 12 \<or> length ct < 16 then Inl ErrAuth
      else
        let n = length ct - 16;
            polyKey = take 32 (chachaBlock key 0 nonce);
            tag = poly1305Big polyKey aad (take n ct)
        in if tag \<noteq> drop n ct then Inl ErrAuth
           else Inr (xorStream (take n ct) key nonce 1))"

definition xNonce :: "bytes \<Rightarrow> bytes" where
  "xNonce nonce = replicate 4 0 @ drop 16 nonce"

definition xSeal :: "(bytes \<Rightarrow> bytes \<Rightarrow> bytes \<Rightarrow> bytes \<Rightarrow> cerr + bytes) \<Rightarrow> bytes \<Rightarrow> bytes \<Rightarrow> bytes \<Rightarrow> bytes \<Rightarrow> cerr + bytes" where
  "xSeal seal key nonce pt aad =
     (if length nonce \<noteq> 24 then Inl ErrXNonce
      else seal (hChaCha20 key (take 16 nonce)) (xNonce nonce) pt aad)"

definition xOpen :: "(bytes \<Rightarrow> bytes \<Rightarrow> bytes \<Rightarrow> bytes \<Rightarrow> cerr + bytes) \<Rightarrow> bytes \<Rightarrow> bytes \<Rightarrow> bytes \<Rightarrow> bytes \<Rightarrow> cerr + bytes" where
  "xOpen opn key nonce ct aad =
     (if length nonce \<noteq> 24 then Inl ErrXNonce
      else opn (hChaCha20 key (take 16 nonce)) (xNonce nonce) ct aad)"

section \<open>Lengths\<close>

lemma length_pad_block [simp]: "length (pad_block n b) = n"
  by (simp add: pad_block_def)

lemma pad_block_id [simp]: "length b = n \<Longrightarrow> pad_block n b = b"
  by (simp add: pad_block_def)

lemma length_compress [simp]: "length (compress h b t l) = 8"
  by (simp add: compress_def Let_def)

lemma length_blake_loop [simp]: "length (blake_loop h msg t) = 8"
  by (induction h msg t rule: blake_loop.induct) (subst blake_loop.simps, simp)

lemma length_concat_u32le: "length (concat (map u32le h)) = 4 * length h"
  by (induction h) auto

lemma length_Blake2s256 [simp]: "length (Blake2s256 d) = 32"
  by (simp add: Blake2s256_def)

lemma length_Blake2s128Keyed [simp]: "length (Blake2s128Keyed k d) = 16"
  by (simp add: Blake2s128Keyed_def)

lemma length_HMAC [simp]: "length (HMACBlake2s k ps) = 32"
  by (simp add: HMACBlake2s_def Let_def)

lemma length_KDF1 [simp]: "length (KDF1 k i) = 32"
  by (simp add: KDF1_def)

lemma length_KDF2: "KDF2 k i = (a, b) \<Longrightarrow> length a = 32 \<and> length b = 32"
  by (auto simp: KDF2_def Let_def)

lemma length_KDF3: "KDF3 k i = (a, b, c) \<Longrightarrow> length a = 32 \<and> length b = 32 \<and> length c = 32"
  by (auto simp: KDF3_def Let_def)

lemma length_concat_const: "(\<And>x. x \<in> set xs \<Longrightarrow> length (f x) = n) \<Longrightarrow> length (concat (map f xs)) = n * length xs"
  by (induction xs) auto

lemma length_chachaBlock [simp]: "length (chachaBlock k c n) = 64"
  by (simp add: chachaBlock_def Let_def length_concat_const [where n = 4] del: upt_Suc)

lemma length_poly1305Raw [simp]: "length (poly1305Raw k m) = 16"
  by (simp add: poly1305Raw_def Let_def)

lemma length_poly1305Big [simp]: "length (poly1305Big k a c) = 16"
  by (simp add: poly1305Big_def)

section \<open>BLAKE2s against its block-wise definition\<close>

text \<open>
  RFC 7693: the padded key (if any) and the message are cut into 64-byte blocks
  \<open>d\<^sub>0, \<dots>, d\<^sub>q\<^sub>-\<^sub>1\<close>, the last one zero-padded; block \<open>i\<close> is compressed with the offset
  \<open>64 (i + 1)\<close>, the last one with the total number of bytes and the finalization flag.
\<close>

definition nblocks :: "bytes \<Rightarrow> nat" where
  "nblocks m = (if m = [] then 1 else (length m + 63) div 64)"

definition nth_block :: "bytes \<Rightarrow> nat \<Rightarrow> bytes" where
  "nth_block m i = pad_block 64 (take 64 (drop (64 * i) m))"

definition blake_ref :: "u32 list \<Rightarrow> bytes \<Rightarrow> u32 list" where
  "blake_ref h m =
     compress (fold (\<lambda>i h. compress h (nth_block m i) (word_of_nat (64 * (i + 1))) False) [0..<nblocks m - 1] h)
       (nth_block m (nblocks m - 1)) (word_of_nat (length m)) True"

lemma blake_loop_fold:
  assumes "m \<noteq> []"
  shows "blake_loop h m (word_of_nat k) =
     compress (fold (\<lambda>i h. compress h (nth_block m i) (word_of_nat (k + 64 * (i + 1))) False) [0..<nblocks m - 1] h)
       (nth_block m (nblocks m - 1)) (word_of_nat (k + length m)) True"
  using assms
proof (induction "length m" arbitrary: h m k rule: less_induct)
  case less
  show ?case
  proof (cases "length m > 64")
    case True
    let ?m = "drop 64 m"
    have ne: "?m \<noteq> []" using True by simp
    have nb: "nblocks m - 1 = Suc (nblocks ?m - 1)" using True div_add_self2 [of 64 "length m - 1"] by (auto simp: nblocks_def)
    have blk: "nth_block m (Suc i) = nth_block ?m i" for i by (simp add: nth_block_def add.commute)
    have first: "nth_block m 0 = take 64 m" using True by (simp add: nth_block_def)
    have up: "[0..<Suc n] = 0 # map Suc [0..<n]" for n by (simp add: upt_conv_Cons map_Suc_upt del: upt_Suc)
    have "blake_loop h m (word_of_nat k) = blake_loop (compress h (take 64 m) (word_of_nat (k + 64)) False) ?m (word_of_nat (k + 64))"
      using True by (subst blake_loop.simps) simp
    also have "\<dots> = compress (fold (\<lambda>i h. compress h (nth_block ?m i) (word_of_nat (k + 64 + 64 * (i + 1))) False) [0..<nblocks ?m - 1]
         (compress h (take 64 m) (word_of_nat (k + 64)) False)) (nth_block ?m (nblocks ?m - 1)) (word_of_nat (k + 64 + length ?m)) True"
      using True ne by (intro less.hyps) auto
    finally show ?thesis using True
      by (simp add: nb [simplified] up fold_map comp_def blk first add.assoc del: upt_Suc)
  next
    case False
    then have "nblocks m = 1" using less.prems by (cases m) (auto simp: nblocks_def)
    with False show ?thesis by (subst blake_loop.simps) (simp add: nth_block_def)
  qed
qed

lemma blake_loop_ref: "m \<noteq> [] \<Longrightarrow> blake_loop h m 0 = blake_ref h m"
  using blake_loop_fold [of m h 0] by (simp add: blake_ref_def)

lemma blake_ref_Nil: "blake_ref h [] = compress h (replicate 64 0) 0 True"
  by (simp add: blake_ref_def nblocks_def nth_block_def pad_block_def)

lemma length_blake_ref [simp]: "length (blake_ref h m) = 8"
  by (simp add: blake_ref_def)

section \<open>The key stream\<close>

lemma xorStream_spec:
  "length (xorStream src k n c) = length src \<and>
   (\<forall>i < length src. xorStream src k n c ! i = src ! i XOR chachaBlock k (c + word_of_nat (i div 64)) n ! (i mod 64))"
proof (induction src k n c rule: xorStream.induct)
  case (1 src k n c)
  show ?case
  proof (cases "length src > 0")
    case True
    let ?n = "if length src > 64 then 64 else length src" and ?b = "chachaBlock k c n"
    have IH: "length (xorStream (drop ?n src) k n (c + 1)) = length src - ?n"
      "\<And>i. i < length src - ?n \<Longrightarrow> xorStream (drop ?n src) k n (c + 1) ! i =
         src ! (?n + i) XOR chachaBlock k (c + 1 + word_of_nat (i div 64)) n ! (i mod 64)"
      using 1 [OF True refl refl] by auto
    have eq: "xorStream src k n c = map (\<lambda>i. src ! i XOR ?b ! i) [0..<?n] @ xorStream (drop ?n src) k n (c + 1)"
      using True by (subst xorStream.simps) (simp only: Let_def if_True)
    have "xorStream src k n c ! i = src ! i XOR chachaBlock k (c + word_of_nat (i div 64)) n ! (i mod 64)" if "i < length src" for i
    proof (cases "i < ?n")
      case True
      with that show ?thesis by (subst eq) (auto simp: nth_append split: if_splits)
    next
      case False
      then have n64: "?n = 64" and i64: "64 \<le> i" using that by (auto split: if_splits)
      have "xorStream src k n c ! i = xorStream (drop ?n src) k n (c + 1) ! (i - 64)"
        by (subst eq) (use n64 i64 in \<open>simp add: nth_append\<close>)
      also have "\<dots> = src ! (64 + (i - 64)) XOR chachaBlock k (c + 1 + word_of_nat ((i - 64) div 64)) n ! ((i - 64) mod 64)"
        using IH(2) [of "i - 64"] that i64 by (simp only: n64)
      finally show ?thesis using i64 by (simp add: le_div_geq le_mod_geq add.assoc)
    qed
    moreover have "length (xorStream src k n c) = length src" using IH(1) by (subst eq) auto
    ultimately show ?thesis by simp
  next
    case False
    then show ?thesis by (subst xorStream.simps) simp
  qed
qed

lemma length_xorStream [simp]: "length (xorStream src k n c) = length src"
  using xorStream_spec by blast

lemma xorStream_xorStream [simp]: "xorStream (xorStream src k n c) k n c = src"
  by (rule nth_equalityI) (simp_all add: xorStream_spec xor.assoc)

section \<open>Poly1305 as a polynomial\<close>

lemma SetBytes_snoc: "SetBytes (xs @ [x]) = SetBytes xs * 256 + uint x"
  by (simp add: SetBytes_def)

lemma leBig_Nil [simp]: "leBig [] = 0"
  by (simp add: leBig_def SetBytes_def)

lemma leBig_Cons [simp]: "leBig (x # xs) = uint x + 256 * leBig xs"
  by (simp add: leBig_def SetBytes_snoc)

lemma leBig_append: "leBig (xs @ ys) = leBig xs + 256 ^ length xs * leBig ys"
  by (induction xs) (simp_all add: algebra_simps)

lemma leBig_zeros [simp]: "leBig (replicate n 0) = 0"
  by (induction n) simp_all

lemma leBig_nonneg [simp]: "0 \<le> leBig xs"
  by (induction xs) simp_all

lemma leBig_less: "leBig xs < 256 ^ length xs"
proof (induction xs)
  case (Cons x xs)
  have "uint x < 256" using uint_lt2p [of x] by simp
  with Cons show ?case by simp
qed simp

lemma leBig_big_Bytes: "0 \<le> n \<Longrightarrow> leBig (rev (big_Bytes n)) = n"
proof (induction n rule: big_Bytes.induct)
  case (1 n)
  have "uint (word_of_int (n mod 256) :: byte) = n mod 256"
    by (simp add: uint_word_of_int)
  with 1 show ?case by (subst big_Bytes.simps) auto
qed

lemma length_big_Bytes: "n < 256 ^ k \<Longrightarrow> length (big_Bytes n) \<le> k"
proof (induction n arbitrary: k rule: big_Bytes.induct)
  case (1 n)
  show ?case
  proof (cases "n \<le> 0")
    case False
    with 1(2) obtain j where k: "k = Suc j" by (cases k) auto
    have "n div 256 < 256 ^ j" using 1(2) unfolding k power_Suc by linarith
    from 1(1) [OF False this] k False show ?thesis by (subst big_Bytes.simps) simp
  qed (subst big_Bytes.simps, simp)
qed

definition poly_p :: int where
  "poly_p = 2 ^ 130 - 5"

definition nchunks :: "bytes \<Rightarrow> nat" where
  "nchunks msg = (length msg + 15) div 16"

definition chunk :: "bytes \<Rightarrow> nat \<Rightarrow> int" where
  "chunk msg j = leBig (take 16 (drop (16 * j) msg) @ [1])"

definition poly_eval :: "int \<Rightarrow> bytes \<Rightarrow> int" where
  "poly_eval r msg = (\<Sum>j < nchunks msg. chunk msg j * r ^ (nchunks msg - j))"

lemma nchunks_step: "msg \<noteq> [] \<Longrightarrow> nchunks msg = Suc (nchunks (drop 16 msg))"
proof -
  assume "msg \<noteq> []"
  then have "(length msg + 15) div 16 = Suc ((length msg - 1) div 16)" using le_div_geq [of 16 "length msg + 15"] by (cases msg) simp_all
  then show ?thesis by (cases "length msg < 16") (auto simp: nchunks_def)
qed

lemma poly_eval_step:
  assumes "msg \<noteq> []"
  shows "poly_eval r msg = leBig (take 16 msg @ [1]) * r ^ nchunks msg + poly_eval r (drop 16 msg)"
proof -
  have q: "nchunks msg = Suc (nchunks (drop 16 msg))" using assms by (rule nchunks_step)
  have c: "chunk msg (Suc j) = chunk (drop 16 msg) j" for j by (simp add: chunk_def add.commute)
  show ?thesis unfolding poly_eval_def q sum.lessThan_Suc_shift by (simp add: c) (simp add: chunk_def)
qed

lemma poly_loop_eval: "poly_loop acc r msg mod poly_p = (acc * r ^ nchunks msg + poly_eval r msg) mod poly_p"
proof (induction acc r msg rule: poly_loop.induct)
  case (1 acc r msg)
  show ?case
  proof (cases "msg = []")
    case True
    then show ?thesis by (subst poly_loop.simps) (simp add: poly_eval_def nchunks_def)
  next
    case False
    let ?n = "if length msg < 16 then length msg else 16" and ?b = "leBig (take 16 msg @ [1])"
    have d: "drop ?n msg = drop 16 msg" "take ?n msg = take 16 msg" by simp_all
    have q: "nchunks msg = Suc (nchunks (drop 16 msg))" using False by (rule nchunks_step)
    have "poly_loop acc r msg mod poly_p = poly_loop ((acc + ?b) * r mod poly_p) r (drop 16 msg) mod poly_p"
      using False by (subst poly_loop.simps) (simp add: Let_def poly_p_def)
    also have "\<dots> = ((acc + ?b) * r mod poly_p * r ^ nchunks (drop 16 msg) + poly_eval r (drop 16 msg)) mod poly_p"
      using 1 [OF _ refl] False unfolding d by (simp add: poly_p_def)
    also have "\<dots> = ((acc + ?b) * r * r ^ nchunks (drop 16 msg) + poly_eval r (drop 16 msg)) mod poly_p"
      by (metis mod_add_left_eq mod_mult_left_eq)
    finally show ?thesis by (simp add: poly_eval_step [OF False] q algebra_simps)
  qed
qed

lemma poly_loop_range: "0 \<le> acc \<Longrightarrow> acc < poly_p \<Longrightarrow> 0 \<le> poly_loop acc r msg \<and> poly_loop acc r msg < poly_p"
proof (induction acc r msg rule: poly_loop.induct)
  case (1 acc r msg)
  then show ?case by (subst (1 2) poly_loop.simps) (auto simp: Let_def poly_p_def)
qed

lemma poly1305Raw_value:
  "leBig (poly1305Raw key msg) =
     (poly_eval (leBig (clamp_r (take 16 key))) msg mod poly_p + leBig (drop 16 key)) mod 2 ^ 128"
proof -
  let ?r = "leBig (clamp_r (take 16 key))" and ?s = "leBig (drop 16 key)"
  let ?acc = "(poly_loop 0 ?r msg + ?s) AND (2 ^ 128 - 1)"
  let ?be = "big_Bytes ?acc"
  have pl: "poly_loop 0 ?r msg = poly_eval ?r msg mod poly_p"
    using poly_loop_eval [of 0 ?r msg] poly_loop_range [of 0 ?r msg] by (simp add: poly_p_def)
  have acc: "?acc = (poly_loop 0 ?r msg + ?s) mod 2 ^ 128"
    by (simp only: mask_eq_exp_minus_1 [symmetric] take_bit_eq_mask [symmetric] take_bit_eq_mod)
  have len: "length ?be \<le> 16" by (rule length_big_Bytes) (simp add: acc)
  have "poly1305Raw key msg = rev ?be @ replicate (16 - length ?be) 0"
    by (rule nth_equalityI) (use len in \<open>auto simp: poly1305Raw_def Let_def nth_append rev_nth\<close>)
  then have "leBig (poly1305Raw key msg) = ?acc" by (simp add: leBig_append leBig_big_Bytes)
  also note acc
  finally show ?thesis by (simp only: pl)
qed

section \<open>The AEAD interface\<close>

text \<open>
  What a client of \<open>cryptox.AEAD\<close> relies on: opening returns exactly what was sealed, under the same
  key, nonce and additional data, and sealing adds a 16-byte tag. Sealing may fail (the Windows
  provider reports errors).
\<close>

locale aead =
  fixes seal :: "bytes \<Rightarrow> bytes \<Rightarrow> bytes \<Rightarrow> bytes \<Rightarrow> cerr + bytes"
    and opn :: "bytes \<Rightarrow> bytes \<Rightarrow> bytes \<Rightarrow> bytes \<Rightarrow> cerr + bytes"
  assumes open_iff_seal: "opn k n c a = Inr p \<longleftrightarrow> seal k n p a = Inr c"
    and seal_length: "seal k n p a = Inr c \<Longrightarrow> length c = length p + 16"
begin

lemma seal_inj: "seal k n p a = Inr c \<Longrightarrow> seal k n p' a = Inr c \<Longrightarrow> p = p'"
  using open_iff_seal by (metis sum.inject(2))

lemma open_length: "opn k n c a = Inr p \<Longrightarrow> length c = length p + 16"
  using open_iff_seal seal_length by blast

lemma open_rejects: "\<nexists>p. seal k n p a = Inr c \<Longrightarrow> \<exists>e. opn k n c a = Inl e"
  using open_iff_seal by (metis sum.exhaust)

end

text \<open>The XChaCha wrapper of an AEAD is one again, for 24-byte nonces.\<close>

locale chacha_aead = aead seal opn for seal opn

sublocale chacha_aead \<subseteq> xchacha: aead "xSeal seal" "xOpen opn"
  by unfold_locales (auto simp: xSeal_def xOpen_def open_iff_seal dest: seal_length split: if_splits)

lemma pureOpen_iff: "pureOpen k n c a = Inr p \<longleftrightarrow> pureSeal k n p a = Inr c"
proof
  assume o: "pureOpen k n c a = Inr p"
  let ?m = "length c - 16"
  have "length n = 12" "16 \<le> length c" and tag: "poly1305Big (take 32 (chachaBlock k 0 n)) a (take ?m c) = drop ?m c"
    and p: "p = xorStream (take ?m c) k n 1"
    using o by (auto simp: pureOpen_def Let_def split: if_splits)
  moreover from p have "xorStream p k n 1 = take ?m c" by simp
  ultimately show "pureSeal k n p a = Inr c" by (simp add: pureSeal_def Let_def)
next
  assume "pureSeal k n p a = Inr c"
  then show "pureOpen k n c a = Inr p" by (auto simp: pureSeal_def pureOpen_def Let_def split: if_splits)
qed

lemma length_pureSeal: "pureSeal k n p a = Inr c \<Longrightarrow> length c = length p + 16"
  by (auto simp: pureSeal_def Let_def split: if_splits)

lemma pureSeal_error:
  "pureSeal k n p a = Inl e \<Longrightarrow> length n \<noteq> 12 \<and> e = ErrNonce"
  "pureSeal k n p a = Inr c \<Longrightarrow> length n = 12"
  by (auto simp: pureSeal_def Let_def split: if_splits)

lemma xSeal_error:
  "xSeal pureSeal k n p a = Inl e \<Longrightarrow> length n \<noteq> 24 \<and> e = ErrXNonce"
  "xSeal pureSeal k n p a = Inr c \<Longrightarrow> length n = 24"
proof -
  assume x: "xSeal pureSeal k n p a = Inl e"
  then show "length n \<noteq> 24 \<and> e = ErrXNonce"
  proof (cases "length n = 24")
    case True
    then have "length (xNonce n) = 12" by (simp add: xNonce_def)
    with x True pureSeal_error(1) show ?thesis by (auto simp: xSeal_def)
  qed (simp add: xSeal_def)
qed (auto simp: xSeal_def split: if_splits)

interpretation pa: chacha_aead pureSeal pureOpen
  by unfold_locales (simp_all add: pureOpen_iff length_pureSeal)

section \<open>Properties\<close>

text \<open>C31: the AEADs of the portable build are inverse to each other in both directions: \<open>Open\<close>
  returns \<open>p\<close> for a ciphertext exactly when \<open>Seal\<close> of \<open>p\<close> gives that ciphertext (so every altered
  ciphertext is refused), for ChaCha20-Poly1305 and for the XChaCha wrapper; \<open>Seal\<close> fails only for
  a nonce of the wrong length and adds 16 bytes.\<close>

theorem AEAD_roundtrip:
  "(pureOpen k n c a = Inr p) = (pureSeal k n p a = Inr c) \<and>
   (xOpen pureOpen k n c a = Inr p) = (xSeal pureSeal k n p a = Inr c) \<and>
   (case pureSeal k n p a of Inl e \<Rightarrow> length n \<noteq> 12 \<and> e = ErrNonce
     | Inr d \<Rightarrow> length n = 12 \<and> length d = length p + 16 \<and> pureOpen k n d a = Inr p) \<and>
   (case xSeal pureSeal k n p a of Inl e \<Rightarrow> length n \<noteq> 24 \<and> e = ErrXNonce
     | Inr d \<Rightarrow> length n = 24 \<and> length d = length p + 16 \<and> xOpen pureOpen k n d a = Inr p)"
proof (intro conjI)
  show "(pureOpen k n c a = Inr p) = (pureSeal k n p a = Inr c)" by (rule pureOpen_iff)
  show "(xOpen pureOpen k n c a = Inr p) = (xSeal pureSeal k n p a = Inr c)" by (rule pa.xchacha.open_iff_seal)
  show "case pureSeal k n p a of Inl e \<Rightarrow> length n \<noteq> 12 \<and> e = ErrNonce
     | Inr d \<Rightarrow> length n = 12 \<and> length d = length p + 16 \<and> pureOpen k n d a = Inr p"
    using length_pureSeal pureSeal_error
    by (auto simp: pureOpen_iff split: sum.split)
  show "case xSeal pureSeal k n p a of Inl e \<Rightarrow> length n \<noteq> 24 \<and> e = ErrXNonce
     | Inr d \<Rightarrow> length n = 24 \<and> length d = length p + 16 \<and> xOpen pureOpen k n d a = Inr p"
    using pa.xchacha.seal_length xSeal_error
    by (auto simp: pa.xchacha.open_iff_seal split: sum.split)
qed

text \<open>C32: what \<open>Seal\<close> computes is RFC 8439: byte \<open>i\<close> of the ciphertext is byte \<open>i\<close> of the plaintext
  xor byte \<open>i mod 64\<close> of the ChaCha20 block \<open>1 + i div 64\<close>, and the tag, read as a little-endian
  number, is the value of the message polynomial at the clamped \<open>r\<close> modulo \<open>2^130 - 5\<close>, plus \<open>s\<close>,
  modulo \<open>2^128\<close>, with \<open>r\<close> and \<open>s\<close> taken from block 0.\<close>

theorem Seal_reference:
  "case pureSeal k n p a of Inl e \<Rightarrow> length n \<noteq> 12
   | Inr d \<Rightarrow>
       let c = map (\<lambda>i. p ! i XOR chachaBlock k (1 + word_of_nat (i div 64)) n ! (i mod 64)) [0..<length p];
           key = take 32 (chachaBlock k 0 n);
           msg = pad16 (pad16 a @ c) @ u64le (word_of_nat (length a)) @ u64le (word_of_nat (length p))
       in take (length p) d = c \<and>
          leBig (drop (length p) d) =
            (poly_eval (leBig (clamp_r (take 16 key))) msg mod (2 ^ 130 - 5) + leBig (drop 16 key)) mod 2 ^ 128"
proof (cases "length n = 12")
  case True
  have c: "xorStream p k n 1 = map (\<lambda>i. p ! i XOR chachaBlock k (1 + word_of_nat (i div 64)) n ! (i mod 64)) [0..<length p]"
    by (rule nth_equalityI) (simp_all add: xorStream_spec)
  show ?thesis using True
    by (simp add: pureSeal_def Let_def poly1305Big_def poly1305Raw_value poly_p_def c del: take_take)
qed (simp add: pureSeal_def)

text \<open>\<open>Blake2s\<close> is BLAKE2s: for an output of 1 to 32 bytes and a key of at most 32 bytes it
  returns the first \<open>outLen\<close> bytes of the state after compressing the padded key block and the
  message block by block, and an error for every other parameter.\<close>

theorem Blake2s_reference:
  "Blake2s data key outLen =
     (if \<not> (1 \<le> outLen \<and> outLen \<le> 32) then Inl ErrOutLen
      else if \<not> length key \<le> 32 then Inl ErrKeyLen
      else Inr (take (nat outLen) (concat (map u32le
        (blake_ref (map2 (XOR) blakeIV [0x01010000 XOR push_bit 8 (word_of_nat (length key)) XOR word_of_int outLen, 0, 0, 0, 0, 0, 0, 0])
          ((if key = [] then [] else pad_block 64 key) @ data)))))) \<and>
   (case Blake2s data key outLen of Inl _ \<Rightarrow> True | Inr d \<Rightarrow> length d = nat outLen)"
  using blake_loop_ref blake_ref_Nil
  by (auto simp: Blake2s_def Let_def length_concat_u32le blakeIV_def)

end
