(* ===== verification/Wireguard.thy ===== *)
theory Wireguard
  imports Cryptox Replay Packet Go_Strings
begin

unbundle bit_operations_syntax

text \<open>
  The WireGuard client (\<open>internal/wireguard/client.go\<close>): sessions, the Noise handshake with its
  retries and its two UDP paths, transport packets in both directions, the background rekey, the
  keep-alive and reaper ticks and \<open>Close\<close>.

  A \<open>*session\<close> is an index into \<open>heap\<close>, the list of all sessions ever created; \<open>sessions\<close> and
  \<open>current\<close> hold such references. The channels \<open>respCh\<close>, \<open>cookieCh\<close> and \<open>plain\<close> are bounded
  queues. Every operation that holds a mutex is one step. The clock, the random bytes, the outcome of
  a UDP write and the order in which the \<open>select\<close> of the handshake sees its cases are inputs. The
  curve of \<open>crypto/ecdh\<close> and the AEAD of the platform are the record \<open>prims\<close>; the portable AEAD is
  the one of the theory of the primitives. \<open>sent\<close> is the sequence of datagrams given to the
  sockets and \<open>seals\<close> the sequence of (session, nonce) pairs given to \<open>Seal\<close> for transport packets.
\<close>

section \<open>Data\<close>

datatype gerr = ErrTooBig | ErrCipher cerr | ErrWrite | ErrCtx | ErrClosed | ErrTimeout | ErrRand | ErrPrivKey
  | ErrECDH | ErrMAC1 | ErrRespAuth | ErrCookie | ErrNoSession | ErrEmptyEndpoint | ErrResolve | ErrOpenPath

record prims =
  newAEAD :: "bytes \<Rightarrow> cerr option"
  aeadSeal :: "bytes \<Rightarrow> bytes \<Rightarrow> bytes \<Rightarrow> bytes \<Rightarrow> cerr + bytes"
  aeadOpen :: "bytes \<Rightarrow> bytes \<Rightarrow> bytes \<Rightarrow> bytes \<Rightarrow> cerr + bytes"
  publicKey :: "bytes \<Rightarrow> bytes"
  ecdh :: "bytes \<Rightarrow> bytes \<Rightarrow> bytes option"

type_synonym udpAddr = "addr \<times> nat"
type_synonym udp = "nat \<Rightarrow> bytes \<Rightarrow> gerr + nat"

definition msgInit :: u32 where "msgInit = 1"
definition msgResp :: u32 where "msgResp = 2"
definition msgCookie :: u32 where "msgCookie = 3"
definition msgTransport :: u32 where "msgTransport = 4"

definition sec :: int where "sec = 10 ^ 9"
definition rekeyAfterTime :: int where "rekeyAfterTime = 110 * sec"
definition rejectAfterTime :: int where "rejectAfterTime = 170 * sec"

record Params =
  pPrivateKey :: bytes
  pPeerPublicKey :: bytes
  pPresharedKey :: bytes
  pEndpoint :: string
  pMTU :: int
  pKeepalive :: int

record Diagnostics =
  RawRX :: u64
  WrongEndpoint :: u64
  ShortRX :: u64
  UnknownType :: u64
  NoSession :: u64
  AuthFail :: u64
  ReplayDrop :: u64
  InvalidInner :: u64
  PlainQHigh :: u64
  PlainDrop :: u64
  TransportRX :: u64
  TXDatagrams :: u64
  TXErrors :: u64

record session =
  localIndex :: u32
  remoteIndex :: u32
  sendKey :: bytes
  recvKey :: bytes
  sendCounter :: u64
  sReplay :: replay
  created :: int
  retiredAt :: "int option"
  aeadClosed :: bool

record Client =
  params :: Params
  localPorts :: "nat list"
  activePath :: u32
  endpoint :: udpAddr
  priv :: bytes
  pub :: bytes
  peerPub :: bytes
  psk :: bytes
  mac1Key :: bytes
  cookieKey :: bytes
  cookie :: bytes
  cookieAt :: "int option"
  respCh :: "bytes list"
  cookieCh :: "bytes list"
  heap :: "session list"
  sessions :: "u32 \<rightharpoonup> nat"
  current :: "nat option"
  plain :: "bytes list"
  isDone :: bool
  txBytes :: u64
  rxBytes :: u64
  lastHandshake :: int
  rekeying :: bool
  rekeyBase :: nat
  diag :: Diagnostics
  sent :: "(nat \<times> bytes) list"
  seals :: "(nat \<times> bytes) list"

definition sub :: "bytes \<Rightarrow> nat \<Rightarrow> nat \<Rightarrow> bytes" where
  "sub b i j = take (j - i) (drop i b)"

definition rbind :: "'e + 'a \<Rightarrow> ('a \<Rightarrow> 'e + 'b) \<Rightarrow> 'e + 'b" where
  "rbind m f = (case m of Inl e \<Rightarrow> Inl e | Inr x \<Rightarrow> f x)"

definition check :: "'e option \<Rightarrow> 'e + unit" where
  "check r = (case r of Some e \<Rightarrow> Inl e | None \<Rightarrow> Inr ())"

definition crypt :: "cerr + 'a \<Rightarrow> gerr + 'a" where
  "crypt r = map_sum ErrCipher id r"

definition upd_diag :: "(Diagnostics \<Rightarrow> Diagnostics) \<Rightarrow> Client \<Rightarrow> Client" where
  "upd_diag f c = c\<lparr>diag := f (diag c)\<rparr>"

section \<open>Construction and the two paths\<close>

definition str_bytes :: "string \<Rightarrow> bytes" where
  "str_bytes s = map (\<lambda>ch. word_of_nat (of_char ch)) s"

definition resolveEndpoint :: "(string \<Rightarrow> udpAddr option) \<Rightarrow> string \<Rightarrow> gerr + udpAddr" where
  "resolveEndpoint resolve s =
     (let s = TrimSpace s in
      if s = '''' then Inl ErrEmptyEndpoint
      else case resolve s of None \<Rightarrow> Inl ErrResolve | Some a \<Rightarrow> Inr a)"

definition zeroDiag :: Diagnostics where
  "zeroDiag = \<lparr>RawRX = 0, WrongEndpoint = 0, ShortRX = 0, UnknownType = 0, NoSession = 0, AuthFail = 0,
     ReplayDrop = 0, InvalidInner = 0, PlainQHigh = 0, PlainDrop = 0, TransportRX = 0, TXDatagrams = 0, TXErrors = 0\<rparr>"

text \<open>\<open>New\<close>: \<open>openPath\<close> opens and binds a UDP socket of the endpoint's family and gives its local port.\<close>

definition New :: "prims \<Rightarrow> (string \<Rightarrow> udpAddr option) \<Rightarrow> (nat \<Rightarrow> bool \<Rightarrow> nat option) \<Rightarrow> Params \<Rightarrow> gerr + Client" where
  "New pr resolve openPath prm =
     (if length (pPrivateKey prm) \<noteq> 32 then Inl ErrPrivKey
      else rbind (resolveEndpoint resolve (pEndpoint prm)) (\<lambda>ep.
        let v6 = \<not> Is4 (Unmap (fst ep)) in
        case openPath 0 v6 of None \<Rightarrow> Inl ErrOpenPath | Some port0 \<Rightarrow>
        case openPath 1 v6 of None \<Rightarrow> Inl ErrOpenPath | Some port1 \<Rightarrow>
        Inr \<lparr>params = prm, localPorts = [port0, port1], activePath = 0, endpoint = ep,
             priv = pPrivateKey prm, pub = pad_block 32 (publicKey pr (pPrivateKey prm)),
             peerPub = pPeerPublicKey prm, psk = pPresharedKey prm,
             mac1Key = Blake2s256 (str_bytes ''mac1----'' @ pPeerPublicKey prm),
             cookieKey = Blake2s256 (str_bytes ''cookie--'' @ pPeerPublicKey prm),
             cookie = replicate 16 0, cookieAt = None, respCh = [], cookieCh = [],
             heap = [], sessions = (\<lambda>_. None), current = None, plain = [], isDone = False,
             txBytes = 0, rxBytes = 0, lastHandshake = 0, rekeying = False, rekeyBase = 0, diag = zeroDiag,
             sent = [], seals = []\<rparr>))"

definition pathIndex :: "Client \<Rightarrow> nat" where
  "pathIndex c = unat (activePath c AND 1)"

definition LocalPort :: "Client \<Rightarrow> nat" where
  "LocalPort c = localPorts c ! pathIndex c"

definition StandbyPort :: "Client \<Rightarrow> nat" where
  "StandbyPort c = localPorts c ! unat ((activePath c AND 1) XOR 1)"

definition switchActivePath :: "Client \<Rightarrow> Client" where
  "switchActivePath c = (let old = activePath c AND 1; next_path = old XOR 1 in c\<lparr>activePath := next_path\<rparr>)"

text \<open>\<open>c.activeConn().WriteToUDP(msg, c.endpoint)\<close>.\<close>

definition writeActive :: "udp \<Rightarrow> bytes \<Rightarrow> Client \<Rightarrow> (gerr + nat) \<times> Client" where
  "writeActive udp msg c = (udp (pathIndex c) msg, c\<lparr>sent := sent c @ [(pathIndex c, msg)]\<rparr>)"

section \<open>The initiator's handshake messages\<close>

definition mixHash :: "bytes \<Rightarrow> bytes \<Rightarrow> bytes" where
  "mixHash h data = Blake2s256 (h @ data)"

definition u64be :: "u64 \<Rightarrow> bytes" where
  "u64be v = u32be (ucast (drop_bit 32 v)) @ u32be (ucast v)"

definition tai64n :: "int \<Rightarrow> bytes" where
  "tai64n now =
     (let nano = (word_of_int (now mod sec) :: u32) AND NOT (0x1000000 - 1)
      in u64be (0x400000000000000a + word_of_int (now div sec)) @ u32be nano)"

definition zeroNonce :: bytes where
  "zeroNonce = replicate 12 0"

record initState =
  sender :: u32
  epriv :: bytes
  chain :: bytes
  hash :: bytes
  mac1 :: bytes

text \<open>\<open>NewChaCha20Poly1305(key)\<close> followed by one \<open>Seal\<close> or \<open>Open\<close>.\<close>

definition sealNew :: "prims \<Rightarrow> bytes \<Rightarrow> bytes \<Rightarrow> bytes \<Rightarrow> bytes \<Rightarrow> cerr + bytes" where
  "sealNew pr key nonce pt aad = rbind (check (newAEAD pr key)) (\<lambda>_. aeadSeal pr key nonce pt aad)"

definition openNew :: "prims \<Rightarrow> bytes \<Rightarrow> bytes \<Rightarrow> bytes \<Rightarrow> bytes \<Rightarrow> cerr + bytes" where
  "openNew pr key nonce ct aad = rbind (check (newAEAD pr key)) (\<lambda>_. aeadOpen pr key nonce ct aad)"

definition ecdhR :: "prims \<Rightarrow> bytes \<Rightarrow> bytes \<Rightarrow> gerr + bytes" where
  "ecdhR pr k pk = (case ecdh pr k pk of None \<Rightarrow> Inl ErrECDH | Some s \<Rightarrow> Inr s)"

definition constructionHash :: bytes where
  "constructionHash = Blake2s256 (str_bytes ''Noise_IKpsk2_25519_ChaChaPoly_BLAKE2s'')"

definition identifierHash :: bytes where
  "identifierHash = mixHash constructionHash (str_bytes ''WireGuard v1 zx2c4 Jason@zx2c4.com'')"

text \<open>\<open>rnd\<close> is what \<open>rand.Read\<close> yields for the ephemeral key and for the sender index.\<close>

definition makeInitiation :: "prims \<Rightarrow> int \<Rightarrow> bytes option \<times> bytes option \<Rightarrow> Client \<Rightarrow> gerr + initState \<times> bytes" where
  "makeInitiation pr now rnd c =
     (case fst rnd of None \<Rightarrow> Inl ErrRand | Some eraw \<Rightarrow>
      if length eraw \<noteq> 32 then Inl ErrPrivKey else
      let epub = publicKey pr eraw;
          chain0 = constructionHash;
          hash0 = mixHash identifierHash (peerPub c);
          chain1 = KDF1 chain0 epub;
          hash1 = mixHash hash0 epub
      in rbind (ecdhR pr eraw (peerPub c)) (\<lambda>es.
      let (chain2, key2) = KDF2 chain1 es in
      rbind (crypt (sealNew pr key2 zeroNonce (pub c) hash1)) (\<lambda>encStatic.
      let hash2 = mixHash hash1 encStatic in
      rbind (ecdhR pr (priv c) (peerPub c)) (\<lambda>ss.
      let (chain3, key3) = KDF2 chain2 ss in
      rbind (crypt (sealNew pr key3 zeroNonce (tai64n now) hash2)) (\<lambda>encTS.
      let hash3 = mixHash hash2 encTS in
      (case snd rnd of None \<Rightarrow> Inl ErrRand | Some idxb \<Rightarrow>
       let snd0 = le32 idxb 0;
           sndr = (if snd0 = 0 then 1 else snd0);
           msg = u32le msgInit @ u32le sndr @ pad_block 32 epub @ pad_block 48 encStatic @ pad_block 28 encTS;
           m1 = Blake2s128Keyed (mac1Key c) msg;
           msg2 = msg @ m1;
           m2 = (case cookieAt c of
                   None \<Rightarrow> replicate 16 0
                 | Some t \<Rightarrow> if now - t < 120 * sec then Blake2s128Keyed (cookie c) msg2 else replicate 16 0)
       in Inr (\<lparr>sender = sndr, epriv = eraw, chain = chain3, hash = hash3, mac1 = m1\<rparr>, msg2 @ m2)))))))"

text \<open>
  \<open>consumeResponse\<close> is called on messages of \<open>respSize = 92\<close> bytes, so its slices are in range;
  the result is the session it allocates.
\<close>

definition consumeResponse :: "prims \<Rightarrow> int \<Rightarrow> Client \<Rightarrow> initState \<Rightarrow> bytes \<Rightarrow> gerr + session" where
  "consumeResponse pr now c st msg =
     (let k = Blake2s256 (str_bytes ''mac1----'' @ pub c);
          want = Blake2s128Keyed k (sub msg 0 60)
      in if want \<noteq> sub msg 60 76 then Inl ErrMAC1
      else
      let remote = le32 msg 4;
          rep = sub msg 12 44;
          chain1 = KDF1 (chain st) rep;
          hash1 = mixHash (hash st) rep
      in rbind (ecdhR pr (epriv st) rep) (\<lambda>ee.
      let chain2 = KDF1 chain1 ee in
      rbind (ecdhR pr (priv c) rep) (\<lambda>se.
      let chain3 = KDF1 chain2 se;
          (chain4, tau, key) = KDF3 chain3 (psk c);
          hash2 = mixHash hash1 tau
      in rbind (crypt (check (newAEAD pr key))) (\<lambda>_.
      case aeadOpen pr key zeroNonce (sub msg 44 60) hash2 of
        Inl _ \<Rightarrow> Inl ErrRespAuth
      | Inr plain0 \<Rightarrow>
        if length plain0 \<noteq> 0 then Inl ErrRespAuth
        else
        let (sendK, recvK) = KDF2 chain4 [] in
        rbind (crypt (check (newAEAD pr sendK))) (\<lambda>_.
        rbind (crypt (check (newAEAD pr recvK))) (\<lambda>_.
        Inr \<lparr>localIndex = sender st, remoteIndex = remote, sendKey = sendK, recvKey = recvK, sendCounter = 0,
             sReplay = newReplay, created = now, retiredAt = None, aeadClosed = False\<rparr>))))))"

definition consumeCookie :: "prims \<Rightarrow> int \<Rightarrow> initState \<Rightarrow> bytes \<Rightarrow> Client \<Rightarrow> gerr + Client" where
  "consumeCookie pr now st msg c =
     (case xOpen (openNew pr) (cookieKey c) (sub msg 8 32) (sub msg 32 64) (mac1 st) of
        Inl _ \<Rightarrow> Inl ErrCookie
      | Inr pl \<Rightarrow> if length pl \<noteq> 16 then Inl ErrCookie else Inr (c\<lparr>cookie := pl, cookieAt := Some now\<rparr>))"

text \<open>\<open>installSession\<close>, with the allocation of the session that \<open>consumeResponse\<close> returned.\<close>

definition installSession :: "int \<Rightarrow> session \<Rightarrow> Client \<Rightarrow> nat \<times> Client" where
  "installSession now s c =
     (let ref = length (heap c);
          h = (case current c of
                 Some r \<Rightarrow> if retiredAt (heap c ! r) = None then (heap c)[r := (heap c ! r)\<lparr>retiredAt := Some now\<rparr>] else heap c
               | None \<Rightarrow> heap c)
      in (ref, c\<lparr>heap := h @ [s], sessions := (sessions c)(localIndex s \<mapsto> ref), current := Some ref\<rparr>))"

section \<open>Receiving\<close>

definition sameEndpoint :: "udpAddr \<Rightarrow> udpAddr \<Rightarrow> bool" where
  "sameEndpoint a b \<longleftrightarrow> snd a = snd b \<and> Unmap (fst a) = Unmap (fst b)"

definition transportNonce :: "u64 \<Rightarrow> bytes" where
  "transportNonce counter = replicate 4 0 @ u64le counter"

text \<open>The last \<open>select\<close> of \<open>handleTransport\<close>; \<open>pick\<close> is its choice when two cases are ready.\<close>

definition deliver :: "bool \<Rightarrow> bytes \<Rightarrow> Client \<Rightarrow> Client" where
  "deliver pick b c =
     (let room = length (plain c) < 8192 in
      if room \<and> (isDone c \<longrightarrow> pick) then c\<lparr>plain := plain c @ [b]\<rparr>
      else if isDone c then c
      else upd_diag (\<lambda>d. d\<lparr>PlainDrop := PlainDrop d + 1\<rparr>) c)"

definition set_session :: "nat \<Rightarrow> (session \<Rightarrow> session) \<Rightarrow> Client \<Rightarrow> Client" where
  "set_session r f c = c\<lparr>heap := (heap c)[r := f (heap c ! r)]\<rparr>"

definition handleTransport :: "prims \<Rightarrow> bool \<Rightarrow> bytes \<Rightarrow> Client \<Rightarrow> Client go" where
  "handleTransport pr pick raw c =
     (if length raw < 32 then Some (upd_diag (\<lambda>d. d\<lparr>ShortRX := ShortRX d + 1\<rparr>) c)
      else
      let ix = le32 raw 4; counter = le64 raw 8 in
      case sessions c ix of
        None \<Rightarrow> Some (upd_diag (\<lambda>d. d\<lparr>NoSession := NoSession d + 1\<rparr>) c)
      | Some r \<Rightarrow>
        (case aeadOpen pr (recvKey (heap c ! r)) (transportNonce counter) (drop 16 raw) [] of
           Inl _ \<Rightarrow> Some (upd_diag (\<lambda>d. d\<lparr>AuthFail := AuthFail d + 1\<rparr>) c)
         | Inr pl \<Rightarrow> do {
             (ok, rp) \<leftarrow> Accept counter (sReplay (heap c ! r));
             let c = set_session r (\<lambda>s. s\<lparr>sReplay := rp\<rparr>) c;
             if \<not> ok then Some (upd_diag (\<lambda>d. d\<lparr>ReplayDrop := ReplayDrop d + 1\<rparr>) c)
             else do {
               pl \<leftarrow> TrimToIPLength pl;
               if length pl = 0 \<or> (drop_bit 4 (pl ! 0) \<noteq> 4 \<and> drop_bit 4 (pl ! 0) \<noteq> 6)
               then Some (upd_diag (\<lambda>d. d\<lparr>InvalidInner := InvalidInner d + 1\<rparr>) c)
               else
                 let c = c\<lparr>rxBytes := rxBytes c + word_of_nat (length raw)\<rparr>;
                     c = upd_diag (\<lambda>d. d\<lparr>TransportRX := TransportRX d + 1,
                           PlainQHigh := max (PlainQHigh d) (word_of_nat (length (plain c)))\<rparr>) c
                 in Some (deliver pick pl c)
             }
           }))"

text \<open>One turn of the loop of \<open>reader\<close>, for a datagram \<open>raw\<close> received from \<open>frm\<close>.\<close>

definition readStep :: "prims \<Rightarrow> bool \<Rightarrow> udpAddr \<Rightarrow> bytes \<Rightarrow> Client \<Rightarrow> Client go" where
  "readStep pr pick frm raw c =
     (let c = upd_diag (\<lambda>d. d\<lparr>RawRX := RawRX d + 1\<rparr>) c in
      if \<not> sameEndpoint frm (endpoint c) then Some (upd_diag (\<lambda>d. d\<lparr>WrongEndpoint := WrongEndpoint d + 1\<rparr>) c)
      else if length raw < 4 then Some (upd_diag (\<lambda>d. d\<lparr>ShortRX := ShortRX d + 1\<rparr>) c)
      else
        let ty = le32 raw 0 in
        if ty = msgResp then Some (if length (respCh c) < 8 then c\<lparr>respCh := respCh c @ [raw]\<rparr> else c)
        else if ty = msgCookie then Some (if length (cookieCh c) < 8 then c\<lparr>cookieCh := cookieCh c @ [raw]\<rparr> else c)
        else if ty = msgTransport then handleTransport pr pick raw c
        else Some (upd_diag (\<lambda>d. d\<lparr>UnknownType := UnknownType d + 1\<rparr>) c))"

section \<open>The handshake\<close>

text \<open>
  The events a handshake sees while it waits: the reader handles a datagram, the \<open>select\<close> takes a
  message from \<open>respCh\<close> or \<open>cookieCh\<close>, the attempt's timer fires, the context ends, or the client is
  closed. A case whose channel is empty is not ready and changes nothing. When the events run out
  the handshake still waits, which is the result \<open>None\<close>.
\<close>

datatype hsEvent = HsNet bool udpAddr bytes | HsResp int | HsCookie int | HsTimer | HsCtx | HsDone

datatype waitEnd = WaitSession nat | WaitCookie | WaitTimeout | WaitErr gerr

definition on_response :: "prims \<Rightarrow> int \<Rightarrow> initState \<Rightarrow> bytes \<Rightarrow> Client \<Rightarrow> (nat \<times> Client) option" where
  "on_response pr now st raw c =
     (if length raw = 92 \<and> le32 raw 8 = sender st then
        case consumeResponse pr now c st raw of
          Inl _ \<Rightarrow> None
        | Inr s \<Rightarrow> let (ref, c) = installSession now s c in Some (ref, c\<lparr>lastHandshake := now\<rparr>)
      else None)"

definition on_cookie :: "prims \<Rightarrow> int \<Rightarrow> initState \<Rightarrow> bytes \<Rightarrow> Client \<Rightarrow> Client option" where
  "on_cookie pr now st raw c =
     (if length raw = 64 \<and> le32 raw 4 = sender st then
        case consumeCookie pr now st raw c of Inl _ \<Rightarrow> None | Inr c \<Rightarrow> Some c
      else None)"

fun wait_loop :: "prims \<Rightarrow> initState \<Rightarrow> hsEvent list \<Rightarrow> Client \<Rightarrow> (waitEnd \<times> Client \<times> hsEvent list) option" where
  "wait_loop pr st [] c = None"
| "wait_loop pr st (HsNet pick frm raw # evs) c = do { c \<leftarrow> readStep pr pick frm raw c; wait_loop pr st evs c }"
| "wait_loop pr st (HsResp now # evs) c =
     (case respCh c of [] \<Rightarrow> wait_loop pr st evs c
      | raw # rest \<Rightarrow> let c = c\<lparr>respCh := rest\<rparr> in
        (case on_response pr now st raw c of
           Some (s, c) \<Rightarrow> Some (WaitSession s, c, evs)
         | None \<Rightarrow> wait_loop pr st evs c))"
| "wait_loop pr st (HsCookie now # evs) c =
     (case cookieCh c of [] \<Rightarrow> wait_loop pr st evs c
      | raw # rest \<Rightarrow> let c = c\<lparr>cookieCh := rest\<rparr> in
        (case on_cookie pr now st raw c of
           Some c \<Rightarrow> Some (WaitCookie, c, evs)
         | None \<Rightarrow> wait_loop pr st evs c))"
| "wait_loop pr st (HsTimer # evs) c = Some (WaitTimeout, c, evs)"
| "wait_loop pr st (HsCtx # evs) c = Some (WaitErr ErrCtx, c, evs)"
| "wait_loop pr st (HsDone # evs) c = Some (WaitErr ErrClosed, c, evs)"

text \<open>The attempts: \<open>n\<close> are left, \<open>to\<close> is \<open>timeoutsOnPath\<close>; \<open>rnds\<close> gives clock and random bytes of each attempt.\<close>

definition after_timeout :: "nat \<Rightarrow> Client \<Rightarrow> nat \<times> Client" where
  "after_timeout touts c = (let touts = touts + 1 in if touts = 3 then (0, switchActivePath c) else (touts, c))"

fun attempts :: "prims \<Rightarrow> udp \<Rightarrow> (nat \<Rightarrow> int \<times> bytes option \<times> bytes option) \<Rightarrow> nat \<Rightarrow> nat \<Rightarrow> hsEvent list \<Rightarrow> Client
    \<Rightarrow> ((gerr + nat) \<times> Client \<times> hsEvent list) option" where
  "attempts pr udp rnds 0 touts evs c = Some (Inl ErrTimeout, c, evs)"
| "attempts pr udp rnds (Suc n) touts evs c =
     (case makeInitiation pr (fst (rnds n)) (snd (rnds n)) c of
        Inl e \<Rightarrow> Some (Inl e, c, evs)
      | Inr (st, msg) \<Rightarrow>
        (case writeActive udp msg c of
           (Inl e, c) \<Rightarrow> Some (Inl e, c, evs)
         | (Inr _, c) \<Rightarrow> do {
             (w, c, evs) \<leftarrow> wait_loop pr st evs c;
             (case w of
                WaitSession s \<Rightarrow> Some (Inr s, c, evs)
              | WaitErr e \<Rightarrow> Some (Inl e, c, evs)
              | WaitCookie \<Rightarrow> attempts pr udp rnds n 0 evs c
              | WaitTimeout \<Rightarrow> (let (touts, c) = after_timeout touts c in attempts pr udp rnds n touts evs c))
           }))"

definition handshake :: "prims \<Rightarrow> udp \<Rightarrow> (nat \<Rightarrow> int \<times> bytes option \<times> bytes option) \<Rightarrow> hsEvent list \<Rightarrow> Client
    \<Rightarrow> ((gerr + nat) \<times> Client \<times> hsEvent list) option" where
  "handshake pr udp rnds evs c = attempts pr udp rnds 5 0 evs c"

section \<open>Sessions and sending\<close>

definition sessionUsable :: "session option \<Rightarrow> int \<Rightarrow> bool \<times> bool" where
  "sessionUsable s now =
     (case s of None \<Rightarrow> (False, False)
      | Some s \<Rightarrow>
        if sendCounter s \<ge> push_bit 60 1 then (False, False)
        else
          let age = now - created s; age = (if age < 0 then 0 else age) in
          if age \<ge> rejectAfterTime then (False, False)
          else (True, age \<ge> rekeyAfterTime))"

definition currentSession :: "Client \<Rightarrow> session option" where
  "currentSession c = map_option (\<lambda>r. heap c ! r) (current c)"

text \<open>
  \<open>startBackgroundRekey\<close> marks the rekey and starts a goroutine that captures \<open>base\<close>, here in
  \<open>rekeyBase\<close>; \<open>backgroundRekey\<close> is the body of that goroutine.
\<close>

definition startBackgroundRekey :: "nat \<Rightarrow> Client \<Rightarrow> Client" where
  "startBackgroundRekey base c = (if rekeying c then c else c\<lparr>rekeying := True, rekeyBase := base\<rparr>)"

definition backgroundRekey :: "prims \<Rightarrow> udp \<Rightarrow> (nat \<Rightarrow> int \<times> bytes option \<times> bytes option) \<Rightarrow> hsEvent list \<Rightarrow> int \<Rightarrow> Client
    \<Rightarrow> Client option" where
  "backgroundRekey pr udp rnds evs now c =
     (if isDone c then Some (c\<lparr>rekeying := False\<rparr>)
      else if current c \<noteq> None \<and> current c \<noteq> Some (rekeyBase c) \<and> sessionUsable (currentSession c) now = (True, False)
      then Some (c\<lparr>rekeying := False\<rparr>)
      else do {
        (res, c, evs) \<leftarrow> handshake pr udp rnds evs c;
        Some (c\<lparr>rekeying := False\<rparr>)
      })"

definition ensureSession :: "prims \<Rightarrow> udp \<Rightarrow> (nat \<Rightarrow> int \<times> bytes option \<times> bytes option) \<Rightarrow> hsEvent list \<Rightarrow> int \<Rightarrow> Client
    \<Rightarrow> ((gerr + nat) \<times> Client) option" where
  "ensureSession pr udp rnds evs now c =
     (case (current c, sessionUsable (currentSession c) now) of
        (Some r, True, rekey) \<Rightarrow> Some (Inr r, if rekey then startBackgroundRekey r c else c)
      | _ \<Rightarrow> do { (res, c, evs) \<leftarrow> handshake pr udp rnds evs c; Some (res, c) })"

definition SendPacket :: "prims \<Rightarrow> udp \<Rightarrow> (nat \<Rightarrow> int \<times> bytes option \<times> bytes option) \<Rightarrow> hsEvent list \<Rightarrow> int \<Rightarrow> bytes \<Rightarrow> Client
    \<Rightarrow> (gerr option \<times> Client) option" where
  "SendPacket pr udp rnds evs now raw c =
     (if length raw > 0 \<and> pMTU (params c) > 0 \<and> int (length raw) > pMTU (params c)
      then Some (Some ErrTooBig, upd_diag (\<lambda>d. d\<lparr>TXErrors := TXErrors d + 1\<rparr>) c)
      else do {
        (res, c) \<leftarrow> ensureSession pr udp rnds evs now c;
        case res of Inl e \<Rightarrow> Some (Some e, c)
        | Inr r \<Rightarrow>
          let s = heap c ! r;
              padded = Pad16 raw;
              counter = sendCounter s;
              nonce = transportNonce counter;
              c = set_session r (\<lambda>s. s\<lparr>sendCounter := sendCounter s + 1\<rparr>) c;
              c = c\<lparr>seals := seals c @ [(r, nonce)]\<rparr>
          in case aeadSeal pr (sendKey s) nonce padded [] of
               Inl e \<Rightarrow> Some (Some (ErrCipher e), c)
             | Inr sealed \<Rightarrow>
               let out = u32le msgTransport @ u32le (remoteIndex s) @ u64le counter @ sealed in
               (case writeActive udp out c of
                  (Inr n, c) \<Rightarrow> Some (None, upd_diag (\<lambda>d. d\<lparr>TXDatagrams := TXDatagrams d + 1\<rparr>)
                     (c\<lparr>txBytes := txBytes c + word_of_nat n\<rparr>))
                | (Inl e, c) \<Rightarrow> Some (Some e, upd_diag (\<lambda>d. d\<lparr>TXErrors := TXErrors d + 1\<rparr>) c))
      })"

section \<open>Timers and shutdown\<close>

definition keepaliveTick :: "prims \<Rightarrow> udp \<Rightarrow> (nat \<Rightarrow> int \<times> bytes option \<times> bytes option) \<Rightarrow> hsEvent list \<Rightarrow> int \<Rightarrow> Client \<Rightarrow> Client option" where
  "keepaliveTick pr udp rnds evs now c =
     (if current c \<noteq> None then map_option snd (SendPacket pr udp rnds evs now [] c) else Some c)"

definition reapable :: "int \<Rightarrow> Client \<Rightarrow> nat \<Rightarrow> bool" where
  "reapable now c r \<longleftrightarrow> current c \<noteq> Some r \<and>
     (case retiredAt (heap c ! r) of None \<Rightarrow> False | Some t \<Rightarrow> now - t > 180 * sec)"

definition closeAll :: "(nat \<Rightarrow> bool) \<Rightarrow> session list \<Rightarrow> session list" where
  "closeAll P h = map (\<lambda>r. if P r then (h ! r)\<lparr>aeadClosed := True\<rparr> else h ! r) [0..<length h]"

text \<open>One tick of \<open>reaper\<close>: the sessions of the map that are reapable are closed and deleted.\<close>

definition reaperTick :: "int \<Rightarrow> Client \<Rightarrow> Client" where
  "reaperTick now c =
     (let dead = (\<lambda>r. reapable now c r \<and> sessions c (localIndex (heap c ! r)) = Some r)
      in c\<lparr>heap := closeAll dead (heap c),
           sessions := (\<lambda>ix. case sessions c ix of None \<Rightarrow> None | Some r \<Rightarrow> if reapable now c r then None else Some r)\<rparr>)"

text \<open>\<open>Close\<close>: once.\<close>

definition Close :: "Client \<Rightarrow> Client" where
  "Close c =
     (if isDone c then c
      else c\<lparr>isDone := True,
             heap := closeAll (\<lambda>r. sessions c (localIndex (heap c ! r)) = Some r) (heap c),
             sessions := (\<lambda>_. None), current := None\<rparr>)"


end
