(* ===== verification/Wireguard_Inv.thy ===== *)
theory Wireguard_Inv
  imports Wireguard
begin

unbundle bit_operations_syntax

text \<open>
  Invariants of the WireGuard client over every sequence of steps: the session map and the current
  session, the send counters and the replay windows, the bounds of the queues. \<open>good c c'\<close> says that
  a step from \<open>c\<close> to \<open>c'\<close> keeps the invariant \<open>cinv\<close> and that every session only advances
  (\<open>sess_adv\<close>: keys and indices fixed, counter and set of accepted counters growing).
\<close>

section \<open>The step relation\<close>

text \<open>The steps of a running client, in any order: calls of its methods and turns of its goroutines.\<close>

inductive cstep :: "prims \<Rightarrow> Client \<Rightarrow> Client \<Rightarrow> bool" for pr where
  Send: "SendPacket pr udp rnds evs now raw c = Some (res, c') \<Longrightarrow> cstep pr c c'"
| Read: "readStep pr pick frm raw c = Some c' \<Longrightarrow> cstep pr c c'"
| Rekey: "rekeying c \<Longrightarrow> backgroundRekey pr udp rnds evs now c = Some c' \<Longrightarrow> cstep pr c c'"
| Keepalive: "keepaliveTick pr udp rnds evs now c = Some c' \<Longrightarrow> cstep pr c c'"
| Reap: "cstep pr c (reaperTick now c)"
| TakePlain: "plain c = b # bs \<Longrightarrow> cstep pr c (c\<lparr>plain := bs\<rparr>)"
| CloseClient: "cstep pr c (Close c)"

section \<open>Invariant and progress of the sessions\<close>

definition cinv :: "Client \<Rightarrow> bool" where
  "cinv c \<longleftrightarrow>
     (\<forall>r. current c = Some r \<longrightarrow> r < length (heap c) \<and> sessions c (localIndex (heap c ! r)) = Some r) \<and>
     (\<forall>ix r. sessions c ix = Some r \<longrightarrow> r < length (heap c) \<and> localIndex (heap c ! r) = ix \<and> \<not> aeadClosed (heap c ! r)) \<and>
     (\<forall>s \<in> set (heap c). unat (sendCounter s) \<le> 2 ^ 60 \<and> (\<exists>S. rep (sReplay s) S)) \<and>
     distinct (seals c) \<and>
     (\<forall>(r, n) \<in> set (seals c). r < length (heap c) \<and>
        (\<exists>k. n = transportNonce k \<and> unat k < unat (sendCounter (heap c ! r)))) \<and>
     length (plain c) \<le> 8192 \<and> length (respCh c) \<le> 8 \<and> length (cookieCh c) \<le> 8"

definition sess_adv :: "session \<Rightarrow> session \<Rightarrow> bool" where
  "sess_adv s s' \<longleftrightarrow> localIndex s' = localIndex s \<and> remoteIndex s' = remoteIndex s \<and>
     sendKey s' = sendKey s \<and> recvKey s' = recvKey s \<and> created s' = created s \<and>
     sendCounter s \<le> sendCounter s' \<and>
     (\<forall>S. rep (sReplay s) S \<longrightarrow> (\<exists>S'. S \<subseteq> S' \<and> rep (sReplay s') S'))"

definition adv :: "Client \<Rightarrow> Client \<Rightarrow> bool" where
  "adv c c' \<longleftrightarrow> length (heap c) \<le> length (heap c') \<and>
     (\<forall>r < length (heap c). sess_adv (heap c ! r) (heap c' ! r))"

lemma sess_adv_refl [simp]: "sess_adv s s"
  by (auto simp: sess_adv_def)

lemma sess_adv_trans: "sess_adv a b \<Longrightarrow> sess_adv b c \<Longrightarrow> sess_adv a c"
  unfolding sess_adv_def by (auto intro: order_trans) (meson order_trans)

lemma adv_refl [simp]: "adv c c"
  by (simp add: adv_def)

lemma adv_trans: "adv a b \<Longrightarrow> adv b c \<Longrightarrow> adv a c"
  unfolding adv_def by (meson sess_adv_trans order_trans less_le_trans)

definition good :: "Client \<Rightarrow> Client \<Rightarrow> bool" where
  "good c c' \<longleftrightarrow> (cinv c \<longrightarrow> cinv c' \<and> adv c c')"

lemma good_refl [simp]: "good c c"
  by (simp add: good_def)

lemma good_trans: "good a b \<Longrightarrow> good b c \<Longrightarrow> good a c"
  unfolding good_def using adv_trans by blast

text \<open>Steps that leave the sessions alone.\<close>

lemma good_same:
  assumes "heap c' = heap c" "sessions c' = sessions c" "current c' = current c" "seals c' = seals c"
    "length (plain c') \<le> max 8192 (length (plain c))" "length (respCh c') \<le> max 8 (length (respCh c))" "length (cookieCh c') \<le> max 8 (length (cookieCh c))"
  shows "good c c'"
  using assms by (auto simp: good_def cinv_def adv_def)

lemma good_diag [simp]: "good c (upd_diag f c)"
  by (rule good_same) (simp_all add: upd_diag_def)

lemma good_set_session:
  assumes r: "cinv c \<Longrightarrow> r < length (heap c)"
    and a: "cinv c \<Longrightarrow> sess_adv (heap c ! r) (f (heap c ! r))"
    and b: "cinv c \<Longrightarrow> unat (sendCounter (f (heap c ! r))) \<le> 2 ^ 60" "aeadClosed (f (heap c ! r)) = aeadClosed (heap c ! r)"
  shows "good c (set_session r f c)"
  unfolding good_def
proof
  assume i: "cinv c"
  note rl = r [OF i] and ad = a [OF i] and b1 = b(1) [OF i]
  let ?h = "(heap c)[r := f (heap c ! r)]"
  have n: "sess_adv (heap c ! q) (?h ! q)" if "q < length (heap c)" for q
    using ad rl that by (cases "q = r") auto
  have cl: "aeadClosed (?h ! q) = aeadClosed (heap c ! q)" if "q < length (heap c)" for q
    using b(2) rl that by (cases "q = r") auto
  have li: "localIndex (?h ! q) = localIndex (heap c ! q)" and sc: "sendCounter (heap c ! q) \<le> sendCounter (?h ! q)"
    if "q < length (heap c)" for q using n [OF that] by (simp_all add: sess_adv_def)
  have rp: "\<exists>S. rep (sReplay (f (heap c ! r))) S"
    using ad i rl unfolding sess_adv_def cinv_def by (metis nth_mem)
  have all: "unat (sendCounter s) \<le> 2 ^ 60 \<and> (\<exists>S. rep (sReplay s) S)" if "s \<in> set ?h" for s
  proof -
    from that have "s = f (heap c ! r) \<or> s \<in> set (heap c)" using set_update_subset_insert by fastforce
    then show ?thesis using b1 rp i by (auto simp: cinv_def)
  qed
  have "\<forall>r. current c = Some r \<longrightarrow> r < length (heap c) \<and> sessions c (localIndex (?h ! r)) = Some r"
    using i li by (auto simp: cinv_def)
  moreover have "\<forall>ix r. sessions c ix = Some r \<longrightarrow> r < length (heap c) \<and> localIndex (?h ! r) = ix \<and> \<not> aeadClosed (?h ! r)"
    using i li cl by (auto simp: cinv_def)
  moreover have "\<forall>(r, n) \<in> set (seals c). r < length (heap c) \<and> (\<exists>k. n = transportNonce k \<and> unat k < unat (sendCounter (?h ! r)))"
  proof clarify
    fix q n
    assume "(q, n) \<in> set (seals c)"
    then obtain k where k: "q < length (heap c)" "n = transportNonce k" "unat k < unat (sendCounter (heap c ! q))"
      using i by (auto simp: cinv_def)
    with sc [OF k(1)] have "unat k < unat (sendCounter (?h ! q))" by (simp add: word_le_nat_alt)
    with k show "q < length (heap c) \<and> (\<exists>k. n = transportNonce k \<and> unat k < unat (sendCounter (?h ! q)))" by auto
  qed
  moreover have "distinct (seals c)" "length (plain c) \<le> 8192" "length (respCh c) \<le> 8" "length (cookieCh c) \<le> 8"
    using i by (simp_all add: cinv_def)
  ultimately have "cinv (set_session r f c)"
    using all by (auto simp: cinv_def set_session_def)
  moreover have "adv c (set_session r f c)" using n by (simp add: adv_def set_session_def)
  ultimately show "cinv (set_session r f c) \<and> adv c (set_session r f c)" ..
qed

lemma good_deliver [simp]: "good c (deliver pick b c)"
  by (auto simp: deliver_def Let_def intro: good_same)

lemma Accept_adv: "rep r S \<Longrightarrow> Accept n r = Some (ok, r') \<Longrightarrow>
    rep r' (if window_accepts (unat n) S then insert (unat n) S else S) \<and> ok = window_accepts (unat n) S"
  using Accept_refines [of r S n] by auto

lemma good_accept:
  assumes "Accept n (sReplay (heap c ! r)) = Some (ok, rp)" and "cinv c \<Longrightarrow> r < length (heap c)"
  shows "good c (set_session r (\<lambda>s. s\<lparr>sReplay := rp\<rparr>) c)"
proof (rule good_set_session)
  assume i: "cinv c"
  have "\<exists>S'. S \<subseteq> S' \<and> rep rp S'" if "rep (sReplay (heap c ! r)) S" for S
    using Accept_adv [OF that assms(1)] by (metis subset_insertI subset_refl)
  then show "sess_adv (heap c ! r) ((heap c ! r)\<lparr>sReplay := rp\<rparr>)" by (simp add: sess_adv_def)
  show "unat (sendCounter ((heap c ! r)\<lparr>sReplay := rp\<rparr>)) \<le> 2 ^ 60"
    using i assms(2) [OF i] by (auto simp: cinv_def)
qed (use assms(2) in simp_all)


lemma good_handleTransport: "handleTransport pr pick raw c = Some c' \<Longrightarrow> good c c'"
proof -
  assume h: "handleTransport pr pick raw c = Some c'"
  show ?thesis
  proof (cases "length raw < 32")
    case True
    with h show ?thesis by (auto simp: handleTransport_def)
  next
    case False
    show ?thesis
    proof (cases "sessions c (le32 raw 4)")
      case None
      with h False show ?thesis by (auto simp: handleTransport_def)
    next
      case (Some r)
      show ?thesis
      proof (cases "aeadOpen pr (recvKey (heap c ! r)) (transportNonce (le64 raw 8)) (drop 16 raw) []")
        case (Inl e)
        with h False Some show ?thesis by (auto simp: handleTransport_def)
      next
        case (Inr pl)
        then obtain ok rp where a: "Accept (le64 raw 8) (sReplay (heap c ! r)) = Some (ok, rp)"
          using h False Some by (auto simp: handleTransport_def Option.bind_eq_Some_conv split: prod.splits)
        let ?c = "set_session r (\<lambda>s. s\<lparr>sReplay := rp\<rparr>) c"
        have "cinv c \<Longrightarrow> r < length (heap c)" using Some by (auto simp: cinv_def)
        then have g: "good c ?c" by (rule good_accept [OF a])
        have "good ?c c'"
          using h False Some Inr a
          by (auto simp: handleTransport_def Option.bind_eq_Some_conv Let_def split: if_splits
              intro!: good_trans [OF _ good_deliver] good_trans [OF _ good_diag] good_same)
        with g show ?thesis by (rule good_trans)
      qed
    qed
  qed
qed

lemma good_readStep: "readStep pr pick frm raw c = Some c' \<Longrightarrow> good c c'"
proof -
  assume h: "readStep pr pick frm raw c = Some c'"
  let ?c = "upd_diag (\<lambda>d. d\<lparr>RawRX := RawRX d + 1\<rparr>) c"
  have "good ?c c'" using h
    by (auto simp: readStep_def Let_def good_handleTransport split: if_splits intro: good_same)
  then show ?thesis by (rule good_trans [OF good_diag])
qed

lemma consumeResponse_fresh:
  "consumeResponse pr now c st msg = Inr s \<Longrightarrow>
    sendCounter s = 0 \<and> sReplay s = newReplay \<and> \<not> aeadClosed s \<and> localIndex s = sender st"
  by (auto simp: consumeResponse_def Let_def rbind_def split: if_splits sum.splits prod.splits)

lemma good_installSession:
  assumes s: "sendCounter s = 0" "sReplay s = newReplay" "\<not> aeadClosed s"
  shows "good c (snd (installSession now s c))"
  unfolding good_def
proof
  assume i: "cinv c"
  obtain h where c': "snd (installSession now s c) =
      c\<lparr>heap := h @ [s], sessions := (sessions c)(localIndex s \<mapsto> length (heap c)), current := Some (length (heap c))\<rparr>"
    and len: "length h = length (heap c)"
    and same: "\<And>r. r < length (heap c) \<Longrightarrow> h ! r = heap c ! r \<or> (\<exists>t. h ! r = (heap c ! r)\<lparr>retiredAt := t\<rparr>)"
  proof -
    let ?h = "case current c of
        Some r \<Rightarrow> if retiredAt (heap c ! r) = None then (heap c)[r := (heap c ! r)\<lparr>retiredAt := Some now\<rparr>] else heap c
      | None \<Rightarrow> heap c"
    have "?h ! q = heap c ! q \<or> (\<exists>t. ?h ! q = (heap c ! q)\<lparr>retiredAt := t\<rparr>)" if "q < length (heap c)" for q
      using that by (cases "current c"; cases "current c = Some q") (auto simp: nth_list_update)
    moreover have "length ?h = length (heap c)" by (auto split: option.splits)
    ultimately show ?thesis using that [of ?h] by (simp add: installSession_def Let_def)
  qed
  have f: "sess_adv (heap c ! r) (h ! r)" "localIndex (h ! r) = localIndex (heap c ! r)" "sendCounter (h ! r) = sendCounter (heap c ! r)"
    "sReplay (h ! r) = sReplay (heap c ! r)" "aeadClosed (h ! r) = aeadClosed (heap c ! r)" if "r < length (heap c)" for r
    using same [OF that] by (auto simp: sess_adv_def)
  have set_h: "unat (sendCounter x) \<le> 2 ^ 60 \<and> (\<exists>S. rep (sReplay x) S)" if "x \<in> set h" for x
  proof -
    from that len obtain r where "r < length (heap c)" "x = h ! r" by (metis in_set_conv_nth)
    moreover from this i have "unat (sendCounter (heap c ! r)) \<le> 2 ^ 60 \<and> (\<exists>S. rep (sReplay (heap c ! r)) S)"
      unfolding cinv_def by (meson nth_mem)
    ultimately show ?thesis using f by simp
  qed
  have q: "distinct (seals c)" "length (plain c) \<le> 8192" "length (respCh c) \<le> 8" "length (cookieCh c) \<le> 8"
    using i unfolding cinv_def by blast+
  have "cinv (snd (installSession now s c))"
    unfolding cinv_def c'
  proof (simp, intro conjI allI impI ballI)
    fix ix r
    assume "ix \<noteq> localIndex s" "sessions c ix = Some r"
    then have "r < length (heap c)" "localIndex (heap c ! r) = ix" "\<not> aeadClosed (heap c ! r)"
      using i unfolding cinv_def by blast+
    then show "r < Suc (length h)" "localIndex ((h @ [s]) ! r) = ix" "\<not> aeadClosed ((h @ [s]) ! r)"
      using len f by (simp_all add: nth_append)
  next
    fix x
    assume x: "x \<in> set (seals c)"
    obtain r n where rn: "x = (r, n)" by force
    with x i obtain k where k: "r < length (heap c)" "n = transportNonce k" "unat k < unat (sendCounter (heap c ! r))"
      unfolding cinv_def by blast
    then show "case x of (r, n) \<Rightarrow> r < Suc (length h) \<and> (\<exists>k. n = transportNonce k \<and> unat k < unat (sendCounter ((h @ [s]) ! r)))"
      using len f rn by (auto simp: nth_append)
  qed (use q len s set_h rep_new in \<open>auto simp: nth_append\<close>)
  moreover have "adv c (snd (installSession now s c))"
    using f len by (auto simp: adv_def c' nth_append)
  ultimately show "cinv (snd (installSession now s c)) \<and> adv c (snd (installSession now s c))" ..
qed

lemma on_response_good:
  assumes "on_response pr now st raw c = Some (r, c')"
  shows "good c c' \<and> r < length (heap c') \<and> sendCounter (heap c' ! r) = 0 \<and> current c' = Some r"
proof -
  from assms obtain s where s: "consumeResponse pr now c st raw = Inr s"
    and rc: "r = fst (installSession now s c)" "c' = (snd (installSession now s c))\<lparr>lastHandshake := now\<rparr>"
    by (auto simp: on_response_def split: if_splits sum.splits prod.splits)
  note f = consumeResponse_fresh [OF s]
  have "good c (snd (installSession now s c))" using f by (intro good_installSession) auto
  then have "good c c'" unfolding rc by (rule good_trans) (rule good_same, simp_all)
  moreover have "r < length (heap c') \<and> sendCounter (heap c' ! r) = 0 \<and> current c' = Some r"
    using f by (auto simp: rc installSession_def Let_def nth_append split: option.splits)
  ultimately show ?thesis by blast
qed

lemma on_cookie_good: "on_cookie pr now st raw c = Some c' \<Longrightarrow> good c c'"
  by (auto simp: on_cookie_def consumeCookie_def split: if_splits sum.splits intro: good_same)

definition fresh_for :: "(gerr + nat) \<Rightarrow> Client \<Rightarrow> bool" where
  "fresh_for res c \<longleftrightarrow> (case res of Inl _ \<Rightarrow> True
     | Inr r \<Rightarrow> r < length (heap c) \<and> sendCounter (heap c ! r) = 0 \<and> current c = Some r)"

lemma good_wait_loop:
  "wait_loop pr st evs c = Some (w, c', evs') \<Longrightarrow>
    good c c' \<and> (\<forall>r. w = WaitSession r \<longrightarrow> fresh_for (Inr r) c')"
proof (induction pr st evs c rule: wait_loop.induct)
  case (2 pr st pick frm raw evs c)
  then show ?case by (auto simp: Option.bind_eq_Some_conv dest: good_readStep intro: good_trans)
next
  case (3 pr st now evs c)
  show ?case
  proof (cases "respCh c")
    case (Cons raw rest)
    have g: "good c (c\<lparr>respCh := rest\<rparr>)" by (rule good_same) (simp_all add: Cons)
    show ?thesis
    proof (cases "on_response pr now st raw (c\<lparr>respCh := rest\<rparr>)")
      case None
      with 3 Cons g show ?thesis by (auto intro: good_trans)
    next
      case (Some x)
      obtain r d where x: "x = (r, d)" by force
      with 3(3) Cons Some have "w = WaitSession r" "c' = d" by auto
      with on_response_good [of pr now st raw _ r d] Some x g show ?thesis
        by (auto simp: fresh_for_def intro: good_trans)
    qed
  qed (use 3 in auto)
next
  case (4 pr st now evs c)
  show ?case
  proof (cases "cookieCh c")
    case (Cons raw rest)
    have g: "good c (c\<lparr>cookieCh := rest\<rparr>)" by (rule good_same) (simp_all add: Cons)
    show ?thesis
    proof (cases "on_cookie pr now st raw (c\<lparr>cookieCh := rest\<rparr>)")
      case None
      with 4 Cons g show ?thesis by (auto intro: good_trans)
    next
      case (Some d)
      with 4(3) Cons have "w = WaitCookie" "c' = d" by auto
      with on_cookie_good [OF Some] g show ?thesis by (auto intro: good_trans)
    qed
  qed (use 4 in auto)
qed auto

lemma good_attempts:
  "attempts pr udp rnds n touts evs c = Some (res, c', evs') \<Longrightarrow> good c c' \<and> fresh_for res c'"
proof (induction n arbitrary: touts evs c)
  case 0
  then show ?case by (auto simp: fresh_for_def)
next
  case (Suc n)
  show ?case
  proof (cases "makeInitiation pr (fst (rnds n)) (snd (rnds n)) c")
    case (Inl e)
    with Suc.prems show ?thesis by (auto simp: fresh_for_def)
  next
    case (Inr x)
    obtain st msg where x: "x = (st, msg)" by force
    obtain w1 c1 where w1: "writeActive udp msg c = (w1, c1)" by force
    then have g1: "good c c1" by (auto simp: writeActive_def intro: good_same)
    show ?thesis
    proof (cases w1)
      case (Inl e)
      with Suc.prems Inr x w1 g1 show ?thesis by (auto simp: fresh_for_def)
    next
      case (Inr k)
      with Suc.prems \<open>makeInitiation _ _ _ _ = _\<close> x w1 obtain w c2 evs2 where
        w: "wait_loop pr st evs c1 = Some (w, c2, evs2)" by (auto simp: Option.bind_eq_Some_conv)
      have g2: "good c1 c2" and fr: "\<And>r. w = WaitSession r \<Longrightarrow> fresh_for (Inr r) c2"
        using good_wait_loop [OF w] by auto
      have g12: "good c c2" by (rule good_trans [OF g1 g2])
      have g3: "good c2 (snd (after_timeout touts c2))"
        by (auto simp: after_timeout_def Let_def switchActivePath_def intro: good_same)
      note eq = Suc.prems [simplified, unfolded \<open>makeInitiation _ _ _ _ = _\<close> x, simplified, unfolded w1 Inr, simplified, unfolded w, simplified]
      show ?thesis
      proof (cases w)
        case (WaitSession r)
        with eq fr g12 show ?thesis by auto
      next
        case WaitCookie
        with eq Suc.IH g12 show ?thesis by (auto intro: good_trans)
      next
        case WaitTimeout
        obtain t3 c3 where t3: "after_timeout touts c2 = (t3, c3)" by force
        with WaitTimeout eq Suc.IH g12 g3 show ?thesis by (auto intro: good_trans)
      next
        case (WaitErr e)
        with eq g12 show ?thesis by (auto simp: fresh_for_def)
      qed
    qed
  qed
qed


lemma transportNonce_inj: "transportNonce a = transportNonce b \<Longrightarrow> a = b"
proof -
  assume "transportNonce a = transportNonce b"
  then have "u64le a = u64le b" by (simp add: transportNonce_def)
  moreover have "le64 (u64le v) 0 = v" for v by (rule le64_u64le [where rest = "[]"]) simp
  ultimately show "a = b" by metis
qed

lemma good_handshake:
  "handshake pr udp rnds evs c = Some (res, c', evs') \<Longrightarrow> good c c' \<and> fresh_for res c'"
  unfolding handshake_def by (rule good_attempts)

lemma good_startBackgroundRekey [simp]: "good c (startBackgroundRekey b c)"
  by (auto simp: startBackgroundRekey_def intro: good_same)

lemma usable_counter: "sessionUsable (Some s) now = (True, k) \<Longrightarrow> unat (sendCounter s) < 2 ^ 60"
proof -
  assume "sessionUsable (Some s) now = (True, k)"
  then have "\<not> push_bit 60 1 \<le> sendCounter s" by (auto simp: sessionUsable_def split: if_splits)
  then show ?thesis by (simp add: word_le_nat_alt push_bit_eq_mult)
qed

lemma good_ensureSession:
  assumes "ensureSession pr udp rnds evs now c = Some (res, c')"
  shows "good c c' \<and> (\<forall>r. cinv c \<longrightarrow> res = Inr r \<longrightarrow> r < length (heap c') \<and> unat (sendCounter (heap c' ! r)) < 2 ^ 60)"
proof (cases "\<exists>r rekey. current c = Some r \<and> sessionUsable (currentSession c) now = (True, rekey)")
  case True
  then obtain r rekey where r: "current c = Some r" "sessionUsable (currentSession c) now = (True, rekey)" by blast
  then have eq: "res = Inr r" "c' = (if rekey then startBackgroundRekey r c else c)"
    using assms by (auto simp: ensureSession_def)
  then have "good c c'" by simp
  moreover have "heap c' = heap c" using eq by (simp add: startBackgroundRekey_def)
  moreover have "unat (sendCounter (heap c ! r)) < 2 ^ 60"
    using r by (auto simp: currentSession_def dest: usable_counter)
  moreover have "cinv c \<Longrightarrow> r < length (heap c)" using r(1) by (auto simp: cinv_def)
  ultimately show ?thesis using eq by simp
next
  case False
  then have "\<exists>evs'. handshake pr udp rnds evs c = Some (res, c', evs')"
    using assms by (auto simp: ensureSession_def Option.bind_eq_Some_conv split: option.splits prod.splits bool.splits)
  then show ?thesis using good_handshake by (fastforce simp: fresh_for_def)
qed

text \<open>The use of the next counter value of a session.\<close>

lemma good_seal_use:
  assumes r: "cinv c \<Longrightarrow> r < length (heap c) \<and> unat (sendCounter (heap c ! r)) < 2 ^ 60"
  shows "good c ((set_session r (\<lambda>s. s\<lparr>sendCounter := sendCounter s + 1\<rparr>) c)
      \<lparr>seals := seals c @ [(r, transportNonce (sendCounter (heap c ! r)))]\<rparr>)"
  unfolding good_def
proof
  assume i: "cinv c"
  let ?k = "sendCounter (heap c ! r)" and ?c = "set_session r (\<lambda>s. s\<lparr>sendCounter := sendCounter s + 1\<rparr>) c"
  let ?d = "?c\<lparr>seals := seals c @ [(r, transportNonce ?k)]\<rparr>"
  have k1: "unat (?k + 1) = unat ?k + 1" using r [OF i] by (simp add: unat_word_ariths)
  have "good c ?c"
  proof (rule good_set_session)
    have "?k \<le> ?k + 1" using k1 by (simp add: word_le_nat_alt)
    then show "sess_adv (heap c ! r) ((heap c ! r)\<lparr>sendCounter := ?k + 1\<rparr>)" by (auto simp: sess_adv_def)
  qed (use r k1 in simp_all)
  then have i2: "cinv ?c" and ad: "adv c ?c" using i by (simp_all add: good_def)
  have new: "(r, transportNonce ?k) \<notin> set (seals c)"
  proof
    assume "(r, transportNonce ?k) \<in> set (seals c)"
    then obtain k where "transportNonce ?k = transportNonce k" "unat k < unat ?k" using i unfolding cinv_def by blast
    then show False using transportNonce_inj by blast
  qed
  have "\<exists>k. transportNonce ?k = transportNonce k \<and> unat k < unat (sendCounter (heap ?c ! r))"
    using r [OF i] k1 by (auto simp: set_session_def)
  then have "cinv ?d" using i2 new r [OF i] by (auto simp: cinv_def set_session_def)
  moreover have "adv c ?d" using ad by (simp add: adv_def)
  ultimately show "cinv ?d \<and> adv c ?d" ..
qed

lemma good_SendPacket:
  assumes "SendPacket pr udp rnds evs now raw c = Some (res, c')"
  shows "good c c'"
proof (cases "length raw > 0 \<and> pMTU (params c) > 0 \<and> int (length raw) > pMTU (params c)")
  case True
  then show ?thesis using assms by (auto simp: SendPacket_def)
next
  case False
  obtain e c1 where e: "ensureSession pr udp rnds evs now c = Some (e, c1)"
    using assms False by (auto simp: SendPacket_def Option.bind_eq_Some_conv)
  note ge = good_ensureSession [OF e]
  show ?thesis
  proof (cases e)
    case (Inl x)
    then show ?thesis using assms False e ge by (auto simp: SendPacket_def)
  next
    case (Inr r)
    let ?k = "sendCounter (heap c1 ! r)"
    let ?c2 = "(set_session r (\<lambda>s. s\<lparr>sendCounter := sendCounter s + 1\<rparr>) c1)\<lparr>seals := seals c1 @ [(r, transportNonce ?k)]\<rparr>"
    have g1: "good c c1" using ge by blast
    have g2: "good c ?c2"
    proof (cases "cinv c")
      case True
      then have "r < length (heap c1) \<and> unat ?k < 2 ^ 60" using ge Inr by blast
      with good_seal_use [of c1 r] g1 show ?thesis by (blast intro: good_trans)
    qed (simp add: good_def)
    have "seals (set_session r f c1) = seals c1" for f by (simp add: set_session_def)
    then have "good ?c2 c'"
      using assms False e Inr
      by (auto simp: SendPacket_def Let_def writeActive_def upd_diag_def split: sum.splits intro!: good_same)
    with g2 show ?thesis by (rule good_trans)
  qed
qed

lemma good_backgroundRekey: "backgroundRekey pr udp rnds evs now c = Some c' \<Longrightarrow> good c c'"
proof -
  assume h: "backgroundRekey pr udp rnds evs now c = Some c'"
  have "good d (d\<lparr>rekeying := False\<rparr>)" for d by (rule good_same) simp_all
  then show ?thesis
    using h by (auto simp: backgroundRekey_def Option.bind_eq_Some_conv split: if_splits dest!: good_handshake intro: good_trans)
qed

lemma good_keepaliveTick: "keepaliveTick pr udp rnds evs now c = Some c' \<Longrightarrow> good c c'"
  by (auto simp: keepaliveTick_def split: if_splits dest: good_SendPacket)

lemma nth_closeAll: "r < length h \<Longrightarrow> closeAll P h ! r = (if P r then (h ! r)\<lparr>aeadClosed := True\<rparr> else h ! r)"
  by (simp add: closeAll_def)

lemma length_closeAll [simp]: "length (closeAll P h) = length h"
  by (simp add: closeAll_def)

lemma closeAll_fields:
  assumes "r < length h"
  shows "localIndex (closeAll P h ! r) = localIndex (h ! r)" "sendCounter (closeAll P h ! r) = sendCounter (h ! r)"
    "sReplay (closeAll P h ! r) = sReplay (h ! r)" "sess_adv (h ! r) (closeAll P h ! r)"
  using assms by (simp_all add: nth_closeAll sess_adv_def) auto

lemma good_closeAll:
  assumes "heap c' = closeAll P (heap c)" "seals c' = seals c" "plain c' = plain c" "respCh c' = respCh c" "cookieCh c' = cookieCh c"
    and sub: "\<And>ix r. sessions c' ix = Some r \<Longrightarrow> sessions c ix = Some r \<and> \<not> P r"
    and cur: "\<And>r. cinv c \<Longrightarrow> current c' = Some r \<Longrightarrow> current c = Some r \<and> sessions c' (localIndex (heap c ! r)) = Some r"
  shows "good c c'"
  unfolding good_def
proof
  assume i: "cinv c"
  have set_h: "unat (sendCounter x) \<le> 2 ^ 60 \<and> (\<exists>S. rep (sReplay x) S)" if "x \<in> set (heap c')" for x
  proof -
    from that obtain r where "r < length (heap c)" "x = closeAll P (heap c) ! r" by (auto simp: assms(1) in_set_conv_nth)
    moreover from this i have "unat (sendCounter (heap c ! r)) \<le> 2 ^ 60 \<and> (\<exists>S. rep (sReplay (heap c ! r)) S)"
      unfolding cinv_def by (meson nth_mem)
    ultimately show ?thesis using closeAll_fields by simp
  qed
  have "r < length (heap c') \<and> localIndex (heap c' ! r) = ix \<and> \<not> aeadClosed (heap c' ! r)" if "sessions c' ix = Some r" for ix r
  proof -
    from sub [OF that] i have "r < length (heap c)" "localIndex (heap c ! r) = ix" "\<not> aeadClosed (heap c ! r)" "\<not> P r"
      unfolding cinv_def by blast+
    then show ?thesis by (simp add: assms(1) nth_closeAll)
  qed
  moreover have "r < length (heap c') \<and> sessions c' (localIndex (heap c' ! r)) = Some r" if "current c' = Some r" for r
  proof -
    from cur [OF i that] i have "r < length (heap c)" unfolding cinv_def by blast
    with cur [OF i that] show ?thesis by (simp add: assms(1) closeAll_fields)
  qed
  moreover have "\<exists>k. n = transportNonce k \<and> unat k < unat (sendCounter (heap c' ! r))" "r < length (heap c')" if "(r, n) \<in> set (seals c)" for r n
  proof -
    from that i obtain k where "r < length (heap c)" "n = transportNonce k" "unat k < unat (sendCounter (heap c ! r))"
      unfolding cinv_def by blast
    then show "\<exists>k. n = transportNonce k \<and> unat k < unat (sendCounter (heap c' ! r))" "r < length (heap c')"
      by (auto simp: assms(1) closeAll_fields)
  qed
  moreover have "distinct (seals c)" "length (plain c) \<le> 8192" "length (respCh c) \<le> 8" "length (cookieCh c) \<le> 8"
    using i unfolding cinv_def by blast+
  ultimately have "cinv c'" using set_h unfolding cinv_def assms(2-5) by auto
  moreover have "adv c c'" by (simp add: adv_def assms(1) closeAll_fields)
  ultimately show "cinv c' \<and> adv c c'" ..
qed

lemma good_reaperTick [simp]: "good c (reaperTick now c)"
proof (rule good_closeAll)
  show "heap (reaperTick now c) = closeAll (\<lambda>r. reapable now c r \<and> sessions c (localIndex (heap c ! r)) = Some r) (heap c)"
    by (simp add: reaperTick_def Let_def)
next
  fix r
  assume "cinv c" "current (reaperTick now c) = Some r"
  then show "current c = Some r \<and> sessions (reaperTick now c) (localIndex (heap c ! r)) = Some r"
    by (auto simp: reaperTick_def Let_def cinv_def reapable_def)
qed (auto simp: reaperTick_def Let_def split: option.splits if_splits)

lemma good_Close [simp]: "good c (Close c)"
  by (cases "isDone c") (auto simp: Close_def intro: good_closeAll)

lemma good_cstep: "cstep pr c c' \<Longrightarrow> good c c'"
  by (induction rule: cstep.induct)
    (auto simp: good_SendPacket good_readStep good_backgroundRekey good_keepaliveTick intro: good_same)

lemma good_steps: "rtranclp (cstep pr) c c' \<Longrightarrow> good c c'"
  by (induction rule: rtranclp_induct) (auto intro: good_trans good_cstep)

lemma New_inv: "New pr resolve openPath prm = Inr c \<Longrightarrow> cinv c"
  by (auto simp: New_def rbind_def cinv_def Let_def split: if_splits sum.splits option.splits)

end
