(* ===== verification/Wireguard_Noise.thy ===== *)
theory Wireguard_Noise
  imports Wireguard
begin

unbundle bit_operations_syntax

text \<open>
  The handshake of the WireGuard client against the responder of the WireGuard protocol: the
  initiation of \<open>makeInitiation\<close> is accepted by the responder, and \<open>consumeResponse\<close> accepts its
  answer and ends with the same transport keys. The responder is a specification (Noise IKpsk2 with
  WireGuard's messages); the client never plays this role.
\<close>

section \<open>What the protocol needs of the primitives\<close>

definition prims_ok :: "prims \<Rightarrow> bool" where
  "prims_ok pr \<longleftrightarrow> aead (aeadSeal pr) (aeadOpen pr) \<and> (\<forall>k. newAEAD pr k = None) \<and>
     (\<forall>k n m a. length n = 12 \<longrightarrow> (\<exists>c. aeadSeal pr k n m a = Inr c)) \<and>
     (\<forall>k. length (publicKey pr k) = 32)"

text \<open>\<open>agree pr a b s\<close>: both sides of a Diffie-Hellman exchange of \<open>a\<close> and \<open>b\<close> get the secret \<open>s\<close>.\<close>

definition agree :: "prims \<Rightarrow> bytes \<Rightarrow> bytes \<Rightarrow> bool" where
  "agree pr a b \<longleftrightarrow> (\<exists>s. ecdh pr a (publicKey pr b) = Some s \<and> ecdh pr b (publicKey pr a) = Some s)"

section \<open>The responder\<close>

definition okay :: "'e + 'a \<Rightarrow> 'a option" where
  "okay r = (case r of Inl _ \<Rightarrow> None | Inr x \<Rightarrow> Some x)"

definition macKey :: "bytes \<Rightarrow> bytes" where
  "macKey pk = Blake2s256 (str_bytes ''mac1----'' @ pk)"

text \<open>The responder reads an initiation: the initiator's index, ephemeral and static key, timestamp, chaining key and hash.\<close>

definition readInitiation :: "prims \<Rightarrow> bytes \<Rightarrow> bytes \<Rightarrow> (u32 \<times> bytes \<times> bytes \<times> bytes \<times> bytes \<times> bytes) option" where
  "readInitiation pr rpriv msg =
     (let rpub = publicKey pr rpriv; epub = sub msg 8 40;
          hash1 = mixHash (mixHash identifierHash rpub) epub
      in if length msg \<noteq> 148 \<or> le32 msg 0 \<noteq> msgInit \<or> Blake2s128Keyed (macKey rpub) (sub msg 0 116) \<noteq> sub msg 116 132
      then None
      else do {
        es \<leftarrow> ecdh pr rpriv epub;
        let ck2 = KDF2 (KDF1 constructionHash epub) es;
        spub \<leftarrow> okay (aeadOpen pr (snd ck2) zeroNonce (sub msg 40 88) hash1);
        let hash2 = mixHash hash1 (sub msg 40 88);
        ss \<leftarrow> ecdh pr rpriv spub;
        let ck3 = KDF2 (fst ck2) ss;
        ts \<leftarrow> okay (aeadOpen pr (snd ck3) zeroNonce (sub msg 88 116) hash2);
        Some (le32 msg 4, epub, spub, ts, fst ck3, mixHash hash2 (sub msg 88 116))
      })"

text \<open>Its answer, with the keys it will send and receive with.\<close>

definition writeResponse :: "prims \<Rightarrow> bytes \<Rightarrow> bytes \<Rightarrow> u32 \<Rightarrow> u32 \<times> bytes \<times> bytes \<times> bytes \<times> bytes \<times> bytes
    \<Rightarrow> (bytes \<times> bytes \<times> bytes) option" where
  "writeResponse pr pskey reph ridx x =
     (case x of (sndr, epub, spub, ts, chain3, hash3) \<Rightarrow>
      let rep = publicKey pr reph; hash1 = mixHash hash3 rep in do {
        ee \<leftarrow> ecdh pr reph epub;
        se \<leftarrow> ecdh pr reph spub;
        let ck = KDF3 (KDF1 (KDF1 (KDF1 chain3 rep) ee) se) pskey;
        let hash2 = mixHash hash1 (fst (snd ck));
        tag \<leftarrow> okay (aeadSeal pr (snd (snd ck)) zeroNonce [] hash2);
        let msg = u32le msgResp @ u32le ridx @ u32le sndr @ rep @ tag;
        let keys = KDF2 (fst ck) [];
        Some (msg @ Blake2s128Keyed (macKey spub) msg @ replicate 16 0, snd keys, fst keys)
      })"

section \<open>Messages\<close>

lemma sub_append1: "j \<le> length xs \<Longrightarrow> sub (xs @ ys) i j = sub xs i j"
  by (simp add: sub_def)

lemma sub_append2: "length xs \<le> i \<Longrightarrow> sub (xs @ ys) i j = sub ys (i - length xs) (j - length xs)"
  by (simp add: sub_def)

lemma sub_whole: "i = 0 \<Longrightarrow> j = length xs \<Longrightarrow> sub xs i j = xs"
  by (simp add: sub_def)

lemmas sub_simps = sub_append1 sub_append2 sub_whole

lemma initiation_layout:
  assumes "length e = 32" "length st = 48" "length ts = 28" "length m1 = 16" "length m2 = 16"
    and body_def: "body = u32le t @ u32le i @ e @ st @ ts"
  shows "length (body @ m1 @ m2) = 148" "le32 (body @ m1 @ m2) 0 = t" "le32 (body @ m1 @ m2) 4 = i"
    "sub (body @ m1 @ m2) 8 40 = e" "sub (body @ m1 @ m2) 40 88 = st" "sub (body @ m1 @ m2) 88 116 = ts"
    "sub (body @ m1 @ m2) 0 116 = body" "sub (body @ m1 @ m2) 116 132 = m1"
  using assms by (auto simp: body_def sub_def intro: le32_u32le)

lemma response_layout:
  assumes "length rp = 32" "length tag = 16" "length m1 = 16" "length m2 = 16"
    and body_def: "body = u32le t @ u32le i @ u32le k @ rp @ tag"
  shows "length (body @ m1 @ m2) = 92" "le32 (body @ m1 @ m2) 0 = t" "le32 (body @ m1 @ m2) 4 = i" "le32 (body @ m1 @ m2) 8 = k"
    "sub (body @ m1 @ m2) 12 44 = rp" "sub (body @ m1 @ m2) 44 60 = tag"
    "sub (body @ m1 @ m2) 0 60 = body" "sub (body @ m1 @ m2) 60 76 = m1"
  using assms by (auto simp: body_def sub_def intro: le32_u32le)

lemma length_tai64n [simp]: "length (tai64n now) = 12"
  by (simp add: tai64n_def u64be_def Let_def)

section \<open>Agreement\<close>

lemma prims_okD:
  assumes "prims_ok pr"
  shows "newAEAD pr k = None" "length (publicKey pr k) = 32"
    "\<exists>c. aeadSeal pr k zeroNonce m a = Inr c \<and> length c = length m + 16"
    "aeadOpen pr k n c a = Inr q \<longleftrightarrow> aeadSeal pr k n q a = Inr c"
proof -
  have a: "aead (aeadSeal pr) (aeadOpen pr)" using assms by (simp add: prims_ok_def)
  show "newAEAD pr k = None" "length (publicKey pr k) = 32" using assms by (simp_all add: prims_ok_def)
  have "length zeroNonce = 12" by (simp add: zeroNonce_def)
  then show "\<exists>c. aeadSeal pr k zeroNonce m a = Inr c \<and> length c = length m + 16"
    using assms aead.seal_length [OF a] unfolding prims_ok_def by blast
  show "aeadOpen pr k n c a = Inr q \<longleftrightarrow> aeadSeal pr k n q a = Inr c" by (rule aead.open_iff_seal [OF a])
qed

lemma makeInitiation_read:
  assumes pr: "prims_ok pr" and es: "agree pr eraw rpriv" and ss: "agree pr (priv c) rpriv"
    and c: "pub c = publicKey pr (priv c)" "peerPub c = publicKey pr rpriv" "mac1Key c = macKey (peerPub c)"
    and e: "length eraw = 32"
  obtains st msg where "makeInitiation pr now (Some eraw, Some idxb) c = Inr (st, msg)" "epriv st = eraw"
    "readInitiation pr rpriv msg = Some (sender st, publicKey pr eraw, pub c, tai64n now, chain st, hash st)"
proof -
  let ?epub = "publicKey pr eraw"
  obtain s1 where s1: "ecdh pr eraw (peerPub c) = Some s1" "ecdh pr rpriv ?epub = Some s1" using es c by (auto simp: agree_def)
  obtain s2 where s2: "ecdh pr (priv c) (peerPub c) = Some s2" "ecdh pr rpriv (pub c) = Some s2" using ss c by (auto simp: agree_def)
  let ?h1 = "mixHash (mixHash identifierHash (peerPub c)) ?epub"
  obtain ch2 k2 where k2: "KDF2 (KDF1 constructionHash ?epub) s1 = (ch2, k2)" by force
  obtain encS where encS: "aeadSeal pr k2 zeroNonce (pub c) ?h1 = Inr encS" "length encS = 48"
    using prims_okD(3) [OF pr, of k2 "pub c" ?h1] prims_okD(2) [OF pr] c(1) by auto
  let ?h2 = "mixHash ?h1 encS"
  obtain ch3 k3 where k3: "KDF2 ch2 s2 = (ch3, k3)" by force
  obtain encT where encT: "aeadSeal pr k3 zeroNonce (tai64n now) ?h2 = Inr encT" "length encT = 28"
    using prims_okD(3) [OF pr, of k3 "tai64n now" ?h2] by auto
  let ?sndr = "if le32 idxb 0 = 0 then 1 else le32 idxb 0"
  let ?body = "u32le msgInit @ u32le ?sndr @ ?epub @ encS @ encT"
  let ?m1 = "Blake2s128Keyed (mac1Key c) ?body"
  obtain m2 where m2: "m2 = (case cookieAt c of None \<Rightarrow> replicate 16 0
      | Some t \<Rightarrow> if now - t < 120 * sec then Blake2s128Keyed (cookie c) (?body @ ?m1) else replicate 16 0)" by blast
  have m2l: "length m2 = 16" by (simp add: m2 split: option.split)
  let ?st = "\<lparr>sender = ?sndr, epriv = eraw, chain = ch3, hash = mixHash ?h2 encT, mac1 = ?m1\<rparr>"
  have mk: "makeInitiation pr now (Some eraw, Some idxb) c = Inr (?st, (?body @ ?m1) @ m2)"
    using e s1 s2 k2 k3 encS encT prims_okD(1,2) [OF pr] m2
    by (simp add: makeInitiation_def ecdhR_def rbind_def crypt_def sealNew_def check_def Let_def split: option.split)
  note lay = initiation_layout [OF prims_okD(2) [OF pr, of eraw] encS(2) encT(2) length_Blake2s128Keyed [of "mac1Key c" ?body] m2l refl, of msgInit ?sndr]
  have op: "aeadOpen pr k2 zeroNonce encS ?h1 = Inr (pub c)" "aeadOpen pr k3 zeroNonce encT ?h2 = Inr (tai64n now)"
    using encS(1) encT(1) by (simp_all only: prims_okD(4) [OF pr])
  have "readInitiation pr rpriv (?body @ ?m1 @ m2) =
      Some (?sndr, ?epub, pub c, tai64n now, ch3, mixHash ?h2 encT)"
    unfolding readInitiation_def Let_def lay using s1(2) s2(2) k2 k3 op c(2,3)
    by (simp add: okay_def)
  with mk that [of ?st "(?body @ ?m1) @ m2"] show ?thesis by simp
qed

lemma consumeResponse_written:
  assumes pr: "prims_ok pr" and ee: "agree pr (epriv st) reph" and se: "agree pr (priv c) reph"
    and c: "pub c = publicKey pr (priv c)"
  obtains reply ks kr s where
    "writeResponse pr (psk c) reph ridx (sender st, publicKey pr (epriv st), pub c, ts, chain st, hash st) = Some (reply, ks, kr)"
    "length reply = 92" "le32 reply 0 = msgResp" "le32 reply 8 = sender st"
    "consumeResponse pr now c st reply = Inr s"
    "sendKey s = kr" "recvKey s = ks" "localIndex s = sender st" "remoteIndex s = ridx" "created s = now" "sendCounter s = 0"
proof -
  let ?rep = "publicKey pr reph"
  obtain s1 where s1: "ecdh pr (epriv st) ?rep = Some s1" "ecdh pr reph (publicKey pr (epriv st)) = Some s1" using ee by (auto simp: agree_def)
  obtain s2 where s2: "ecdh pr (priv c) ?rep = Some s2" "ecdh pr reph (pub c) = Some s2" using se c by (auto simp: agree_def)
  obtain ch tau key where k: "KDF3 (KDF1 (KDF1 (KDF1 (chain st) ?rep) s1) s2) (psk c) = (ch, tau, key)"
    by (metis surj_pair)
  let ?h2 = "mixHash (mixHash (hash st) ?rep) tau"
  obtain tag where tag: "aeadSeal pr key zeroNonce [] ?h2 = Inr tag" "length tag = 16"
    using prims_okD(3) [OF pr, of key "[]" ?h2] by auto
  have op: "aeadOpen pr key zeroNonce tag ?h2 = Inr []" using tag(1) by (simp only: prims_okD(4) [OF pr])
  obtain k1 k2 where ks: "KDF2 ch [] = (k1, k2)" by force
  let ?body = "u32le msgResp @ u32le ridx @ u32le (sender st) @ ?rep @ tag"
  let ?m1 = "Blake2s128Keyed (macKey (pub c)) ?body"
  let ?reply = "?body @ ?m1 @ replicate 16 0"
  note lay = response_layout [OF prims_okD(2) [OF pr, of reph] tag(2) length_Blake2s128Keyed [of "macKey (pub c)" ?body] length_replicate [of 16 0] refl,
      of msgResp ridx "sender st"]
  have w: "writeResponse pr (psk c) reph ridx (sender st, publicKey pr (epriv st), pub c, ts, chain st, hash st) = Some (?reply, k2, k1)"
    using s1(2) s2(2) k tag ks by (simp add: writeResponse_def okay_def Let_def)
  let ?s = "\<lparr>localIndex = sender st, remoteIndex = ridx, sendKey = k1, recvKey = k2, sendCounter = 0,
      sReplay = newReplay, created = now, retiredAt = None, aeadClosed = False\<rparr>"
  have "consumeResponse pr now c st ?reply = Inr ?s"
    unfolding consumeResponse_def Let_def lay using s1(1) s2(1) k op ks prims_okD(1) [OF pr]
    by (simp add: macKey_def ecdhR_def rbind_def crypt_def check_def)
  with w lay that [of ?reply k2 k1 ?s] show ?thesis by simp
qed

text \<open>C33: The handshake agrees: for primitives with a total AEAD and a Diffie-Hellman function on which the
  four key pairs agree, the responder accepts the initiation that \<open>makeInitiation\<close> builds, learns
  the client's static public key and the timestamp, and \<open>consumeResponse\<close> accepts the responder's
  answer; the new session sends with the key the responder receives with and the other way round,
  and holds both indices.
\<close>

theorem handshake_agreement:
  assumes pr: "prims_ok pr"
    and dh: "agree pr eraw rpriv" "agree pr (priv c) rpriv" "agree pr eraw reph" "agree pr (priv c) reph"
    and c: "pub c = publicKey pr (priv c)" "peerPub c = publicKey pr rpriv" "mac1Key c = macKey (peerPub c)"
    and e: "length eraw = 32"
  shows "\<exists>st msg x reply ks kr s.
    makeInitiation pr now (Some eraw, Some idxb) c = Inr (st, msg) \<and>
    readInitiation pr rpriv msg = Some x \<and> fst (snd (snd x)) = pub c \<and> fst (snd (snd (snd x))) = tai64n now \<and>
    writeResponse pr (psk c) reph ridx x = Some (reply, ks, kr) \<and>
    length reply = 92 \<and> le32 reply 0 = msgResp \<and> le32 reply 8 = sender st \<and>
    consumeResponse pr now' c st reply = Inr s \<and> sendKey s = kr \<and> recvKey s = ks \<and>
    localIndex s = sender st \<and> remoteIndex s = ridx \<and> sendCounter s = 0"
proof -
  obtain st msg where m: "makeInitiation pr now (Some eraw, Some idxb) c = Inr (st, msg)" "epriv st = eraw"
    "readInitiation pr rpriv msg = Some (sender st, publicKey pr eraw, pub c, tai64n now, chain st, hash st)"
    by (rule makeInitiation_read [OF pr dh(1,2) c e, where now = now and idxb = idxb]) blast
  obtain reply ks kr s where
    "writeResponse pr (psk c) reph ridx (sender st, publicKey pr (epriv st), pub c, tai64n now, chain st, hash st) = Some (reply, ks, kr)"
    "length reply = 92" "le32 reply 0 = msgResp" "le32 reply 8 = sender st" "consumeResponse pr now' c st reply = Inr s"
    "sendKey s = kr" "recvKey s = ks" "localIndex s = sender st" "remoteIndex s = ridx" "created s = now'" "sendCounter s = 0"
    by (rule consumeResponse_written [OF pr dh(3) [folded m(2)] dh(4) c(1), where ridx = ridx and ts = "tai64n now" and now = now'])
  with m show ?thesis by auto
qed

section \<open>Example\<close>

text \<open>Example primitives: the portable AEAD, and exclusive or in the place of the curve.\<close>

definition example_prims :: prims where
  "example_prims = \<lparr>newAEAD = (\<lambda>_. None), aeadSeal = pureSeal, aeadOpen = pureOpen, publicKey = pad_block 32,
     ecdh = (\<lambda>a b. Some (map (\<lambda>i. pad_block 32 a ! i XOR pad_block 32 b ! i) [0..<32]))\<rparr>"

lemma example_prims_ok: "prims_ok example_prims"
proof -
  have "\<exists>c. pureSeal k n m a = Inr c" if "length n = 12" for k n m a
    using that by (simp add: pureSeal_def Let_def)
  then show ?thesis by (simp add: prims_ok_def example_prims_def pa.aead_axioms)
qed

lemma example_agree: "agree example_prims a b"
  by (simp add: agree_def example_prims_def xor.commute)

definition example_params :: Params where
  "example_params = \<lparr>pPrivateKey = replicate 32 1, pPeerPublicKey = replicate 32 2, pPresharedKey = replicate 32 0,
     pEndpoint = ''192.0.2.1:51820'', pMTU = 1420, pKeepalive = 25\<rparr>"

definition example_client :: Client where
  "example_client = projr (New example_prims (\<lambda>_. Some (Addr4 [192, 0, 2, 1], 51820)) (\<lambda>i v6. Some (50000 + i)) example_params)"

lemma example_trim: "TrimSpace ''192.0.2.1:51820'' \<noteq> ''''"
  by code_simp

lemma example_New:
  "New example_prims (\<lambda>_. Some (Addr4 [192, 0, 2, 1], 51820)) (\<lambda>i v6. Some (50000 + i)) example_params = Inr example_client"
  by (simp add: example_client_def New_def example_params_def resolveEndpoint_def rbind_def Let_def example_trim)

lemma example_client_fields:
  "priv example_client = replicate 32 1" "pub example_client = publicKey example_prims (priv example_client)"
  "peerPub example_client = publicKey example_prims (replicate 32 2)" "mac1Key example_client = macKey (peerPub example_client)"
  "heap example_client = []" "current example_client = None" "sessions example_client = (\<lambda>_. None)" "plain example_client = []"
  "respCh example_client = []" "seals example_client = []" "\<not> isDone example_client" "endpoint example_client = (Addr4 [192, 0, 2, 1], 51820)"
  "params example_client = example_params" "sent example_client = []"
  by (simp_all add: example_client_def New_def example_params_def resolveEndpoint_def rbind_def Let_def example_trim
      example_prims_def macKey_def)

theorem handshake_agreement_witness:
  "\<exists>st msg x reply ks kr s.
    makeInitiation example_prims 0 (Some (replicate 32 3), Some [5, 0, 0, 0]) example_client = Inr (st, msg) \<and>
    readInitiation example_prims (replicate 32 2) msg = Some x \<and>
    writeResponse example_prims (psk example_client) (replicate 32 4) 9 x = Some (reply, ks, kr) \<and>
    consumeResponse example_prims 1 example_client st reply = Inr s \<and> sendKey s = kr \<and> recvKey s = ks"
  using handshake_agreement [OF example_prims_ok example_agree example_agree example_agree example_agree example_client_fields(2-4),
    where eraw = "replicate 32 3" and now = 0 and now' = 1 and idxb = "[5, 0, 0, 0]" and reph = "replicate 32 4" and ridx = 9]
  by simp blast

end
