(* ===== verification/Wireguard_Transport.thy ===== *)
theory Wireguard_Transport
  imports Wireguard_Inv Wireguard_Noise
begin

unbundle bit_operations_syntax

text \<open>
  Transport packets and the run of the handshake: what is received is authentic and never a replay,
  what one client sends another one delivers, nonces are never reused, and the handshake always
  comes back, switching the UDP path after three silent attempts.
\<close>

section \<open>Receiving\<close>

lemma TrimToIPLength_Some: "\<exists>b'. TrimToIPLength b = Some b'"
proof -
  have "TrimToIPLength b \<noteq> None"
    unfolding TrimToIPLength_def by (intro safe) (auto simp: be16_at_def)
  then show ?thesis by auto
qed

lemma deliver_plain: "plain (deliver pick b c) = plain c \<or> plain (deliver pick b c) = plain c @ [b]"
  by (auto simp: deliver_def upd_diag_def Let_def)

lemma deliver_same: "heap (deliver pick b c) = heap c" "sessions (deliver pick b c) = sessions c"
  by (auto simp: deliver_def upd_diag_def Let_def)

lemma diag_same [simp]: "heap (upd_diag f c) = heap c" "plain (upd_diag f c) = plain c" "sessions (upd_diag f c) = sessions c"
  "isDone (upd_diag f c) = isDone c"
  by (simp_all add: upd_diag_def)

text \<open>A transport packet either changes only counters, or it opened under its session's key.\<close>

lemma handleTransport_cases:
  assumes i: "cinv c"
  obtains (quiet) f where "handleTransport pr pick raw c = Some (upd_diag f c)"
  | (opened) r pl inner ok rp c' where "sessions c (le32 raw 4) = Some r" "r < length (heap c)"
      "aeadOpen pr (recvKey (heap c ! r)) (transportNonce (le64 raw 8)) (drop 16 raw) [] = Inr pl"
      "Accept (le64 raw 8) (sReplay (heap c ! r)) = Some (ok, rp)" "TrimToIPLength pl = Some inner"
      "handleTransport pr pick raw c = Some c'" "sessions c' = sessions c"
      "heap c' = (heap c)[r := (heap c ! r)\<lparr>sReplay := rp\<rparr>]"
      "plain c' = plain c \<or> ok \<and> plain c' = plain c @ [inner]"
proof (cases "length raw < 32")
  case True
  then show ?thesis by (intro quiet) (simp add: handleTransport_def)
next
  case False
  show ?thesis
  proof (cases "sessions c (le32 raw 4)")
    case None
    with False show ?thesis by (intro quiet) (simp add: handleTransport_def)
  next
    case (Some r)
    then have r: "r < length (heap c)" using i unfolding cinv_def by blast
    show ?thesis
    proof (cases "aeadOpen pr (recvKey (heap c ! r)) (transportNonce (le64 raw 8)) (drop 16 raw) []")
      case (Inl e)
      with False Some show ?thesis by (intro quiet) (simp add: handleTransport_def)
    next
      case (Inr pl)
      obtain S where "rep (sReplay (heap c ! r)) S" using i r unfolding cinv_def by (meson nth_mem)
      then obtain ok rp where a: "Accept (le64 raw 8) (sReplay (heap c ! r)) = Some (ok, rp)" using Accept_refines by blast
      obtain inner where t: "TrimToIPLength pl = Some inner" using TrimToIPLength_Some by blast
      let ?c = "set_session r (\<lambda>s. s\<lparr>sReplay := rp\<rparr>) c"
      let ?bad = "length inner = 0 \<or> (drop_bit 4 (inner ! 0) \<noteq> 4 \<and> drop_bit 4 (inner ! 0) \<noteq> 6)"
      obtain f where h: "handleTransport pr pick raw c =
          Some (if \<not> ok \<or> ?bad then upd_diag f ?c else deliver pick inner (upd_diag f (?c\<lparr>rxBytes := rxBytes ?c + word_of_nat (length raw)\<rparr>)))"
      proof (cases "\<not> ok")
        case True
        then show ?thesis using that [of "\<lambda>d. d\<lparr>ReplayDrop := ReplayDrop d + 1\<rparr>"] False Some Inr a t by (simp add: handleTransport_def Let_def)
      next
        case ok: False
        show ?thesis
        proof (cases ?bad)
          case True
          then show ?thesis using that [of "\<lambda>d. d\<lparr>InvalidInner := InvalidInner d + 1\<rparr>"] ok False Some Inr a t by (auto simp: handleTransport_def Let_def)
        next
          case good: False
          then show ?thesis using that ok False Some Inr a t by (auto simp: handleTransport_def Let_def)
        qed
      qed
      have c': "\<exists>c'. handleTransport pr pick raw c = Some c' \<and> sessions c' = sessions ?c \<and> heap c' = heap ?c \<and>
          (plain c' = plain ?c \<or> ok \<and> plain c' = plain ?c @ [inner])"
        unfolding h using deliver_plain [of pick inner "upd_diag f (?c\<lparr>rxBytes := rxBytes ?c + word_of_nat (length raw)\<rparr>)"]
        by (auto simp: deliver_same)
      then show ?thesis using opened [OF Some r Inr a t] by (auto simp: set_session_def)
    qed
  qed
qed


text \<open>C34: For every state the client can reach and every datagram: \<open>handleTransport\<close> returns (no panic,
  and the replay window's loop ends), and it changes a session or the queue of received packets only
  if the datagram names a session and its body is a ciphertext that the holder of that session's
  receive key made for that counter. An unauthenticated datagram cannot move a replay window.
\<close>

theorem received_authentic:
  assumes new: "New pr0 resolve openPath prm = Inr c0" and run: "rtranclp (cstep pr) c0 c"
    and a: "aead (aeadSeal pr) (aeadOpen pr)"
  shows "\<exists>c'. handleTransport pr pick raw c = Some c' \<and>
    (heap c' = heap c \<and> plain c' = plain c \<and> sessions c' = sessions c \<or>
     (\<exists>r pl inner rp. sessions c (le32 raw 4) = Some r \<and>
       aeadSeal pr (recvKey (heap c ! r)) (transportNonce (le64 raw 8)) pl [] = Inr (drop 16 raw) \<and>
       TrimToIPLength pl = Some inner \<and> sessions c' = sessions c \<and>
       heap c' = (heap c)[r := (heap c ! r)\<lparr>sReplay := rp\<rparr>] \<and>
       (plain c' = plain c \<or> plain c' = plain c @ [inner])))"
proof -
  have "cinv c" using New_inv [OF new] good_steps [OF run] by (simp add: good_def)
  then show ?thesis
  proof (cases rule: handleTransport_cases [where pr = pr and pick = pick and raw = raw])
    case (quiet f)
    then show ?thesis by auto
  next
    case (opened r pl inner ok rp c')
    from opened(3) have "aeadSeal pr (recvKey (heap c ! r)) (transportNonce (le64 raw 8)) pl [] = Inr (drop 16 raw)"
      by (simp add: aead.open_iff_seal [OF a])
    with opened show ?thesis by blast
  qed
qed

lemma delivered_accepted:
  assumes "cinv c" "handleTransport pr pick raw c = Some c'" "plain c' \<noteq> plain c"
  obtains r S where "sessions c (le32 raw 4) = Some r" "r < length (heap c)" "rep (sReplay (heap c' ! r)) S" "unat (le64 raw 8) \<in> S"
  using assms(1)
proof (cases rule: handleTransport_cases [where pr = pr and pick = pick and raw = raw])
  case (quiet f)
  with assms(2) have "c' = upd_diag f c" by simp
  with assms(3) show ?thesis by simp
next
  case (opened r pl inner ok rp c'')
  with assms have ok: "ok" "c'' = c'" by auto
  obtain S where S: "rep (sReplay (heap c ! r)) S" using assms(1) opened(2) unfolding cinv_def by (meson nth_mem)
  from Accept_adv [OF S opened(4)] ok have "rep rp (insert (unat (le64 raw 8)) S)" by (auto split: if_splits)
  with opened(1,2,8) ok that show ?thesis by simp
qed

text \<open>C35: A transport packet is delivered at most once: if a datagram was delivered, then after any
  further steps of the client a datagram with the same receiver index and counter is not, as long as
  that index still denotes the same session, whatever the datagram contains.
\<close>

theorem delivered_once:
  assumes new: "New pr0 resolve openPath prm = Inr c0" and run: "rtranclp (cstep pr) c0 c"
    and first: "handleTransport pr pick raw c = Some c1" "plain c1 \<noteq> plain c"
    and later: "rtranclp (cstep pr) c1 c2" "sessions c2 (le32 raw 4) = sessions c (le32 raw 4)"
    and again: "le32 raw' 4 = le32 raw 4" "le64 raw' 8 = le64 raw 8"
  shows "\<exists>c3. handleTransport pr pick' raw' c2 = Some c3 \<and> plain c3 = plain c2"
proof -
  have i: "cinv c" using New_inv [OF new] good_steps [OF run] by (simp add: good_def)
  then have i1: "cinv c1" using good_handleTransport [OF first(1)] by (simp add: good_def)
  then have i2: "cinv c2" and ad: "adv c1 c2" using good_steps [OF later(1)] by (simp_all add: good_def)
  obtain r S where r: "sessions c (le32 raw 4) = Some r" "r < length (heap c)" and S: "rep (sReplay (heap c1 ! r)) S" "unat (le64 raw 8) \<in> S"
    by (rule delivered_accepted [OF i first])
  have "r < length (heap c1)" using r(2) good_handleTransport [OF first(1)] i by (simp add: good_def adv_def)
  then obtain S' where S': "S \<subseteq> S'" "rep (sReplay (heap c2 ! r)) S'" using ad S(1) unfolding adv_def sess_adv_def by blast
  from i2 show ?thesis
  proof (cases rule: handleTransport_cases [where pr = pr and pick = pick' and raw = raw'])
    case (quiet f)
    then show ?thesis by auto
  next
    case (opened r' pl inner ok rp c3)
    then have "r' = r" using later(2) again r by simp
    with opened(4) have "ok = window_accepts (unat (le64 raw' 8)) S'" using Accept_adv [OF S'(2)] by blast
    with S(2) S'(1) have "\<not> ok" unfolding again(2) window_accepts_def by blast
    with opened show ?thesis by auto
  qed
qed

section \<open>Sending\<close>

text \<open>C36: Nonces are never reused: in every state the client can reach, the pairs of session and nonce
  given to \<open>Seal\<close> are distinct, and each nonce carries a counter below \<open>2^60\<close>; the current session is
  in the session map and its AEADs are open; the queues stay within their capacities.
\<close>

theorem nonces_never_reused:
  assumes new: "New pr0 resolve openPath prm = Inr c0" and run: "rtranclp (cstep pr) c0 c"
  shows "distinct (seals c) \<and>
    (\<forall>(r, n) \<in> set (seals c). \<exists>k. n = transportNonce k \<and> unat k < 2 ^ 60) \<and>
    (\<forall>r. current c = Some r \<longrightarrow> sessions c (localIndex (heap c ! r)) = Some r \<and> \<not> aeadClosed (heap c ! r)) \<and>
    length (plain c) \<le> 8192 \<and> length (respCh c) \<le> 8 \<and> length (cookieCh c) \<le> 8"
proof -
  have i: "cinv c" using New_inv [OF new] good_steps [OF run] by (simp add: good_def)
  have "\<exists>k. n = transportNonce k \<and> unat k < 2 ^ 60" if "(r, n) \<in> set (seals c)" for r n
  proof -
    from that i obtain k where k: "r < length (heap c)" "n = transportNonce k" "unat k < unat (sendCounter (heap c ! r))"
      unfolding cinv_def by blast
    moreover from k(1) i have "unat (sendCounter (heap c ! r)) \<le> 2 ^ 60" unfolding cinv_def by (meson nth_mem)
    ultimately show ?thesis by auto
  qed
  moreover have "sessions c (localIndex (heap c ! r)) = Some r \<and> \<not> aeadClosed (heap c ! r)" if "current c = Some r" for r
    using that i unfolding cinv_def by blast
  ultimately show ?thesis using i unfolding cinv_def by blast
qed

text \<open>A whole IP packet: its length field is its length.\<close>

definition ip_packet :: "bytes \<Rightarrow> bool" where
  "ip_packet b \<longleftrightarrow>
     (20 \<le> length b \<and> drop_bit 4 (b ! 0) = 4 \<and> unat (u16of (b ! 2) (b ! 3)) = length b) \<or>
     (40 \<le> length b \<and> drop_bit 4 (b ! 0) = 6 \<and> 40 + unat (u16of (b ! 4) (b ! 5)) = length b)"

lemma Pad16_trim:
  assumes "ip_packet b"
  shows "TrimToIPLength (Pad16 b) = Some b"
proof -
  obtain z where z: "Pad16 b = b @ z" by (auto simp: Pad16_def Let_def)
  have n: "(b @ z) ! 0 = b ! 0" "(b @ z) ! 2 = b ! 2" "(b @ z) ! 3 = b ! 3" "(b @ z) ! 4 = b ! 4" "(b @ z) ! 5 = b ! 5"
    using assms by (auto simp: ip_packet_def nth_append)
  consider (v4) "20 \<le> length b" "drop_bit 4 (b ! 0) = 4" "unat (u16of (b ! 2) (b ! 3)) = length b"
    | (v6) "40 \<le> length b" "drop_bit 4 (b ! 0) = 6" "40 + unat (u16of (b ! 4) (b ! 5)) = length b"
    using assms unfolding ip_packet_def by blast
  then show ?thesis
    by cases (simp_all add: TrimToIPLength_def z idx_def be16_at_def slice_def n)
qed

lemma handleTransport_accepts:
  assumes "length raw \<ge> 32" "sessions c (le32 raw 4) = Some r"
    "aeadOpen pr (recvKey (heap c ! r)) (transportNonce (le64 raw 8)) (drop 16 raw) [] = Inr pl"
    "rep (sReplay (heap c ! r)) S" "window_accepts (unat (le64 raw 8)) S"
    "TrimToIPLength pl = Some inner" "ip_packet inner" "\<not> isDone c" "length (plain c) < 8192"
  shows "\<exists>c'. handleTransport pr pick raw c = Some c' \<and> plain c' = plain c @ [inner]"
proof -
  obtain rp where a: "Accept (le64 raw 8) (sReplay (heap c ! r)) = Some (True, rp)"
    using Accept_refines [OF assms(4), of "le64 raw 8"] assms(5) by auto
  have "\<not> (length inner = 0 \<or> (drop_bit 4 (inner ! 0) \<noteq> 4 \<and> drop_bit 4 (inner ! 0) \<noteq> 6))" using assms(7) by (auto simp: ip_packet_def)
  then show ?thesis using assms a
    by (simp add: handleTransport_def Let_def deliver_def upd_diag_def set_session_def)
qed

text \<open>C37: The transport path is correct end to end: when a client with a usable current session sends an
  IP packet of at most the tunnel MTU, \<open>SendPacket\<close> returns at once whatever the handshake events are
  (a rekey never blocks it) and hands exactly one datagram to the socket of the active path. A
  client on the other side whose session under that index has the matching receive key, and has not
  accepted that counter, delivers exactly the packet that was sent, padding removed.
\<close>

theorem transport_roundtrip:
  assumes a: "aead (aeadSeal pr) (aeadOpen pr)" "\<And>k n m. length n = 12 \<Longrightarrow> \<exists>d. aeadSeal pr k n m [] = Inr d"
    and cur: "current c = Some r" "sessionUsable (currentSession c) now = (True, rekey)"
    and raw: "ip_packet raw" "int (length raw) \<le> pMTU (params c)"
    and udp: "\<And>i m. \<exists>n. udp i m = Inr n"
    and peer: "sessions d (remoteIndex (heap c ! r)) = Some q" "recvKey (heap d ! q) = sendKey (heap c ! r)"
      "rep (sReplay (heap d ! q)) S" "window_accepts (unat (sendCounter (heap c ! r))) S"
      "\<not> isDone d" "length (plain d) < 8192" "sameEndpoint frm (endpoint d)"
  shows "\<exists>c' msg d'. SendPacket pr udp rnds evs now raw c = Some (None, c') \<and>
    sent c' = sent c @ [(pathIndex c, msg)] \<and>
    readStep pr pick frm msg d = Some d' \<and> plain d' = plain d @ [raw]"
proof -
  let ?s = "heap c ! r"
  let ?k = "sendCounter ?s"
  have "length (transportNonce ?k) = 12" by (simp add: transportNonce_def)
  then obtain body where body: "aeadSeal pr (sendKey ?s) (transportNonce ?k) (Pad16 raw) [] = Inr body" using a(2) by blast
  let ?msg = "u32le msgTransport @ u32le (remoteIndex ?s) @ u64le ?k @ body"
  obtain c1 where ens: "ensureSession pr udp rnds evs now c = Some (Inr r, c1)"
    and same: "heap c1 = heap c" "pathIndex c1 = pathIndex c" "sent c1 = sent c"
    using cur by (auto simp: ensureSession_def startBackgroundRekey_def pathIndex_def)
  obtain n where n: "udp (pathIndex c) ?msg = Inr n" using udp by blast
  have pi: "pathIndex (x\<lparr>seals := l\<rparr>) = pathIndex x" "pathIndex (set_session r f x) = pathIndex x" "sent (set_session r f x) = sent x" for x l f
    by (simp_all add: pathIndex_def set_session_def)
  have "\<not> (length raw > 0 \<and> pMTU (params c) > 0 \<and> int (length raw) > pMTU (params c))" using raw(2) by auto
  then have send: "\<exists>c'. SendPacket pr udp rnds evs now raw c = Some (None, c') \<and> sent c' = sent c @ [(pathIndex c, ?msg)]"
    using ens body n same pi by (auto simp: SendPacket_def Let_def writeActive_def upd_diag_def)
  have l: "le32 ?msg 0 = msgTransport" "le32 ?msg 4 = remoteIndex ?s" "le64 ?msg 8 = ?k" "drop 16 ?msg = body"
    by (auto intro: le32_u32le le64_u64le)
  have lb: "length body = length (Pad16 raw) + 16" by (rule aead.seal_length [OF a(1) body])
  let ?d = "upd_diag (\<lambda>d. d\<lparr>RawRX := RawRX d + 1\<rparr>) d"
  have op: "aeadOpen pr (recvKey (heap ?d ! q)) (transportNonce (le64 ?msg 8)) (drop 16 ?msg) [] = Inr (Pad16 raw)"
    using body peer(2) by (simp only: l aead.open_iff_seal [OF a(1)] diag_same)
  have "\<exists>d'. handleTransport pr pick ?msg ?d = Some d' \<and> plain d' = plain ?d @ [raw]"
    by (rule handleTransport_accepts [OF _ _ op _ _ Pad16_trim [OF raw(1)] raw(1)])
      (use peer lb in \<open>auto simp only: l diag_same\<close>, simp_all)
  moreover have "readStep pr pick frm ?msg d = handleTransport pr pick ?msg ?d"
    using peer(7) l(1) by (simp add: readStep_def Let_def msgTransport_def msgResp_def msgCookie_def upd_diag_def)
  ultimately show ?thesis using send by auto
qed


section \<open>The run of a handshake\<close>

lemma readStep_Some: "cinv c \<Longrightarrow> \<exists>c'. readStep pr pick frm raw c = Some c'"
proof -
  assume i: "cinv c"
  let ?c = "upd_diag (\<lambda>d. d\<lparr>RawRX := RawRX d + 1\<rparr>) c"
  have "cinv ?c" using i good_diag [of c] by (simp add: good_def)
  then have "\<exists>c'. handleTransport pr pick raw ?c = Some c'"
    by (cases rule: handleTransport_cases [where pr = pr and pick = pick and raw = raw]) auto
  then show ?thesis by (simp add: readStep_def Let_def)
qed

text \<open>What a receiving step leaves alone.\<close>

definition still :: "Client \<Rightarrow> Client \<Rightarrow> bool" where
  "still c c' \<longleftrightarrow> sessions c' = sessions c \<and> current c' = current c \<and> length (sent c') = length (sent c)"

lemma still_refl [simp]: "still c c" and still_trans: "still a b \<Longrightarrow> still b c \<Longrightarrow> still a c"
  by (simp_all add: still_def)

lemma still_upd [simp]:
  "still c (upd_diag f d) = still c d" "still c (set_session r g d) = still c d" "still c (deliver pick b d) = still c d"
  "still c (d\<lparr>rxBytes := x\<rparr>) = still c d"
  by (auto simp: still_def upd_diag_def set_session_def deliver_def Let_def)

lemma still_handleTransport: "handleTransport pr pick raw c = Some c' \<Longrightarrow> still c c'"
  by (auto simp: handleTransport_def Let_def Option.bind_eq_Some_conv split: if_splits option.splits sum.splits)

lemma still_readStep: "readStep pr pick frm raw c = Some c' \<Longrightarrow> still c c'"
proof -
  assume r: "readStep pr pick frm raw c = Some c'"
  let ?c = "upd_diag (\<lambda>d. d\<lparr>RawRX := RawRX d + 1\<rparr>) c"
  have "still ?c c'" using r
    by (auto simp: readStep_def Let_def still_handleTransport split: if_splits) (auto simp: still_def upd_diag_def)
  then show ?thesis by (simp add: still_def upd_diag_def)
qed

lemma wait_loop_returns:
  assumes "cinv c" "HsTimer \<in> set evs"
  shows "\<exists>w c' evs'. wait_loop pr st evs c = Some (w, c', evs') \<and> count_list evs HsTimer \<le> Suc (count_list evs' HsTimer)"
  using assms
proof (induction evs arbitrary: c)
  case (Cons e evs)
  show ?case
  proof (cases e)
    case (HsNet pick frm raw)
    obtain d where d: "readStep pr pick frm raw c = Some d" using readStep_Some [OF Cons.prems(1)] by blast
    then have "cinv d" using good_readStep Cons.prems(1) by (auto simp: good_def)
    with Cons.IH [of d] Cons.prems(2) HsNet d show ?thesis by auto
  next
    case (HsResp now)
    show ?thesis
    proof (cases "respCh c")
      case Nil
      with Cons HsResp show ?thesis by auto
    next
      case (Cons raw rest)
      have "good c (c\<lparr>respCh := rest\<rparr>)" by (rule good_same) (simp_all add: Cons)
      then have "cinv (c\<lparr>respCh := rest\<rparr>)" using Cons.prems(1) by (simp add: good_def)
      with Cons.IH [of "c\<lparr>respCh := rest\<rparr>"] Cons.prems(2) HsResp Cons show ?thesis
        by (cases "on_response pr now st raw (c\<lparr>respCh := rest\<rparr>)") auto
    qed
  next
    case (HsCookie now)
    show ?thesis
    proof (cases "cookieCh c")
      case Nil
      with Cons HsCookie show ?thesis by auto
    next
      case (Cons raw rest)
      have "good c (c\<lparr>cookieCh := rest\<rparr>)" by (rule good_same) (simp_all add: Cons)
      then have "cinv (c\<lparr>cookieCh := rest\<rparr>)" using Cons.prems(1) by (simp add: good_def)
      with Cons.IH [of "c\<lparr>cookieCh := rest\<rparr>"] Cons.prems(2) HsCookie Cons show ?thesis
        by (cases "on_cookie pr now st raw (c\<lparr>cookieCh := rest\<rparr>)") auto
    qed
  qed (use Cons.prems in auto)
qed simp

lemma wait_loop_still:
  "wait_loop pr st evs c = Some (w, c', evs') \<Longrightarrow> length (sent c') = length (sent c) \<and>
    ((\<forall>r. w \<noteq> WaitSession r) \<longrightarrow> still c c')"
proof (induction pr st evs c rule: wait_loop.induct)
  case (2 pr st pick frm raw evs c)
  then obtain d where "readStep pr pick frm raw c = Some d" "wait_loop pr st evs d = Some (w, c', evs')"
    by (auto simp: Option.bind_eq_Some_conv)
  with 2(1) still_readStep show ?case by (auto simp: still_def)
next
  case (3 pr st now evs c)
  have sent: "length (sent d) = length (sent c)" if "on_response pr now st raw c = Some (r, d)" for raw r d c
    using that by (auto simp: on_response_def installSession_def Let_def split: if_splits sum.splits)
  from 3 show ?case
    by (auto simp: still_def Let_def split: list.splits option.splits dest!: sent)
next
  case (4 pr st now evs c)
  have sent: "still c d" if "on_cookie pr now st raw c = Some d" for raw d c
    using that by (auto simp: on_cookie_def consumeCookie_def still_def split: if_splits sum.splits)
  show ?case
  proof (cases "cookieCh c")
    case Nil
    with 4 show ?thesis by simp
  next
    case (Cons raw rest)
    let ?c = "c\<lparr>cookieCh := rest\<rparr>"
    show ?thesis
    proof (cases "on_cookie pr now st raw ?c")
      case None
      with 4 Cons have "length (sent c') = length (sent ?c) \<and> ((\<forall>r. w \<noteq> WaitSession r) \<longrightarrow> still ?c c')" by simp
      then show ?thesis by (simp add: still_def)
    next
      case (Some d)
      with 4(3) Cons have "c' = d" by simp
      with sent [OF Some] show ?thesis by (simp add: still_def)
    qed
  qed
qed auto

lemma attempts_returns:
  assumes "cinv c" "n \<le> count_list evs HsTimer"
  shows "\<exists>res c' evs'. attempts pr udp rnds n touts evs c = Some (res, c', evs') \<and> length (sent c') \<le> length (sent c) + n \<and>
    (\<forall>e. res = Inl e \<longrightarrow> sessions c' = sessions c \<and> current c' = current c)"
  using assms
proof (induction n arbitrary: touts evs c)
  case (Suc n)
  show ?case
  proof (cases "makeInitiation pr (fst (rnds n)) (snd (rnds n)) c")
    case (Inl e)
    then show ?thesis by simp
  next
    case mk: (Inr x)
    obtain st msg where x: "x = (st, msg)" by force
    let ?c1 = "c\<lparr>sent := sent c @ [(pathIndex c, msg)]\<rparr>"
    have "good c ?c1" by (rule good_same) simp_all
    then have i1: "cinv ?c1" using Suc.prems(1) by (simp add: good_def)
    show ?thesis
    proof (cases "udp (pathIndex c) msg")
      case (Inl e)
      then show ?thesis using mk x by (simp add: writeActive_def)
    next
      case wr: (Inr k)
      have "HsTimer \<in> set evs" using Suc.prems(2) by (metis count_notin not_less_eq_eq le0)
      then obtain w c2 evs2 where w: "wait_loop pr st evs ?c1 = Some (w, c2, evs2)" "count_list evs HsTimer \<le> Suc (count_list evs2 HsTimer)"
        using wait_loop_returns [OF i1] by blast
      have i2: "cinv c2" using good_wait_loop [OF w(1)] i1 by (simp add: good_def)
      have n2: "n \<le> count_list evs2 HsTimer" using w(2) Suc.prems(2) by simp
      note st = wait_loop_still [OF w(1)]
      have eq: "attempts pr udp rnds (Suc n) touts evs c =
          (case w of WaitSession s \<Rightarrow> Some (Inr s, c2, evs2) | WaitErr e \<Rightarrow> Some (Inl e, c2, evs2)
           | WaitCookie \<Rightarrow> attempts pr udp rnds n 0 evs2 c2
           | WaitTimeout \<Rightarrow> (let (touts, c) = after_timeout touts c2 in attempts pr udp rnds n touts evs2 c))"
        using mk x wr w(1) by (simp add: writeActive_def)
      show ?thesis
      proof (cases w)
        case (WaitSession r)
        then show ?thesis using eq st by simp
      next
        case (WaitErr e)
        then show ?thesis using eq st by (simp add: still_def)
      next
        case WaitCookie
        then show ?thesis using eq st Suc.IH [OF i2 n2, of 0] by (auto simp: still_def)
      next
        case WaitTimeout
        obtain t3 c3 where t3: "after_timeout touts c2 = (t3, c3)" by force
        then have c3: "good c2 c3" "still c2 c3"
          by (auto simp: after_timeout_def switchActivePath_def Let_def still_def split: if_splits intro: good_same)
        then have "cinv c3" using i2 by (simp add: good_def)
        from Suc.IH [OF this n2, of t3] show ?thesis using eq st c3(2) WaitTimeout t3 by (auto simp: still_def)
      qed
    qed
  qed
qed simp


text \<open>C38: The handshake always comes back: in every reachable state, once the timers of five attempts
  have fired, whatever datagrams, responses and cookies arrive in between, \<open>handshake\<close> has returned;
  it sent at most five initiations, a success makes the new session the current one with a counter of
  zero, and a failure keeps the current session and the session map.
\<close>

theorem handshake_returns:
  assumes new: "New pr0 resolve openPath prm = Inr c0" and run: "rtranclp (cstep pr) c0 c"
    and timers: "5 \<le> count_list evs HsTimer"
  shows "\<exists>res c' evs'. handshake pr udp rnds evs c = Some (res, c', evs') \<and> length (sent c') \<le> length (sent c) + 5 \<and>
    (case res of Inl e \<Rightarrow> sessions c' = sessions c \<and> current c' = current c
     | Inr r \<Rightarrow> current c' = Some r \<and> sendCounter (heap c' ! r) = 0)"
proof -
  have "cinv c" using New_inv [OF new] good_steps [OF run] by (simp add: good_def)
  from attempts_returns [OF this timers, of pr udp rnds 0] obtain res c' evs' where
    h: "attempts pr udp rnds 5 0 evs c = Some (res, c', evs')" "length (sent c') \<le> length (sent c) + 5"
      "\<forall>e. res = Inl e \<longrightarrow> sessions c' = sessions c \<and> current c' = current c" by blast
  moreover have "fresh_for res c'" using good_attempts [OF h(1)] by blast
  ultimately show ?thesis by (auto simp: handshake_def fresh_for_def split: sum.split)
qed

lemma makeInitiation_cong:
  "makeInitiation pr now rnd (c\<lparr>sent := l\<rparr>) = makeInitiation pr now rnd c"
  "makeInitiation pr now rnd (c\<lparr>activePath := a\<rparr>) = makeInitiation pr now rnd c"
  by (cases c; simp only: makeInitiation_def Client.simps)+

lemma silent_attempt:
  assumes "\<And>i m. \<exists>k. udp i m = Inr k" "\<not> isl (makeInitiation pr (fst (rnds n)) (snd (rnds n)) c)"
  shows "attempts pr udp rnds (Suc n) touts (HsTimer # evs) c =
    (let (t, d) = after_timeout touts (c\<lparr>sent := sent c @ [(pathIndex c, snd (projr (makeInitiation pr (fst (rnds n)) (snd (rnds n)) c)))]\<rparr>)
     in attempts pr udp rnds n t evs d)"
proof -
  obtain st msg where m: "makeInitiation pr (fst (rnds n)) (snd (rnds n)) c = Inr (st, msg)" using assms(2) by (metis sum.collapse(2) surj_pair)
  obtain k where "udp (pathIndex c) msg = Inr k" using assms(1) by blast
  with m show ?thesis by (simp add: writeActive_def)
qed

lemma path_flip: "unat ((a AND 1 :: u32) XOR 1) = 1 - unat (a AND 1)" "((a AND 1) XOR 1) AND 1 = ((a :: u32) AND 1) XOR 1"
proof -
  have "a AND 1 = 0 \<or> a AND 1 = 1" by (simp add: and_one_eq mod2_eq_if)
  then show "unat ((a AND 1) XOR 1) = 1 - unat (a AND 1)" "((a AND 1) XOR 1) AND 1 = (a AND 1) XOR 1" by auto
qed

text \<open>A silent peer: when five attempts in a row time out, \<open>handshake\<close> fails with the timeout error
  after sending five initiations, the first three on the UDP path that was active and the last two on
  the other one, which is the active path afterwards.
\<close>

theorem handshake_silent:
  assumes mk: "\<And>n. \<exists>x. makeInitiation pr (fst (rnds n)) (snd (rnds n)) c = Inr x"
    and udp: "\<And>i m. \<exists>k. udp i m = Inr k"
  shows "\<exists>c' i. handshake pr udp rnds (replicate 5 HsTimer) c = Some (Inl ErrTimeout, c', []) \<and> i = pathIndex c \<and>
    map fst (sent c') = map fst (sent c) @ [i, i, i, 1 - i, 1 - i] \<and>
    pathIndex c' = 1 - i \<and> LocalPort c' = StandbyPort c \<and> current c' = current c"
proof -
  have m: "\<not> isl (makeInitiation pr (fst (rnds n)) (snd (rnds n)) c)" for n using mk [of n] by auto
  note step = silent_attempt [OF udp, where pr = pr and rnds = rnds]
  have f: "replicate 5 HsTimer = [HsTimer, HsTimer, HsTimer, HsTimer, HsTimer]" "attempts pr udp rnds 5 = attempts pr udp rnds (Suc (Suc (Suc (Suc (Suc 0)))))"
    by (simp_all add: numeral_eq_Suc)
  show ?thesis
    unfolding handshake_def f
    by (simp add: step m makeInitiation_cong after_timeout_def switchActivePath_def pathIndex_def LocalPort_def
        StandbyPort_def path_flip Let_def del: attempts.simps(2))
qed

section \<open>An example run\<close>

lemma consumeResponse_cong:
  "pub c' = pub c \<Longrightarrow> priv c' = priv c \<Longrightarrow> psk c' = psk c \<Longrightarrow> consumeResponse pr now c' st m = consumeResponse pr now c st m"
  by (simp add: consumeResponse_def)

lemma example_Seal: "\<exists>d. aeadSeal example_prims k (transportNonce n) m [] = Inr d"
  using example_prims_ok by (simp add: prims_ok_def transportNonce_def)

lemma example_aead: "aead (aeadSeal example_prims) (aeadOpen example_prims)"
  using example_prims_ok by (simp add: prims_ok_def)

text \<open>The example client sends a keep-alive: it makes a handshake first, in which the responder answers.\<close>

lemma example_run:
  obtains c s where "cstep example_prims example_client c" "current c = Some 0" "heap c = [s]" "sessions c = [localIndex s \<mapsto> 0]"
    "seals c = [(0, transportNonce 0)]" "plain c = []" "\<not> isDone c" "sReplay s = newReplay" "sendCounter s = 1" "created s = 1"
    "params c = example_params" "endpoint c = endpoint example_client"
proof -
  let ?ep = "(Addr4 [192, 0, 2, 1], 51820)"
  let ?rnd = "\<lambda>n :: nat. (0 :: int, Some (replicate 32 3 :: bytes), Some ([5, 0, 0, 0] :: bytes))"
  obtain st msg reply s where mk: "makeInitiation example_prims 0 (Some (replicate 32 3), Some [5, 0, 0, 0]) example_client = Inr (st, msg)"
    and rp: "length reply = 92" "le32 reply 0 = msgResp" "le32 reply 8 = sender st"
    and cr: "consumeResponse example_prims 1 example_client st reply = Inr s"
  proof (rule makeInitiation_read [OF example_prims_ok example_agree example_agree example_client_fields(2-4),
        where eraw = "replicate 32 3" and now = 0 and idxb = "[5, 0, 0, 0]"])
    fix st msg
    assume mk: "makeInitiation example_prims 0 (Some (replicate 32 3), Some [5, 0, 0, 0]) example_client = Inr (st, msg)"
    show thesis
      by (rule consumeResponse_written [OF example_prims_ok example_agree [of "epriv st" "[]"] example_agree example_client_fields(2),
            where ridx = 9 and ts = "[]" and now = 1])
        (blast intro: that [OF mk])
  qed simp
  note f = example_client_fields
  let ?c1 = "example_client\<lparr>sent := [(pathIndex example_client, msg)]\<rparr>"
  let ?c2 = "upd_diag (\<lambda>d. d\<lparr>RawRX := RawRX d + 1\<rparr>) ?c1"
  have rs: "readStep example_prims True ?ep reply ?c1 = Some (?c2\<lparr>respCh := [reply]\<rparr>)"
    using rp f by (simp add: readStep_def Let_def sameEndpoint_def upd_diag_def)
  have s: "sendCounter s = 0" "sReplay s = newReplay" "localIndex s = sender st" using consumeResponse_fresh [OF cr] by simp_all
  have s': "created s = 1" using cr
    by (auto simp: consumeResponse_def Let_def rbind_def split: if_splits sum.splits prod.splits)
  have "consumeResponse example_prims 1 (?c2\<lparr>respCh := []\<rparr>) st reply = Inr s"
    using cr by (subst consumeResponse_cong [of _ example_client]) (simp_all add: upd_diag_def)
  then obtain c3 where on: "on_response example_prims 1 st reply (?c2\<lparr>respCh := []\<rparr>) = Some (0, c3)"
    and c3: "current c3 = Some 0" "heap c3 = [s]" "sessions c3 = [localIndex s \<mapsto> 0]" "seals c3 = []" "plain c3 = []" "\<not> isDone c3"
      "params c3 = example_params" "endpoint c3 = endpoint example_client"
    using rp f by (auto simp: on_response_def installSession_def Let_def upd_diag_def)
  have w: "wait_loop example_prims st [HsNet True ?ep reply, HsResp 1] ?c1 = Some (WaitSession 0, c3, [])"
    using rs on by (simp add: upd_diag_def)
  have at: "attempts example_prims (\<lambda>i m. Inr 0) ?rnd 5 0 [HsNet True ?ep reply, HsResp 1] example_client = Some (Inr 0, c3, [])"
  proof -
    have five: "(5 :: nat) = Suc 4" by simp
    show ?thesis unfolding five attempts.simps(2) using mk w f by (simp add: writeActive_def del: wait_loop.simps)
  qed
  have ens: "ensureSession example_prims (\<lambda>i m. Inr 0) ?rnd [HsNet True ?ep reply, HsResp 1] 0 example_client = Some (Inr 0, c3)"
    using at f by (simp add: ensureSession_def handshake_def)
  obtain body where body: "aeadSeal example_prims (sendKey s) (transportNonce 0) (Pad16 []) [] = Inr body" using example_Seal by blast
  obtain c4 where "SendPacket example_prims (\<lambda>i m. Inr 0) ?rnd [HsNet True ?ep reply, HsResp 1] 0 [] example_client = Some (None, c4)"
    and c4: "current c4 = Some 0" "heap c4 = [s\<lparr>sendCounter := 1\<rparr>]" "sessions c4 = [localIndex s \<mapsto> 0]" "seals c4 = [(0, transportNonce 0)]"
      "plain c4 = []" "\<not> isDone c4" "params c4 = example_params" "endpoint c4 = endpoint example_client"
    using ens c3 s body by (auto simp: SendPacket_def Let_def writeActive_def upd_diag_def set_session_def)
  then have "cstep example_prims example_client c4" by (blast intro: cstep.Send)
  with that c4 s s' show ?thesis by simp
qed

theorem nonces_never_reused_witness:
  "\<exists>c. rtranclp (cstep example_prims) example_client c \<and> length (seals c) = 1 \<and> distinct (seals c)"
proof -
  obtain c s where c: "cstep example_prims example_client c" "seals c = [(0, transportNonce 0)]" by (rule example_run)
  then have "rtranclp (cstep example_prims) example_client c" by blast
  with nonces_never_reused [OF example_New this] c(2) show ?thesis by auto
qed

definition example_ip :: bytes where
  "example_ip = [0x45, 0, 0, 20] @ replicate 16 0"

lemma example_ip_ok: "ip_packet example_ip"
  by code_simp

text \<open>In the state after that run, the responder sends the example packet and the client delivers it.\<close>

lemma example_delivery:
  obtains c raw c' where "rtranclp (cstep example_prims) example_client c"
    "handleTransport example_prims True raw c = Some c'" "plain c = []" "plain c' = [example_ip]"
proof -
  obtain c s where c: "cstep example_prims example_client c" "heap c = [s]" "sessions c = [localIndex s \<mapsto> 0]" "plain c = []" "\<not> isDone c"
    "sReplay s = newReplay" by (rule example_run)
  obtain body where body: "aeadSeal example_prims (recvKey s) (transportNonce 0) (Pad16 example_ip) [] = Inr body" using example_Seal by blast
  let ?raw = "u32le msgTransport @ u32le (localIndex s) @ u64le 0 @ body"
  have l: "le32 ?raw 4 = localIndex s" "le64 ?raw 8 = 0" "drop 16 ?raw = body" by (auto intro: le32_u32le le64_u64le)
  have len: "length body = length (Pad16 example_ip) + 16" by (rule aead.seal_length [OF example_aead body])
  have op: "aeadOpen example_prims (recvKey (heap c ! 0)) (transportNonce (le64 ?raw 8)) (drop 16 ?raw) [] = Inr (Pad16 example_ip)"
    unfolding l using c(2) body by (simp add: aead.open_iff_seal [OF example_aead])
  have "\<exists>c'. handleTransport example_prims True ?raw c = Some c' \<and> plain c' = plain c @ [example_ip]"
    by (rule handleTransport_accepts [OF _ _ op, where S = "{}", OF _ _ _ _ Pad16_trim [OF example_ip_ok] example_ip_ok])
      (use c l len rep_new in \<open>simp_all add: window_accepts_def\<close>)
  with that c show ?thesis by (metis append_Nil r_into_rtranclp)
qed

theorem received_authentic_witness:
  "\<exists>c raw c' r pl. rtranclp (cstep example_prims) example_client c \<and> handleTransport example_prims True raw c = Some c' \<and>
     plain c' \<noteq> plain c \<and> sessions c (le32 raw 4) = Some r \<and>
     aeadSeal example_prims (recvKey (heap c ! r)) (transportNonce (le64 raw 8)) pl [] = Inr (drop 16 raw)"
proof -
  obtain c raw c' where c: "rtranclp (cstep example_prims) example_client c"
    "handleTransport example_prims True raw c = Some c'" "plain c = []" "plain c' = [example_ip]" by (rule example_delivery)
  then have "plain c' \<noteq> plain c" by simp
  moreover from this received_authentic [OF example_New c(1) example_aead, of True raw] c(2) obtain r pl where
    "sessions c (le32 raw 4) = Some r" "aeadSeal example_prims (recvKey (heap c ! r)) (transportNonce (le64 raw 8)) pl [] = Inr (drop 16 raw)"
    by auto
  ultimately show ?thesis using c(1,2) by blast
qed

theorem delivered_once_witness:
  "\<exists>c raw c' c''. rtranclp (cstep example_prims) example_client c \<and> handleTransport example_prims True raw c = Some c' \<and>
     plain c' \<noteq> plain c \<and> handleTransport example_prims True raw c' = Some c'' \<and> plain c'' = plain c'"
proof -
  obtain c raw c' where c: "rtranclp (cstep example_prims) example_client c"
    "handleTransport example_prims True raw c = Some c'" "plain c = []" "plain c' = [example_ip]" by (rule example_delivery)
  have "sessions c' = sessions c" using still_handleTransport [OF c(2)] by (simp add: still_def)
  moreover have ne: "plain c' \<noteq> plain c" using c by simp
  ultimately obtain c'' where "handleTransport example_prims True raw c' = Some c''" "plain c'' = plain c'"
    using delivered_once [OF example_New c(1,2) ne rtranclp.rtrancl_refl, of raw True] by auto
  with c(1,2) ne show ?thesis by blast
qed

theorem transport_roundtrip_witness:
  "\<exists>c d c' msg d'. SendPacket example_prims (\<lambda>i m. Inr 0) (\<lambda>n. (0, None, None)) [] 2 example_ip c = Some (None, c') \<and>
     sent c' = sent c @ [(pathIndex c, msg)] \<and>
     readStep example_prims True (endpoint example_client) msg d = Some d' \<and> plain d' = [example_ip]"
proof -
  obtain c :: Client and s :: session where c: "current c = Some 0" "heap c = [s]" "plain c = []" "\<not> isDone c" "sReplay s = newReplay" "sendCounter s = 1" "created s = 1"
    "params c = example_params" "endpoint c = endpoint example_client" by (rule example_run) blast
  let ?d = "c\<lparr>heap := [s\<lparr>recvKey := sendKey s\<rparr>], sessions := [remoteIndex s \<mapsto> 0]\<rparr>"
  have total: "\<exists>d. aeadSeal example_prims k n m [] = Inr d" if "length n = 12" for k n m
    using example_prims_ok that by (simp add: prims_ok_def)
  have us: "sessionUsable (currentSession c) 2 = (True, False)"
    using c by (simp add: sessionUsable_def currentSession_def rejectAfterTime_def rekeyAfterTime_def sec_def word_le_nat_alt push_bit_eq_mult)
  have "\<exists>c' msg d'. SendPacket example_prims (\<lambda>i m. Inr 0) (\<lambda>n. (0, None, None)) [] 2 example_ip c = Some (None, c') \<and>
     sent c' = sent c @ [(pathIndex c, msg)] \<and>
     readStep example_prims True (endpoint example_client) msg ?d = Some d' \<and> plain d' = plain ?d @ [example_ip]"
    by (rule transport_roundtrip [OF example_aead total c(1) us example_ip_ok, where q = 0 and S = "{}"])
      (use c rep_new in \<open>simp_all add: example_params_def example_ip_def window_accepts_def sameEndpoint_def\<close>)
  with c(3) show ?thesis by fastforce
qed

theorem handshake_returns_witness:
  "\<exists>res c' evs'. handshake example_prims (\<lambda>i m. Inr 0) (\<lambda>n. (0, Some (replicate 32 3), Some [5, 0, 0, 0])) (replicate 5 HsTimer) example_client
      = Some (res, c', evs') \<and> length (sent c') \<le> 5"
proof -
  have "5 \<le> count_list (replicate 5 HsTimer) HsTimer" by (simp add: numeral_eq_Suc)
  from handshake_returns [OF example_New rtranclp.rtrancl_refl this] example_client_fields(14) show ?thesis by fastforce
qed

theorem handshake_silent_witness:
  "\<exists>c'. handshake example_prims (\<lambda>i m. Inr 0) (\<lambda>n. (0, Some (replicate 32 3), Some [5, 0, 0, 0])) (replicate 5 HsTimer) example_client
      = Some (Inl ErrTimeout, c', []) \<and> map fst (sent c') = [0, 0, 0, 1, 1]"
proof -
  let ?rnds = "\<lambda>n :: nat. (0 :: int, Some (replicate 32 3 :: bytes), Some ([5, 0, 0, 0] :: bytes))"
  have mk: "\<exists>x. makeInitiation example_prims (fst (?rnds n)) (snd (?rnds n)) example_client = Inr x" for n
    by (rule makeInitiation_read [OF example_prims_ok example_agree example_agree example_client_fields(2-4),
          where eraw = "replicate 32 3" and now = 0 and idxb = "[5, 0, 0, 0]"]) auto
  have "pathIndex example_client = 0"
    by (simp add: pathIndex_def example_client_def New_def example_params_def resolveEndpoint_def rbind_def Let_def example_trim)
  with handshake_silent [OF mk, of "\<lambda>i m. Inr 0"] example_client_fields(14) show ?thesis by auto
qed

end
