(* ===== verification/Windivert.thy ===== *)
theory Windivert
  imports Flow_Index Go_Parse
begin

unbundle bit_operations_syntax

text \<open>
  The part of the WinDivert binding that is Go code (\<open>internal/windivert/windivert_windows.go\<close>): the layout of
  the 80 bytes of an address, the decoding of FLOW and SOCKET events, and what \<open>Recv\<close>, \<open>Send\<close> and
  \<open>CalcChecksums\<close> make of the answers of the driver. The functions of \<open>WinDivert.dll\<close> and \<open>kernel32.dll\<close>
  are parameters.
\<close>

type_synonym Address = bytes

record NetworkMeta =
  nmIfIdx :: u32
  nmSubIfIdx :: u32

record FlowEvent =
  evEvent :: byte
  evEndpointID :: u64
  evParentEndpointID :: u64
  evKey :: Key
  evProcess :: Process

type_synonym SocketEvent = FlowEvent

definition LayerFlow :: byte where "LayerFlow = 2"
definition LayerSocket :: byte where "LayerSocket = 3"
definition EventFlowEstablished :: byte where "EventFlowEstablished = 1"
definition EventFlowDeleted :: byte where "EventFlowDeleted = 2"
definition EventSocketBind :: byte where "EventSocketBind = 3"
definition EventSocketConnect :: byte where "EventSocketConnect = 4"
definition EventSocketListen :: byte where "EventSocketListen = 5"
definition EventSocketAccept :: byte where "EventSocketAccept = 6"
definition EventSocketClose :: byte where "EventSocketClose = 7"

section \<open>Addresses\<close>

definition MetaOf :: "Address \<Rightarrow> NetworkMeta" where
  "MetaOf a = \<lparr>nmIfIdx = le32 a 16, nmSubIfIdx = le32 a 20\<rparr>"

definition NewInboundAddress :: "NetworkMeta \<Rightarrow> bool \<Rightarrow> Address" where
  "NewInboundAddress meta ipv6 =
     (let a = replicate 80 0;
          bits = (if ipv6 then push_bit 20 1 else 0);
          a = overwrite a 8 (u64le bits);
          a = overwrite a 16 (u32le (nmIfIdx meta))
      in overwrite a 20 (u32le (nmSubIfIdx meta)))"

definition addressEvent :: "Address \<Rightarrow> byte" where
  "addressEvent a = ucast (drop_bit 8 (le64 a 8) AND 0xff)"

text \<open>Bit 17 of the flags is WinDivert's \<open>Outbound\<close>, bit 20 its \<open>IPv6\<close>.\<close>

definition outboundAddr :: "Address \<Rightarrow> bool" where
  "outboundAddr a = bit (le64 a 8) 17"

section \<open>Calls\<close>

datatype wderr = WRecvFailed | WTooLong nat | WSendFailed | WShortWrite nat | WLayer | WShortAddr | WFormat | WBadAddr

text \<open>\<open>WinDivertRecv\<close> fails, or fills the buffer with \<open>n\<close> bytes and the address.\<close>

definition Recv :: "nat \<Rightarrow> (nat \<times> bytes \<times> Address) option \<Rightarrow> wderr + bytes \<times> Address" where
  "Recv cap call = (case call of None \<Rightarrow> Inl WRecvFailed
     | Some (n, content, a) \<Rightarrow> if n > cap then Inl (WTooLong n) else Inr (take n content, a))"

text \<open>\<open>WinDivertSend\<close> fails or reports the number of bytes it took. The result says whether it was called.\<close>

definition WdSend :: "bytes \<Rightarrow> nat option \<Rightarrow> wderr option \<times> bool" where
  "WdSend pkt call =
     (if pkt = [] then (None, False)
      else (case call of None \<Rightarrow> (Some WSendFailed, True)
        | Some n \<Rightarrow> if n \<noteq> length pkt then (Some (WShortWrite n), True) else (None, True)))"

text \<open>\<open>WinDivertHelperCalcChecksums\<close> writes the checksums into the packet; the flag tells an error.\<close>

definition CalcChecksums :: "(bytes \<Rightarrow> bool \<times> bytes) \<Rightarrow> bytes \<Rightarrow> bytes option" where
  "CalcChecksums call pkt =
     (if pkt = [] then Some pkt else let (failed, pkt) = call pkt in if failed then None else Some pkt)"

definition formatAddress :: "(bytes \<Rightarrow> bytes option) \<Rightarrow> bytes \<Rightarrow> wderr + addr" where
  "formatAddress format raw =
     (if length raw < 16 then Inl WShortAddr
      else (case format raw of None \<Rightarrow> Inl WFormat
        | Some out \<Rightarrow> (case ParseAddr (map (char_of \<circ> unat) (takeWhile (\<lambda>x. x \<noteq> 0) (take 64 out))) of
            None \<Rightarrow> Inl WBadAddr | Some a \<Rightarrow> Inr a)))"

text \<open>\<open>imageName\<close> is the path \<open>OpenProcess\<close> and \<open>QueryFullProcessImageNameW\<close> give, or a failure of one of them.\<close>

definition ProcessInfo :: "(u32 \<Rightarrow> string option) \<Rightarrow> u32 \<Rightarrow> Process" where
  "ProcessInfo imageName pid =
     (case imageName pid of None \<Rightarrow> \<lparr>prPID = pid, prName = [], prPath = []\<rparr>
      | Some path \<Rightarrow> NormalizeProcess \<lparr>prPID = pid, prName = Base (ReplaceAll path slash backslash), prPath = path\<rparr>)"

text \<open>The common body of \<open>RecvFlow\<close> and \<open>RecvSocket\<close>: the event in an address.\<close>

definition decodeEvent :: "(bytes \<Rightarrow> bytes option) \<Rightarrow> (u32 \<Rightarrow> string option) \<Rightarrow> Address \<Rightarrow> wderr + FlowEvent" where
  "decodeEvent format imageName a =
     (case formatAddress format (take 16 (drop 36 a)) of Inl e \<Rightarrow> Inl e | Inr local \<Rightarrow>
      case formatAddress format (take 16 (drop 52 a)) of Inl e \<Rightarrow> Inl e | Inr remote \<Rightarrow>
      Inr \<lparr>evEvent = addressEvent a, evEndpointID = le64 a 16, evParentEndpointID = le64 a 24,
        evKey = \<lparr>kProto = a ! 72, kLocal = Unmap local, kRemote = Unmap remote,
          kLocalPort = u16of (a ! 69) (a ! 68), kRemotePort = u16of (a ! 71) (a ! 70)\<rparr>,
        evProcess = ProcessInfo imageName (le32 a 32)\<rparr>)"

definition RecvFlow :: "byte \<Rightarrow> (bytes \<Rightarrow> bytes option) \<Rightarrow> (u32 \<Rightarrow> string option) \<Rightarrow> (nat \<times> bytes \<times> Address) option \<Rightarrow> wderr + FlowEvent" where
  "RecvFlow layer format imageName call =
     (if layer \<noteq> LayerFlow then Inl WLayer
      else (case Recv 0 call of Inl e \<Rightarrow> Inl e | Inr (_, a) \<Rightarrow> decodeEvent format imageName a))"

definition RecvSocket :: "byte \<Rightarrow> (bytes \<Rightarrow> bytes option) \<Rightarrow> (u32 \<Rightarrow> string option) \<Rightarrow> (nat \<times> bytes \<times> Address) option \<Rightarrow> wderr + SocketEvent" where
  "RecvSocket layer format imageName call =
     (if layer \<noteq> LayerSocket then Inl WLayer
      else (case Recv 0 call of Inl e \<Rightarrow> Inl e | Inr (_, a) \<Rightarrow> decodeEvent format imageName a))"

section \<open>Lemmas\<close>

lemma inbound_layout:
  "NewInboundAddress m v6 = replicate 8 0 @ u64le (if v6 then push_bit 20 1 else 0) @ u32le (nmIfIdx m) @ u32le (nmSubIfIdx m) @ replicate 56 0"
  by (simp add: NewInboundAddress_def overwrite_def Let_def)

text \<open>An address made for an injection reads back its interface, is a network packet, and is inbound.\<close>

lemma NewInboundAddress_meta [simp]: "MetaOf (NewInboundAddress m v6) = m"
proof -
  have "le32 (NewInboundAddress m v6) 16 = nmIfIdx m" by (rule le32_u32le) (simp add: inbound_layout)
  moreover have "le32 (NewInboundAddress m v6) 20 = nmSubIfIdx m" by (rule le32_u32le) (simp add: inbound_layout)
  ultimately show ?thesis by (simp add: MetaOf_def)
qed

lemma NewInboundAddress_bits: "le64 (NewInboundAddress m v6) 8 = (if v6 then push_bit 20 1 else 0)"
  by (rule le64_u64le) (simp add: inbound_layout)

lemma NewInboundAddress_inbound [simp]:
  "\<not> outboundAddr (NewInboundAddress m v6)" "addressEvent (NewInboundAddress m v6) = 0" "length (NewInboundAddress m v6) = 80"
proof -
  show "\<not> outboundAddr (NewInboundAddress m v6)"
    by (simp add: outboundAddr_def NewInboundAddress_bits bit_push_bit_iff)
  show "addressEvent (NewInboundAddress m v6) = 0"
    by (cases v6) (simp_all add: addressEvent_def NewInboundAddress_bits)
qed (simp add: inbound_layout)

text \<open>What the checksum helper is documented to do: it writes into the packet and does not change its length.\<close>

definition keeps_length :: "(bytes \<Rightarrow> bool \<times> bytes) \<Rightarrow> bool" where
  "keeps_length call \<longleftrightarrow> (\<forall>b. length (snd (call b)) = length b)"

lemma CalcChecksums_length: "keeps_length call \<Longrightarrow> CalcChecksums call b = Some b' \<Longrightarrow> length b' = length b"
  by (auto simp: CalcChecksums_def keeps_length_def split: if_splits prod.splits) (metis snd_conv)

end
