(* ===== verification/Flow_Snapshot.thy ===== *)
theory Flow_Snapshot
  imports Flow_Index
begin

text \<open>
  Socket ownership from the IP Helper tables of Windows (\<open>internal/flow/snapshot_windows.go\<close>): the
  tables \<open>GetExtendedTcpTable\<close> and \<open>GetExtendedUdpTable\<close> return, their rows, the periodic snapshot
  that replaces the fallback maps of the flow index, and the lookup of one socket's owner. The two
  system calls are the parameter \<open>tables\<close>: each call returns a code and a size, the second one also
  the bytes of the buffer.
\<close>

section \<open>Tables\<close>

datatype snaperr = SErrno u32 | SBadSize u32 | SGrew u32 | SShort | STruncated nat

record table_api =
  apiProbe :: "u32 \<times> u32"
  apiFill :: "u32 \<Rightarrow> u32 \<times> u32 \<times> (nat \<Rightarrow> byte)"

record tables =
  tabTCP4 :: table_api
  tabTCP6 :: table_api
  tabUDP4 :: table_api
  tabUDP6 :: table_api

definition errorInsufficientBuffer :: u32 where "errorInsufficientBuffer = 122"

definition mibTCPStateEstablished :: u32 where "mibTCPStateEstablished = 5"

definition getExtendedTable :: "table_api \<Rightarrow> snaperr + bytes" where
  "getExtendedTable api =
     (let (r, size0) = apiProbe api in
      if r \<noteq> 0 \<and> r \<noteq> errorInsufficientBuffer then Inl (SErrno r)
      else if size0 < 4 then Inl (SBadSize size0)
      else
        let (r, size1, content) = apiFill api size0; buf = map content [0..<unat size0] in
        if r \<noteq> 0 then Inl (SErrno r)
        else if size1 > size0 then Inl (SGrew size1)
        else Inr (take (unat size1) buf))"

text \<open>\<open>rows[T]\<close>: \<open>sz\<close> is the size of \<open>T\<close> and \<open>dec\<close> reads a value of it from its bytes in memory.\<close>

definition rows :: "nat \<Rightarrow> (bytes \<Rightarrow> 'r) \<Rightarrow> bytes \<Rightarrow> snaperr + 'r list" where
  "rows sz dec buf =
     (if length buf < 4 then Inl SShort
      else
        let n = unat (le32 buf 0); need = 4 + n * sz in
        if need > length buf then Inl (STruncated need)
        else Inr (map (\<lambda>j. dec (take sz (drop (4 + j * sz) buf))) [0..<n]))"

record tcpRow =
  trState :: u32
  trLocalAddr :: bytes
  trLocalPort :: bytes
  trRemoteAddr :: bytes
  trRemotePort :: bytes
  trPID :: u32

record udpRow =
  urLocalAddr :: bytes
  urLocalPort :: bytes
  urPID :: u32

definition mibTCPRow :: "bytes \<Rightarrow> tcpRow" where
  "mibTCPRow b = \<lparr>trState = le32 b 0, trLocalAddr = take 4 (drop 4 b), trLocalPort = take 4 (drop 8 b),
     trRemoteAddr = take 4 (drop 12 b), trRemotePort = take 4 (drop 16 b), trPID = le32 b 20\<rparr>"

definition mibTCP6Row :: "bytes \<Rightarrow> tcpRow" where
  "mibTCP6Row b = \<lparr>trState = le32 b 48, trLocalAddr = take 16 b, trLocalPort = take 4 (drop 20 b),
     trRemoteAddr = take 16 (drop 24 b), trRemotePort = take 4 (drop 44 b), trPID = le32 b 52\<rparr>"

definition mibUDPRow :: "bytes \<Rightarrow> udpRow" where
  "mibUDPRow b = \<lparr>urLocalAddr = take 4 b, urLocalPort = take 4 (drop 4 b), urPID = le32 b 8\<rparr>"

definition mibUDP6Row :: "bytes \<Rightarrow> udpRow" where
  "mibUDP6Row b = \<lparr>urLocalAddr = take 16 b, urLocalPort = take 4 (drop 20 b), urPID = le32 b 24\<rparr>"

definition addr4 :: "bytes \<Rightarrow> addr" where
  "addr4 v = Unmap (Addr4 v)"

text \<open>\<open>netip.AddrFrom16(v).Unmap()\<close>.\<close>

definition addr16 :: "bytes \<Rightarrow> addr" where
  "addr16 v = Unmap (Addr6 v)"

definition mibPort :: "bytes \<Rightarrow> u16" where
  "mibPort v = u16of (v ! 0) (v ! 1)"

definition wildcardAddr :: "addr \<Rightarrow> addr" where
  "wildcardAddr a = (if \<not> IsValid a \<or> IsUnspecified a then AddrInvalid else Unmap a)"

section \<open>The snapshot\<close>

text \<open>The closure \<open>owner\<close>; its cache only avoids repeated calls of \<open>resolve\<close>.\<close>

definition owner :: "(u32 \<Rightarrow> Process) \<Rightarrow> u32 \<Rightarrow> Process" where
  "owner resolve pid = (let pr = NormalizeProcess (resolve pid) in if prPID pr = 0 then pr\<lparr>prPID := pid\<rparr> else pr)"

text \<open>The bodies of the loops over TCP and UDP rows; \<open>rd\<close> reads the address fields.\<close>

definition snap_tcp_row :: "int \<Rightarrow> (u32 \<Rightarrow> Process) \<Rightarrow> (bytes \<Rightarrow> addr) \<Rightarrow> tcpRow \<Rightarrow> Index \<times> nat \<Rightarrow> Index \<times> nat" where
  "snap_tcp_row now own rd r = (\<lambda>(i, n).
     if trState r \<noteq> mibTCPStateEstablished \<or> trPID r = 0 then (i, n)
     else
       let lo = rd (trLocalAddr r); re = rd (trRemoteAddr r); lp = mibPort (trLocalPort r); rp = mibPort (trRemotePort r) in
       if lp = 0 \<or> rp = 0 \<or> IsUnspecified re then (i, n)
       else (AddSnapshotExact now \<lparr>kProto = 6, kLocal = lo, kRemote = re, kLocalPort = lp, kRemotePort = rp\<rparr> (own (trPID r)) i, n + 1))"

definition snap_udp_row :: "int \<Rightarrow> (u32 \<Rightarrow> Process) \<Rightarrow> (bytes \<Rightarrow> addr) \<Rightarrow> udpRow \<Rightarrow> Index \<times> nat \<Rightarrow> Index \<times> nat" where
  "snap_udp_row now own rd r = (\<lambda>(i, n).
     if urPID r = 0 then (i, n)
     else
       let lp = mibPort (urLocalPort r) in
       if lp = 0 then (i, n)
       else (AddLocal now 17 (wildcardAddr (rd (urLocalAddr r))) lp (own (urPID r)) i, n + 1))"

definition snapshot_table :: "table_api \<Rightarrow> nat \<Rightarrow> (bytes \<Rightarrow> 'r) \<Rightarrow> ('r \<Rightarrow> Index \<times> nat \<Rightarrow> Index \<times> nat) \<Rightarrow> Index \<Rightarrow> (snaperr + nat) \<times> Index" where
  "snapshot_table api sz dec body i =
     (case getExtendedTable api of Inl e \<Rightarrow> (Inl e, i)
      | Inr buf \<Rightarrow> (case rows sz dec buf of Inl e \<Rightarrow> (Inl e, i)
          | Inr rs \<Rightarrow> let (i, n) = fold body rs (i, 0) in (Inr n, i)))"

definition snapshotTCP4 :: "int \<Rightarrow> (u32 \<Rightarrow> Process) \<Rightarrow> tables \<Rightarrow> Index \<Rightarrow> (snaperr + nat) \<times> Index" where
  "snapshotTCP4 now own t i = snapshot_table (tabTCP4 t) 24 mibTCPRow (snap_tcp_row now own addr4) i"

definition snapshotTCP6 :: "int \<Rightarrow> (u32 \<Rightarrow> Process) \<Rightarrow> tables \<Rightarrow> Index \<Rightarrow> (snaperr + nat) \<times> Index" where
  "snapshotTCP6 now own t i = snapshot_table (tabTCP6 t) 56 mibTCP6Row (snap_tcp_row now own addr16) i"

definition snapshotUDP4 :: "int \<Rightarrow> (u32 \<Rightarrow> Process) \<Rightarrow> tables \<Rightarrow> Index \<Rightarrow> (snaperr + nat) \<times> Index" where
  "snapshotUDP4 now own t i = snapshot_table (tabUDP4 t) 12 mibUDPRow (snap_udp_row now own addr4) i"

definition snapshotUDP6 :: "int \<Rightarrow> (u32 \<Rightarrow> Process) \<Rightarrow> tables \<Rightarrow> Index \<Rightarrow> (snaperr + nat) \<times> Index" where
  "snapshotUDP6 now own t i = snapshot_table (tabUDP6 t) 28 mibUDP6Row (snap_udp_row now own addr16) i"

definition count_of :: "snaperr + nat \<Rightarrow> nat" where
  "count_of r = (case r of Inl _ \<Rightarrow> 0 | Inr n \<Rightarrow> n)"

definition error_of :: "snaperr + nat \<Rightarrow> snaperr list" where
  "error_of r = (case r of Inl e \<Rightarrow> [e] | Inr _ \<Rightarrow> [])"

definition SnapshotExisting :: "int \<Rightarrow> (u32 \<Rightarrow> Process) \<Rightarrow> tables \<Rightarrow> Index \<Rightarrow> (nat \<times> nat \<times> snaperr list) \<times> Index" where
  "SnapshotExisting now resolve t i =
     (let own = owner resolve;
          (a, tmp) = snapshotTCP4 now own t NewIndex;
          (b, tmp) = snapshotTCP6 now own t tmp;
          (c, tmp) = snapshotUDP4 now own t tmp;
          (d, tmp) = snapshotUDP6 now own t tmp
      in ((count_of a + count_of b, count_of c + count_of d, error_of a @ error_of b @ error_of c @ error_of d),
          signal (i\<lparr>ixSnapshotExact := ixSnapshotExact tmp, ixLocals := ixLocals tmp\<rparr>)))"

section \<open>The owner of one socket\<close>

text \<open>The loops of the four \<open>resolve\<close> functions, on the rows of a table.\<close>

definition tcp_row_matches :: "(bytes \<Rightarrow> addr) \<Rightarrow> Key \<Rightarrow> tcpRow \<Rightarrow> bool" where
  "tcp_row_matches rd k r \<longleftrightarrow> trPID r \<noteq> 0 \<and> mibPort (trLocalPort r) = kLocalPort k \<and> mibPort (trRemotePort r) = kRemotePort k \<and>
     (IsUnspecified (rd (trRemoteAddr r)) \<or> rd (trRemoteAddr r) = Unmap (kRemote k)) \<and>
     (IsUnspecified (rd (trLocalAddr r)) \<or> rd (trLocalAddr r) = Unmap (kLocal k))"

definition udp_row_matches :: "(bytes \<Rightarrow> addr) \<Rightarrow> Key \<Rightarrow> udpRow \<Rightarrow> bool" where
  "udp_row_matches rd k r \<longleftrightarrow> urPID r \<noteq> 0 \<and> mibPort (urLocalPort r) = kLocalPort k \<and>
     (IsUnspecified (rd (urLocalAddr r)) \<or> rd (urLocalAddr r) = Unmap (kLocal k))"

definition find_owner :: "table_api \<Rightarrow> nat \<Rightarrow> (bytes \<Rightarrow> 'r) \<Rightarrow> ('r \<Rightarrow> bool) \<Rightarrow> ('r \<Rightarrow> u32) \<Rightarrow> u32 option" where
  "find_owner api sz dec ok pid =
     (case getExtendedTable api of Inl _ \<Rightarrow> None
      | Inr buf \<Rightarrow> (case rows sz dec buf of Inl _ \<Rightarrow> None | Inr rs \<Rightarrow> map_option pid (find ok rs)))"

definition resolveTCP4Owner :: "tables \<Rightarrow> Key \<Rightarrow> u32 option" where
  "resolveTCP4Owner t k = find_owner (tabTCP4 t) 24 mibTCPRow (tcp_row_matches addr4 k) trPID"

definition resolveTCP6Owner :: "tables \<Rightarrow> Key \<Rightarrow> u32 option" where
  "resolveTCP6Owner t k = find_owner (tabTCP6 t) 56 mibTCP6Row (tcp_row_matches addr16 k) trPID"

definition resolveUDP4Owner :: "tables \<Rightarrow> Key \<Rightarrow> u32 option" where
  "resolveUDP4Owner t k = find_owner (tabUDP4 t) 12 mibUDPRow (udp_row_matches addr4 k) urPID"

definition resolveUDP6Owner :: "tables \<Rightarrow> Key \<Rightarrow> u32 option" where
  "resolveUDP6Owner t k = find_owner (tabUDP6 t) 28 mibUDP6Row (udp_row_matches addr16 k) urPID"

definition ResolveSocketOwner :: "tables \<Rightarrow> (u32 \<Rightarrow> Process) \<Rightarrow> Key \<Rightarrow> Process option" where
  "ResolveSocketOwner t resolve k =
     (let pid = (if kProto k = 6 then
                   (if Is4 (kLocal k) \<and> Is4 (kRemote k) then resolveTCP4Owner t k
                    else if Is6 (kLocal k) \<and> Is6 (kRemote k) then resolveTCP6Owner t k else None)
                 else if kProto k = 17 then
                   (if Is4 (kLocal k) then resolveUDP4Owner t k
                    else if Is6 (kLocal k) then resolveUDP6Owner t k else None)
                 else None)
      in case pid of None \<Rightarrow> None | Some pid \<Rightarrow> if pid = 0 then None else Some (owner resolve pid))"

section \<open>The tables as Windows lays them out\<close>

text \<open>A table is the number of its rows and the rows, each in the layout of its structure.\<close>

definition table_bytes :: "('r \<Rightarrow> bytes) \<Rightarrow> 'r list \<Rightarrow> bytes" where
  "table_bytes enc rs = u32le (word_of_nat (length rs)) @ concat (map enc rs)"

definition enc_tcp :: "tcpRow \<Rightarrow> bytes" where
  "enc_tcp r = u32le (trState r) @ trLocalAddr r @ trLocalPort r @ trRemoteAddr r @ trRemotePort r @ u32le (trPID r)"

definition enc_tcp6 :: "tcpRow \<Rightarrow> bytes" where
  "enc_tcp6 r = trLocalAddr r @ replicate 4 0 @ trLocalPort r @ trRemoteAddr r @ replicate 4 0 @ trRemotePort r @ u32le (trState r) @ u32le (trPID r)"

definition enc_udp :: "udpRow \<Rightarrow> bytes" where
  "enc_udp r = urLocalAddr r @ urLocalPort r @ u32le (urPID r)"

definition enc_udp6 :: "udpRow \<Rightarrow> bytes" where
  "enc_udp6 r = urLocalAddr r @ replicate 4 0 @ urLocalPort r @ u32le (urPID r)"

definition wf_tcp :: "nat \<Rightarrow> tcpRow \<Rightarrow> bool" where
  "wf_tcp n r \<longleftrightarrow> length (trLocalAddr r) = n \<and> length (trRemoteAddr r) = n \<and> length (trLocalPort r) = 4 \<and> length (trRemotePort r) = 4"

definition wf_udp :: "nat \<Rightarrow> udpRow \<Rightarrow> bool" where
  "wf_udp n r \<longleftrightarrow> length (urLocalAddr r) = n \<and> length (urLocalPort r) = 4"

lemma dec_tcp: "wf_tcp 4 r \<Longrightarrow> length (enc_tcp r) = 24 \<and> mibTCPRow (enc_tcp r) = r"
  by (cases r) (auto simp: enc_tcp_def wf_tcp_def mibTCPRow_def intro!: le32_u32le)

lemma dec_tcp6: "wf_tcp 16 r \<Longrightarrow> length (enc_tcp6 r) = 56 \<and> mibTCP6Row (enc_tcp6 r) = r"
  by (cases r) (auto simp: enc_tcp6_def wf_tcp_def mibTCP6Row_def intro!: le32_u32le)

lemma dec_udp: "wf_udp 4 r \<Longrightarrow> length (enc_udp r) = 12 \<and> mibUDPRow (enc_udp r) = r"
  by (cases r) (auto simp: enc_udp_def wf_udp_def mibUDPRow_def intro!: le32_u32le)

lemma dec_udp6: "wf_udp 16 r \<Longrightarrow> length (enc_udp6 r) = 28 \<and> mibUDP6Row (enc_udp6 r) = r"
  by (cases r) (auto simp: enc_udp6_def wf_udp_def mibUDP6Row_def intro!: le32_u32le)

lemma length_concat_rows: "(\<And>x. x \<in> set xs \<Longrightarrow> length (f x) = n) \<Longrightarrow> length (concat (map f xs)) = length xs * n"
  by (induction xs) auto

lemma nth_row:
  assumes "\<And>x. x \<in> set xs \<Longrightarrow> length (f x) = n" "j < length xs"
  shows "take n (drop (j * n) (concat (map f xs))) = f (xs ! j)"
  using assms
proof (induction xs arbitrary: j)
  case (Cons x xs)
  show ?case
  proof (cases j)
    case 0
    with Cons show ?thesis by simp
  next
    case (Suc i)
    with Cons have "take n (drop (i * n) (concat (map f xs))) = f (xs ! i)" by simp
    with Suc Cons.prems show ?thesis by simp
  qed
qed simp

lemma rows_table:
  assumes dec: "\<And>r. r \<in> set rs \<Longrightarrow> length (enc r) = sz \<and> dec (enc r) = r" and n: "length rs < 2 ^ 32"
  shows "rows sz dec (table_bytes enc rs) = Inr rs"
proof -
  let ?b = "table_bytes enc rs"
  have "le32 ?b 0 = word_of_nat (length rs)" by (rule le32_u32le) (simp add: table_bytes_def)
  then have u: "unat (le32 ?b 0) = length rs" using n by (simp add: unat_of_nat)
  have len: "length ?b = 4 + length rs * sz" using length_concat_rows [of rs enc sz] dec by (simp add: table_bytes_def)
  have "take sz (drop (4 + j * sz) ?b) = enc (rs ! j)" if "j < length rs" for j
    using nth_row [of rs enc sz j] dec that by (simp add: table_bytes_def)
  then have "map (\<lambda>j. dec (take sz (drop (4 + j * sz) ?b))) [0..<length rs] = rs"
    using dec by (intro nth_equalityI) simp_all
  then show ?thesis using u len by (simp add: rows_def)
qed

section \<open>Entries\<close>

definition tcp_key :: "(bytes \<Rightarrow> addr) \<Rightarrow> tcpRow \<Rightarrow> Key" where
  "tcp_key rd r = \<lparr>kProto = 6, kLocal = rd (trLocalAddr r), kRemote = rd (trRemoteAddr r),
     kLocalPort = mibPort (trLocalPort r), kRemotePort = mibPort (trRemotePort r)\<rparr>"

definition established :: "(bytes \<Rightarrow> addr) \<Rightarrow> tcpRow \<Rightarrow> bool" where
  "established rd r \<longleftrightarrow> trState r = mibTCPStateEstablished \<and> trPID r \<noteq> 0 \<and> mibPort (trLocalPort r) \<noteq> 0 \<and>
     mibPort (trRemotePort r) \<noteq> 0 \<and> \<not> IsUnspecified (rd (trRemoteAddr r))"

definition fallback_entry :: "int \<Rightarrow> (u32 \<Rightarrow> Process) \<Rightarrow> u32 \<Rightarrow> entry" where
  "fallback_entry now own pid = \<lparr>eProc = NormalizeProcess (own pid), eSeen = now\<rparr>"

definition tcp_entries :: "int \<Rightarrow> (u32 \<Rightarrow> Process) \<Rightarrow> (bytes \<Rightarrow> addr) \<Rightarrow> tcpRow list \<Rightarrow> (Key \<times> entry) list" where
  "tcp_entries now own rd rs = map (\<lambda>r. (tcp_key rd r, fallback_entry now own (trPID r))) (filter (established rd) rs)"

definition udp_entries :: "int \<Rightarrow> (u32 \<Rightarrow> Process) \<Rightarrow> (bytes \<Rightarrow> addr) \<Rightarrow> udpRow list \<Rightarrow> (localKey \<times> entry) list" where
  "udp_entries now own rd rs =
     map (\<lambda>r. (\<lparr>lkProto = 17, lkLocal = normalizeLocal (wildcardAddr (rd (urLocalAddr r))), lkPort = mibPort (urLocalPort r)\<rparr>, fallback_entry now own (urPID r)))
       (filter (\<lambda>r. urPID r \<noteq> 0 \<and> mibPort (urLocalPort r) \<noteq> 0) rs)"

lemma map_add_rev_Cons: "m ++ map_of (rev ((k, v) # xs)) = m(k \<mapsto> v) ++ map_of (rev xs)"
  by (simp add: map_of_append map_add_assoc [symmetric])

lemma fold_tcp:
  "case fold (snap_tcp_row now own rd) rs (i, n) of (i', n') \<Rightarrow>
     ixSnapshotExact i' = ixSnapshotExact i ++ map_of (rev (tcp_entries now own rd rs)) \<and> ixLocals i' = ixLocals i \<and>
     n' = n + length (tcp_entries now own rd rs)"
proof (induction rs arbitrary: i n)
  case (Cons r rs)
  show ?case
  proof (cases "established rd r")
    case True
    let ?i = "AddSnapshotExact now (tcp_key rd r) (own (trPID r)) i"
    have s: "snap_tcp_row now own rd r (i, n) = (?i, n + 1)"
      using True by (simp add: snap_tcp_row_def established_def tcp_key_def Let_def)
    have e: "tcp_entries now own rd (r # rs) = (tcp_key rd r, fallback_entry now own (trPID r)) # tcp_entries now own rd rs"
      using True by (simp add: tcp_entries_def)
    have "ixSnapshotExact ?i = (ixSnapshotExact i)(tcp_key rd r \<mapsto> fallback_entry now own (trPID r))" "ixLocals ?i = ixLocals i"
      by (simp_all add: AddSnapshotExact_def signal_def fallback_entry_def)
    moreover obtain i' n' where f: "fold (snap_tcp_row now own rd) rs (?i, n + 1) = (i', n')" by force
    ultimately show ?thesis using Cons.IH [of ?i "n + 1"] unfolding e map_add_rev_Cons fold.simps o_apply s f by (simp del: fun_upd_apply)
  next
    case False
    then have "snap_tcp_row now own rd r (i, n) = (i, n)" by (auto simp: snap_tcp_row_def established_def Let_def)
    moreover have "tcp_entries now own rd (r # rs) = tcp_entries now own rd rs" using False by (simp add: tcp_entries_def)
    ultimately show ?thesis using Cons.IH [of i n] by simp
  qed
qed (simp add: tcp_entries_def)

lemma fold_udp:
  "case fold (snap_udp_row now own rd) rs (i, n) of (i', n') \<Rightarrow>
     ixLocals i' = ixLocals i ++ map_of (rev (udp_entries now own rd rs)) \<and> ixSnapshotExact i' = ixSnapshotExact i \<and>
     n' = n + length (udp_entries now own rd rs)"
proof (induction rs arbitrary: i n)
  case (Cons r rs)
  show ?case
  proof (cases "urPID r \<noteq> 0 \<and> mibPort (urLocalPort r) \<noteq> 0")
    case True
    let ?k = "\<lparr>lkProto = 17, lkLocal = normalizeLocal (wildcardAddr (rd (urLocalAddr r))), lkPort = mibPort (urLocalPort r)\<rparr>"
    let ?i = "AddLocal now 17 (wildcardAddr (rd (urLocalAddr r))) (mibPort (urLocalPort r)) (own (urPID r)) i"
    have s: "snap_udp_row now own rd r (i, n) = (?i, n + 1)"
      using True by (simp add: snap_udp_row_def Let_def)
    have e: "udp_entries now own rd (r # rs) = (?k, fallback_entry now own (urPID r)) # udp_entries now own rd rs"
      using True by (simp add: udp_entries_def)
    have "ixLocals ?i = (ixLocals i)(?k \<mapsto> fallback_entry now own (urPID r))" "ixSnapshotExact ?i = ixSnapshotExact i"
      using True by (simp_all add: AddLocal_def signal_def fallback_entry_def)
    moreover obtain i' n' where f: "fold (snap_udp_row now own rd) rs (?i, n + 1) = (i', n')" by force
    ultimately show ?thesis using Cons.IH [of ?i "n + 1"] unfolding e map_add_rev_Cons fold.simps o_apply s f by (simp del: fun_upd_apply)
  next
    case False
    then have "snap_udp_row now own rd r (i, n) = (i, n)" by (auto simp: snap_udp_row_def Let_def)
    moreover have "udp_entries now own rd (r # rs) = udp_entries now own rd rs" using False by (auto simp: udp_entries_def)
    ultimately show ?thesis using Cons.IH [of i n] by simp
  qed
qed (simp add: udp_entries_def)

section \<open>Correctness\<close>

text \<open>\<open>holds t a b c d\<close>: the system calls succeed and the four tables have the rows \<open>a\<close>, \<open>b\<close>, \<open>c\<close>, \<open>d\<close>.\<close>

definition holds :: "tables \<Rightarrow> tcpRow list \<Rightarrow> tcpRow list \<Rightarrow> udpRow list \<Rightarrow> udpRow list \<Rightarrow> bool" where
  "holds t a b c d \<longleftrightarrow>
     getExtendedTable (tabTCP4 t) = Inr (table_bytes enc_tcp a) \<and> getExtendedTable (tabTCP6 t) = Inr (table_bytes enc_tcp6 b) \<and>
     getExtendedTable (tabUDP4 t) = Inr (table_bytes enc_udp c) \<and> getExtendedTable (tabUDP6 t) = Inr (table_bytes enc_udp6 d) \<and>
     (\<forall>r \<in> set a. wf_tcp 4 r) \<and> (\<forall>r \<in> set b. wf_tcp 16 r) \<and> (\<forall>r \<in> set c. wf_udp 4 r) \<and> (\<forall>r \<in> set d. wf_udp 16 r) \<and>
     length a < 2 ^ 32 \<and> length b < 2 ^ 32 \<and> length c < 2 ^ 32 \<and> length d < 2 ^ 32"

lemma holds_rows:
  assumes "holds t a b c d"
  shows "rows 24 mibTCPRow (table_bytes enc_tcp a) = Inr a" "rows 56 mibTCP6Row (table_bytes enc_tcp6 b) = Inr b"
    "rows 12 mibUDPRow (table_bytes enc_udp c) = Inr c" "rows 28 mibUDP6Row (table_bytes enc_udp6 d) = Inr d"
  using assms by (auto simp: holds_def dec_tcp dec_tcp6 dec_udp dec_udp6 intro!: rows_table)

definition matching_owner :: "Key \<Rightarrow> tcpRow list \<Rightarrow> tcpRow list \<Rightarrow> udpRow list \<Rightarrow> udpRow list \<Rightarrow> u32 option" where
  "matching_owner k a b c d =
     (if kProto k = 6 \<and> Is4 (kLocal k) \<and> Is4 (kRemote k) then map_option trPID (find (tcp_row_matches addr4 k) a)
      else if kProto k = 6 \<and> Is6 (kLocal k) \<and> Is6 (kRemote k) then map_option trPID (find (tcp_row_matches addr16 k) b)
      else if kProto k = 17 \<and> Is4 (kLocal k) then map_option urPID (find (udp_row_matches addr4 k) c)
      else if kProto k = 17 \<and> Is6 (kLocal k) then map_option urPID (find (udp_row_matches addr16 k) d)
      else None)"

lemma ResolveSocketOwner_rows:
  assumes h: "holds t a b c d"
  shows "ResolveSocketOwner t resolve k = map_option (owner resolve) (matching_owner k a b c d)"
proof -
  have g: "getExtendedTable (tabTCP4 t) = Inr (table_bytes enc_tcp a)" "getExtendedTable (tabTCP6 t) = Inr (table_bytes enc_tcp6 b)"
    "getExtendedTable (tabUDP4 t) = Inr (table_bytes enc_udp c)" "getExtendedTable (tabUDP6 t) = Inr (table_bytes enc_udp6 d)"
    using h by (simp_all add: holds_def)
  have tcp: "trPID r \<noteq> 0" if "find (tcp_row_matches rd k) rs = Some r" for rd rs r
    using that by (auto simp: find_Some_iff tcp_row_matches_def)
  have udp: "urPID r \<noteq> 0" if "find (udp_row_matches rd k) rs = Some r" for rd rs r
    using that by (auto simp: find_Some_iff udp_row_matches_def)
  show ?thesis
    using Is4_not_Is6
    by (auto simp: ResolveSocketOwner_def resolveTCP4Owner_def resolveTCP6Owner_def resolveUDP4Owner_def resolveUDP6Owner_def
        find_owner_def g holds_rows [OF h] matching_owner_def tcp udp Let_def split: option.split)
qed

text \<open>C39: When the four IP Helper tables can be read, a snapshot replaces exactly the fallback maps: an
  established TCP connection with its ports and remote address set, and a bound UDP port, get the owner of the
  last row that lists them, every other fallback entry is gone, the owners reported by live FLOW and SOCKET
  events are untouched, and the counts are those of the rows used. The lookup of one socket returns
  the process of the first row that matches its ports and addresses, and nothing if there is none.\<close>

theorem SnapshotExisting_correct:
  assumes h: "holds t a b c d"
  shows "(let own = owner resolve; tcp = tcp_entries now own addr4 a @ tcp_entries now own addr16 b;
            udp = udp_entries now own addr4 c @ udp_entries now own addr16 d in
     SnapshotExisting now resolve t i =
       ((length tcp, length udp, []), i\<lparr>ixSnapshotExact := map_of (rev tcp), ixLocals := map_of (rev udp), ixNotify := True\<rparr>)) \<and>
    ResolveSocketOwner t resolve k = map_option (owner resolve) (matching_owner k a b c d)"
proof -
  let ?own = "owner resolve"
  have g: "getExtendedTable (tabTCP4 t) = Inr (table_bytes enc_tcp a)" "getExtendedTable (tabTCP6 t) = Inr (table_bytes enc_tcp6 b)"
    "getExtendedTable (tabUDP4 t) = Inr (table_bytes enc_udp c)" "getExtendedTable (tabUDP6 t) = Inr (table_bytes enc_udp6 d)"
    using h by (simp_all add: holds_def)
  obtain i1 n1 where f1: "fold (snap_tcp_row now ?own addr4) a (NewIndex, 0) = (i1, n1)" by force
  obtain i2 n2 where f2: "fold (snap_tcp_row now ?own addr16) b (i1, 0) = (i2, n2)" by force
  obtain i3 n3 where f3: "fold (snap_udp_row now ?own addr4) c (i2, 0) = (i3, n3)" by force
  obtain i4 n4 where f4: "fold (snap_udp_row now ?own addr16) d (i3, 0) = (i4, n4)" by force
  note e = fold_tcp [where now = now and own = ?own and rd = addr4 and rs = a and i = NewIndex and n = 0, unfolded f1]
    fold_tcp [where now = now and own = ?own and rd = addr16 and rs = b and i = i1 and n = 0, unfolded f2]
    fold_udp [where now = now and own = ?own and rd = addr4 and rs = c and i = i2 and n = 0, unfolded f3]
    fold_udp [where now = now and own = ?own and rd = addr16 and rs = d and i = i3 and n = 0, unfolded f4]
  have "snapshotTCP4 now ?own t NewIndex = (Inr n1, i1)" "snapshotTCP6 now ?own t i1 = (Inr n2, i2)"
    "snapshotUDP4 now ?own t i2 = (Inr n3, i3)" "snapshotUDP6 now ?own t i3 = (Inr n4, i4)"
    by (simp_all add: snapshotTCP4_def snapshotTCP6_def snapshotUDP4_def snapshotUDP6_def snapshot_table_def g holds_rows [OF h] f1 f2 f3 f4)
  then have "SnapshotExisting now resolve t i =
      ((n1 + n2, n3 + n4, []), signal (i\<lparr>ixSnapshotExact := ixSnapshotExact i4, ixLocals := ixLocals i4\<rparr>))"
    by (simp add: SnapshotExisting_def Let_def count_of_def error_of_def)
  with e ResolveSocketOwner_rows [OF h] show ?thesis
    by (simp add: Let_def NewIndex_def signal_def map_of_append)
qed

definition api_of :: "bytes \<Rightarrow> table_api" where
  "api_of b = \<lparr>apiProbe = (122, word_of_nat (length b)), apiFill = (\<lambda>_. (0, word_of_nat (length b), (\<lambda>i. b ! i)))\<rparr>"

lemma api_of_table: "4 \<le> length b \<Longrightarrow> length b < 2 ^ 32 \<Longrightarrow> getExtendedTable (api_of b) = Inr b"
  by (simp add: getExtendedTable_def api_of_def errorInsufficientBuffer_def word_less_nat_alt unat_of_nat map_nth Let_def)

definition example_tcp :: tcpRow where
  "example_tcp = \<lparr>trState = 5, trLocalAddr = [192, 168, 1, 2], trLocalPort = [0xc3, 0x50, 0, 0],
     trRemoteAddr = [1, 1, 1, 1], trRemotePort = [1, 0xbb, 0, 0], trPID = 77\<rparr>"

definition example_tables :: tables where
  "example_tables = \<lparr>tabTCP4 = api_of (table_bytes enc_tcp [example_tcp]), tabTCP6 = api_of (table_bytes enc_tcp6 []),
     tabUDP4 = api_of (table_bytes enc_udp []), tabUDP6 = api_of (table_bytes enc_udp6 [])\<rparr>"

theorem SnapshotExisting_correct_witness:
  "fst (SnapshotExisting 5 (\<lambda>pid. \<lparr>prPID = pid, prName = ''app.exe'', prPath = []\<rparr>) example_tables NewIndex) = (1, 0, [])"
proof -
  have h: "holds example_tables [example_tcp] [] [] []"
    by (simp add: holds_def example_tables_def api_of_table table_bytes_def enc_tcp_def example_tcp_def wf_tcp_def)
  have "established addr4 example_tcp"
    by (simp add: established_def example_tcp_def mibTCPStateEstablished_def mibPort_def addr4_def) (code_simp)
  with SnapshotExisting_correct [OF h, of "\<lambda>pid. \<lparr>prPID = pid, prName = ''app.exe'', prPath = []\<rparr>" 5 NewIndex]
  show ?thesis by (simp add: Let_def tcp_entries_def udp_entries_def)
qed

end
