(* ===== verification/Engine.thy ===== *)
theory Engine
  imports Windivert Packet_Split Packet_Frag Reassembly6 Nat_Mapper Routes Policy Dns Discovery
    Flow_Snapshot Wireguard
begin

unbundle bit_operations_syntax

text \<open>
  The engine (\<open>internal/engine/engine_windows.go\<close>): the packet path that composes the other components, and the
  goroutines around it. A goroutine is a function of the state that performs one iteration of its
  loop; the state is the \<open>Runner\<close> with the two send queues. The arguments of a step are what the
  operating system answers during it (\<open>env\<close>).
\<close>

section \<open>State\<close>

record queuedPacket =
  qRaw :: bytes
  qQueued :: int

text \<open>The atomic counters of the \<open>Runner\<close>.\<close>

record Counters =
  captured :: u64
  tunneled :: u64
  bypassed :: u64
  dropped :: u64
  procResolved :: u64
  procMissed :: u64
  discoveryPackets :: u64
  domainMatches :: u64
  sniLearned :: u64
  quicSuppressed :: u64
  reconnects :: u64
  proxyTunnel :: u64
  proxyDirect :: u64
  wgWriteOK :: u64
  wgWriteErrors :: u64
  reverseNATMiss :: u64
  inboundInjected :: u64
  inboundErrors :: u64
  inboundOther :: u64
  oversizeSegmented :: u64
  oversizeDropped :: u64
  sendQueueHigh :: u64
  sendQueueDelayMaxMS :: u64
  stickyUnknownDirect :: u64
  preexistingTCPReset :: u64
  fragReassembled :: u64
  fragRefragmented :: u64
  fragErrors :: u64
  fragTimeouts :: u64

text \<open>
  \<open>fragID\<close> is the identification counter of the packet package, \<open>stopped\<close> the cancelled context, and
  \<open>injected\<close> records the calls of \<open>WinDivertSend\<close>: the packet and its address.
\<close>

record Runner =
  cfg :: Config
  flows :: Index
  domains :: Tracker
  discovery :: Discovery
  policy :: Policy
  proxyRoutes :: proxyRouteTable
  routes :: flowRouteTable
  natMapper :: Mapper
  out4 :: IPv4
  in4 :: IPv4
  out6 :: IPv6
  in6 :: IPv6
  fragID :: u32
  wg :: Client
  ctr :: Counters
  aggressiveDiscovery :: bool
  urgentQ :: "queuedPacket list"
  bulkQ :: "queuedPacket list"
  stopped :: bool
  injected :: "(bytes \<times> Address) list"

text \<open>
  The environment of a step: the time, the answer of the n-th \<open>WinDivertSend\<close>, the checksum helper, the
  IP Helper tables, image names of processes, the states of the flow index seen while waiting for an
  owner, and the choice a \<open>select\<close> makes between several ready cases.
\<close>

record env =
  eNow :: int
  eSend :: "nat \<Rightarrow> nat option"
  eChecksum :: "bytes \<Rightarrow> bool \<times> bytes"
  eTables :: tables
  eImageName :: "u32 \<Rightarrow> string option"
  eWaits :: "wake list"
  ePick :: nat

datatype eerr = EEmptyFragment | ENotIP | EReassembly rerr | EPacket perr | EChecksumErr | ESendErr wderr

definition zeroProcess :: Process where
  "zeroProcess = \<lparr>prPID = 0, prName = [], prPath = []\<rparr>"

definition inc :: "((u64 \<Rightarrow> u64) \<Rightarrow> Counters \<Rightarrow> Counters) \<Rightarrow> Runner \<Rightarrow> Runner" where
  "inc f r = r\<lparr>ctr := f (\<lambda>n. n + 1) (ctr r)\<rparr>"

definition updateMax :: "((u64 \<Rightarrow> u64) \<Rightarrow> Counters \<Rightarrow> Counters) \<Rightarrow> u64 \<Rightarrow> Runner \<Rightarrow> Runner" where
  "updateMax f v r = r\<lparr>ctr := f (\<lambda>old. if v \<le> old then old else v) (ctr r)\<rparr>"

text \<open>\<open>netHandle.Send\<close>.\<close>

definition netSend :: "env \<Rightarrow> bytes \<Rightarrow> Address \<Rightarrow> Runner \<Rightarrow> wderr option \<times> Runner" where
  "netSend e pkt a r =
     (let (err, called) = WdSend pkt (eSend e (length (injected r)))
      in (err, if called then r\<lparr>injected := injected r @ [(pkt, a)]\<rparr> else r))"

section \<open>Fragments\<close>

definition noteFragmentTimeouts :: "u64 \<Rightarrow> Runner \<Rightarrow> Runner" where
  "noteFragmentTimeouts n r =
     (if n = 0 then r
      else r\<lparr>ctr := (ctr r)\<lparr>fragTimeouts := fragTimeouts (ctr r) + n, fragErrors := fragErrors (ctr r) + n,
                            dropped := dropped (ctr r) + n\<rparr>\<rparr>)"

definition takeTimeoutsOut :: "Runner \<Rightarrow> Runner" where
  "takeTimeoutsOut r = (let (a, t4) = TakeExpired (out4 r); (b, t6) = TakeExpired6 (out6 r)
     in noteFragmentTimeouts (a + b) (r\<lparr>out4 := t4, out6 := t6\<rparr>))"

definition takeTimeoutsIn :: "Runner \<Rightarrow> Runner" where
  "takeTimeoutsIn r = (let (a, t4) = TakeExpired (in4 r); (b, t6) = TakeExpired6 (in6 r)
     in noteFragmentTimeouts (a + b) (r\<lparr>in4 := t4, in6 := t6\<rparr>))"

definition reassembleOutbound :: "int \<Rightarrow> bytes \<Rightarrow> Runner \<Rightarrow> ((eerr + Result) \<times> Runner) go" where
  "reassembleOutbound now raw r = do {
     fr \<leftarrow> IsFragment raw;
     if \<not> fr then Some (Inr (passResult raw), r)
     else if raw = [] then Some (Inl EEmptyFragment, r)
     else do {
       b0 \<leftarrow> idx raw 0;
       if drop_bit 4 b0 = 4 then do {
         (x, t) \<leftarrow> PushInfo4 now raw (out4 r);
         Some (map_sum EReassembly id x, takeTimeoutsOut (r\<lparr>out4 := t\<rparr>))
       }
       else if drop_bit 4 b0 = 6 then do {
         (x, t) \<leftarrow> PushInfo6 now raw (out6 r);
         Some (map_sum EReassembly id x, takeTimeoutsOut (r\<lparr>out6 := t\<rparr>))
       }
       else Some (Inl ENotIP, takeTimeoutsOut r)
     }
   }"

definition reassembleInbound :: "int \<Rightarrow> bytes \<Rightarrow> Runner \<Rightarrow> ((eerr + Result) \<times> Runner) go" where
  "reassembleInbound now raw r = do {
     fr \<leftarrow> IsFragment raw;
     if \<not> fr then Some (Inr (passResult raw), r)
     else if raw = [] then Some (Inl EEmptyFragment, r)
     else do {
       b0 \<leftarrow> idx raw 0;
       if drop_bit 4 b0 = 4 then do {
         (x, t) \<leftarrow> PushInfo4 now raw (in4 r);
         Some (map_sum EReassembly id x, takeTimeoutsIn (r\<lparr>in4 := t\<rparr>))
       }
       else if drop_bit 4 b0 = 6 then do {
         (x, t) \<leftarrow> PushInfo6 now raw (in6 r);
         Some (map_sum EReassembly id x, takeTimeoutsIn (r\<lparr>in6 := t\<rparr>))
       }
       else Some (Inl ENotIP, takeTimeoutsIn r)
     }
   }"

section \<open>Direct and tunnelled packets\<close>

text \<open>The loop that sends the parts of a packet and counts each with \<open>f\<close>.\<close>

fun send_parts :: "env \<Rightarrow> Address \<Rightarrow> ((u64 \<Rightarrow> u64) \<Rightarrow> Counters \<Rightarrow> Counters) \<Rightarrow> bytes list \<Rightarrow> Runner \<Rightarrow> wderr option \<times> Runner" where
  "send_parts e a f [] r = (None, r)"
| "send_parts e a f (x # xs) r =
     (case netSend e x a r of
        (Some err, r) \<Rightarrow> (Some err, r)
      | (None, r) \<Rightarrow> send_parts e a f xs (inc f r))"

definition reinjectDirect :: "env \<Rightarrow> bytes \<Rightarrow> Address \<Rightarrow> Result \<Rightarrow> Runner \<Rightarrow> (eerr option \<times> Runner) go" where
  "reinjectDirect e raw a frag r =
     (if \<not> rsFragmented frag then
        (let (err, r) = send_parts e a bypassed_update [raw] r in Some (map_option ESendErr err, r))
      else (case CalcChecksums (eChecksum e) raw of
          None \<Rightarrow> Some (Some EChecksumErr, r)
        | Some cp \<Rightarrow>
            let mtu = rsMTU frag in
            if mtu = 0 \<or> mtu \<ge> length cp then
              (let (err, r) = send_parts e a bypassed_update [cp] r in Some (map_option ESendErr err, r))
            else do {
              (res, fid) \<leftarrow> FragmentForMTU (fragID r) cp (int mtu);
              let r = r\<lparr>fragID := fid\<rparr>;
              (case res of
                 Inl err \<Rightarrow> Some (Some (EPacket err), r)
               | Inr (parts, split) \<Rightarrow>
                   let r = (if split then inc fragRefragmented_update r else r);
                       (err, r) = send_parts e a bypassed_update parts r
                   in Some (map_option ESendErr err, r))
            }))"

fun checksum_all :: "(bytes \<Rightarrow> bool \<times> bytes) \<Rightarrow> bytes list \<Rightarrow> bytes list option" where
  "checksum_all call [] = Some []"
| "checksum_all call (x # xs) =
     (case CalcChecksums call x of None \<Rightarrow> None | Some y \<Rightarrow> map_option ((#) y) (checksum_all call xs))"

definition prepareTunnelPackets :: "env \<Rightarrow> bytes \<Rightarrow> Packet \<Rightarrow> Runner \<Rightarrow> ((eerr + bytes list \<times> bool) \<times> Runner) go" where
  "prepareTunnelPackets e cp pk r =
     (let mtu = cMTU (cfg r) in
      if int (length cp) \<le> mtu then
        (case CalcChecksums (eChecksum e) cp of
           None \<Rightarrow> Some (Inl EChecksumErr, r)
         | Some cp \<Rightarrow> Some (Inr ([cp], False), r))
      else if pProtocol pk = ProtoTCP then do {
        res \<leftarrow> SplitForMTU cp mtu;
        (case res of
           Inl err \<Rightarrow> Some (Inl (EPacket err), r)
         | Inr (segments, split) \<Rightarrow>
             (case checksum_all (eChecksum e) segments of
                None \<Rightarrow> Some (Inl EChecksumErr, r)
              | Some segments \<Rightarrow> Some (Inr (segments, split), r)))
      }
      else (case CalcChecksums (eChecksum e) cp of
          None \<Rightarrow> Some (Inl EChecksumErr, r)
        | Some cp \<Rightarrow> do {
            (res, fid) \<leftarrow> FragmentForMTU (fragID r) cp mtu;
            let r = r\<lparr>fragID := fid\<rparr>;
            (case res of
               Inl err \<Rightarrow> Some (Inl (EPacket err), r)
             | Inr (parts, split) \<Rightarrow>
                 Some (Inr (parts, split), if split then inc fragRefragmented_update r else r))
          }))"

definition resetBrowserTCP :: "env \<Rightarrow> bytes \<Rightarrow> Address \<Rightarrow> Packet \<Rightarrow> Runner \<Rightarrow> (bool \<times> Runner) go" where
  "resetBrowserTCP e raw a pk r = do {
     res \<leftarrow> BuildTCPResetReply raw;
     let (ok, r) = (case res of
          Inl _ \<Rightarrow> (False, r)
        | Inr rst \<Rightarrow> (case CalcChecksums (eChecksum e) rst of
            None \<Rightarrow> (False, r)
          | Some rst \<Rightarrow>
              let (err, r) = netSend e rst (NewInboundAddress (MetaOf a) (pVersion pk = 6)) r
              in (err = None, r)));
     Some (if ok then (True, r) else (False, inc dropped_update r))
   }"

section \<open>The capture loop\<close>

record verdict =
  vProc :: Process
  vOk :: bool
  vD :: Decision
  vFirst :: bool
  vProxy :: bool

definition flowKey :: "Packet \<Rightarrow> Key" where
  "flowKey pk = \<lparr>kProto = pProtocol pk, kLocal = Unmap (pSrc pk), kRemote = Unmap (pDst pk),
     kLocalPort = pSrcPort pk, kRemotePort = pDstPort pk\<rparr>"

text \<open>The owner of a new flow: events first, then a short wait, then the IP Helper tables.\<close>

definition findOwner :: "env \<Rightarrow> Packet \<Rightarrow> Key \<Rightarrow> Runner \<Rightarrow> Process option go" where
  "findOwner e pk key r = do {
     let ow = Lookup key (flows r);
     without \<leftarrow> CouldTunnelWithoutProcess (eNow e) (Some (domains r)) (policy r) (pDst pk);
     ow \<leftarrow> (if ow = None \<and> \<not> without then WaitLookup key (flows r) (eWaits e @ [TimedOut]) else Some ow);
     Some (if ow = None \<and> \<not> without then ResolveSocketOwner (eTables e) (ProcessInfo (eImageName e)) key else ow)
   }"

definition classify :: "env \<Rightarrow> Packet \<Rightarrow> Key \<Rightarrow> Runner \<Rightarrow> (verdict \<times> Runner) go" where
  "classify e pk key r =
     (let (px, t) = LookupProxy (eNow e) key (proxyRoutes r); r = r\<lparr>proxyRoutes := t\<rparr>;
          (en, t) = LookupRoute (eNow e) key (routes r); r = r\<lparr>routes := t\<rparr> in
      case px of
        Some tunnel \<Rightarrow>
          Some (\<lparr>vProc = zeroProcess, vOk = False, vD = \<lparr>dTunnel = tunnel, dReason = ''hostname-proxy'', dGroup = []\<rparr>,
                  vFirst = False, vProxy = True\<rparr>,
                r\<lparr>routes := SetRoute (eNow e) key tunnel zeroProcess True (routes r)\<rparr>)
      | None \<Rightarrow> (case en of
          Some en \<Rightarrow>
            Some (\<lparr>vProc = frProc en, vOk = frKnown en, vD = \<lparr>dTunnel = frTunnel en, dReason = ''sticky-flow'', dGroup = []\<rparr>,
                    vFirst = False, vProxy = False\<rparr>, r)
        | None \<Rightarrow> do {
            ow \<leftarrow> findOwner e pk key r;
            let (proc, ok) = (case ow of None \<Rightarrow> (zeroProcess, False) | Some q \<Rightarrow> (q, True));
            let r = inc (if ok then procResolved_update else procMissed_update) r;
            d \<leftarrow> (if ok \<and> IsInternal (policy r) proc then Some noDecision
                  else Decide (eNow e) (Some (domains r)) (policy r) proc (pDst pk));
            let r = r\<lparr>routes := SetRoute (eNow e) key (dTunnel d) proc ok (routes r)\<rparr>;
            let r = (if \<not> ok \<and> \<not> dTunnel d then inc stickyUnknownDirect_update r else r);
            Some (\<lparr>vProc = proc, vOk = ok, vD = d, vFirst = True, vProxy = False\<rparr>, r)
          }))"

text \<open>Learning from a TLS ClientHello; the result says whether the connection was reset.\<close>

definition learnTLS :: "env \<Rightarrow> bytes \<Rightarrow> Address \<Rightarrow> Packet \<Rightarrow> Key \<Rightarrow> verdict \<Rightarrow> Runner \<Rightarrow> (bool \<times> Runner) go" where
  "learnTLS e raw a pk key v r = do {
     ((name, res), dc) \<leftarrow> FeedTLS (eNow e) key raw (discovery r);
     let r = r\<lparr>discovery := dc\<rparr>;
     if res = TLSClientHello \<and> name \<noteq> [] then do {
       let (groups, t) = AddForName (eNow e) name (pDst pk) (30 * 60 * second) (domains r);
       let r = r\<lparr>domains := t\<rparr>;
       hit \<leftarrow> (if groups \<noteq> [] then do { d \<leftarrow> DecideHost (policy r) (vProc v) name; Some (dTunnel d) } else Some False);
       if hit then do {
         (ok, r) \<leftarrow> resetBrowserTCP e raw a pk (inc sniLearned_update r);
         let r = (if ok then inc reconnects_update r else r);
         Some (True, r\<lparr>routes := DeleteRoute key (routes r)\<rparr>)
       } else Some (False, r)
     } else Some (False, r)
   }"

text \<open>Hostname discovery; the result says whether the packet was consumed.\<close>

definition discover :: "env \<Rightarrow> bytes \<Rightarrow> Address \<Rightarrow> Packet \<Rightarrow> Key \<Rightarrow> verdict \<Rightarrow> Runner \<Rightarrow> (bool \<times> Runner) go" where
  "discover e raw a pk key v r = do {
     needsHostname \<leftarrow> (if \<not> vProxy v \<and> vOk v \<and> \<not> IsInternal (policy r) (vProc v)
                       then NeedsTLSDiscovery (policy r) (vProc v) else Some False);
     let tlsDiscover = (needsHostname \<and> pProtocol pk = ProtoTCP \<and> pDstPort pk = 443);
     aggressive \<leftarrow> (if aggressiveDiscovery r then ShouldSuppressQUIC (policy r) (vProc v) else Some False);
     let quicDiscover = (aggressive \<and> \<not> vProxy v \<and> vOk v \<and> \<not> IsInternal (policy r) (vProc v) \<and>
                         pProtocol pk = ProtoUDP \<and> pDstPort pk = 443);
     let r = (if tlsDiscover \<or> quicDiscover then inc discoveryPackets_update r else r);
     known \<leftarrow> (if tlsDiscover then IsDomainIPForProcess (eNow e) (Some (domains r)) (policy r) (vProc v) (pDst pk) else Some False);
     let r = (if known then inc domainMatches_update r else r);
     let (suppress, r) = (if quicDiscover \<and> \<not> dTunnel (vD v)
         then (let (s, dc) = SuppressUnknownQUIC (eNow e) (pDst pk) (discovery r) in (s, r\<lparr>discovery := dc\<rparr>))
         else (False, r));
     if suppress then Some (True, inc dropped_update (inc quicSuppressed_update r))
     else if tlsDiscover \<and> \<not> dTunnel (vD v) then learnTLS e raw a pk key v r
     else Some (False, r)
   }"

text \<open>The loop over the segments; \<open>ePick\<close> decides between room in the queue and a cancelled context.\<close>

fun enqueue :: "env \<Rightarrow> bool \<Rightarrow> bytes list \<Rightarrow> Runner \<Rightarrow> Runner" where
  "enqueue e urgent [] r = r"
| "enqueue e urgent (seg # segs) r =
     (let q = (if urgent then urgentQ r else bulkQ r);
          room = (length q < (if urgent then 4096 else 8192));
          q' = q @ [\<lparr>qRaw = seg, qQueued = eNow e\<rparr>] in
      if room \<and> \<not> (stopped r \<and> odd (ePick e)) then
        (let r = (if urgent then r\<lparr>urgentQ := q'\<rparr> else r\<lparr>bulkQ := q'\<rparr>)
         in enqueue e urgent segs (updateMax sendQueueHigh_update (word_of_nat (length q')) (inc tunneled_update r)))
      else if stopped r then r
      else enqueue e urgent segs (inc dropped_update r))"

definition clampMSS :: "int \<Rightarrow> bytes \<Rightarrow> Packet \<Rightarrow> bytes go" where
  "clampMSS mtu cp pk =
     (let maxMSS = (if pVersion pk = 6 then mtu - 60 else mtu - 40) in
      if maxMSS > 500 \<and> maxMSS < 65536 then do {
        res \<leftarrow> ClampTCPMSS cp (word_of_int maxMSS);
        Some (case res of Inl _ \<Rightarrow> cp | Inr (_, cp) \<Rightarrow> cp)
      } else Some cp)"

definition sendTunnel :: "env \<Rightarrow> bytes \<Rightarrow> Address \<Rightarrow> Packet \<Rightarrow> Key \<Rightarrow> verdict \<Rightarrow> Runner \<Rightarrow> Runner go" where
  "sendTunnel e raw a pk key v r = do {
     syn \<leftarrow> (if vFirst v \<and> pProtocol pk = ProtoTCP then IsTCPSYN raw else Some True);
     if \<not> syn then do {
       (ok, r) \<leftarrow> resetBrowserTCP e raw a pk r;
       let r = (if ok then inc preexistingTCPReset_update r else r);
       Some (r\<lparr>routes := DeleteRoute key (routes r)\<rparr>)
     } else do {
       let m = MetaOf a;
       (err, cp, nt) \<leftarrow> PrepareOutbound (eNow e) raw \<lparr>ifIdx = nmIfIdx m, subIfIdx = nmSubIfIdx m\<rparr> (natMapper r);
       let r = r\<lparr>natMapper := nt\<rparr>;
       if err \<noteq> None then Some (inc dropped_update r)
       else do {
         cp \<leftarrow> clampMSS (cMTU (cfg r)) cp pk;
         (res, r) \<leftarrow> prepareTunnelPackets e cp pk r;
         (case res of
            Inl _ \<Rightarrow> Some (inc dropped_update (inc oversizeDropped_update r))
          | Inr (segments, split) \<Rightarrow>
              let r = (if split then inc oversizeSegmented_update r else r)
              in Some (enqueue e (pProtocol pk = ProtoUDP) segments r))
       }
     }
   }"

definition sendDirect :: "env \<Rightarrow> bytes \<Rightarrow> Address \<Rightarrow> Result \<Rightarrow> Runner \<Rightarrow> Runner go" where
  "sendDirect e raw a frag r = do {
     (err, r) \<leftarrow> reinjectDirect e raw a frag r;
     Some (if err = None then r
           else let r = inc dropped_update r in if rsFragmented frag then inc fragErrors_update r else r)
   }"

text \<open>A packet that was parsed: classification, discovery, and one of the two ways out.\<close>

definition routePacket :: "env \<Rightarrow> bytes \<Rightarrow> Address \<Rightarrow> Result \<Rightarrow> Packet \<Rightarrow> Runner \<Rightarrow> Runner go" where
  "routePacket e raw a frag pk r = do {
     let key = flowKey pk;
     (v, r) \<leftarrow> classify e pk key r;
     (consumed, r) \<leftarrow> discover e raw a pk key v r;
     if consumed then Some r
     else if \<not> dTunnel (vD v) then sendDirect e raw a frag r
     else sendTunnel e raw a pk key v r
   }"

text \<open>One iteration of \<open>captureLoop\<close> after a successful \<open>Recv\<close>.\<close>

definition captureStep :: "env \<Rightarrow> bytes \<Rightarrow> Address \<Rightarrow> Runner \<Rightarrow> Runner go" where
  "captureStep e raw a r = do {
     let r = inc captured_update r;
     (res, r) \<leftarrow> reassembleOutbound (eNow e) raw r;
     (case res of
        Inl _ \<Rightarrow> Some (inc dropped_update (inc fragErrors_update r))
      | Inr frag \<Rightarrow>
          if \<not> rsReady frag then Some r
          else do {
            let (raw, r) = (if rsFragmented frag then (rsPacket frag, inc fragReassembled_update r) else (raw, r));
            res \<leftarrow> Parse raw;
            (case res of
               Inl err \<Rightarrow>
                 if err = ErrFragment \<or> rsFragmented frag then Some (inc dropped_update (inc fragErrors_update r))
                 else (let (se, r) = netSend e raw a r
                       in Some (inc (if se = None then bypassed_update else dropped_update) r))
             | Inr pk \<Rightarrow> routePacket e raw a frag pk r)
          })
   }"

section \<open>The sender\<close>

text \<open>What the WireGuard client meets during a send: primitives, sockets, clock and random bytes, handshake events.\<close>

record wgEnv =
  wPrims :: prims
  wUdp :: udp
  wRnds :: "nat \<Rightarrow> int \<times> bytes option \<times> bytes option"
  wEvents :: "hsEvent list"

definition sendOne :: "wgEnv \<Rightarrow> int \<Rightarrow> queuedPacket \<Rightarrow> Runner \<Rightarrow> Runner option" where
  "sendOne we now q r = do {
     let delay = now - qQueued q;
     let r = (if delay > 0 then updateMax sendQueueDelayMaxMS_update (word_of_int (delay div 1000000)) r else r);
     (err, c) \<leftarrow> SendPacket (wPrims we) (wUdp we) (wRnds we) (wEvents we) now (qRaw q) (wg r);
     let r = r\<lparr>wg := c\<rparr>;
     Some (if err \<noteq> None then inc dropped_update (inc wgWriteErrors_update r) else inc wgWriteOK_update r)
   }"

text \<open>
  Where \<open>sendLoop\<close> stands: in the burst after \<open>n\<close> urgent packets, before the select on the bulk queue, in
  the final select, or returned.
\<close>

datatype sendPC = Burst nat | Bulk | Waiting | Returned

datatype ready = RUrgent | RBulk | RDone

definition urgentBurst :: nat where "urgentBurst = 8"

text \<open>A select takes one of the cases that are ready; \<open>pick\<close> stands for the random choice.\<close>

definition select :: "nat \<Rightarrow> ready list \<Rightarrow> ready option" where
  "select pick cs = (if cs = [] then None else Some (cs ! (pick mod length cs)))"

definition sendUrgent :: "wgEnv \<Rightarrow> int \<Rightarrow> Runner \<Rightarrow> Runner option" where
  "sendUrgent we now r = sendOne we now (hd (urgentQ r)) (r\<lparr>urgentQ := tl (urgentQ r)\<rparr>)"

definition sendBulk :: "wgEnv \<Rightarrow> int \<Rightarrow> Runner \<Rightarrow> Runner option" where
  "sendBulk we now r = sendOne we now (hd (bulkQ r)) (r\<lparr>bulkQ := tl (bulkQ r)\<rparr>)"

fun senderStep :: "wgEnv \<Rightarrow> int \<Rightarrow> nat \<Rightarrow> sendPC \<Rightarrow> Runner \<Rightarrow> (sendPC \<times> Runner) option" where
  "senderStep we now pick (Burst drained) r =
     (if drained < urgentBurst then
        (case select pick ((if urgentQ r \<noteq> [] then [RUrgent] else []) @ (if stopped r then [RDone] else [])) of
           Some RUrgent \<Rightarrow> map_option (Pair (Burst (drained + 1))) (sendUrgent we now r)
         | Some _ \<Rightarrow> Some (Returned, r)
         | None \<Rightarrow> Some (Burst urgentBurst, r))
      else Some (Bulk, r))"
| "senderStep we now pick Bulk r =
     (if bulkQ r \<noteq> [] then map_option (Pair (Burst 0)) (sendBulk we now r) else Some (Waiting, r))"
| "senderStep we now pick Waiting r =
     (case select pick ((if urgentQ r \<noteq> [] then [RUrgent] else []) @ (if bulkQ r \<noteq> [] then [RBulk] else []) @
                        (if stopped r then [RDone] else [])) of
        Some RUrgent \<Rightarrow> map_option (Pair (Burst 0)) (sendUrgent we now r)
      | Some RBulk \<Rightarrow> map_option (Pair (Burst 0)) (sendBulk we now r)
      | Some RDone \<Rightarrow> Some (Returned, r)
      | None \<Rightarrow> Some (Waiting, r))"
| "senderStep we now pick Returned r = Some (Returned, r)"

section \<open>Packets from the tunnel\<close>

text \<open>From the reassembled packet on: reverse NAT, MSS clamp, checksums, fragmentation and injection.\<close>

definition injectInbound :: "env \<Rightarrow> bytes \<Rightarrow> Packet \<Rightarrow> Meta \<Rightarrow> Result \<Rightarrow> Runner \<Rightarrow> Runner go" where
  "injectInbound e cp pk meta frag r = do {
     cp \<leftarrow> clampMSS (cMTU (cfg r)) cp pk;
     (case CalcChecksums (eChecksum e) cp of
        None \<Rightarrow> Some (inc dropped_update (inc inboundErrors_update r))
      | Some cp \<Rightarrow> do {
          (res, r) \<leftarrow> (if rsFragmented frag \<and> rsMTU frag > 0 \<and> length cp > rsMTU frag then do {
               (res, fid) \<leftarrow> FragmentForMTU (fragID r) cp (int (rsMTU frag));
               Some (res, r\<lparr>fragID := fid\<rparr>)
             } else Some (Inr ([cp], False), r));
          (case res of
             Inl _ \<Rightarrow> Some (inc dropped_update (inc inboundErrors_update (inc fragErrors_update r)))
           | Inr (parts, split) \<Rightarrow>
               let r = (if split then inc fragRefragmented_update r else r);
                   a = NewInboundAddress \<lparr>nmIfIdx = ifIdx meta, nmSubIfIdx = subIfIdx meta\<rparr> (pVersion pk = 6);
                   (err, r) = send_parts e a inboundInjected_update parts r
               in Some (if err = None then r else inc dropped_update (inc inboundErrors_update r)))
        })
   }"

definition receivePacket :: "env \<Rightarrow> Result \<Rightarrow> Runner \<Rightarrow> Runner go" where
  "receivePacket e frag r = do {
     let r = (if rsFragmented frag then inc fragReassembled_update r else r);
     pre \<leftarrow> Parse (rsPacket frag);
     let r = (case pre of Inl _ \<Rightarrow> r
       | Inr q \<Rightarrow> if pProtocol q \<noteq> ProtoTCP \<and> pProtocol q \<noteq> ProtoUDP then inc inboundOther_update r else r);
     (x, cp, nt) \<leftarrow> RestoreInbound (eNow e) (rsPacket frag) (natMapper r);
     let r = r\<lparr>natMapper := nt\<rparr>;
     (case x of
        Inl _ \<Rightarrow> Some (inc dropped_update (inc inboundErrors_update r))
      | Inr (meta, ok) \<Rightarrow>
          if \<not> ok then Some (inc dropped_update (inc reverseNATMiss_update r))
          else do {
            res \<leftarrow> Parse cp;
            (case res of
               Inl err \<Rightarrow>
                 let r = inc dropped_update (inc inboundErrors_update r)
                 in Some (if err = ErrFragment \<or> rsFragmented frag then inc fragErrors_update r else r)
             | Inr pk \<Rightarrow> injectInbound e cp pk meta frag r)
          })
   }"

text \<open>One packet from the queue of the client.\<close>

definition wgReceiveStep :: "env \<Rightarrow> Runner \<Rightarrow> Runner go" where
  "wgReceiveStep e r =
     (case plain (wg r) of
        [] \<Rightarrow> Some r
      | raw # rest \<Rightarrow> do {
          let r = r\<lparr>wg := (wg r)\<lparr>plain := rest\<rparr>\<rparr>;
          if raw = [] then Some r
          else do {
            (res, r) \<leftarrow> reassembleInbound (eNow e) raw r;
            (case res of
               Inl _ \<Rightarrow> Some (inc dropped_update (inc inboundErrors_update (inc fragErrors_update r)))
             | Inr frag \<Rightarrow> if \<not> rsReady frag then Some r else receivePacket e frag r)
          }
        })"

section \<open>Events and timers\<close>

text \<open>One iteration of \<open>flowLoop\<close> and \<open>socketLoop\<close>: \<open>rv\<close> is what \<open>RecvFlow\<close> or \<open>RecvSocket\<close> returned; after an error the loop
  goes on or returns, with the state unchanged.\<close>

definition flowStep :: "int \<Rightarrow> wderr + FlowEvent \<Rightarrow> Runner \<Rightarrow> Runner" where
  "flowStep now rv r = (case rv of Inl _ \<Rightarrow> r | Inr ev \<Rightarrow>
     (if evEvent ev = EventFlowEstablished then r\<lparr>flows := Add now (evKey ev) (evProcess ev) (flows r)\<rparr>
      else if evEvent ev = EventFlowDeleted then
        r\<lparr>flows := DeleteFlow (evKey ev) (flows r), routes := DeleteRoute (evKey ev) (routes r),
          discovery := DeleteTLSFlow (evKey ev) (discovery r), proxyRoutes := DeleteProxyFlow (evKey ev) (proxyRoutes r)\<rparr>
      else r))"

definition socketStep :: "int \<Rightarrow> wderr + SocketEvent \<Rightarrow> Runner \<Rightarrow> Runner" where
  "socketStep now rv r = (case rv of Inl _ \<Rightarrow> r | Inr ev \<Rightarrow>
     (if evEvent ev \<in> {EventSocketBind, EventSocketConnect, EventSocketListen, EventSocketAccept} then
        r\<lparr>flows := AddSocket now (evEndpointID ev) (kProto (evKey ev)) (kLocal (evKey ev)) (kLocalPort (evKey ev)) (evProcess ev) (flows r)\<rparr>
      else if evEvent ev = EventSocketClose then r\<lparr>flows := DeleteSocket (evEndpointID ev) (flows r)\<rparr>
      else r))"

definition dnsStep :: "int \<Rightarrow> bytes \<Rightarrow> Runner \<Rightarrow> Runner go" where
  "dnsStep now raw r = do {
     res \<leftarrow> Parse raw;
     (case res of
        Inl _ \<Rightarrow> Some r
      | Inr pk \<Rightarrow>
          if pProtocol pk \<noteq> ProtoUDP \<or> pL4 pk + 8 > length raw then Some r
          else do {
            msg \<leftarrow> slice raw (pL4 pk + 8) (pTotal pk);
            res \<leftarrow> ParseDNSResponse msg (\<lambda>n. NameMatches n (domains r));
            (case res of
               Inl _ \<Rightarrow> Some r
             | Inr d \<Rightarrow>
                 let groups = GroupsForNames (dnsNames d) (domains r)
                 in Some (r\<lparr>domains := fold (\<lambda>ip. AddGroups now ip groups (dnsTTL d)) (dnsIPs d) (domains r)\<rparr>))
          })
   }"

text \<open>One run of \<open>bootstrapLoop\<close>; \<open>resolve\<close> answers with the time and the addresses.\<close>

definition bootstrapStep :: "(string \<Rightarrow> (int \<times> addr list) option) \<Rightarrow> Runner \<Rightarrow> Runner" where
  "bootstrapStep resolve r = r\<lparr>domains := ResolveBootstrap resolve (5 * 60 * second) (domains r)\<rparr>"

definition maintenanceStep :: "int \<Rightarrow> Runner \<Rightarrow> Runner" where
  "maintenanceStep now r =
     takeTimeoutsIn (takeTimeoutsOut
       (r\<lparr>flows := SweepIndex now (30 * 60 * second) (flows r),
          routes := SweepRoutes now (30 * 60 * second) (routes r),
          natMapper := SweepNat now (15 * 60 * second) (natMapper r),
          domains := SweepTracker now (domains r),
          discovery := SweepDiscovery now (discovery r),
          proxyRoutes := SweepProxy now (30 * 60 * second) (proxyRoutes r),
          out4 := Sweep now (out4 r), in4 := Sweep now (in4 r),
          out6 := Sweep now (out6 r), in6 := Sweep now (in6 r)\<rparr>))"

definition socketSnapshotStep :: "env \<Rightarrow> Runner \<Rightarrow> Runner" where
  "socketSnapshotStep e r =
     r\<lparr>flows := snd (SnapshotExisting (eNow e) (ProcessInfo (eImageName e)) (eTables e) (flows r))\<rparr>"

definition SetAggressiveDiscovery :: "bool \<Rightarrow> Runner \<Rightarrow> Runner" where
  "SetAggressiveDiscovery v r = r\<lparr>aggressiveDiscovery := v\<rparr>"

section \<open>Start and Close\<close>

datatype starterr = StKey | StWireGuard gerr | StDivert

definition zeroCounters :: Counters where
  "zeroCounters = \<lparr>captured = 0, tunneled = 0, bypassed = 0, dropped = 0, procResolved = 0, procMissed = 0,
     discoveryPackets = 0, domainMatches = 0, sniLearned = 0, quicSuppressed = 0, reconnects = 0, proxyTunnel = 0, proxyDirect = 0,
     wgWriteOK = 0, wgWriteErrors = 0, reverseNATMiss = 0, inboundInjected = 0, inboundErrors = 0, inboundOther = 0,
     oversizeSegmented = 0, oversizeDropped = 0, sendQueueHigh = 0, sendQueueDelayMaxMS = 0, stickyUnknownDirect = 0,
     preexistingTCPReset = 0, fragReassembled = 0, fragRefragmented = 0, fragErrors = 0, fragTimeouts = 0\<rparr>"

text \<open>
  \<open>resolve\<close> and \<open>openPath\<close> are the name service and the sockets of the client, \<open>divert\<close> tells whether the three
  required WinDivert handles could be opened, and \<open>fid\<close> is the value of the fragment counter.
\<close>

definition Start :: "prims \<Rightarrow> (string \<Rightarrow> udpAddr option) \<Rightarrow> (nat \<Rightarrow> bool \<Rightarrow> nat option) \<Rightarrow> bool \<Rightarrow> env \<Rightarrow> u32 \<Rightarrow> Config \<Rightarrow> string list
    \<Rightarrow> starterr + Runner" where
  "Start pr resolve openPath divert e fid c internal =
     (case DecodeKey (cPrivateKey c) of None \<Rightarrow> Inl StKey | Some pk \<Rightarrow>
      case DecodeKey (peerPublicKey (cPeer c)) of None \<Rightarrow> Inl StKey | Some pb \<Rightarrow>
      case (if peerPresharedKey (cPeer c) \<noteq> [] then DecodeKey (peerPresharedKey (cPeer c)) else Some (replicate 32 0)) of
        None \<Rightarrow> Inl StKey | Some ps \<Rightarrow>
      case Wireguard.New pr resolve openPath \<lparr>pPrivateKey = pk, pPeerPublicKey = pb, pPresharedKey = ps,
          pEndpoint = peerEndpoint (cPeer c), pMTU = cMTU c, pKeepalive = peerKeepalive (cPeer c)\<rparr> of
        Inl err \<Rightarrow> Inl (StWireGuard err) | Inr w \<Rightarrow>
      if \<not> divert then Inl StDivert
      else Inr (socketSnapshotStep e
        \<lparr>cfg = c, flows = NewIndex, domains = NewTracker (cGroups c), discovery = NewDiscovery,
         policy = NewWithInternal (cGroups c) internal, proxyRoutes = newProxyRouteTable, routes = newFlowRouteTable,
         natMapper = Nat_Mapper.New (TunnelIPv4 c) (TunnelIPv6 c), out4 = NewIPv4, in4 = NewIPv4, out6 = NewIPv6, in6 = NewIPv6,
         fragID = fid, wg = w, ctr = zeroCounters, aggressiveDiscovery = False, urgentQ = [], bulkQ = [],
         stopped = False, injected = []\<rparr>))"

definition CloseRunner :: "Runner \<Rightarrow> Runner" where
  "CloseRunner r = r\<lparr>stopped := True, wg := Close (wg r)\<rparr>"

end
