(* ===== verification/Engine_Inv.thy ===== *)
theory Engine_Inv
  imports Engine Wireguard_Transport
begin

text \<open>
  The engine's steps in any order, and what holds in every state they reach: no step of the packet path
  panics, the two send queues hold only packets that fit the tunnel MTU, and the WireGuard client
  takes only its own steps. \<open>returns m Q\<close> is the weakest precondition of a computation that may panic.
\<close>

section \<open>Returning\<close>

definition returns :: "'a go \<Rightarrow> ('a \<Rightarrow> bool) \<Rightarrow> bool" where
  "returns m Q \<longleftrightarrow> (\<exists>x. m = Some x \<and> Q x)"

named_theorems wp

lemma returns_Some [simp]: "returns (Some x) Q \<longleftrightarrow> Q x"
  by (simp add: returns_def)

lemma returns_bind [simp]: "returns (m \<bind> f) Q \<longleftrightarrow> returns m (\<lambda>x. returns (f x) Q)"
  by (cases m) (auto simp: returns_def)

lemma returns_weaken: "returns m P \<Longrightarrow> (\<And>x. P x \<Longrightarrow> Q x) \<Longrightarrow> returns m Q"
  by (auto simp: returns_def)

lemma returns_total: "m \<noteq> None \<Longrightarrow> (\<And>x. m = Some x \<Longrightarrow> Q x) \<Longrightarrow> returns m Q"
  by (auto simp: returns_def)

section \<open>The components return\<close>

lemma SplitForMTU_fits:
  assumes "SplitForMTU b mtu = Some (Inr (segs, sp))" "s \<in> set segs"
  shows "int (length s) \<le> mtu"
proof (cases sp)
  case False
  then show ?thesis using assms
    by (auto simp: SplitForMTU_def Let_def split: if_splits bind_splits sum.splits)
next
  case True
  from assms(1) [unfolded True eqTrueI] SplitForMTU_split obtain pk hl where
    pk: "Parse b = Some (Inr pk)" and h: "20 \<le> hl" "pL4 pk + hl < length b" "0 < mtu - int (pL4 pk) - int hl"
    and sl: "split_loop b (pk\<lparr>pTotal := length b\<rparr>) hl
       (u32of (b ! (pL4 pk + 4)) (b ! (pL4 pk + 5)) (b ! (pL4 pk + 6)) (b ! (pL4 pk + 7)))
       (b ! (pL4 pk + 13)) (drop (pL4 pk + hl) b) (nat (mtu - int (pL4 pk) - int hl)) 0 = Some (Inr segs)"
    using assms(1) True by (metis (full_types))
  let ?q = "pk\<lparr>pTotal := length b\<rparr>" and ?mp = "nat (mtu - int (pL4 pk) - int hl)"
  have bnd: "20 \<le> pL4 ?q" "pL4 ?q + hl \<le> length b" "0 < ?mp" using Parse_bounds [OF pk] h by simp_all
  obtain k where k: "k < length segs" "s = segs ! k" using assms(2) by (metis in_set_conv_nth)
  have "lso_seg_ok b mtu pk hl (length segs) k s"
    unfolding k(2) using h bnd
    by (intro segs_spec_seg_ok [OF pk h(1) _ bnd(3) _ conjunct1 [OF split_loop_spec [OF bnd(1) h(1) bnd(2,3) sl]] k(1)]) simp_all
  then show ?thesis by (simp add: lso_seg_ok_def)
qed

lemma BuildTCPResetReply_ne_None: "BuildTCPResetReply b \<noteq> None"
proof -
  obtain x where x: "ParseTCPInfo b = Some x" using ParseTCPInfo_ne_None [of b] by blast
  show ?thesis
  proof (cases x)
    case (Inr pt)
    obtain pk ti sq ak fl where pt: "pt = (pk, ti)" "reset_fields ti = (sq, ak, fl)" by (metis prod_cases3 surj_pair)
    have info: "ParseTCPInfo b = Some (Inr (pk, ti))" using x Inr pt(1) by simp
    then have "pVersion pk = 4 \<or> pVersion pk = 6" using Parse_version [of b pk] by (auto simp: ParseTCPInfo_Inr_iff)
    then show ?thesis using Build_reply4 [OF info pt(2)] Build_reply6 [OF info pt(2)] by auto
  qed (use x in \<open>simp add: BuildTCPResetReply_def\<close>)
qed

lemma feed_segment_ne_None: "feed_segment sq payload s \<noteq> None"
proof -
  obtain f where "\<And>d. ServerName d = Some (f d)" using ServerName_safe by metis
  then show ?thesis by (auto simp: feed_segment_def Let_def split: tls_answer.split)
qed

lemma FeedTLS_returns: "returns (FeedTLS now k raw d) (\<lambda>_. True)"
proof -
  obtain x where x: "ParseTCPInfo raw = Some x" using ParseTCPInfo_ne_None [of raw] by blast
  have "returns (feed_segment sq pl s) (\<lambda>_. True)" for sq pl s
    using feed_segment_ne_None [of sq pl s] by (simp add: returns_def)
  then show ?thesis using x by (cases x) (simp_all add: FeedTLS_def Let_def split_def)
qed

lemma WaitLookup_timeout: "WaitLookup k i (ws @ [TimedOut]) \<noteq> None"
proof -
  have "Flow_Index.wait_loop k (ws @ [TimedOut]) \<noteq> None"
    by (induction k ws rule: Flow_Index.wait_loop.induct) (auto split: option.split)
  then show ?thesis by (auto simp: WaitLookup_def split: option.split)
qed

text \<open>Every question the engine asks of a compiled policy is answered.\<close>

lemma policy_returns:
  assumes e: "e = NewWithInternal groups internal"
  shows "CouldTunnelWithoutProcess now tr e dst \<noteq> None" "NeedsTLSDiscovery e proc \<noteq> None"
    "ShouldSuppressQUIC e proc \<noteq> None" "IsDomainIPForProcess now tr e proc dst \<noteq> None"
    "Decide now tr e proc dst \<noteq> None" "DecideHost e proc host \<noteq> None"
proof -
  have any: "\<exists>x. any_group P e ids = Some x" if "set ids \<subseteq> {i. i < length groups}" for P ids
    using any_group_correct [of ids e P] that by (auto simp: e NewWithInternal_sets)
  have s: "set (poGlobal e) \<subseteq> {i. i < length groups}" "set (poByName e k) \<subseteq> {i. i < length groups}"
    "set (poByPath e k) \<subseteq> {i. i < length groups}" for k by (auto simp: e NewWithInternal_sets)
  obtain f g h where a: "\<And>P. any_group P e (poGlobal e) = Some (f P)" "\<And>P k. any_group P e (poByName e k) = Some (g P k)"
    "\<And>P k. any_group P e (poByPath e k) = Some (h P k)"
    using any [OF s(1)] any [OF s(2)] any [OF s(3)] by metis
  show "CouldTunnelWithoutProcess now tr e dst \<noteq> None" using a by (simp add: CouldTunnelWithoutProcess_def)
  show "NeedsTLSDiscovery e proc \<noteq> None" "ShouldSuppressQUIC e proc \<noteq> None" "IsDomainIPForProcess now tr e proc dst \<noteq> None"
    using a by (auto simp: NeedsTLSDiscovery_def needsTLSIDs_def ShouldSuppressQUIC_def IsDomainIPForProcess_def
        domainIPIDs_def candidateSlices_def Let_def or_go_def)
  show "Decide now tr e proc dst \<noteq> None" "DecideHost e proc host \<noteq> None"
    using Decide_scan [of now tr groups internal proc dst] DecideHost_scan [of groups internal proc host]
    by (auto simp: e scan_ok_def)
qed

section \<open>The invariant\<close>

definition fits :: "Config \<Rightarrow> queuedPacket list \<Rightarrow> bool" where
  "fits c q \<longleftrightarrow> (\<forall>x \<in> set q. int (length (qRaw x)) \<le> cMTU c)"

definition runner_ok :: "Config \<Rightarrow> string list \<Rightarrow> Runner \<Rightarrow> bool" where
  "runner_ok c internal r \<longleftrightarrow> cfg r = c \<and> policy r = NewWithInternal (cGroups c) internal \<and>
     tab_ok header_ok (out4 r) \<and> tab_ok header_ok (in4 r) \<and> tab_ok prefix_ok (out6 r) \<and> tab_ok prefix_ok (in6 r) \<and>
     nat_ok (natMapper r) \<and>
     length (urgentQ r) \<le> 4096 \<and> length (bulkQ r) \<le> 8192 \<and> fits c (urgentQ r) \<and> fits c (bulkQ r)"

text \<open>\<open>quiet r r'\<close>: nothing was injected or queued, and the client was left alone.\<close>

definition quiet :: "Runner \<Rightarrow> Runner \<Rightarrow> bool" where
  "quiet r r' \<longleftrightarrow> injected r' = injected r \<and> urgentQ r' = urgentQ r \<and> bulkQ r' = bulkQ r \<and> wg r' = wg r \<and> stopped r' = stopped r"

text \<open>\<open>injects P r r'\<close>: the step injected packets that satisfy \<open>P\<close>, and nothing was queued.\<close>

definition injects :: "(bytes \<times> Address \<Rightarrow> bool) \<Rightarrow> Runner \<Rightarrow> Runner \<Rightarrow> bool" where
  "injects P r r' \<longleftrightarrow> (\<exists>xs. injected r' = injected r @ xs \<and> (\<forall>x \<in> set xs. P x)) \<and>
     urgentQ r' = urgentQ r \<and> bulkQ r' = bulkQ r \<and> wg r' = wg r \<and> stopped r' = stopped r"

lemma quiet_injects: "quiet r r' \<Longrightarrow> injects P r r'"
  by (auto simp: quiet_def injects_def)

lemma injects_trans: "injects P r s \<Longrightarrow> injects P s t \<Longrightarrow> injects P r t"
  by (auto simp: injects_def)

lemma injects_mono: "injects P r s \<Longrightarrow> (\<And>x. P x \<Longrightarrow> Q x) \<Longrightarrow> injects Q r s"
  unfolding injects_def by blast

lemma quiet_trans: "quiet r s \<Longrightarrow> quiet s t \<Longrightarrow> quiet r t"
  by (simp add: quiet_def)

text \<open>Counters are invisible to all of them.\<close>

lemma inc_fields [simp]:
  "injected (inc f r) = injected r" "urgentQ (inc f r) = urgentQ r" "bulkQ (inc f r) = bulkQ r" "wg (inc f r) = wg r"
  "stopped (inc f r) = stopped r" "cfg (inc f r) = cfg r" "policy (inc f r) = policy r" "natMapper (inc f r) = natMapper r"
  "out4 (inc f r) = out4 r" "in4 (inc f r) = in4 r" "out6 (inc f r) = out6 r" "in6 (inc f r) = in6 r" "fragID (inc f r) = fragID r"
  "flows (inc f r) = flows r" "domains (inc f r) = domains r" "discovery (inc f r) = discovery r"
  "proxyRoutes (inc f r) = proxyRoutes r" "routes (inc f r) = routes r" "aggressiveDiscovery (inc f r) = aggressiveDiscovery r"
  by (simp_all add: inc_def)

lemma updateMax_fields [simp]:
  "injected (updateMax f v r) = injected r" "urgentQ (updateMax f v r) = urgentQ r" "bulkQ (updateMax f v r) = bulkQ r"
  "wg (updateMax f v r) = wg r" "stopped (updateMax f v r) = stopped r" "cfg (updateMax f v r) = cfg r"
  "policy (updateMax f v r) = policy r" "natMapper (updateMax f v r) = natMapper r" "out4 (updateMax f v r) = out4 r"
  "in4 (updateMax f v r) = in4 r" "out6 (updateMax f v r) = out6 r" "in6 (updateMax f v r) = in6 r"
  by (simp_all add: updateMax_def)

lemma inc_ok [simp]: "runner_ok c i (inc f r) \<longleftrightarrow> runner_ok c i r" "quiet (inc f r) s \<longleftrightarrow> quiet r s"
    "quiet r (inc f s) \<longleftrightarrow> quiet r s" "injects P (inc f r) s \<longleftrightarrow> injects P r s" "injects P r (inc f s) \<longleftrightarrow> injects P r s"
  by (simp_all add: runner_ok_def quiet_def injects_def)

lemma quiet_refl [simp]: "quiet r r"
  by (simp add: quiet_def)

lemma tab_ok_TakeExpired [simp]: "tab_ok P (snd (TakeExpired t)) \<longleftrightarrow> tab_ok P t"
  by (simp add: TakeExpired_def tab_ok_def)

lemma noteFragmentTimeouts_ok [simp]:
  "runner_ok c i (noteFragmentTimeouts n r) \<longleftrightarrow> runner_ok c i r" "quiet r (noteFragmentTimeouts n s) \<longleftrightarrow> quiet r s"
  by (simp_all add: noteFragmentTimeouts_def runner_ok_def quiet_def)

lemma takeTimeouts_ok [simp]:
  "runner_ok c i (takeTimeoutsOut r) \<longleftrightarrow> runner_ok c i r" "runner_ok c i (takeTimeoutsIn r) \<longleftrightarrow> runner_ok c i r"
  "quiet r (takeTimeoutsOut s) \<longleftrightarrow> quiet r s" "quiet r (takeTimeoutsIn s) \<longleftrightarrow> quiet r s"
  by (simp_all add: takeTimeoutsOut_def takeTimeoutsIn_def TakeExpired6_def TakeExpired_def Let_def)
    (simp_all add: runner_ok_def quiet_def tab_ok_def)

section \<open>Reassembly and injection\<close>

lemma reassembleOutbound_ok:
  assumes r: "runner_ok c i r"
  shows "returns (reassembleOutbound now raw r) (\<lambda>(res, r'). runner_ok c i r' \<and> quiet r r' \<and>
    (\<forall>frag. res = Inr frag \<longrightarrow> (IsFragment raw = Some False \<longrightarrow> frag = passResult raw)))"
proof -
  obtain fr where fr: "IsFragment raw = Some fr" using IsFragment_ne_None [of raw] by blast
  have "tab_ok header_ok (out4 r)" "tab_ok prefix_ok (out6 r)" using r by (simp_all add: runner_ok_def)
  then obtain x4 t4 x6 t6 where p: "PushInfo4 now raw (out4 r) = Some (x4, t4)" "tab_ok header_ok t4"
    "PushInfo6 now raw (out6 r) = Some (x6, t6)" "tab_ok prefix_ok t6"
    using PushInfo4_ok [of "out4 r" now raw] PushInfo6_ok [of "out6 r" now raw] by blast
  have "runner_ok c i (r\<lparr>out4 := t4\<rparr>)" "runner_ok c i (r\<lparr>out6 := t6\<rparr>)" "quiet r (r\<lparr>out4 := t4\<rparr>)" "quiet r (r\<lparr>out6 := t6\<rparr>)"
    using r p by (simp_all add: runner_ok_def quiet_def)
  with r p fr show ?thesis by (cases raw) (auto simp: reassembleOutbound_def)
qed

lemma reassembleInbound_ok:
  assumes r: "runner_ok c i r"
  shows "returns (reassembleInbound now raw r) (\<lambda>(res, r'). runner_ok c i r' \<and> quiet r r')"
proof -
  obtain fr where fr: "IsFragment raw = Some fr" using IsFragment_ne_None [of raw] by blast
  have "tab_ok header_ok (in4 r)" "tab_ok prefix_ok (in6 r)" using r by (simp_all add: runner_ok_def)
  then obtain x4 t4 x6 t6 where p: "PushInfo4 now raw (in4 r) = Some (x4, t4)" "tab_ok header_ok t4"
    "PushInfo6 now raw (in6 r) = Some (x6, t6)" "tab_ok prefix_ok t6"
    using PushInfo4_ok [of "in4 r" now raw] PushInfo6_ok [of "in6 r" now raw] by blast
  have "runner_ok c i (r\<lparr>in4 := t4\<rparr>)" "runner_ok c i (r\<lparr>in6 := t6\<rparr>)" "quiet r (r\<lparr>in4 := t4\<rparr>)" "quiet r (r\<lparr>in6 := t6\<rparr>)"
    using r p by (simp_all add: runner_ok_def quiet_def)
  with r p fr show ?thesis by (cases raw) (auto simp: reassembleInbound_def)
qed

lemma netSend_ok:
  "netSend e pkt a r = (err, r') \<Longrightarrow> (runner_ok c i r' \<longleftrightarrow> runner_ok c i r) \<and> injects (\<lambda>x. x = (pkt, a)) r r'"
  by (auto simp: netSend_def runner_ok_def injects_def Let_def split: prod.splits if_splits)

lemma send_parts_ok:
  "send_parts e a f xs r = (err, r') \<Longrightarrow> (runner_ok c i r' \<longleftrightarrow> runner_ok c i r) \<and> injects (\<lambda>(b, d). b \<in> set xs \<and> d = a) r r'"
proof (induction xs arbitrary: r)
  case (Cons x xs)
  obtain err1 r1 where s: "netSend e x a r = (err1, r1)" by fastforce
  note n = netSend_ok [OF s, of c i]
  show ?case
  proof (cases err1)
    case None
    with Cons.prems s have "send_parts e a f xs (inc f r1) = (err, r')" by simp
    from Cons.IH [OF this] have "runner_ok c i r' = runner_ok c i r1" "injects (\<lambda>(b, d). b \<in> set (x # xs) \<and> d = a) r1 r'"
      by (auto elim: injects_mono)
    moreover have "injects (\<lambda>(b, d). b \<in> set (x # xs) \<and> d = a) r r1" using n by (auto elim: injects_mono)
    ultimately show ?thesis using n injects_trans by blast
  next
    case (Some er)
    with Cons.prems s n show ?thesis by (auto elim: injects_mono)
  qed
qed (simp add: quiet_injects)

section \<open>The packet path\<close>

lemma send_parts_snd:
  "runner_ok c i (snd (send_parts e a f xs r)) \<longleftrightarrow> runner_ok c i r"
  "(\<And>b. b \<in> set xs \<Longrightarrow> P (b, a)) \<Longrightarrow> quiet r0 r \<Longrightarrow> injects P r0 (snd (send_parts e a f xs r))"
proof -
  obtain err r' where s: "send_parts e a f xs r = (err, r')" by fastforce
  note ok = send_parts_ok [OF s, of c i]
  show "runner_ok c i (snd (send_parts e a f xs r)) \<longleftrightarrow> runner_ok c i r" using ok by (simp add: s)
  assume "\<And>b. b \<in> set xs \<Longrightarrow> P (b, a)" "quiet r0 r"
  then show "injects P r0 (snd (send_parts e a f xs r))"
    using ok by (auto simp: s elim!: injects_mono intro: injects_trans [OF quiet_injects])
qed

lemma netSend_snd:
  "runner_ok c i (snd (netSend e pkt a r)) \<longleftrightarrow> runner_ok c i r"
  "P (pkt, a) \<Longrightarrow> injects P r (snd (netSend e pkt a r))"
proof -
  obtain err r' where s: "netSend e pkt a r = (err, r')" by fastforce
  note ok = netSend_ok [OF s, of c i]
  show "runner_ok c i (snd (netSend e pkt a r)) \<longleftrightarrow> runner_ok c i r" using ok by (simp add: s)
  assume "P (pkt, a)"
  then show "injects P r (snd (netSend e pkt a r))" using ok injects_mono [of _ r r' P] by (auto simp: s)
qed

text \<open>A direct packet goes out with the address it was captured with; one that was no fragment goes out unchanged.\<close>

lemma reinjectDirect_ok:
  assumes r: "runner_ok c i r"
  shows "returns (reinjectDirect e raw a frag r)
    (\<lambda>(err, r'). runner_ok c i r' \<and> injects (\<lambda>(b, d). d = a \<and> (\<not> rsFragmented frag \<longrightarrow> b = raw)) r r')"
proof (cases "rsFragmented frag")
  case False
  then show ?thesis
    using r by (auto simp: reinjectDirect_def Let_def split_def send_parts_snd(1) simp del: send_parts.simps intro!: send_parts_snd(2))
next
  case True
  have q: "runner_ok c i (r\<lparr>fragID := n\<rparr>)" "quiet r (r\<lparr>fragID := n\<rparr>)" for n
    using r by (simp_all add: runner_ok_def quiet_def)
  show ?thesis
  proof (cases "CalcChecksums (eChecksum e) raw")
    case None
    then show ?thesis using True r by (simp add: reinjectDirect_def quiet_injects)
  next
    case (Some cp)
    obtain res fid where f: "FragmentForMTU (fragID r) cp (int (rsMTU frag)) = Some (res, fid)"
      using FragmentForMTU_fits [of "fragID r" cp "int (rsMTU frag)"] by auto
    show ?thesis
      using True Some f r q
      by (auto simp: reinjectDirect_def Let_def split_def send_parts_snd(1) quiet_injects simp del: send_parts.simps
          split: sum.split intro!: send_parts_snd(2))
  qed
qed

lemma sendDirect_ok:
  assumes "runner_ok c i r"
  shows "returns (sendDirect e raw a frag r)
    (\<lambda>r'. runner_ok c i r' \<and> injects (\<lambda>(b, d). d = a \<and> (\<not> rsFragmented frag \<longrightarrow> b = raw)) r r')"
  using reinjectDirect_ok [OF assms, of e raw a frag]
  by (auto simp: sendDirect_def Let_def elim!: returns_weaken)

lemma resetBrowserTCP_ok:
  assumes r: "runner_ok c i r"
  shows "returns (resetBrowserTCP e raw a pk r) (\<lambda>(ok, r'). runner_ok c i r' \<and> injects (\<lambda>(b, d). \<not> outboundAddr d) r r')"
proof -
  obtain x where x: "BuildTCPResetReply raw = Some x" using BuildTCPResetReply_ne_None [of raw] by blast
  then show ?thesis
    using r by (auto simp: resetBrowserTCP_def Let_def split_def netSend_snd(1) quiet_injects split: sum.split option.split
        intro!: netSend_snd(2))
qed

lemma findOwner_ok:
  assumes "runner_ok c i r"
  shows "returns (findOwner e pk key r) (\<lambda>_. True)"
proof -
  obtain w where w: "CouldTunnelWithoutProcess (eNow e) (Some (domains r)) (policy r) (pDst pk) = Some w"
    using policy_returns(1) [of "policy r" "cGroups c" i "eNow e" "Some (domains r)" "pDst pk"] assms by (auto simp: runner_ok_def)
  then show ?thesis using WaitLookup_timeout [of key "flows r" "eWaits e"]
    by (auto simp: findOwner_def returns_def Let_def)
qed

lemma classify_ok:
  assumes r: "runner_ok c i r"
  shows "returns (classify e pk key r) (\<lambda>(v, r'). runner_ok c i r' \<and> quiet r r')"
proof -
  have q: "runner_ok c i (s\<lparr>proxyRoutes := t\<rparr>) \<longleftrightarrow> runner_ok c i s" "runner_ok c i (s\<lparr>routes := u\<rparr>) \<longleftrightarrow> runner_ok c i s"
    "quiet r (s\<lparr>proxyRoutes := t\<rparr>) \<longleftrightarrow> quiet r s" "quiet r (s\<lparr>routes := u\<rparr>) \<longleftrightarrow> quiet r s" for s t u
    by (simp_all add: runner_ok_def quiet_def)
  have dec: "returns (Decide (eNow e) (Some t) (policy r) proc dst) (\<lambda>_. True)" for t proc dst
    using policy_returns(5) [of "policy r" "cGroups c" i "eNow e" "Some t" proc dst] r by (auto simp: runner_ok_def returns_def)
  obtain px t where px: "LookupProxy (eNow e) key (proxyRoutes r) = (px, t)" by fastforce
  obtain en u where en: "LookupRoute (eNow e) key (routes r) = (en, u)" by fastforce
  let ?r = "r\<lparr>proxyRoutes := t, routes := u\<rparr>"
  have r2: "runner_ok c i ?r" "quiet r ?r" using r by (simp_all add: q)
  show ?thesis
  proof (cases "px = None \<and> en = None")
    case False
    then show ?thesis using r2 by (cases px; cases en) (auto simp: classify_def px en Let_def q)
  next
    case True
    obtain ow where "findOwner e pk key ?r = Some ow" using findOwner_ok [OF r2(1), of e pk key] by (auto simp: returns_def)
    then show ?thesis
      using dec r2 True r
      by (cases ow) (auto simp: classify_def px en Let_def q elim!: returns_weaken)
  qed
qed

lemma component_fields [simp]:
  "runner_ok c i (r\<lparr>discovery := d\<rparr>) \<longleftrightarrow> runner_ok c i r" "runner_ok c i (r\<lparr>domains := t\<rparr>) \<longleftrightarrow> runner_ok c i r"
  "runner_ok c i (r\<lparr>routes := u\<rparr>) \<longleftrightarrow> runner_ok c i r" "runner_ok c i (r\<lparr>flows := f\<rparr>) \<longleftrightarrow> runner_ok c i r"
  "runner_ok c i (r\<lparr>proxyRoutes := x\<rparr>) \<longleftrightarrow> runner_ok c i r" "runner_ok c i (r\<lparr>fragID := n\<rparr>) \<longleftrightarrow> runner_ok c i r"
  "injects P s (r\<lparr>discovery := d\<rparr>) \<longleftrightarrow> injects P s r" "injects P s (r\<lparr>domains := t\<rparr>) \<longleftrightarrow> injects P s r"
  "injects P s (r\<lparr>routes := u\<rparr>) \<longleftrightarrow> injects P s r" "injects P (r\<lparr>discovery := d\<rparr>) s \<longleftrightarrow> injects P r s"
  "injects P (r\<lparr>domains := t\<rparr>) s \<longleftrightarrow> injects P r s"
  "quiet s (r\<lparr>discovery := d\<rparr>) \<longleftrightarrow> quiet s r" "quiet s (r\<lparr>domains := t\<rparr>) \<longleftrightarrow> quiet s r"
  by (simp_all add: runner_ok_def injects_def quiet_def)

abbreviation inbound :: "bytes \<times> Address \<Rightarrow> bool" where
  "inbound \<equiv> (\<lambda>(b, d). \<not> outboundAddr d)"

lemma runner_policy: "runner_ok c i r \<Longrightarrow> policy r = NewWithInternal (cGroups c) i"
  by (simp add: runner_ok_def)

text \<open>A total question as a precondition.\<close>

lemma returns_ne: "m \<noteq> None \<Longrightarrow> (\<And>x. Q x) \<Longrightarrow> returns m Q"
  by (auto simp: returns_def)

lemma learnTLS_ok:
  assumes r: "runner_ok c i r"
  shows "returns (learnTLS e raw a pk key v r) (\<lambda>(consumed, r'). runner_ok c i r' \<and> injects inbound r r')"
proof -
  obtain name res dc where f: "FeedTLS (eNow e) key raw (discovery r) = Some ((name, res), dc)"
    using FeedTLS_returns [of "eNow e" key raw "discovery r"] by (auto simp: returns_def)
  obtain groups t where g: "AddForName (eNow e) name (pDst pk) (30 * 60 * second) (domains r) = (groups, t)" by fastforce
  obtain d where d: "DecideHost (policy r) (vProc v) name = Some d"
    using policy_returns(6) [OF runner_policy [OF r], of "vProc v" name] by blast
  have "returns (resetBrowserTCP e raw a pk (inc sniLearned_update (r\<lparr>discovery := dc, domains := t\<rparr>)))
      (\<lambda>(ok, r'). runner_ok c i r' \<and> injects inbound r r')"
    using resetBrowserTCP_ok [of c i "inc sniLearned_update (r\<lparr>discovery := dc, domains := t\<rparr>)" e raw a pk] r by simp
  then show ?thesis
    using f g d r by (auto simp: learnTLS_def Let_def quiet_injects elim!: returns_weaken)
qed

lemma discover_ok:
  assumes r: "runner_ok c i r"
  shows "returns (discover e raw a pk key v r) (\<lambda>(consumed, r'). runner_ok c i r' \<and> injects inbound r r' \<and>
    (dTunnel (vD v) \<longrightarrow> \<not> consumed \<and> quiet r r'))"
proof -
  note pol = policy_returns [OF runner_policy [OF r]]
  obtain nt where nt: "NeedsTLSDiscovery (policy r) (vProc v) = Some nt" using pol(2) by blast
  obtain sq where sq: "ShouldSuppressQUIC (policy r) (vProc v) = Some sq" using pol(3) by blast
  obtain kn where kn: "IsDomainIPForProcess (eNow e) (Some (domains r)) (policy r) (vProc v) (pDst pk) = Some kn" using pol(4) by blast
  obtain s dc where su: "SuppressUnknownQUIC (eNow e) (pDst pk) (discovery r) = (s, dc)" by fastforce
  have l: "returns (learnTLS e raw a pk key v s) (\<lambda>(consumed, r'). runner_ok c i r' \<and> injects inbound r r')"
    if "runner_ok c i s" "quiet r s" for s
    using learnTLS_ok [OF that(1), of e raw a pk key v] that(2)
    by (auto elim!: returns_weaken intro: injects_trans [OF quiet_injects])
  show ?thesis
    by (cases "dTunnel (vD v)") (simp_all add: discover_def Let_def nt sq kn su r l quiet_injects)
qed

lemma clampMSS_ok: "returns (clampMSS mtu cp pk) (\<lambda>cp'. length cp' = length cp)"
proof -
  have len: "length cp' = length cp" if "ClampTCPMSS cp m = Some (Inr (ch, cp'))" for m ch cp'
  proof (cases ch)
    case False
    then show ?thesis using ClampTCPMSS_False [of cp m cp'] that by simp
  next
    case True
    from that True obtain q where q: "Parse cp = Some (Inr q)"
      and hl: "pL4 q + unat (drop_bit 4 (cp ! (pL4 q + 12))) * 4 \<le> pTotal q"
      and lp: "mss_loop cp m (pL4 q + unat (drop_bit 4 (cp ! (pL4 q + 12))) * 4) (pL4 q + 20) = Some (Inr (True, cp'))"
      by (auto elim!: ClampTCPMSS_Inr)
    from mss_loop_True [OF _ lp] Parse_bounds [OF q] hl show ?thesis by fastforce
  qed
  have "returns (ClampTCPMSS cp m) (\<lambda>x. length (case x of Inl _ \<Rightarrow> cp | Inr (_, cp) \<Rightarrow> cp) = length cp)" for m
    using ClampTCPMSS_ne_None [of cp m] len [of m] by (auto simp: returns_def split: sum.split)
  then show ?thesis by (simp add: clampMSS_def Let_def)
qed

lemma checksum_all_fits:
  assumes "keeps_length call" "checksum_all call xs = Some ys" "\<And>x. x \<in> set xs \<Longrightarrow> int (length x) \<le> m" "y \<in> set ys"
  shows "int (length y) \<le> m"
  using assms(2-)
proof (induction xs arbitrary: ys)
  case (Cons x xs)
  then obtain z zs where z: "CalcChecksums call x = Some z" "checksum_all call xs = Some zs" "ys = z # zs"
    by (auto split: option.splits)
  with Cons show ?case using CalcChecksums_length [OF assms(1) z(1)] by auto
qed simp

lemma prepareTunnelPackets_ok:
  assumes r: "runner_ok c i r" and k: "keeps_length (eChecksum e)"
  shows "returns (prepareTunnelPackets e cp pk r) (\<lambda>(res, r'). runner_ok c i r' \<and> quiet r r' \<and>
    (\<forall>segs sp. res = Inr (segs, sp) \<longrightarrow> (\<forall>s \<in> set segs. int (length s) \<le> cMTU c)))"
proof -
  have c: "cfg r = c" using r by (simp add: runner_ok_def)
  obtain x where x: "SplitForMTU cp (cMTU c) = Some x" using SplitForMTU_ne_None [of cp "cMTU c"] by blast
  have fits: "int (length s) \<le> cMTU c" if "x = Inr (segs, sp)" "s \<in> set segs" for segs sp s
    using SplitForMTU_fits x that by blast
  have q: "quiet r (r\<lparr>fragID := n\<rparr>)" for n by (simp add: quiet_def)
  consider "int (length cp) \<le> cMTU c" | "\<not> int (length cp) \<le> cMTU c" "pProtocol pk = ProtoTCP"
    | "\<not> int (length cp) \<le> cMTU c" "pProtocol pk \<noteq> ProtoTCP" by blast
  then show ?thesis
  proof cases
    case 1
    then show ?thesis using r CalcChecksums_length [OF k]
      by (auto simp: prepareTunnelPackets_def c Let_def split: option.split)
  next
    case 2
    then show ?thesis using r x fits checksum_all_fits [OF k, of _ _ "cMTU c"]
      by (fastforce simp: prepareTunnelPackets_def c Let_def split: sum.split option.split)
  next
    case 3
    show ?thesis
    proof (cases "CalcChecksums (eChecksum e) cp")
      case (Some cp')
      from FragmentForMTU_fits [of "fragID r" cp' "cMTU c"] obtain res fid where
        f: "FragmentForMTU (fragID r) cp' (cMTU c) = Some (res, fid)"
        "case res of Inl e \<Rightarrow> True | Inr (fs, split) \<Rightarrow> list_all (\<lambda>f. int (length f) \<le> cMTU c) fs" by blast
      then show ?thesis using 3 Some r q
        by (auto simp: prepareTunnelPackets_def c Let_def list_all_iff split: sum.splits)
    qed (use 3 r in \<open>simp add: prepareTunnelPackets_def c Let_def\<close>)
  qed
qed

text \<open>\<open>grows P r r'\<close>: as \<open>injects\<close>, but packets may be added to the queues.\<close>

definition grows :: "(bytes \<times> Address \<Rightarrow> bool) \<Rightarrow> Runner \<Rightarrow> Runner \<Rightarrow> bool" where
  "grows P r r' \<longleftrightarrow> (\<exists>xs. injected r' = injected r @ xs \<and> (\<forall>x \<in> set xs. P x)) \<and>
     (\<exists>ys. urgentQ r' = urgentQ r @ ys) \<and> (\<exists>zs. bulkQ r' = bulkQ r @ zs) \<and> wg r' = wg r \<and> stopped r' = stopped r"

lemma injects_grows: "injects P r r' \<Longrightarrow> grows P r r'"
  by (simp add: injects_def grows_def)

lemma grows_after_quiet: "quiet r s \<Longrightarrow> grows P s t \<Longrightarrow> grows P r t"
  by (simp add: quiet_def grows_def)

lemma enqueue_ok:
  assumes "runner_ok c i r" "\<And>s. s \<in> set segs \<Longrightarrow> int (length s) \<le> cMTU c"
  shows "runner_ok c i (enqueue e urgent segs r) \<and> grows (\<lambda>_. False) r (enqueue e urgent segs r)"
  using assms
proof (induction segs arbitrary: r)
  case Nil
  then show ?case by (simp add: grows_def)
next
  case (Cons seg segs)
  let ?q = "(if urgent then urgentQ r else bulkQ r) @ [\<lparr>qRaw = seg, qQueued = eNow e\<rparr>]"
  let ?r1 = "if urgent then r\<lparr>urgentQ := ?q\<rparr> else r\<lparr>bulkQ := ?q\<rparr>"
  let ?r = "updateMax sendQueueHigh_update (word_of_nat (length ?q)) (inc tunneled_update ?r1)"
  have IH: "runner_ok c i (enqueue e urgent segs s) \<and> grows (\<lambda>_. False) s (enqueue e urgent segs s)" if "runner_ok c i s" for s
    using Cons.IH [OF that] Cons.prems(2) by simp
  show ?case
  proof (cases "length (if urgent then urgentQ r else bulkQ r) < (if urgent then 4096 else 8192) \<and> \<not> (stopped r \<and> odd (ePick e))")
    case True
    then have eq: "enqueue e urgent (seg # segs) r = enqueue e urgent segs ?r" by (auto simp: Let_def)
    have "runner_ok c i ?r" using Cons.prems True by (auto simp: runner_ok_def fits_def)
    from IH [OF this] show ?thesis unfolding eq by (auto simp: grows_def)
  next
    case False
    then have "enqueue e urgent (seg # segs) r = (if stopped r then r else enqueue e urgent segs (inc dropped_update r))"
      by (auto simp: Let_def)
    then show ?thesis using Cons.prems(1) IH [of "inc dropped_update r"] by (auto simp: grows_def)
  qed
qed

lemma grows_mono: "grows P r s \<Longrightarrow> (\<And>x. P x \<Longrightarrow> Q x) \<Longrightarrow> grows Q r s"
  unfolding grows_def by blast

lemma sendTunnel_ok:
  assumes r: "runner_ok c i r" and k: "keeps_length (eChecksum e)"
  shows "returns (sendTunnel e raw a pk key v r) (\<lambda>r'. runner_ok c i r' \<and> grows inbound r r')"
proof -
  obtain syn where syn: "(if vFirst v \<and> pProtocol pk = ProtoTCP then IsTCPSYN raw else Some True) = Some syn"
    using IsTCPSYN_ne_None [of raw] by (cases "vFirst v \<and> pProtocol pk = ProtoTCP") auto
  show ?thesis
  proof (cases syn)
    case False
    have "returns (resetBrowserTCP e raw a pk r) (\<lambda>(ok, r'). runner_ok c i r' \<and> injects inbound r r')"
      using resetBrowserTCP_ok [OF r] .
    then show ?thesis using syn False
      by (auto simp: sendTunnel_def Let_def elim!: returns_weaken intro!: injects_grows)
  next
    case True
    let ?m = "\<lparr>ifIdx = nmIfIdx (MetaOf a), subIfIdx = nmSubIfIdx (MetaOf a)\<rparr>"
    have "nat_ok (natMapper r)" using r by (simp add: runner_ok_def)
    then obtain err cp nt where n: "PrepareOutbound (eNow e) raw ?m (natMapper r) = Some (err, cp, nt)" "nat_ok nt"
      using PrepareOutbound_ok by blast
    let ?r = "r\<lparr>natMapper := nt\<rparr>"
    have r1: "runner_ok c i ?r" "quiet r ?r" using r n(2) by (simp_all add: runner_ok_def quiet_def)
    obtain cp' where cp: "clampMSS (cMTU (cfg ?r)) cp pk = Some cp'" using clampMSS_ok [of "cMTU (cfg ?r)" cp pk] by (auto simp: returns_def)
    obtain res r2 where pr: "prepareTunnelPackets e cp' pk ?r = Some (res, r2)" "runner_ok c i r2" "quiet ?r r2"
      "\<And>segs sp s. res = Inr (segs, sp) \<Longrightarrow> s \<in> set segs \<Longrightarrow> int (length s) \<le> cMTU c"
      using prepareTunnelPackets_ok [OF r1(1) k, of cp' pk] by (auto simp: returns_def)
    have q: "quiet r r2" using r1(2) pr(3) by (rule quiet_trans)
    show ?thesis
    proof (cases res)
      case (Inl x)
      then show ?thesis using syn True n(1) cp pr(1,2) r1 q
        by (auto simp: sendTunnel_def Let_def quiet_injects injects_grows)
    next
      case (Inr y)
      obtain segs sp where y: "y = (segs, sp)" by fastforce
      let ?r3 = "if sp then inc oversizeSegmented_update r2 else r2"
      have "runner_ok c i (enqueue e (pProtocol pk = ProtoUDP) segs ?r3) \<and> grows (\<lambda>_. False) ?r3 (enqueue e (pProtocol pk = ProtoUDP) segs ?r3)"
        using pr(2,4) Inr y by (intro enqueue_ok) auto
      moreover have "quiet r ?r3" using q by simp
      ultimately have "runner_ok c i (enqueue e (pProtocol pk = ProtoUDP) segs ?r3)" "grows inbound r (enqueue e (pProtocol pk = ProtoUDP) segs ?r3)"
        using grows_after_quiet grows_mono by blast+
      then show ?thesis using syn True n(1) cp pr(1) r1 Inr y
        by (auto simp: sendTunnel_def Let_def quiet_injects injects_grows)
    qed
  qed
qed

text \<open>
  The route the engine chooses for a captured packet: \<open>Some True\<close> for the tunnel, \<open>Some False\<close> for direct, and
  \<open>None\<close> while a datagram is incomplete or if the packet cannot be parsed.
\<close>

definition routeOf :: "env \<Rightarrow> bytes \<Rightarrow> Runner \<Rightarrow> bool option" where
  "routeOf e raw r =
     (case reassembleOutbound (eNow e) raw (inc captured_update r) of
        Some (Inr frag, r) \<Rightarrow>
          if \<not> rsReady frag then None
          else let (raw, r) = (if rsFragmented frag then (rsPacket frag, inc fragReassembled_update r) else (raw, r)) in
            (case Parse raw of
               Some (Inr pk) \<Rightarrow> map_option (\<lambda>(v, _). dTunnel (vD v)) (classify e pk (flowKey pk) r)
             | _ \<Rightarrow> None)
      | _ \<Rightarrow> None)"

text \<open>What a step may inject, given the route: nothing outbound for the tunnel, and the packet itself otherwise.\<close>

definition allowed :: "bytes \<Rightarrow> Address \<Rightarrow> bool option \<Rightarrow> bool \<Rightarrow> Runner \<Rightarrow> Runner \<Rightarrow> bool" where
  "allowed raw a route plainPacket r r' \<longleftrightarrow>
     (case route of
        Some True \<Rightarrow> grows inbound r r'
      | Some False \<Rightarrow> injects (\<lambda>(b, d). \<not> outboundAddr d \<or> d = a \<and> (plainPacket \<longrightarrow> b = raw)) r r'
      | None \<Rightarrow> injects (\<lambda>x. x = (raw, a)) r r')"

lemma routePacket_ok:
  assumes r: "runner_ok c i r" and k: "keeps_length (eChecksum e)"
  shows "\<exists>v r1. classify e pk (flowKey pk) r = Some (v, r1) \<and> returns (routePacket e raw a frag pk r)
    (\<lambda>r'. runner_ok c i r' \<and> allowed raw a (Some (dTunnel (vD v))) (\<not> rsFragmented frag) r r')"
proof -
  obtain v r1 where cl: "classify e pk (flowKey pk) r = Some (v, r1)" "runner_ok c i r1" "quiet r r1"
    using classify_ok [OF r, of e pk "flowKey pk"] by (auto simp: returns_def)
  obtain consumed r2 where di: "discover e raw a pk (flowKey pk) v r1 = Some (consumed, r2)" "runner_ok c i r2"
      "injects inbound r1 r2" "dTunnel (vD v) \<Longrightarrow> \<not> consumed \<and> quiet r1 r2"
    using discover_ok [OF cl(2), of e raw a pk "flowKey pk" v] by (auto simp: returns_def)
  have route: "routePacket e raw a frag pk r = (if consumed then Some r2
      else if \<not> dTunnel (vD v) then sendDirect e raw a frag r2 else sendTunnel e raw a pk (flowKey pk) v r2)"
    by (simp add: routePacket_def Let_def cl(1) di(1))
  have "returns (routePacket e raw a frag pk r)
    (\<lambda>r'. runner_ok c i r' \<and> allowed raw a (Some (dTunnel (vD v))) (\<not> rsFragmented frag) r r')"
  proof (cases "dTunnel (vD v)")
    case True
    then have "quiet r r2" "\<not> consumed" using di(4) cl(3) quiet_trans by blast+
    then show ?thesis
      using returns_weaken [OF sendTunnel_ok [OF di(2) k, of raw a pk "flowKey pk" v]] True grows_after_quiet
      unfolding route allowed_def by (auto elim!: returns_weaken)
  next
    case False
    let ?P = "\<lambda>(b, d). \<not> outboundAddr d \<or> d = a \<and> (\<not> rsFragmented frag \<longrightarrow> b = raw)"
    have 2: "injects ?P r r2" using di(3) cl(3) by (auto intro: injects_trans [OF quiet_injects] elim!: injects_mono)
    have "returns (sendDirect e raw a frag r2) (\<lambda>r'. runner_ok c i r' \<and> injects ?P r r')"
    proof (rule returns_weaken [OF sendDirect_ok [OF di(2)]], elim conjE, intro conjI)
      fix r' assume "injects (\<lambda>(b, d). d = a \<and> (\<not> rsFragmented frag \<longrightarrow> b = raw)) r2 r'"
      then have "injects ?P r2 r'" by (rule injects_mono) auto
      then show "injects ?P r r'" by (rule injects_trans [OF 2])
    qed
    then show ?thesis using False 2 di(2) unfolding route allowed_def by auto
  qed
  with cl(1) show ?thesis by blast
qed

lemma allowed_quiet: "quiet r s \<Longrightarrow> allowed raw a x pl s t \<Longrightarrow> allowed raw a x pl r t"
  unfolding allowed_def by (auto split: option.split bool.split intro: grows_after_quiet injects_trans [OF quiet_injects])

lemma captureStep_ok:
  assumes r: "runner_ok c i r" and k: "keeps_length (eChecksum e)"
  shows "returns (captureStep e raw a r)
    (\<lambda>r'. runner_ok c i r' \<and> allowed raw a (routeOf e raw r) (IsFragment raw = Some False) r r')"
proof -
  have "runner_ok c i (inc captured_update r)" using r by simp
  then obtain res r1 where re: "reassembleOutbound (eNow e) raw (inc captured_update r) = Some (res, r1)" "runner_ok c i r1" "quiet r r1"
      "\<And>frag. res = Inr frag \<Longrightarrow> IsFragment raw = Some False \<Longrightarrow> frag = passResult raw"
    using reassembleOutbound_ok [of c i "inc captured_update r" "eNow e" raw] by (auto simp: returns_def)
  show ?thesis
  proof (cases res)
    case (Inl err)
    then show ?thesis using re by (simp add: captureStep_def Let_def routeOf_def allowed_def quiet_injects)
  next
    case (Inr frag)
    define raw' where "raw' = (if rsFragmented frag then rsPacket frag else raw)"
    define r2 where "r2 = (if rsFragmented frag then inc fragReassembled_update r1 else r1)"
    have r2: "runner_ok c i r2" "quiet r r2" using re by (simp_all add: r2_def)
    obtain x where x: "Parse raw' = Some x" using Parse_ne_None [of raw'] by blast
    have frag: "IsFragment raw = Some False \<Longrightarrow> \<not> rsFragmented frag" using re(4) [OF Inr] by (auto simp: passResult_def noResult_def)
    show ?thesis
    proof (cases "rsReady frag")
      case False
      then show ?thesis using re Inr by (simp add: captureStep_def Let_def routeOf_def allowed_def quiet_injects)
    next
      case ready: True
      have step: "captureStep e raw a r = (case x of
          Inl err \<Rightarrow> if err = ErrFragment \<or> rsFragmented frag then Some (inc dropped_update (inc fragErrors_update r2))
            else (let (se, r) = netSend e raw' a r2 in Some (inc (if se = None then bypassed_update else dropped_update) r))
        | Inr pk \<Rightarrow> routePacket e raw' a frag pk r2)"
        using re(1) Inr ready x by (cases "rsFragmented frag"; cases x) (simp_all add: captureStep_def Let_def raw'_def r2_def)
      have ro: "routeOf e raw r = (case x of Inl _ \<Rightarrow> None
          | Inr pk \<Rightarrow> map_option (\<lambda>(v, _). dTunnel (vD v)) (classify e pk (flowKey pk) r2))"
        using re(1) Inr ready x by (cases "rsFragmented frag"; cases x) (simp_all add: routeOf_def Let_def raw'_def r2_def)
      show ?thesis
      proof (cases x)
        case (Inl err)
        have "injects (\<lambda>y. y = (raw, a)) r (snd (netSend e raw a r2))"
          by (rule injects_trans [OF quiet_injects [OF r2(2)] netSend_snd(2)]) simp
        then show ?thesis using Inl r2 step ro
          by (auto simp: allowed_def Let_def split_def raw'_def netSend_snd(1) quiet_injects)
      next
        case (Inr pk)
        from routePacket_ok [OF r2(1) k, of pk raw' a frag] obtain v r3 where
          v: "classify e pk (flowKey pk) r2 = Some (v, r3)" and
          ret: "returns (routePacket e raw' a frag pk r2) (\<lambda>r'. runner_ok c i r' \<and> allowed raw' a (Some (dTunnel (vD v))) (\<not> rsFragmented frag) r2 r')"
          by blast
        show ?thesis unfolding step ro using Inr v
        proof (simp, intro returns_weaken [OF ret] conjI, blast)
          fix r' assume "runner_ok c i r' \<and> allowed raw' a (Some (dTunnel (vD v))) (\<not> rsFragmented frag) r2 r'"
          then show "allowed raw a (Some (dTunnel (vD v))) (IsFragment raw = Some False) r r'"
            using allowed_quiet [OF r2(2)] frag
            by (fastforce simp: allowed_def raw'_def split: bool.splits elim!: injects_mono)
        qed
      qed
    qed
  qed
qed

section \<open>The receive path\<close>

lemma injectInbound_ok:
  assumes r: "runner_ok c i r"
  shows "returns (injectInbound e cp pk meta frag r) (\<lambda>r'. runner_ok c i r' \<and> injects inbound r r')"
proof -
  obtain cp' where cp: "clampMSS (cMTU (cfg r)) cp pk = Some cp'" using clampMSS_ok [of "cMTU (cfg r)" cp pk] by (auto simp: returns_def)
  show ?thesis
  proof (cases "CalcChecksums (eChecksum e) cp'")
    case None
    then show ?thesis using cp r by (simp add: injectInbound_def quiet_injects)
  next
    case (Some cp2)
    obtain res fid where f: "FragmentForMTU (fragID r) cp2 (int (rsMTU frag)) = Some (res, fid)"
      using FragmentForMTU_fits [of "fragID r" cp2 "int (rsMTU frag)"] by auto
    have q: "quiet r (r\<lparr>fragID := fid\<rparr>)" by (simp add: quiet_def)
    show ?thesis
      using cp Some f q r
      by (auto simp: injectInbound_def Let_def split_def send_parts_snd(1) quiet_injects simp del: send_parts.simps
          split: sum.split intro!: send_parts_snd(2))
  qed
qed

lemma receivePacket_ok:
  assumes r: "runner_ok c i r"
  shows "returns (receivePacket e frag r) (\<lambda>r'. runner_ok c i r' \<and> injects inbound r r')"
proof -
  define r1 where "r1 = (if rsFragmented frag then inc fragReassembled_update r else r)"
  obtain pre where pre: "Parse (rsPacket frag) = Some pre" using Parse_ne_None by blast
  define r2 where "r2 = (case pre of Inl _ \<Rightarrow> r1
    | Inr q \<Rightarrow> if pProtocol q \<noteq> ProtoTCP \<and> pProtocol q \<noteq> ProtoUDP then inc inboundOther_update r1 else r1)"
  have r2: "runner_ok c i r2" "quiet r r2" using r by (simp_all add: r1_def r2_def split: sum.split)
  then have "nat_ok (natMapper r2)" by (simp add: runner_ok_def)
  then obtain x cp nt where n: "RestoreInbound (eNow e) (rsPacket frag) (natMapper r2) = Some (x, cp, nt)" "nat_ok nt"
    using RestoreInbound_ok by blast
  have r3: "runner_ok c i (r2\<lparr>natMapper := nt\<rparr>)" "quiet r (r2\<lparr>natMapper := nt\<rparr>)"
    using r2 n(2) by (simp_all add: runner_ok_def quiet_def)
  obtain y where y: "Parse cp = Some y" using Parse_ne_None by blast
  have inj: "returns (injectInbound e cp pk meta frag (r2\<lparr>natMapper := nt\<rparr>)) (\<lambda>r'. runner_ok c i r' \<and> injects inbound r r')" for pk meta
    by (rule returns_weaken [OF injectInbound_ok [OF r3(1)]]) (auto intro: injects_trans [OF quiet_injects [OF r3(2)]])
  have "receivePacket e frag r = (case x of
      Inl _ \<Rightarrow> Some (inc dropped_update (inc inboundErrors_update (r2\<lparr>natMapper := nt\<rparr>)))
    | Inr (meta, ok) \<Rightarrow>
        if \<not> ok then Some (inc dropped_update (inc reverseNATMiss_update (r2\<lparr>natMapper := nt\<rparr>)))
        else (case y of
           Inl err \<Rightarrow> let r = inc dropped_update (inc inboundErrors_update (r2\<lparr>natMapper := nt\<rparr>))
             in Some (if err = ErrFragment \<or> rsFragmented frag then inc fragErrors_update r else r)
         | Inr pk \<Rightarrow> injectInbound e cp pk meta frag (r2\<lparr>natMapper := nt\<rparr>)))"
    unfolding receivePacket_def r1_def [symmetric] Let_def pre Option.bind.bind_lunit r2_def [symmetric] n(1) prod.case
    by (cases x; cases y) (simp_all add: y split_def)
  then show ?thesis using r3 inj by (auto simp: quiet_injects Let_def split: sum.split)
qed

lemma wgReceiveStep_ok:
  assumes r: "runner_ok c i r"
  shows "returns (wgReceiveStep e r) (\<lambda>r'. runner_ok c i r' \<and> injects inbound (r\<lparr>wg := wg r'\<rparr>) r' \<and>
    (wg r' = wg r \<or> (\<exists>b bs. plain (wg r) = b # bs \<and> wg r' = (wg r)\<lparr>plain := bs\<rparr>)))"
proof (cases "plain (wg r)")
  case Nil
  then show ?thesis using r by (simp add: wgReceiveStep_def quiet_injects)
next
  case (Cons raw rest)
  let ?w = "(wg r)\<lparr>plain := rest\<rparr>"
  let ?r = "r\<lparr>wg := ?w\<rparr>"
  have r0: "runner_ok c i ?r" using r by (simp add: runner_ok_def)
  obtain res r1 where re: "reassembleInbound (eNow e) raw ?r = Some (res, r1)" "runner_ok c i r1" "quiet ?r r1"
    using reassembleInbound_ok [OF r0, of "eNow e" raw] by (auto simp: returns_def)
  have w: "wg s = ?w \<and> injects inbound (r\<lparr>wg := wg s\<rparr>) s" if "injects inbound ?r s" for s
    using that by (simp add: injects_def)
  have rec: "returns (receivePacket e frag r1) (\<lambda>r'. runner_ok c i r' \<and> injects inbound ?r r')" for frag
    by (rule returns_weaken [OF receivePacket_ok [OF re(2)]]) (auto intro: injects_trans [OF quiet_injects [OF re(3)]])
  have "returns (wgReceiveStep e r) (\<lambda>r'. runner_ok c i r' \<and> injects inbound ?r r')"
    using Cons re r0 rec by (auto simp: wgReceiveStep_def Let_def quiet_injects split: sum.split)
  then show ?thesis using w Cons by (auto elim!: returns_weaken)
qed

end
