(* ===== verification/Engine_Run.thy ===== *)
theory Engine_Run
  imports Engine_Inv
begin

text \<open>
  The running engine: the interleaving of its goroutines as a step relation, its invariant from \<open>Start\<close> on, the
  exclusive choice between tunnel and direct path, the fairness of the sender, and the DNS sniffer.
\<close>

section \<open>Steps\<close>

text \<open>
  A state is the position of the sender and the \<open>Runner\<close>. \<open>Client\<close> is a step of the WireGuard client's own
  goroutines, \<open>Proxy\<close> a registration or removal by the proxy's dialler.
\<close>

inductive estep :: "prims \<Rightarrow> sendPC \<times> Runner \<Rightarrow> sendPC \<times> Runner \<Rightarrow> bool" for pr where
  Capture: "keeps_length (eChecksum e) \<Longrightarrow> captureStep e raw a r = Some r' \<Longrightarrow> estep pr (k, r) (k, r')"
| Sender: "wPrims we = pr \<Longrightarrow> senderStep we now pick k r = Some (k', r') \<Longrightarrow> estep pr (k, r) (k', r')"
| Receive: "wgReceiveStep e r = Some r' \<Longrightarrow> estep pr (k, r) (k, r')"
| Client: "cstep pr (wg r) w \<Longrightarrow> estep pr (k, r) (k, r\<lparr>wg := w\<rparr>)"
| Flow: "estep pr (k, r) (k, flowStep now rv r)"
| Socket: "estep pr (k, r) (k, socketStep now rv r)"
| Dns: "dnsStep now raw r = Some r' \<Longrightarrow> estep pr (k, r) (k, r')"
| Bootstrap: "estep pr (k, r) (k, bootstrapStep resolve r)"
| Maintenance: "estep pr (k, r) (k, maintenanceStep now r)"
| Snapshot: "estep pr (k, r) (k, socketSnapshotStep e r)"
| Aggressive: "estep pr (k, r) (k, SetAggressiveDiscovery v r)"
| Proxy: "estep pr (k, r) (k, r\<lparr>proxyRoutes := t\<rparr>)"
| Cancel: "estep pr (k, r) (k, r\<lparr>stopped := True\<rparr>)"
| CloseEngine: "estep pr (k, r) (k, CloseRunner r)"

section \<open>The sender\<close>

lemma sendOne_ok:
  assumes "sendOne we now q r = Some r'" "runner_ok c i r"
  shows "runner_ok c i r' \<and> cstep (wPrims we) (wg r) (wg r') \<and> bulkQ r' = bulkQ r \<and> urgentQ r' = urgentQ r \<and> stopped r' = stopped r"
  using assms by (auto simp: sendOne_def Let_def runner_ok_def split: bind_splits if_splits intro: cstep.Send)

lemma runner_ok_tl:
  "runner_ok c i r \<Longrightarrow> runner_ok c i (r\<lparr>urgentQ := tl (urgentQ r)\<rparr>)" "runner_ok c i r \<Longrightarrow> runner_ok c i (r\<lparr>bulkQ := tl (bulkQ r)\<rparr>)"
  by (cases "urgentQ r"; cases "bulkQ r"; simp add: runner_ok_def fits_def)+

lemma sendUrgent_ok:
  assumes "sendUrgent we now r = Some r'" "runner_ok c i r"
  shows "runner_ok c i r' \<and> cstep (wPrims we) (wg r) (wg r') \<and> bulkQ r' = bulkQ r \<and> stopped r' = stopped r"
  using sendOne_ok [OF assms(1) [unfolded sendUrgent_def] runner_ok_tl(1) [OF assms(2)]] by simp

lemma sendBulk_ok:
  assumes "sendBulk we now r = Some r'" "runner_ok c i r"
  shows "runner_ok c i r' \<and> cstep (wPrims we) (wg r) (wg r') \<and> bulkQ r' = tl (bulkQ r) \<and> stopped r' = stopped r"
  using sendOne_ok [OF assms(1) [unfolded sendBulk_def] runner_ok_tl(2) [OF assms(2)]] by simp

lemma select_cases: "select pick cs = Some x \<Longrightarrow> x \<in> set cs" "select pick cs = None \<Longrightarrow> cs = []"
  by (auto simp: select_def split: if_splits)

lemma senderStep_ok:
  assumes "senderStep we now pick k r = Some (k', r')" "runner_ok c i r"
  shows "runner_ok c i r' \<and> rtranclp (cstep (wPrims we)) (wg r) (wg r')"
  using assms
  by (cases "(we, now, pick, k, r)" rule: senderStep.cases)
    (auto split: if_splits option.splits ready.splits dest: sendUrgent_ok sendBulk_ok)

section \<open>The invariant\<close>

lemma maintenanceStep_ok: "runner_ok c i r \<Longrightarrow> runner_ok c i (maintenanceStep now r) \<and> wg (maintenanceStep now r) = wg r"
proof -
  assume r: "runner_ok c i r"
  have s: "tab_ok P (Sweep now t)" if "tab_ok P t" for P and t :: "('k, 'x datagram_scheme) rtable"
    using sweep_fold_ok [OF that] by (simp add: Sweep_def sweepLocked_def)
  have w: "wg (takeTimeoutsIn s) = wg s" "wg (takeTimeoutsOut s) = wg s" for s
    by (simp_all add: takeTimeoutsIn_def takeTimeoutsOut_def noteFragmentTimeouts_def Let_def split_def)
  have "nat_ok (natMapper r)" using r by (simp add: runner_ok_def)
  with SweepNat_ok have "nat_ok (SweepNat now (15 * 60 * second) (natMapper r))" by blast
  then show ?thesis using r w by (simp add: maintenanceStep_def) (simp add: runner_ok_def s)
qed

lemma estep_ok:
  assumes "estep pr s s'" "runner_ok c i (snd s)"
  shows "runner_ok c i (snd s') \<and> rtranclp (cstep pr) (wg (snd s)) (wg (snd s'))"
  using assms
proof (induction rule: estep.induct)
  case (Capture e raw a r r' k)
  with captureStep_ok [of c i r e raw a] have "runner_ok c i r'" "allowed raw a (routeOf e raw r) (IsFragment raw = Some False) r r'"
    by (auto simp: returns_def)
  moreover from this(2) have "wg r' = wg r" by (auto simp: allowed_def grows_def injects_def split: option.splits bool.splits)
  ultimately show ?case by simp
next
  case (Sender we now pick k r k' r')
  then show ?case using senderStep_ok by fastforce
next
  case (Receive e r r' k)
  then have "runner_ok c i r'" "wg r' = wg r \<or> cstep pr (wg r) (wg r')"
    using wgReceiveStep_ok [of c i r e] by (auto simp: returns_def intro: cstep.TakePlain)
  then show ?case by auto
next
  case (Dns now raw r r' k)
  then have "\<exists>t. r' = r\<lparr>domains := t\<rparr>"
    by (auto simp: dnsStep_def Let_def split: bind_splits sum.splits if_splits intro: exI [of _ "domains r"])
  then show ?case using Dns by auto
next
  case (Maintenance k r now)
  then show ?case using maintenanceStep_ok [of c i r now] by simp
next
  case (CloseEngine k r)
  then show ?case by (auto simp: CloseRunner_def runner_ok_def intro: cstep.CloseClient)
qed (auto simp: flowStep_def socketStep_def bootstrapStep_def socketSnapshotStep_def SetAggressiveDiscovery_def runner_ok_def split: sum.split)

lemma run_ok:
  "rtranclp (estep pr) s s' \<Longrightarrow> runner_ok c i (snd s) \<Longrightarrow> runner_ok c i (snd s') \<and> rtranclp (cstep pr) (wg (snd s)) (wg (snd s'))"
  by (induction rule: rtranclp_induct) (auto dest: estep_ok intro: rtranclp_trans)

text \<open>What the type \<open>netip.Prefix\<close> gives: addresses of 4 or 16 bytes.\<close>

definition wf_addresses :: "Config \<Rightarrow> bool" where
  "wf_addresses c \<longleftrightarrow> list_all (\<lambda>q. wf_addr (pfx_addr q)) (cAddresses c)"

lemma Start_ok:
  assumes "Start pr resolve openPath divert e fid c internal = Inr r" "wf_addresses c"
  shows "runner_ok c internal r \<and> cinv (wg r)"
proof -
  have "wf_addr (TunnelIPv4 c)" "IsValid (TunnelIPv4 c) \<Longrightarrow> Is4 (TunnelIPv4 c)"
    "wf_addr (TunnelIPv6 c)" "IsValid (TunnelIPv6 c) \<Longrightarrow> Is6 (TunnelIPv6 c)"
    using assms(2) by (auto simp: TunnelIPv4_def TunnelIPv6_def wf_addresses_def list_all_iff find_Some_iff split: option.splits)
  then have "nat_ok (Nat_Mapper.New (TunnelIPv4 c) (TunnelIPv6 c))" by (intro nat_ok_New)
  moreover have "tab_ok header_ok NewIPv4" "tab_ok prefix_ok NewIPv6"
    by (simp_all add: NewIPv4_def NewIPv6_def tab_ok_def vals_def)
  ultimately show ?thesis using assms(1)
    by (auto simp: Start_def socketSnapshotStep_def runner_ok_def fits_def New_inv split: option.splits if_splits sum.splits)
qed

section \<open>Fairness of the sender\<close>

lemma SendPacket_returns:
  assumes "cinv c" "5 \<le> count_list evs HsTimer"
  shows "SendPacket pr udp rnds evs now raw c \<noteq> None"
proof -
  obtain res c' evs' where h: "handshake pr udp rnds evs c = Some (res, c', evs')"
    using attempts_returns [OF assms, of pr udp rnds 0] unfolding handshake_def by blast
  obtain x where x: "ensureSession pr udp rnds evs now c = Some x"
    by (cases "current c"; cases "sessionUsable (currentSession c) now"; cases "fst (sessionUsable (currentSession c) now)")
      (simp_all add: ensureSession_def h)
  show ?thesis
  proof (cases "length raw > 0 \<and> pMTU (params c) > 0 \<and> int (length raw) > pMTU (params c)")
    case False
    then show ?thesis using x
      by (cases x) (auto simp: SendPacket_def Let_def writeActive_def split: sum.split prod.split)
  qed (simp add: SendPacket_def)
qed

text \<open>
  A turn of the sender and what happens before its next one: the WireGuard environment, the time, the choices of
  its selects, and the effect of the other goroutines, which add to the bulk queue and never take from it.
\<close>

type_synonym turn = "wgEnv \<times> int \<times> nat \<times> (Runner \<Rightarrow> Runner)"

definition fair_turn :: "turn \<Rightarrow> bool" where
  "fair_turn = (\<lambda>(we, now, pick, other). 5 \<le> count_list (wEvents we) HsTimer \<and>
     (\<forall>r. (\<exists>zs. bulkQ (other r) = bulkQ r @ zs) \<and> stopped (other r) = stopped r \<and> (cinv (wg r) \<longrightarrow> cinv (wg (other r)))))"

fun sender_run :: "turn list \<Rightarrow> sendPC \<times> Runner \<Rightarrow> (sendPC \<times> Runner) option" where
  "sender_run [] s = Some s"
| "sender_run ((we, now, pick, other) # ts) (k, r) =
     (case senderStep we now pick k r of None \<Rightarrow> None | Some (k', r') \<Rightarrow> sender_run ts (k', other r'))"

text \<open>The turns left, at most, until a waiting bulk packet is taken.\<close>

fun turns :: "sendPC \<Rightarrow> nat" where
  "turns (Burst d) = (if d < urgentBurst then urgentBurst - d + 2 else 2)"
| "turns Bulk = 1"
| "turns Waiting = 11"
| "turns Returned = 0"

lemma sendOne_returns:
  assumes "cinv (wg r)" "5 \<le> count_list (wEvents we) HsTimer"
  shows "\<exists>r'. sendOne we now q r = Some r' \<and> cinv (wg r') \<and> bulkQ r' = bulkQ r \<and> stopped r' = stopped r"
proof -
  let ?r = "if now - qQueued q > 0 then updateMax sendQueueDelayMaxMS_update (word_of_int ((now - qQueued q) div 1000000)) r else r"
  have w: "wg ?r = wg r" "bulkQ ?r = bulkQ r" "stopped ?r = stopped r" by simp_all
  obtain err w' where s: "SendPacket (wPrims we) (wUdp we) (wRnds we) (wEvents we) now (qRaw q) (wg ?r) = Some (err, w')"
    using SendPacket_returns [OF assms, of "wPrims we" "wUdp we" "wRnds we" now "qRaw q"] w by auto
  have "cinv w'" using good_SendPacket [OF s] assms(1) w by (simp add: good_def)
  then show ?thesis using s w unfolding sendOne_def Let_def by (auto simp del: updateMax_fields)
qed

text \<open>One turn: a waiting bulk packet is sent, or the sender comes closer to it.\<close>

lemma sender_turn:
  assumes k: "k \<noteq> Returned" and r: "\<not> stopped r" "bulkQ r = q # qs" "cinv (wg r)" and t: "5 \<le> count_list (wEvents we) HsTimer"
  shows "\<exists>k' r'. senderStep we now pick k r = Some (k', r') \<and> cinv (wg r') \<and> stopped r' = stopped r \<and>
     (sendBulk we now r = Some r' \<and> bulkQ r' = qs \<or> bulkQ r' = bulkQ r \<and> k' \<noteq> Returned \<and> turns k' < turns k)"
proof -
  obtain ru where u: "sendUrgent we now r = Some ru" "cinv (wg ru)" "bulkQ ru = bulkQ r" "stopped ru = stopped r"
    using sendOne_returns [of "r\<lparr>urgentQ := tl (urgentQ r)\<rparr>" we now "hd (urgentQ r)"] r t by (auto simp: sendUrgent_def)
  obtain rb where b: "sendBulk we now r = Some rb" "cinv (wg rb)" "bulkQ rb = qs" "stopped rb = stopped r"
    using sendOne_returns [of "r\<lparr>bulkQ := tl (bulkQ r)\<rparr>" we now "hd (bulkQ r)"] r t by (auto simp: sendBulk_def)
  show ?thesis
  proof (cases k)
    case (Burst d)
    show ?thesis
    proof (cases "urgentQ r = []")
      case True
      then show ?thesis using Burst r by (auto simp: select_def urgentBurst_def)
    next
      case False
      then show ?thesis using Burst r u by (auto simp: select_def urgentBurst_def)
    qed
  next
    case Bulk
    then show ?thesis using r b by auto
  next
    case Waiting
    show ?thesis
    proof (cases "select pick ((if urgentQ r \<noteq> [] then [RUrgent] else []) @ [RBulk])")
      case None
      then show ?thesis by (auto dest: select_cases split: if_splits)
    next
      case (Some x)
      then have "x = RUrgent \<or> x = RBulk" by (auto dest: select_cases split: if_splits)
      then show ?thesis using Waiting Some r u b by (auto simp: urgentBurst_def)
    qed
  qed (use k in simp)
qed

text \<open>C3: The sender prefers urgent UDP packets but does not starve TCP: while the engine runs, whatever the
  random choices of its selects, however many urgent packets arrive and whatever the other goroutines
  do, the first packet of the bulk queue is handed to WireGuard in one of the next 11 turns of the
  sender, and each of these turns returns.\<close>

theorem bulk_not_starved:
  assumes "k \<noteq> Returned" "\<not> stopped r" "bulkQ r = q # qs" "cinv (wg r)" "list_all fair_turn ts" "turns k \<le> length ts"
  shows "\<exists>n kn rn r' zs. n < turns k \<and> sender_run (take n ts) (k, r) = Some (kn, rn) \<and> bulkQ rn = q # qs @ zs \<and>
    (case ts ! n of (we, now, pick, other) \<Rightarrow>
       sendOne we now q (rn\<lparr>bulkQ := qs @ zs\<rparr>) = Some r' \<and> (\<exists>k'. senderStep we now pick kn rn = Some (k', r')))"
  using assms
proof (induction ts arbitrary: k r qs)
  case Nil
  then show ?case by (cases k) (auto split: if_splits)
next
  case (Cons t ts)
  obtain we now pick other where t: "t = (we, now, pick, other)" by (cases t)
  have fair: "5 \<le> count_list (wEvents we) HsTimer" "stopped (other s) = stopped s" "cinv (wg s) \<Longrightarrow> cinv (wg (other s))"
    "\<exists>zs. bulkQ (other s) = bulkQ s @ zs" for s
    using Cons.prems(5) by (auto simp: t fair_turn_def)
  obtain k' r' where st: "senderStep we now pick k r = Some (k', r')" "cinv (wg r')" "stopped r' = stopped r"
    and or: "sendBulk we now r = Some r' \<and> bulkQ r' = qs \<or> bulkQ r' = bulkQ r \<and> k' \<noteq> Returned \<and> turns k' < turns k"
    using sender_turn [OF Cons.prems(1-4) fair(1), of now pick] by blast
  from or show ?case
  proof
    assume "sendBulk we now r = Some r' \<and> bulkQ r' = qs"
    then have "sendOne we now q (r\<lparr>bulkQ := qs @ []\<rparr>) = Some r'" using Cons.prems(3) by (simp add: sendBulk_def)
    moreover have "0 < turns k" using Cons.prems(1) by (cases k) (auto simp: urgentBurst_def)
    ultimately show ?thesis using st(1) Cons.prems(3)
      by (intro exI [of _ 0] exI [of _ k] exI [of _ r] exI [of _ r'] exI [of _ "[]"]) (simp add: t)
  next
    assume o: "bulkQ r' = bulkQ r \<and> k' \<noteq> Returned \<and> turns k' < turns k"
    obtain zs where zs: "bulkQ (other r') = q # (qs @ zs)" using fair(4) [of r'] o Cons.prems(3) by auto
    have "\<exists>n kn rn r'' ws. n < turns k' \<and> sender_run (take n ts) (k', other r') = Some (kn, rn) \<and> bulkQ rn = q # (qs @ zs) @ ws \<and>
       (case ts ! n of (we, now, pick, other) \<Rightarrow>
          sendOne we now q (rn\<lparr>bulkQ := (qs @ zs) @ ws\<rparr>) = Some r'' \<and> (\<exists>k'. senderStep we now pick kn rn = Some (k', r'')))"
      using o st Cons.prems(2,5,6) fair zs by (intro Cons.IH) auto
    then obtain n kn rn r'' ws where n: "n < turns k'" "sender_run (take n ts) (k', other r') = Some (kn, rn)" "bulkQ rn = q # qs @ zs @ ws"
      "case ts ! n of (we, now, pick, other) \<Rightarrow>
          sendOne we now q (rn\<lparr>bulkQ := qs @ zs @ ws\<rparr>) = Some r'' \<and> (\<exists>k'. senderStep we now pick kn rn = Some (k', r''))" by auto
    then show ?thesis using o st(1)
      by (intro exI [of _ "Suc n"] exI [of _ kn] exI [of _ rn] exI [of _ r''] exI [of _ "zs @ ws"]) (simp add: t)
  qed
qed

section \<open>Properties of the running engine\<close>

lemma reachable_ok:
  assumes "Start pr resolve openPath divert e0 fid c internal = Inr r0" "wf_addresses c" "rtranclp (estep pr) (Burst 0, r0) (k, r)"
  shows "runner_ok c internal r \<and> cinv (wg r)"
proof -
  note s = Start_ok [OF assms(1,2)]
  from run_ok [OF assms(3), of c internal] s have "runner_ok c internal r" "rtranclp (cstep pr) (wg r0) (wg r)" by auto
  with good_steps [OF this(2)] s show ?thesis by (simp add: good_def)
qed

lemma select_total:
  "u \<noteq> None \<Longrightarrow> v \<noteq> None \<Longrightarrow> w \<noteq> None \<Longrightarrow> d \<noteq> None \<Longrightarrow>
    (case x of None \<Rightarrow> d | Some RUrgent \<Rightarrow> u | Some RBulk \<Rightarrow> v | Some RDone \<Rightarrow> w) \<noteq> None"
  by (simp split: option.split ready.split)

lemma senderStep_returns:
  assumes "cinv (wg r)" "5 \<le> count_list (wEvents we) HsTimer"
  shows "senderStep we now pick k r \<noteq> None"
proof -
  have u: "map_option f (sendUrgent we now r) \<noteq> None" for f :: "Runner \<Rightarrow> sendPC \<times> Runner"
    using sendOne_returns [of "r\<lparr>urgentQ := tl (urgentQ r)\<rparr>" we now "hd (urgentQ r)"] assms by (auto simp: sendUrgent_def)
  have b: "map_option f (sendBulk we now r) \<noteq> None" for f :: "Runner \<Rightarrow> sendPC \<times> Runner"
    using sendOne_returns [of "r\<lparr>bulkQ := tl (bulkQ r)\<rparr>" we now "hd (bulkQ r)"] assms by (auto simp: sendBulk_def)
  show ?thesis
  proof (cases k)
    case (Burst d)
    show ?thesis unfolding Burst senderStep.simps
      by (cases "d < urgentBurst") (simp_all only: if_True if_False select_total u option.simps not_False_eq_True)
  next
    case Bulk
    show ?thesis unfolding Bulk senderStep.simps using b by simp
  next
    case Waiting
    show ?thesis unfolding Waiting senderStep.simps by (simp only: select_total u b option.simps not_False_eq_True)
  qed simp
qed

text \<open>C1: From \<open>Start\<close> on, under every interleaving of its goroutines, the engine is safe: capturing any packet and
  handling any packet from the tunnel returns without a panic, and so does a turn of the sender once five
  handshake timers have run out; the send queues keep their capacities and hold only packets
  of at most the configured MTU; what comes out of the tunnel is only injected inbound; and no
  nonce of a WireGuard session key is used twice. (The checksum helper is assumed to keep
  the length of a packet.)\<close>

theorem engine_safe:
  assumes "Start pr resolve openPath divert e0 fid c internal = Inr r0" "wf_addresses c"
    and "rtranclp (estep pr) (Burst 0, r0) (k, r)" and "keeps_length (eChecksum e)" and "5 \<le> count_list (wEvents we) HsTimer"
  shows "(\<exists>r'. captureStep e raw a r = Some r') \<and>
    (\<exists>r' xs. wgReceiveStep e r = Some r' \<and> injected r' = injected r @ xs \<and> (\<forall>(b, d) \<in> set xs. \<not> outboundAddr d)) \<and>
    (\<exists>s. senderStep we now pick k r = Some s) \<and>
    length (urgentQ r) \<le> 4096 \<and> length (bulkQ r) \<le> 8192 \<and>
    (\<forall>q \<in> set (urgentQ r @ bulkQ r). int (length (qRaw q)) \<le> cMTU c) \<and> distinct (seals (wg r))"
proof -
  note ok = reachable_ok [OF assms(1-3)]
  have "\<exists>r'. captureStep e raw a r = Some r'" using captureStep_ok [of c internal r e raw a] ok assms(4) by (auto simp: returns_def)
  moreover
  obtain r' where rc: "wgReceiveStep e r = Some r'" "injects inbound (r\<lparr>wg := wg r'\<rparr>) r'"
    using wgReceiveStep_ok [of c internal r e] ok by (auto simp: returns_def)
  with rc(1) have "\<exists>r' xs. wgReceiveStep e r = Some r' \<and> injected r' = injected r @ xs \<and> (\<forall>(b, d) \<in> set xs. \<not> outboundAddr d)"
    by (simp add: injects_def)
  moreover have "\<exists>s. senderStep we now pick k r = Some s" using senderStep_returns [of r we] ok assms(5) by blast
  moreover have "length (urgentQ r) \<le> 4096" "length (bulkQ r) \<le> 8192" "\<forall>q \<in> set (urgentQ r @ bulkQ r). int (length (qRaw q)) \<le> cMTU c"
    using ok by (auto simp: runner_ok_def fits_def)
  moreover have "distinct (seals (wg r))" using ok unfolding cinv_def by blast
  ultimately show ?thesis by (intro conjI)
qed


section \<open>The DNS sniffer\<close>

definition short_udp :: bytes where
  "short_udp = [0x45, 0, 0, 24, 0, 0, 0, 0, 64, 17, 0, 0, 8, 8, 8, 8, 10, 0, 0, 2, 0, 53, 0xc3, 0x50, 0, 4, 0, 0]"

text \<open>C11: The DNS sniffer panics exactly on a UDP packet whose captured bytes hold a UDP header but whose IP length
  ends before it: the check compares with the captured length, the slice ends at the IP length. A
  28-byte packet with an IP length of 24 is an example; every other packet is handled.\<close>

theorem dnsStep_panics:
  "(dnsStep now raw r = None \<longleftrightarrow>
     (\<exists>pk. Parse raw = Some (Inr pk) \<and> pProtocol pk = ProtoUDP \<and> pL4 pk + 8 \<le> length raw \<and> pTotal pk < pL4 pk + 8)) \<and>
   dnsStep now short_udp r = None"
proof -
  have gen: "dnsStep now raw r = None \<longleftrightarrow>
     (\<exists>pk. Parse raw = Some (Inr pk) \<and> pProtocol pk = ProtoUDP \<and> pL4 pk + 8 \<le> length raw \<and> pTotal pk < pL4 pk + 8)" for raw
  proof -
    obtain x where x: "Parse raw = Some x" using Parse_ne_None [of raw] by blast
    show ?thesis
    proof (cases x)
      case (Inr pk)
      obtain y where "ParseDNSResponse (take (pTotal pk - (pL4 pk + 8)) (drop (pL4 pk + 8) raw)) (\<lambda>n. NameMatches n (domains r)) = Some y"
        using ParseDNSResponse_ne_None by blast
      then show ?thesis using x Inr Parse_bounds [of raw pk]
        by (auto simp: dnsStep_def slice_def not_le not_less Let_def split: sum.split)
    qed (use x in \<open>simp add: dnsStep_def\<close>)
  qed
  have "Parse short_udp = Some (Inr (pkt4 short_udp))" "pL4 (pkt4 short_udp) = 20" "pTotal (pkt4 short_udp) = 24"
    "pProtocol (pkt4 short_udp) = ProtoUDP" "length short_udp = 28"
    by (simp_all add: Parse_Inr_iff ok4_def ihl4_def short_udp_def u16of_def tot4_def ProtoUDP_def)
  then have "dnsStep now short_udp r = None" unfolding gen by auto
  with gen show ?thesis by blast
qed

section \<open>A worked example\<close>

text \<open>Every valid configuration starts if its endpoint resolves and the sockets and WinDivert handles open.\<close>

lemma Start_succeeds:
  assumes "config_ok c" "resolve (TrimSpace (peerEndpoint (cPeer c))) \<noteq> None" "\<And>n v6. openPath n v6 = Some (f n v6)"
  shows "\<exists>r. Start pr resolve openPath True e fid c internal = Inr r"
proof -
  have key: "\<exists>b. DecodeKey s = Some b \<and> length b = 32" if "validWGKey s" for s
    using that by (auto simp: validWGKey_def DecodeKey_def split: option.splits)
  obtain a where a: "DecodeKey (cPrivateKey c) = Some a" "length a = 32" using key assms(1) by (auto simp: config_ok_def)
  obtain b where b: "DecodeKey (peerPublicKey (cPeer c)) = Some b" using key assms(1) by (auto simp: config_ok_def)
  obtain ps where ps: "(if peerPresharedKey (cPeer c) \<noteq> [] then DecodeKey (peerPresharedKey (cPeer c)) else Some (replicate 32 0)) = Some ps"
    using key assms(1) by (cases "peerPresharedKey (cPeer c) = []") (auto simp: config_ok_def)
  obtain ep where ep: "resolve (TrimSpace (peerEndpoint (cPeer c))) = Some ep" using assms(2) by blast
  have "\<exists>w. Wireguard.New pr resolve openPath \<lparr>pPrivateKey = a, pPeerPublicKey = b, pPresharedKey = ps,
      pEndpoint = peerEndpoint (cPeer c), pMTU = cMTU c, pKeepalive = peerKeepalive (cPeer c)\<rparr> = Inr w"
    using assms(1) ep by (simp add: Wireguard.New_def a(2) resolveEndpoint_def rbind_def assms(3) Let_def config_ok_def)
  then show ?thesis using a b ps by (auto simp: Start_def)
qed

definition example_config :: Config where
  "example_config = Defaults\<lparr>cGroups := [\<lparr>gName = ''AI'', gApps = [''*''], gDomains = [''*.example.com''], gNetworks = []\<rparr>],
     cPrivateKey := example_key_text, cAddresses := [\<lparr>pfx_addr = Addr4 [10, 0, 0, 2], pfx_bits = 32\<rparr>],
     cPeer := (cPeer Defaults)\<lparr>peerPublicKey := example_key_text, peerEndpoint := ''vpn:51820''\<rparr>\<rparr>"

definition example_env :: env where
  "example_env = \<lparr>eNow = 1, eSend = (\<lambda>_. None), eChecksum = (\<lambda>b. (False, b)), eTables = example_tables,
     eImageName = (\<lambda>_. None), eWaits = [], ePick = 0\<rparr>"

definition example_wgEnv :: wgEnv where
  "example_wgEnv = \<lparr>wPrims = example_prims, wUdp = (\<lambda>i m. Inr (length m)), wRnds = (\<lambda>n. (0, None, None)), wEvents = replicate 5 HsTimer\<rparr>"

definition example_start :: "starterr + Runner" where
  "example_start = Start example_prims (\<lambda>_. Some (Addr4 [192, 0, 2, 1], 51820)) (\<lambda>n v6. Some (50000 + n)) True example_env 7 example_config []"

lemma example_config_ok: "config_ok example_config" "wf_addresses example_config"
  using example_group example_key
  by (auto simp: config_ok_def example_config_def Defaults_def TrimSpace_def is_space_def wf_addresses_def)

lemma example_start_ok: "\<exists>r0. example_start = Inr r0"
  unfolding example_start_def by (rule Start_succeeds) (simp_all add: example_config_ok)

lemma example_envs: "keeps_length (eChecksum example_env)" "5 \<le> count_list (wEvents example_wgEnv) HsTimer"
  by (simp_all add: keeps_length_def example_env_def example_wgEnv_def numeral_eq_Suc)

theorem engine_safe_witness:
  "\<exists>r0. example_start = Inr r0 \<and> (\<exists>r'. captureStep example_env [0x45, 0, 0] [] r0 = Some r') \<and>
     (\<exists>s. senderStep example_wgEnv 0 0 (Burst 0) r0 = Some s) \<and> distinct (seals (wg r0))"
proof -
  obtain r0 where r0: "example_start = Inr r0" using example_start_ok by blast
  from engine_safe [OF r0 [unfolded example_start_def] example_config_ok(2) rtranclp.rtrancl_refl example_envs]
  show ?thesis using r0 by blast
qed

text \<open>A UDP packet of a connection that the proxy registered for the tunnel.\<close>

definition example_udp :: bytes where
  "example_udp = [0x45, 0, 0, 28, 0, 0, 0, 0, 64, 17, 0, 0, 192, 168, 1, 2, 1, 1, 1, 1, 0xc3, 0x50, 1, 0xbb, 0, 8, 0, 0]"

definition example_proxy :: proxyRouteTable where
  "example_proxy = SetProxy 0 \<lparr>pkProto = 17, pkLocalPort = 50000, pkRemote = Addr4 [1, 1, 1, 1], pkRemotePort = 443\<rparr> True newProxyRouteTable"

lemma example_udp_Parse: "Parse example_udp = Some (Inr \<lparr>pVersion = 4, pProtocol = 17, pSrc = Addr4 [192, 168, 1, 2], pDst = Addr4 [1, 1, 1, 1],
    pSrcPort = 50000, pDstPort = 443, pL4 = 20, pTotal = 28\<rparr>)"
  by code_simp

lemma example_route: "routeOf example_env example_udp (r\<lparr>proxyRoutes := example_proxy\<rparr>) = Some True"
proof -
  have "IsFragment example_udp = Some False" by code_simp
  then show ?thesis
    by (simp add: routeOf_def reassembleOutbound_def passResult_def noResult_def Let_def example_udp_Parse classify_def flowKey_def
        LookupProxy_def proxyKeyFromFlow_def example_proxy_def SetProxy_def newProxyRouteTable_def split_def)
qed


theorem bulk_not_starved_witness:
  "\<exists>r n kn rn r'. n < 11 \<and> bulkQ r = [\<lparr>qRaw = example_udp, qQueued = 0\<rparr>] \<and>
     sender_run (replicate n (example_wgEnv, 0, 0, \<lambda>r. r)) (Waiting, r) = Some (kn, rn) \<and>
     (\<exists>zs. sendOne example_wgEnv 0 \<lparr>qRaw = example_udp, qQueued = 0\<rparr> (rn\<lparr>bulkQ := zs\<rparr>) = Some r')"
proof -
  obtain r0 where r0: "example_start = Inr r0" using example_start_ok by blast
  let ?q = "\<lparr>qRaw = example_udp, qQueued = 0\<rparr>"
  let ?r = "r0\<lparr>stopped := False, bulkQ := [?q]\<rparr>" and ?t = "(example_wgEnv, 0 :: int, 0 :: nat, \<lambda>r :: Runner. r)"
  have inv: "cinv (wg ?r)" using Start_ok [OF r0 [unfolded example_start_def] example_config_ok(2)] by simp
  have fair: "list_all fair_turn (replicate 11 ?t)" using example_envs(2) by (simp add: fair_turn_def list_all_iff)
  from bulk_not_starved [of Waiting ?r ?q "[]" "replicate 11 ?t", OF _ _ _ inv fair]
  obtain n kn rn r' zs where n: "n < 11" "sender_run (take n (replicate 11 ?t)) (Waiting, ?r) = Some (kn, rn)"
    "case replicate 11 ?t ! n of (we, now, pick, other) \<Rightarrow> sendOne we now ?q (rn\<lparr>bulkQ := zs\<rparr>) = Some r'" by auto
  from n(1) have "take n (replicate 11 ?t) = replicate n ?t" "replicate 11 ?t ! n = ?t" by (simp_all add: take_replicate)
  with n show ?thesis by (intro exI [of _ ?r] exI [of _ n] exI [of _ kn] exI [of _ rn] exI [of _ r']) auto
qed

end
