(* ===== verification/Proxy_Dial.thy ===== *)
theory Proxy_Dial
  imports Engine_Inv
begin

text \<open>
  The engine's side of the hostname proxy (\<open>internal/engine/proxy_windows.go\<close>, \<open>internal/engine/proxydial.go\<close>): which
  proxied connections go through the tunnel, and the registration of their routes before the first
  packet is sent. The dialler of the standard library is a parameter: the addresses it tries, which
  call the control function one after the other, and its result.
\<close>

section \<open>Addresses with ports\<close>

text \<open>\<open>strconv.ParseUint(s, 10, 16)\<close>.\<close>

definition ParseUint16 :: "string \<Rightarrow> u16 option" where
  "ParseUint16 s = (if s \<noteq> [] \<and> list_all is_digit s \<and> digits_val s < 65536 then Some (word_of_int (digits_val s)) else None)"

text \<open>The text before and after the last colon.\<close>

definition lastColon :: "string \<Rightarrow> (string \<times> string) option" where
  "lastColon s = (if CHR '':'' \<in> set s
     then Some (rev (tl (dropWhile (\<lambda>c. c \<noteq> CHR '':'') (rev s))), rev (takeWhile (\<lambda>c. c \<noteq> CHR '':'') (rev s)))
     else None)"

text \<open>\<open>netip.ParseAddrPort\<close>.\<close>

definition ParseAddrPort :: "string \<Rightarrow> (addr \<times> u16) option" where
  "ParseAddrPort s =
     (case lastColon s of None \<Rightarrow> None
      | Some (ip, port) \<Rightarrow>
          if ip = [] \<or> port = [] then None
          else
            let v6 = (hd ip = CHR ''['') in
            if v6 \<and> (length ip < 2 \<or> last ip \<noteq> CHR '']'') then None
            else (case (ParseUint16 port, ParseAddr (if v6 then butlast (tl ip) else ip)) of
                (Some p, Some a) \<Rightarrow> if v6 \<and> Is4 a \<or> \<not> v6 \<and> Is6 a then None else Some (a, p)
              | _ \<Rightarrow> None))"

text \<open>\<open>net.SplitHostPort\<close>.\<close>

definition SplitHostPort :: "string \<Rightarrow> (string \<times> string) option" where
  "SplitHostPort s =
     (case lastColon s of None \<Rightarrow> None
      | Some (before, port) \<Rightarrow>
          if s \<noteq> [] \<and> hd s = CHR ''['' then
            (let host = takeWhile (\<lambda>c. c \<noteq> CHR '']'') (tl s) in
             if CHR '']'' \<notin> set s \<or> length host + 2 \<noteq> length before then None
             else if CHR ''['' \<in> set (tl s) \<or> CHR '']'' \<in> set (drop (length host + 2) s) then None
             else Some (host, port))
          else if CHR '':'' \<in> set before then None
          else if CHR ''['' \<in> set s \<or> CHR '']'' \<in> set s then None
          else Some (before, port))"

section \<open>Authorization\<close>

definition authorizeGlobal :: "string \<Rightarrow> string \<Rightarrow> Runner \<Rightarrow> ((bool \<times> string) \<times> Runner) go" where
  "authorizeGlobal host reason r = do {
     d \<leftarrow> DecideHost (policy r) zeroProcess host;
     Some (if dTunnel d then ((True, dReason d @ ''/global''), inc proxyTunnel_update r)
           else ((False, reason), inc proxyDirect_update r))
   }"

definition AuthorizeProxyClient :: "env \<Rightarrow> string \<Rightarrow> string \<Rightarrow> string \<Rightarrow> Runner \<Rightarrow> ((bool \<times> string) \<times> Runner) go" where
  "AuthorizeProxyClient e clientAddr proxyAddr host r =
     (case (ParseAddrPort clientAddr, ParseAddrPort proxyAddr) of
        (Some (ca, cp), Some (pa, pp)) \<Rightarrow> do {
          let key = \<lparr>kProto = 6, kLocal = Unmap ca, kRemote = Unmap pa, kLocalPort = cp, kRemotePort = pp\<rparr>;
          let ow = Lookup key (flows r);
          ow \<leftarrow> (if ow = None then WaitLookup key (flows r) (eWaits e @ [TimedOut]) else Some ow);
          let ow = (if ow = None then ResolveSocketOwner (eTables e) (ProcessInfo (eImageName e)) key else ow);
          (case ow of
             None \<Rightarrow> authorizeGlobal host ''client-process-unresolved'' r
           | Some proc \<Rightarrow> do {
               d \<leftarrow> DecideHost (policy r) proc host;
               Some (if dTunnel d then ((True, prName proc @ ''/'' @ dGroup d), inc proxyTunnel_update r)
                     else ((False, prName proc @ ''/no-matching-group''), inc proxyDirect_update r))
             })
        }
      | _ \<Rightarrow> authorizeGlobal host ''client-address-unresolved'' r)"

section \<open>Dialling\<close>

text \<open>An error of the dialler: whether it is a failed \<open>bind\<close>, and whether it is a failed name lookup.\<close>

datatype dialErr = DialErr bool bool | BadNetwork string | ReserveErr

fun isBindError :: "dialErr \<Rightarrow> bool" where
  "isBindError (DialErr b d) = b"
| "isBindError _ = False"

fun isDNSLookupError :: "dialErr \<Rightarrow> bool" where
  "isDNSLookupError (DialErr b d) = d"
| "isDNSLookupError _ = False"

text \<open>
  One attempt: the reserved local port, the addresses the dialler tries, and its result, given for
  each address whether the control function accepted it.
\<close>

record attempt =
  atPort :: "u16 option"
  atAddrs :: "string list"
  atResult :: "bool list \<Rightarrow> dialErr option"

record registeredConn =
  rcKeys :: "proxyRouteKey list"

definition controlKey :: "byte \<Rightarrow> u16 \<Rightarrow> string \<Rightarrow> proxyRouteKey option" where
  "controlKey proto localPort dialAddress = do {
     (host, portText) \<leftarrow> SplitHostPort dialAddress;
     ip \<leftarrow> ParseAddr (dropWhile (\<lambda>c. c \<in> {CHR ''['', CHR '']''}) (rev (dropWhile (\<lambda>c. c \<in> {CHR ''['', CHR '']''}) (rev host))));
     port \<leftarrow> ParseUint16 portText;
     if port = 0 then None
     else Some \<lparr>pkProto = proto, pkLocalPort = localPort, pkRemote = Unmap ip, pkRemotePort = port\<rparr>
   }"

text \<open>The calls of the control function of one attempt: the keys registered, and whether each call succeeded.\<close>

fun run_control :: "int \<Rightarrow> byte \<Rightarrow> u16 \<Rightarrow> bool \<Rightarrow> string list \<Rightarrow> proxyRouteTable \<Rightarrow> proxyRouteKey list \<times> bool list \<times> proxyRouteTable" where
  "run_control now proto port tunnel [] t = ([], [], t)"
| "run_control now proto port tunnel (a # as) t =
     (case controlKey proto port a of
        None \<Rightarrow> (let (ks, bs, t) = run_control now proto port tunnel as t in (ks, False # bs, t))
      | Some k \<Rightarrow> (let (ks, bs, t) = run_control now proto port tunnel as (SetProxy now k tunnel t) in (k # ks, True # bs, t)))"

definition CloseConn :: "registeredConn \<Rightarrow> proxyRouteTable \<Rightarrow> proxyRouteTable" where
  "CloseConn rc t = fold DeleteProxyKey (rcKeys rc) t"

fun dial_attempts :: "int \<Rightarrow> byte \<Rightarrow> bool \<Rightarrow> dialErr option \<Rightarrow> attempt list \<Rightarrow> proxyRouteTable \<Rightarrow> (dialErr option + registeredConn) \<times> proxyRouteTable" where
  "dial_attempts now proto tunnel lastErr [] t = (Inl lastErr, t)"
| "dial_attempts now proto tunnel lastErr (a # as) t =
     (case atPort a of None \<Rightarrow> (Inl (Some ReserveErr), t)
      | Some port \<Rightarrow>
          let (keys, bs, t) = run_control now proto port tunnel (atAddrs a) t in
          (case atResult a bs of
             None \<Rightarrow> (Inr \<lparr>rcKeys = keys\<rparr>, t)
           | Some err \<Rightarrow>
               let t = fold DeleteProxyKey keys t in
               if \<not> isBindError err then (Inl (Some err), t)
               else dial_attempts now proto tunnel (Some err) as t))"

definition dialProxyRegistered :: "int \<Rightarrow> string \<Rightarrow> bool \<Rightarrow> (nat \<Rightarrow> attempt) \<Rightarrow> proxyRouteTable \<Rightarrow> (dialErr option + registeredConn) \<times> proxyRouteTable" where
  "dialProxyRegistered now network tunnel at t =
     (if HasPrefix network ''udp'' then dial_attempts now 17 tunnel None (map at [0..<4]) t
      else if \<not> HasPrefix network ''tcp'' then (Inl (Some (BadNetwork network)), t)
      else dial_attempts now 6 tunnel None (map at [0..<4]) t)"

text \<open>The server and network the resolver's dialler chooses on its \<open>n\<close>-th call; always through the tunnel.\<close>

definition resolverTarget :: "addr list \<Rightarrow> u64 \<Rightarrow> string \<Rightarrow> addr \<times> string" where
  "resolverTarget servers n network =
     (let server = servers ! unat (n mod word_of_nat (length servers));
          isTCP = HasPrefix network ''tcp''
      in (server, if Is4 server then (if isTCP then ''tcp4'' else ''udp4'') else (if isTCP then ''tcp6'' else ''udp6'')))"

text \<open>\<open>at res network\<close> are the attempts with the tunnel's resolver (\<open>res\<close>) or the system's.\<close>

definition proxyNetwork :: "Config \<Rightarrow> string \<Rightarrow> string" where
  "proxyNetwork c network =
     (let has4 = IsValid (TunnelIPv4 c); has6 = IsValid (TunnelIPv6 c) in
      if has4 \<noteq> has6 then
        (if has4 then (if network = ''tcp'' then ''tcp4'' else if network = ''udp'' then ''udp4'' else network)
         else (if network = ''tcp'' then ''tcp6'' else if network = ''udp'' then ''udp6'' else network))
      else network)"

definition DialProxy :: "int \<Rightarrow> string \<Rightarrow> bool \<Rightarrow> (bool \<Rightarrow> string \<Rightarrow> nat \<Rightarrow> attempt) \<Rightarrow> Runner \<Rightarrow> (dialErr option + registeredConn) \<times> Runner" where
  "DialProxy now network tunnel at r =
     (let resolver = (tunnel \<and> cDNSServers (cfg r) \<noteq> []);
          network = (if tunnel then proxyNetwork (cfg r) network else network);
          (res, t) = dialProxyRegistered now network tunnel (at resolver network) (proxyRoutes r)
      in case res of
           Inl (Some err) \<Rightarrow>
             if \<not> tunnel \<or> \<not> resolver \<or> \<not> isDNSLookupError err then (res, r\<lparr>proxyRoutes := t\<rparr>)
             else (let (res, t) = dialProxyRegistered now network tunnel (at False network) t in (res, r\<lparr>proxyRoutes := t\<rparr>))
         | _ \<Rightarrow> (res, r\<lparr>proxyRoutes := t\<rparr>))"

section \<open>Routes of a dialled connection\<close>

lemma ParseAddr_IsValid: "ParseAddr s = Some a \<Longrightarrow> IsValid a"
  by (auto simp: ParseAddr_def parse_addr_def split: list.splits if_splits option.splits)

lemma controlKey_wf:
  assumes "controlKey proto port a = Some k"
  shows "pkProto k = proto" "pkLocalPort k = port" "IsValid (pkRemote k)" "pkRemotePort k \<noteq> 0" "k\<lparr>pkRemote := Unmap (pkRemote k)\<rparr> = k"
proof -
  from assms obtain s ip x where "ParseAddr s = Some ip" "x \<noteq> 0"
    "k = \<lparr>pkProto = proto, pkLocalPort = port, pkRemote = Unmap ip, pkRemotePort = x\<rparr>"
    by (auto simp: controlKey_def split: bind_splits if_splits)
  then show "pkProto k = proto" "pkLocalPort k = port" "IsValid (pkRemote k)" "pkRemotePort k \<noteq> 0" "k\<lparr>pkRemote := Unmap (pkRemote k)\<rparr> = k"
    using ParseAddr_IsValid [of s ip] by simp_all
qed

definition normal :: "proxyRouteKey \<Rightarrow> bool" where
  "normal k \<longleftrightarrow> k\<lparr>pkRemote := Unmap (pkRemote k)\<rparr> = k"

lemma run_control_routes:
  assumes "run_control now proto port tunnel as t = (ks, bs, t')" "proto \<noteq> 0" "port \<noteq> 0"
  shows "(\<forall>k. pxM t' k = (if k \<in> set ks then Some \<lparr>pxTunnel = tunnel, pxSeen = now\<rparr> else pxM t k)) \<and> list_all normal ks"
  using assms(1)
proof (induction as arbitrary: t ks bs)
  case (Cons a as)
  show ?case
  proof (cases "controlKey proto port a")
    case None
    with Cons show ?thesis by (auto split: prod.splits)
  next
    case (Some k)
    note w = controlKey_wf [OF Some]
    have set: "pxM (SetProxy now k tunnel t) = (pxM t)(k \<mapsto> \<lparr>pxTunnel = tunnel, pxSeen = now\<rparr>)"
      using w assms(2,3) by (simp add: SetProxy_def Let_def)
    obtain ks' bs' where r: "run_control now proto port tunnel as (SetProxy now k tunnel t) = (ks', bs', t')" "ks = k # ks'"
      using Cons.prems Some by (auto split: prod.splits)
    from Cons.IH [OF r(1)] w(5) show ?thesis by (auto simp: set r(2) normal_def)
  qed
qed simp

lemma delete_keys: "list_all normal ks \<Longrightarrow> pxM (fold DeleteProxyKey ks t) = (\<lambda>k. if k \<in> set ks then None else pxM t k)"
  by (induction ks arbitrary: t) (auto simp: DeleteProxyKey_def normal_def fun_eq_iff)

text \<open>\<open>no_new t t'\<close>: no route was added.\<close>

definition no_new :: "proxyRouteTable \<Rightarrow> proxyRouteTable \<Rightarrow> bool" where
  "no_new t t' \<longleftrightarrow> (\<forall>k. pxM t' k = pxM t k \<or> pxM t' k = None)"

lemma no_new_trans: "no_new a b \<Longrightarrow> no_new b c \<Longrightarrow> no_new a c"
  unfolding no_new_def by metis

definition dialled :: "bool \<Rightarrow> int \<Rightarrow> proxyRouteTable \<Rightarrow> (dialErr option + registeredConn) \<times> proxyRouteTable \<Rightarrow> bool" where
  "dialled tunnel now t x \<longleftrightarrow>
     (case x of (Inl _, t') \<Rightarrow> no_new t t'
      | (Inr rc, t') \<Rightarrow> (\<forall>k \<in> set (rcKeys rc). pxM t' k = Some \<lparr>pxTunnel = tunnel, pxSeen = now\<rparr>) \<and> no_new t (CloseConn rc t'))"

lemma dialled_later: "no_new t s \<Longrightarrow> dialled tunnel now s x \<Longrightarrow> dialled tunnel now t x"
  by (auto simp: dialled_def intro: no_new_trans split: prod.splits sum.splits)

lemma dial_attempts_dialled:
  assumes "proto \<noteq> 0" "\<forall>a \<in> set as. atPort a \<noteq> Some 0"
  shows "dialled tunnel now t (dial_attempts now proto tunnel lastErr as t)"
  using assms(2)
proof (induction as arbitrary: lastErr t)
  case Nil
  then show ?case by (simp add: dialled_def no_new_def)
next
  case (Cons a as)
  show ?case
  proof (cases "atPort a")
    case None
    then show ?thesis by (simp add: dialled_def no_new_def)
  next
    case (Some port)
    obtain ks bs t1 where rc: "run_control now proto port tunnel (atAddrs a) t = (ks, bs, t1)" by (metis prod_cases3)
    have "port \<noteq> 0" using Cons.prems Some by auto
    from run_control_routes [OF rc assms(1) this]
    have t1: "pxM t1 k = (if k \<in> set ks then Some \<lparr>pxTunnel = tunnel, pxSeen = now\<rparr> else pxM t k)" and n: "list_all normal ks" for k
      by blast+
    have del: "no_new t (fold DeleteProxyKey ks t1)" by (simp add: no_new_def delete_keys [OF n] t1)
    show ?thesis
    proof (cases "atResult a bs")
      case None
      then show ?thesis using Some rc del by (simp add: dialled_def CloseConn_def t1)
    next
      case (Some err)
      have "dialled tunnel now t (dial_attempts now proto tunnel (Some err) as (fold DeleteProxyKey ks t1))"
        using Cons.prems by (intro dialled_later [OF del] Cons.IH) simp
      then show ?thesis using \<open>atPort a = Some port\<close> rc Some del by (simp add: dialled_def Let_def)
    qed
  qed
qed

lemma dialProxyRegistered_dialled:
  "(\<And>n. atPort (at n) \<noteq> Some 0) \<Longrightarrow> dialled tunnel now t (dialProxyRegistered now network tunnel at t)"
  unfolding dialProxyRegistered_def
  by (auto intro!: dial_attempts_dialled simp del: upt_rec_numeral simp: dialled_def [of _ _ _ "(Inl _, _)"] no_new_def)

lemma DialProxy_dialled:
  assumes "\<And>res net n. atPort (at res net n) \<noteq> Some 0"
  shows "\<exists>t'. snd (DialProxy now network tunnel at r) = r\<lparr>proxyRoutes := t'\<rparr> \<and>
    dialled tunnel now (proxyRoutes r) (fst (DialProxy now network tunnel at r), t')"
proof -
  define rs where "rs \<longleftrightarrow> tunnel \<and> cDNSServers (cfg r) \<noteq> []"
  define net where "net = (if tunnel then proxyNetwork (cfg r) network else network)"
  obtain x t where d: "dialProxyRegistered now net tunnel (at rs net) (proxyRoutes r) = (x, t)" by fastforce
  note dx = dialProxyRegistered_dialled [of "at rs net" tunnel now "proxyRoutes r" net, OF assms, unfolded d]
  obtain y u where d2: "dialProxyRegistered now net tunnel (at False net) t = (y, u)" by fastforce
  note dy = dialProxyRegistered_dialled [of "at False net" tunnel now t net, OF assms, unfolded d2]
  have later: "dialled tunnel now (proxyRoutes r) (y, u)" if "x = Inl err" for err
    using dx that by (intro dialled_later [OF _ dy]) (simp add: dialled_def)
  have "DialProxy now network tunnel at r = (x, r\<lparr>proxyRoutes := t\<rparr>) \<or>
      (\<exists>err. x = Inl err) \<and> DialProxy now network tunnel at r = (y, r\<lparr>proxyRoutes := u\<rparr>)"
    unfolding DialProxy_def Let_def rs_def [symmetric] net_def [symmetric] d prod.case
    using d2 by (cases x) (auto split: option.split)
  then show ?thesis using dx later by auto
qed

lemma dialled_routeOf:
  assumes "dialled tunnel now t (Inr rc, t')" "IsFragment raw = Some False" "Parse raw = Some (Inr pk)" "proxyKeyFromFlow (flowKey pk) \<in> set (rcKeys rc)"
  shows "routeOf e raw (r\<lparr>proxyRoutes := t'\<rparr>) = Some tunnel"
proof -
  have "pxM t' (proxyKeyFromFlow (flowKey pk)) = Some \<lparr>pxTunnel = tunnel, pxSeen = now\<rparr>" using assms(1,4) by (simp add: dialled_def)
  with assms(2,3) show ?thesis
    by (simp add: routeOf_def reassembleOutbound_def passResult_def noResult_def Let_def classify_def LookupProxy_def split_def)
qed

text \<open>A connection the proxy opens takes the route the proxy chose. After a successful dial every packet of
  the connection that is no fragment is routed to the tunnel or directly as was asked, whatever the
  policy says of its flow; closing the connection removes its routes, and a failed dial leaves no
  route behind.\<close>

theorem proxied_connection_routed:
  assumes "DialProxy now network tunnel at r = (res, r')" "\<And>rs net n. atPort (at rs net n) \<noteq> Some 0"
  shows "case res of
      Inr rc \<Rightarrow> (\<forall>e raw pk. IsFragment raw = Some False \<longrightarrow> Parse raw = Some (Inr pk) \<longrightarrow>
          proxyKeyFromFlow (flowKey pk) \<in> set (rcKeys rc) \<longrightarrow> routeOf e raw r' = Some tunnel) \<and>
        no_new (proxyRoutes r) (CloseConn rc (proxyRoutes r'))
    | Inl _ \<Rightarrow> no_new (proxyRoutes r) (proxyRoutes r')"
proof -
  from DialProxy_dialled [where at = at and now = now and network = network and tunnel = tunnel and r = r, OF assms(2)] assms(1) obtain t' where
    t: "r' = r\<lparr>proxyRoutes := t'\<rparr>" "dialled tunnel now (proxyRoutes r) (res, t')" by auto
  show ?thesis
  proof (cases res)
    case (Inr rc)
    then have d: "dialled tunnel now (proxyRoutes r) (Inr rc, t')" using t(2) by simp
    then have "no_new (proxyRoutes r) (CloseConn rc t')" by (simp add: dialled_def)
    then show ?thesis using dialled_routeOf [OF d] by (simp add: Inr t(1))
  qed (use t in \<open>simp add: dialled_def\<close>)
qed

definition example_attempt :: "bool \<Rightarrow> string \<Rightarrow> nat \<Rightarrow> attempt" where
  "example_attempt rs net n = \<lparr>atPort = Some 50000, atAddrs = [''1.1.1.1:443''], atResult = (\<lambda>bs. None)\<rparr>"

lemma example_control: "controlKey 6 50000 ''1.1.1.1:443'' =
    Some \<lparr>pkProto = 6, pkLocalPort = 50000, pkRemote = Addr4 [1, 1, 1, 1], pkRemotePort = 443\<rparr>"
  by code_simp

theorem proxied_connection_routed_witness:
  "\<exists>r r' rc. DialProxy 5 ''tcp4'' False example_attempt r = (Inr rc, r') \<and>
     rcKeys rc = [\<lparr>pkProto = 6, pkLocalPort = 50000, pkRemote = Addr4 [1, 1, 1, 1], pkRemotePort = 443\<rparr>] \<and>
     no_new (proxyRoutes r) (CloseConn rc (proxyRoutes r'))"
proof -
  fix r :: Runner
  have "\<exists>rc r'. DialProxy 5 ''tcp4'' False example_attempt r = (Inr rc, r') \<and>
     rcKeys rc = [\<lparr>pkProto = 6, pkLocalPort = 50000, pkRemote = Addr4 [1, 1, 1, 1], pkRemotePort = 443\<rparr>]"
    by (simp add: DialProxy_def Let_def dialProxyRegistered_def HasPrefix_def example_attempt_def example_control upt_rec split_def)
  then obtain rc r' where d: "DialProxy 5 ''tcp4'' False example_attempt r = (Inr rc, r')"
    "rcKeys rc = [\<lparr>pkProto = 6, pkLocalPort = 50000, pkRemote = Addr4 [1, 1, 1, 1], pkRemotePort = 443\<rparr>]" by blast
  from proxied_connection_routed [OF d(1)] d show ?thesis by (auto simp: example_attempt_def)
qed

section \<open>Who may use the tunnel\<close>

text \<open>The process behind a client of the proxy: the owner of its socket, or the unknown process.\<close>

definition proxyClient :: "env \<Rightarrow> string \<Rightarrow> string \<Rightarrow> Runner \<Rightarrow> Process" where
  "proxyClient e clientAddr proxyAddr r =
     (case (ParseAddrPort clientAddr, ParseAddrPort proxyAddr) of
        (Some (ca, cp), Some (pa, pp)) \<Rightarrow>
          (let key = \<lparr>kProto = 6, kLocal = Unmap ca, kRemote = Unmap pa, kLocalPort = cp, kRemotePort = pp\<rparr> in
           case WaitLookup key (flows r) (eWaits e @ [TimedOut]) of
             Some (Some proc) \<Rightarrow> proc
           | _ \<Rightarrow> (case ResolveSocketOwner (eTables e) (ProcessInfo (eImageName e)) key of None \<Rightarrow> zeroProcess | Some proc \<Rightarrow> proc))
      | _ \<Rightarrow> zeroProcess)"

text \<open>The proxy sends a connection through the tunnel exactly if a group that selects the client's process (or,
  if it is unknown, a group for all applications) has a pattern that matches the host and is no
  catch-all group. The question is always answered, and counted once.\<close>

theorem AuthorizeProxyClient_correct:
  assumes "policy r = NewWithInternal groups internal"
  shows "\<exists>b reason. AuthorizeProxyClient e clientAddr proxyAddr host r =
      Some ((b, reason), inc (if b then proxyTunnel_update else proxyDirect_update) r) \<and>
    (b \<longleftrightarrow> (\<exists>i < length groups. selects (groups ! i) (proxyClient e clientAddr proxyAddr r) \<and>
        \<not> DomainsAll (groups ! i) \<and> MatchesDomain (groups ! i) host))"
proof -
  have dec: "\<exists>d. DecideHost (policy r) proc host = Some d \<and> (dTunnel d \<longleftrightarrow> (\<exists>i < length groups. selects (groups ! i) proc \<and>
        \<not> DomainsAll (groups ! i) \<and> MatchesDomain (groups ! i) host))" for proc
    using scan_selected [OF DecideHost_scan [of groups internal proc host]] unfolding assms by blast
  obtain d0 where d0: "DecideHost (policy r) zeroProcess host = Some d0" "dTunnel d0 \<longleftrightarrow> (\<exists>i < length groups. selects (groups ! i) zeroProcess \<and>
        \<not> DomainsAll (groups ! i) \<and> MatchesDomain (groups ! i) host)" using dec by blast
  show ?thesis
  proof (cases "\<exists>x y. ParseAddrPort clientAddr = Some x \<and> ParseAddrPort proxyAddr = Some y")
    case False
    then show ?thesis using d0
      by (cases "ParseAddrPort clientAddr"; cases "ParseAddrPort proxyAddr")
        (auto simp: AuthorizeProxyClient_def authorizeGlobal_def proxyClient_def)
  next
    case True
    then obtain ca cp pa pp where a: "ParseAddrPort clientAddr = Some (ca, cp)" "ParseAddrPort proxyAddr = Some (pa, pp)" by auto
    define key where "key = \<lparr>kProto = 6, kLocal = Unmap ca, kRemote = Unmap pa, kLocalPort = cp, kRemotePort = pp\<rparr>"
    obtain ow where w: "WaitLookup key (flows r) (eWaits e @ [TimedOut]) = Some ow"
      using WaitLookup_timeout [of key "flows r" "eWaits e"] by blast
    then have l: "(if Lookup key (flows r) = None then WaitLookup key (flows r) (eWaits e @ [TimedOut]) else Some (Lookup key (flows r))) = Some ow"
      by (auto simp: WaitLookup_def split: option.splits)
    define own where "own = (if ow = None then ResolveSocketOwner (eTables e) (ProcessInfo (eImageName e)) key else ow)"
    have cl: "proxyClient e clientAddr proxyAddr r = (case own of None \<Rightarrow> zeroProcess | Some proc \<Rightarrow> proc)"
      by (cases ow) (simp_all add: proxyClient_def a Let_def key_def [symmetric] w own_def)
    have au: "AuthorizeProxyClient e clientAddr proxyAddr host r = (case own of
         None \<Rightarrow> authorizeGlobal host ''client-process-unresolved'' r
       | Some proc \<Rightarrow> do {
           d \<leftarrow> DecideHost (policy r) proc host;
           Some (if dTunnel d then ((True, prName proc @ ''/'' @ dGroup d), inc proxyTunnel_update r)
                 else ((False, prName proc @ ''/no-matching-group''), inc proxyDirect_update r))
         })"
      unfolding AuthorizeProxyClient_def a option.case prod.case Let_def key_def [symmetric] l Option.bind.bind_lunit own_def [symmetric] ..
    show ?thesis
    proof (cases own)
      case None
      then show ?thesis using d0 unfolding au cl by (auto simp: authorizeGlobal_def)
    next
      case (Some proc)
      then show ?thesis using dec [of proc] unfolding au cl by auto
    qed
  qed
qed

theorem AuthorizeProxyClient_correct_witness:
  "\<exists>e r b reason. policy r = NewWithInternal [\<lparr>gName = ''AI'', gApps = [''*''], gDomains = [''a.org''], gNetworks = []\<rparr>] [] \<and>
     AuthorizeProxyClient e ''x'' ''y'' ''a.org'' r = Some ((b, reason), inc (if b then proxyTunnel_update else proxyDirect_update) r) \<and> b"
proof -
  fix e :: env and r0 :: Runner
  let ?g = "[\<lparr>gName = ''AI'', gApps = [''*''], gDomains = [''a.org''], gNetworks = []\<rparr>]"
  let ?r = "r0\<lparr>policy := NewWithInternal ?g []\<rparr>"
  have "AppsAll (?g ! 0) \<and> \<not> DomainsAll (?g ! 0) \<and> MatchesDomain (?g ! 0) ''a.org''" by code_simp
  then have "\<exists>i < length ?g. selects (?g ! i) q \<and> \<not> DomainsAll (?g ! i) \<and> MatchesDomain (?g ! i) ''a.org''" for q
    by (auto simp: selects_def)
  moreover have "policy ?r = NewWithInternal ?g []" by simp
  ultimately show ?thesis using AuthorizeProxyClient_correct [of ?r ?g "[]" e "''x''" "''y''" "''a.org''"] by blast
qed

end
