(* ===== verification/Browser_Pac.thy ===== *)
theory Browser_Pac
  imports Proxy_Dial
begin

text \<open>
  The hostname proxy, first part (\<open>internal/browserproxy/proxy.go\<close>): the server's state, its patterns, and the PAC script
  that tells browsers which hosts to send to it. The script is produced as text; a reader for the part
  of JavaScript that it uses says what a browser makes of it.
\<close>

section \<open>Patterns and the PAC script\<close>

fun normalize_loop :: "string list \<Rightarrow> string list \<Rightarrow> string list" where
  "normalize_loop seen [] = []"
| "normalize_loop seen (x # xs) =
     (let x = ToLower (TrimSuffix (TrimSpace x) ''.'') in
      if x = [] \<or> x = ''*'' then normalize_loop seen xs
      else if x \<in> set seen then normalize_loop seen xs
      else x # normalize_loop (x # seen) xs)"

definition normalize :: "string list \<Rightarrow> string list" where
  "normalize xs = normalize_loop [] xs"

text \<open>\<open>strings.ReplaceAll\<close> of a character by a string.\<close>

definition ReplaceChar :: "string \<Rightarrow> char \<Rightarrow> string \<Rightarrow> string" where
  "ReplaceChar s a b = concat (map (\<lambda>c. if c = a then b else [c]) s)"

abbreviation quote :: char where "quote \<equiv> CHR 0x27"
abbreviation newline :: char where "newline \<equiv> CHR 0x0A"
abbreviation cr :: char where "cr \<equiv> CHR 0x0D"

definition jsQuote :: "string \<Rightarrow> string" where
  "jsQuote s = [quote] @ ReplaceChar (ReplaceChar s backslash [backslash, backslash]) quote [backslash, quote] @ [quote]"

text \<open>\<open>strings.Join\<close>.\<close>

fun Join :: "string list \<Rightarrow> string \<Rightarrow> string" where
  "Join [] sep = []"
| "Join [x] sep = x"
| "Join (x # xs) sep = x @ sep @ Join xs sep"

definition pac_cond :: "string \<Rightarrow> string" where
  "pac_cond p = (if HasPrefix p ''*.'' then ''dnsDomainIs(h, '' @ jsQuote (CHR ''.'' # drop 2 p) @ '')'' else ''h === '' @ jsQuote p)"

definition pac_head :: string where
  "pac_head = ''function FindProxyForURL(url, host) { var h=(host||'' @ [quote, quote] @ '').toLowerCase(); if (''"

definition pac_text :: "string list \<Rightarrow> string \<Rightarrow> string" where
  "pac_text patterns addr =
     (let cond = map pac_cond patterns;
          expr = (if cond \<noteq> [] then Join cond '' || '' else ''false'')
      in pac_head @ expr @ '') return '' @ [quote] @ ''PROXY '' @ addr @ [quote] @ ''; return '' @ [quote] @ ''DIRECT'' @ [quote] @ ''; }'' @ [newline])"

section \<open>Reading the script\<close>

text \<open>
  The part of JavaScript that the script uses: a literal in single quotes, the two comparisons and their
  disjunction, each read off the front of a text. \<open>dns\<close> is the browser's \<open>dnsDomainIs\<close>.
\<close>

fun js_chars :: "string \<Rightarrow> (string \<times> string) option" where
  "js_chars [] = None"
| "js_chars (c # cs) =
     (if c = quote then Some ([], cs)
      else if c = newline \<or> c = cr then None
      else if c = backslash then
        (case cs of [] \<Rightarrow> None
         | d # ds \<Rightarrow> if d = quote \<or> d = backslash then map_option (\<lambda>(s, r). (d # s, r)) (js_chars ds) else None)
      else map_option (\<lambda>(s, r). (c # s, r)) (js_chars cs))"

definition js_skip :: "string \<Rightarrow> string \<Rightarrow> string option" where
  "js_skip p s = (if HasPrefix s p then Some (drop (length p) s) else None)"

definition js_literal :: "string \<Rightarrow> (string \<times> string) option" where
  "js_literal s = Option.bind (js_skip [quote] s) js_chars"

definition js_atom :: "(string \<Rightarrow> string \<Rightarrow> bool) \<Rightarrow> string \<Rightarrow> string \<Rightarrow> (bool \<times> string) option" where
  "js_atom dns h s =
     (if HasPrefix s ''false'' then Some (False, drop 5 s)
      else if HasPrefix s ''h === '' then do {
        (x, r) \<leftarrow> js_literal (drop 6 s);
        Some (h = x, r)
      } else do {
        s \<leftarrow> js_skip ''dnsDomainIs(h, '' s;
        (x, r) \<leftarrow> js_literal s;
        r \<leftarrow> js_skip '')'' r;
        Some (dns h x, r)
      })"

fun js_or :: "nat \<Rightarrow> (string \<Rightarrow> string \<Rightarrow> bool) \<Rightarrow> string \<Rightarrow> string \<Rightarrow> (bool \<times> string) option" where
  "js_or 0 dns h s = None"
| "js_or (Suc n) dns h s = do {
     (b, r) \<leftarrow> js_atom dns h s;
     (if HasPrefix r '' || '' then do {
        (b', r) \<leftarrow> js_or n dns h (drop 4 r);
        Some (b \<or> b', r)
      } else Some (b, r))
   }"

text \<open>The value of \<open>FindProxyForURL\<close> for a host.\<close>

definition run_pac :: "(string \<Rightarrow> string \<Rightarrow> bool) \<Rightarrow> string \<Rightarrow> string \<Rightarrow> string option" where
  "run_pac dns script host = do {
     s \<leftarrow> js_skip pac_head script;
     (b, s) \<leftarrow> js_or (length script) dns (ToLower host) s;
     s \<leftarrow> js_skip '') return '' s;
     (yes, s) \<leftarrow> js_literal s;
     s \<leftarrow> js_skip ''; return '' s;
     (no, s) \<leftarrow> js_literal s;
     s \<leftarrow> js_skip (''; }'' @ [newline]) s;
     if s = [] then Some (if b then yes else no) else None
   }"

definition one_line :: "string \<Rightarrow> bool" where
  "one_line s \<longleftrightarrow> newline \<notin> set s \<and> cr \<notin> set s"

lemma js_skip_append [simp]: "js_skip p (p @ s) = Some s"
  by (simp add: js_skip_def HasPrefix_def)

lemma js_chars_quoted:
  "one_line s \<Longrightarrow>
   js_chars (ReplaceChar (ReplaceChar s backslash [backslash, backslash]) quote [backslash, quote] @ quote # r) = Some (s, r)"
  by (induction s) (auto simp: ReplaceChar_def one_line_def)

lemma js_literal_jsQuote [simp]: "one_line s \<Longrightarrow> js_literal (jsQuote s @ r) = Some (s, r)"
  using js_chars_quoted [of s r] by (simp add: js_literal_def jsQuote_def js_skip_def HasPrefix_def)

lemma js_literal_plain:
  assumes "one_line s" "quote \<notin> set s" "backslash \<notin> set s"
  shows "js_literal (quote # s @ quote # r) = Some (s, r)"
proof -
  have "js_chars (s @ quote # r) = Some (s, r)" using assms by (induction s) (auto simp: one_line_def)
  then show ?thesis by (simp add: js_literal_def js_skip_def HasPrefix_def)
qed

definition pac_match :: "(string \<Rightarrow> string \<Rightarrow> bool) \<Rightarrow> string \<Rightarrow> string \<Rightarrow> bool" where
  "pac_match dns h p = (if HasPrefix p ''*.'' then dns h (CHR ''.'' # drop 2 p) else h = p)"

lemma js_atom_cond: "one_line p \<Longrightarrow> js_atom dns h (pac_cond p @ r) = Some (pac_match dns h p, r)"
proof (cases "HasPrefix p ''*.''")
  case True
  assume "one_line p"
  then have "one_line (CHR ''.'' # drop 2 p)" using in_set_dropD by (fastforce simp: one_line_def)
  then show ?thesis using True js_skip_append [of "''dnsDomainIs(h, ''"]
    by (simp add: js_atom_def pac_cond_def pac_match_def) (simp add: HasPrefix_def js_skip_def)
next
  case False
  assume "one_line p"
  then show ?thesis using False by (simp add: js_atom_def pac_cond_def pac_match_def HasPrefix_def)
qed

lemma js_or_Join:
  assumes "ps \<noteq> []" "\<forall>p \<in> set ps. one_line p" "length ps \<le> n" "\<not> HasPrefix r '' || ''"
  shows "js_or n dns h (Join (map pac_cond ps) '' || '' @ r) = Some (list_ex (pac_match dns h) ps, r)"
  using assms(1-3)
proof (induction ps arbitrary: n)
  case (Cons p ps)
  then obtain m where n: "n = Suc m" by (cases n) auto
  show ?case
  proof (cases ps)
    case Nil
    then show ?thesis using Cons.prems assms(4) by (simp add: n js_atom_cond)
  next
    case (Cons q qs)
    have ih: "js_or m dns h (Join (map pac_cond ps) '' || '' @ r) = Some (list_ex (pac_match dns h) ps, r)"
      using Cons.IH Cons.prems Cons n by simp
    have "Join (map pac_cond (p # ps)) '' || '' @ r = pac_cond p @ '' || '' @ Join (map pac_cond ps) '' || '' @ r" by (simp add: Cons)
    then show ?thesis using Cons.prems ih by (simp add: n js_atom_cond HasPrefix_def)
  qed
qed simp

section \<open>The server\<close>

type_synonym 'w authorizeFunc = "string \<Rightarrow> string \<Rightarrow> string \<Rightarrow> 'w \<Rightarrow> ((bool \<times> string) \<times> 'w) go"
type_synonym ('w, 'c, 'e) dialFunc = "string \<Rightarrow> string \<Rightarrow> bool \<Rightarrow> 'w \<Rightarrow> ('e + 'c) \<times> 'w"

record limitedLogState =
  lsLast :: "int option"
  lsSuppressed :: u64

record ('w, 'c, 'e) Server =
  sAddr :: string
  sPatterns :: "string list"
  sAuthorize :: "'w authorizeFunc option"
  sDial :: "('w, 'c, 'e) dialFunc"
  sLogf :: bool
  sLogState :: "string \<rightharpoonup> limitedLogState"
  sClosed :: bool

definition StartProxy :: "('le + string) \<Rightarrow> string list \<Rightarrow> 'w authorizeFunc option \<Rightarrow> ('w, 'c, 'e) dialFunc option \<Rightarrow>
    (string \<Rightarrow> string \<Rightarrow> 'w \<Rightarrow> ('e + 'c) \<times> 'w) \<Rightarrow> bool \<Rightarrow> 'le + ('w, 'c, 'e) Server" where
  "StartProxy listen patterns authorize dial dialer logf =
     (case listen of Inl err \<Rightarrow> Inl err
      | Inr addr \<Rightarrow>
          let dial = (case dial of None \<Rightarrow> (\<lambda>network address tunnel. dialer network address) | Some d \<Rightarrow> d) in
          Inr \<lparr>sAddr = addr, sPatterns = normalize patterns, sAuthorize = authorize, sDial = dial, sLogf = logf,
            sLogState = Map.empty, sClosed = False\<rparr>)"

definition PACURL :: "('w, 'c, 'e) Server \<Rightarrow> string" where
  "PACURL s = ''http://'' @ sAddr s @ ''/proxy.pac''"

definition PAC :: "('w, 'c, 'e) Server \<Rightarrow> string" where
  "PAC s = pac_text (sPatterns s) (sAddr s)"

definition CloseProxy :: "'se option \<Rightarrow> ('w, 'c, 'e) Server \<Rightarrow> 'se option \<times> ('w, 'c, 'e) Server" where
  "CloseProxy shutdown s = (if sClosed s then (None, s) else (shutdown, s\<lparr>sClosed := True\<rparr>))"

definition matchesHost :: "('w, 'c, 'e) Server \<Rightarrow> string \<Rightarrow> bool" where
  "matchesHost s host = list_ex (\<lambda>p. MatchDomainPattern p host) (sPatterns s)"

text \<open>A pattern as the configuration admits it; a host name as a browser writes it.\<close>

definition plain_pattern :: "string \<Rightarrow> bool" where
  "plain_pattern p \<longleftrightarrow> validateDomainPattern p \<and> TrimSpace p = p \<and> one_line p"

definition plain_host :: "string \<Rightarrow> bool" where
  "plain_host h \<longleftrightarrow> TrimSpace h = h \<and> \<not> HasSuffix h ''.''"

definition plain_addr :: "string \<Rightarrow> bool" where
  "plain_addr a \<longleftrightarrow> list_all (\<lambda>c. is_digit c \<or> c = CHR ''.'' \<or> c = CHR '':'') a"

lemma normalize_sound: "p \<in> set (normalize_loop seen ps) \<Longrightarrow> p \<noteq> ''*'' \<and> p \<noteq> [] \<and> (\<exists>q \<in> set ps. p = ToLower (TrimSuffix (TrimSpace q) ''.''))"
  by (induction seen ps rule: normalize_loop.induct) (auto simp: Let_def split: if_splits)

lemma TrimSuffix_id: "\<not> HasSuffix p x \<Longrightarrow> TrimSuffix p x = p"
  by (simp add: TrimSuffix_def)

lemma HasSuffix_dot: "HasSuffix s ''.'' \<longleftrightarrow> s \<noteq> [] \<and> last s = CHR ''.''"
  by (cases s rule: rev_cases) (auto simp: HasSuffix_def)

lemma plain_pattern_dot:
  assumes "plain_pattern p"
  shows "\<not> HasSuffix p ''.''"
proof (cases "p = ''*'' \<or> \<not> HasPrefix p ''*.''")
  case True
  then show ?thesis using assms
    by (auto simp: plain_pattern_def validateDomainPattern_def TrimPrefix_def Let_def HasSuffix_def split: if_splits)
next
  case False
  then obtain b where p: "p = ''*.'' @ b" "b \<noteq> []" "\<not> HasSuffix b ''.''"
    using assms by (auto simp: plain_pattern_def validateDomainPattern_def TrimPrefix_def Let_def HasPrefix_iff split: if_splits)
  then show ?thesis by (simp add: HasSuffix_dot)
qed

lemma plain_pattern_normal: "plain_pattern p \<Longrightarrow> ToLower (TrimSuffix (TrimSpace p) ''.'') = ToLower p"
  using plain_pattern_dot [of p] by (simp add: plain_pattern_def TrimSuffix_id)

lemma lower_control: "of_char d < (65 :: nat) \<Longrightarrow> lower_char c = d \<longleftrightarrow> c = d"
proof
  assume d: "of_char d < (65 :: nat)" and a: "lower_char c = d"
  then have "of_char (lower_char c) < (65 :: nat)" by simp
  then have "lower_char c = c" by (auto simp: lower_char_def Let_def split: if_splits)
  with a show "c = d" by simp
qed (simp add: lower_char_def Let_def)

lemma lower_star: "lower_char c = CHR ''*'' \<longleftrightarrow> c = CHR ''*''"
  by (rule lower_control) simp

lemma one_line_small: "of_char newline < (65 :: nat)" "of_char cr < (65 :: nat)"
  by simp_all

lemma one_line_ToLower: "one_line q \<Longrightarrow> one_line (ToLower q)"
  unfolding one_line_def ToLower_def set_map image_iff
  using lower_control [OF one_line_small(1)] lower_control [OF one_line_small(2)] by metis

lemma pattern_selects:
  assumes p: "plain_pattern p" and h: "plain_host h" and dns: "\<And>x y. dns x y \<longleftrightarrow> HasSuffix x y" and star: "p \<noteq> ''*''"
  shows "pac_match dns (ToLower h) (ToLower p) = MatchDomainPattern p h"
proof -
  have p': "ToLower (TrimSuffix (TrimSpace p) ''.'') = ToLower p" by (rule plain_pattern_normal [OF p])
  have h': "ToLower (TrimSuffix (TrimSpace h) ''.'') = ToLower h" using h by (simp add: plain_host_def TrimSuffix_id)
  have "ToLower p \<noteq> ''*''" using star by (auto simp: ToLower_def lower_star)
  moreover have "HasSuffix (ToLower h) (CHR ''.'' # b) \<Longrightarrow> ToLower h \<noteq> b" for b by (auto simp: HasSuffix_def)
  ultimately show ?thesis by (auto simp: MatchDomainPattern_def p' h' Let_def pac_match_def dns)
qed

lemma normalize_complete:
  "q \<in> set ps \<Longrightarrow> x = ToLower (TrimSuffix (TrimSpace q) ''.'') \<Longrightarrow> x \<noteq> [] \<Longrightarrow> x \<noteq> ''*'' \<Longrightarrow> x \<in> set seen \<or> x \<in> set (normalize_loop seen ps)"
  by (induction seen ps rule: normalize_loop.induct) (auto simp: Let_def split: if_splits)

lemma plain_pattern_normalized:
  assumes "p \<in> set (normalize ps)" "\<forall>p \<in> set ps. plain_pattern p"
  obtains q where "q \<in> set ps" "plain_pattern q" "p = ToLower q" "q \<noteq> ''*''" "one_line p" "MatchDomainPattern p h = MatchDomainPattern q h"
proof -
  obtain q where q: "q \<in> set ps" "plain_pattern q" "p = ToLower q" "p \<noteq> ''*''"
    using normalize_sound [of p "[]" ps] assms plain_pattern_normal by (auto simp: normalize_def)
  have "one_line p" using q(2) by (simp add: q(3) plain_pattern_def one_line_ToLower)
  moreover have "q \<noteq> ''*''" using q(3,4) by (auto simp: ToLower_def lower_char_def)
  ultimately show thesis using that q MatchDomainPattern_lower by blast
qed

lemma plain_addr_chars: "plain_addr a \<Longrightarrow> one_line a \<and> quote \<notin> set a \<and> backslash \<notin> set a"
  by (auto simp: plain_addr_def one_line_def list_all_iff is_digit_def)

lemma run_pac_text:
  assumes "\<forall>p \<in> set ps. one_line p" "plain_addr a"
  shows "run_pac dns (pac_text ps a) host =
    Some (if list_ex (pac_match dns (ToLower host)) ps then ''PROXY '' @ a else ''DIRECT'')"
proof -
  define tail1 where "tail1 = quote # ''DIRECT'' @ quote # ''; }'' @ [newline]"
  define tail where "tail = '') return '' @ quote # (''PROXY '' @ a) @ quote # ''; return '' @ tail1"
  define expr where "expr = (if ps \<noteq> [] then Join (map pac_cond ps) '' || '' else ''false'')"
  have txt0: "pac_text ps a = pac_head @ expr @ tail" by (simp add: pac_text_def Let_def expr_def tail_def tail1_def)
  have len: "length ps \<le> length (pac_text ps a)"
  proof -
    have "length ps \<le> length (Join (map pac_cond ps) '' || '')"
    proof (induction ps)
      case (Cons p ps)
      have "pac_cond p \<noteq> []" by (simp add: pac_cond_def)
      then have "1 \<le> length (pac_cond p)" by (simp add: Suc_leI)
      with Cons show ?case by (cases ps) auto
    qed simp
    then show ?thesis by (cases "ps = []") (simp_all add: txt0 expr_def)
  qed
  have sep: "\<not> HasPrefix tail '' || ''" by (simp add: tail_def HasPrefix_def)
  have disj: "js_or (length (pac_text ps a)) dns (ToLower host) (expr @ tail) = Some (list_ex (pac_match dns (ToLower host)) ps, tail)"
  proof (cases "ps = []")
    case True
    have "length (pac_text ps a) = Suc (length (pac_text ps a) - 1)" by (simp add: txt0 pac_head_def)
    then obtain n where "length (pac_text ps a) = Suc n" by blast
    moreover have "js_atom dns (ToLower host) (''false'' @ tail) = Some (False, tail)" by (simp add: js_atom_def HasPrefix_def)
    ultimately show ?thesis using True sep by (simp add: expr_def)
  next
    case False
    then show ?thesis using js_or_Join [OF False assms(1) len sep] by (simp add: expr_def)
  qed
  have yes: "js_literal (quote # (''PROXY '' @ a) @ quote # ''; return '' @ tail1) = Some (''PROXY '' @ a, ''; return '' @ tail1)"
    using plain_addr_chars [OF assms(2)] by (intro js_literal_plain) (auto simp: one_line_def)
  have no: "js_literal tail1 = Some (''DIRECT'', ''; }'' @ [newline])"
    unfolding tail1_def by (rule js_literal_plain) (auto simp: one_line_def)
  have "js_skip (''; }'' @ [newline]) (''; }'' @ [newline]) = Some []" using js_skip_append [of "''; }'' @ [newline]" "[]"] by simp
  moreover have "js_skip '') return '' tail = Some (quote # (''PROXY '' @ a) @ quote # ''; return '' @ tail1)"
    unfolding tail_def by (rule js_skip_append)
  moreover have "js_skip pac_head (pac_text ps a) = Some (expr @ tail)" unfolding txt0 by (rule js_skip_append)
  ultimately show ?thesis unfolding run_pac_def
    using yes no by (simp only: disj Option.bind.bind_lunit prod.case js_skip_append simp_thms if_True)
qed

text \<open>The script sends to the proxy the hosts that the proxy accepts.\<close>

lemma PAC_selects_accepted_hosts:
  assumes "StartProxy (Inr addr) patterns authorize dial dialer logf = Inr s"
    "\<forall>p \<in> set patterns. plain_pattern p" "plain_addr addr" "plain_host host"
    "\<And>x y. dnsDomainIs x y \<longleftrightarrow> HasSuffix x y"
  shows "run_pac dnsDomainIs (PAC s) host = Some (if matchesHost s host then ''PROXY '' @ addr else ''DIRECT'') \<and>
    (matchesHost s host \<longleftrightarrow> (\<exists>p \<in> set patterns. p \<noteq> ''*'' \<and> MatchDomainPattern p host))"
proof -
  have s: "sAddr s = addr" "sPatterns s = normalize patterns" using assms(1) by (auto simp: StartProxy_def Let_def)
  have nl: "\<forall>p \<in> set (normalize patterns). one_line p" using plain_pattern_normalized [OF _ assms(2)] by blast
  have m: "pac_match dnsDomainIs (ToLower host) p = MatchDomainPattern p host" if "p \<in> set (normalize patterns)" for p
    using plain_pattern_normalized [OF that assms(2), of host] pattern_selects [OF _ assms(4,5)] by metis
  have "(\<exists>p \<in> set (normalize patterns). MatchDomainPattern p host) \<longleftrightarrow> (\<exists>p \<in> set patterns. p \<noteq> ''*'' \<and> MatchDomainPattern p host)"
  proof
    assume "\<exists>p \<in> set (normalize patterns). MatchDomainPattern p host"
    then show "\<exists>p \<in> set patterns. p \<noteq> ''*'' \<and> MatchDomainPattern p host"
      using plain_pattern_normalized [OF _ assms(2), of _ host] by metis
  next
    assume "\<exists>p \<in> set patterns. p \<noteq> ''*'' \<and> MatchDomainPattern p host"
    then obtain p where p: "p \<in> set patterns" "p \<noteq> ''*''" "MatchDomainPattern p host" by blast
    have n: "ToLower (TrimSuffix (TrimSpace p) ''.'') = ToLower p" using plain_pattern_normal assms(2) p(1) by blast
    have "ToLower p \<noteq> ''*''" "ToLower p \<noteq> []" using p(1,2) assms(2)
      by (auto simp: ToLower_def lower_star plain_pattern_def validateDomainPattern_def TrimPrefix_def HasPrefix_def)
    then have "ToLower p \<in> set (normalize patterns)" using normalize_complete [OF p(1) n [symmetric], of "[]"] by (simp add: normalize_def)
    then show "\<exists>p \<in> set (normalize patterns). MatchDomainPattern p host" using p(3) MatchDomainPattern_lower by blast
  qed
  moreover have "list_ex (pac_match dnsDomainIs (ToLower host)) (normalize patterns) \<longleftrightarrow> matchesHost s host"
    using m by (auto simp: matchesHost_def s list_ex_iff)
  ultimately show ?thesis
    using run_pac_text [OF nl assms(3), of dnsDomainIs host] by (simp add: PAC_def s matchesHost_def list_ex_iff)
qed

lemma ProxyDomainPatterns_mem: "p \<in> set (ProxyDomainPatterns c) \<Longrightarrow> \<exists>g \<in> set (cGroups c). p \<in> set (gDomains g)"
  using proxy_patterns_props(1) [of p "[]" "concat (map gDomains (cGroups c))"] by (auto simp: ProxyDomainPatterns_def)



end
