(* ===== verification/Browser_Proxy.thy ===== *)
theory Browser_Proxy
  imports Browser_Pac
begin

text \<open>
  The hostname proxy, second part (\<open>internal/browserproxy/proxy.go\<close>): the HTTP handlers, their targets and routes, and the
  log with a limited rate. A handler returns the events it causes in order (connections opened and closed,
  answers, log lines), the server with its log state, and the state of the world that authorization
  and dialling act on; with the engine's operations this is the engine's \<open>Runner\<close>. What the HTTP library does
  outside the handlers (listening, reading requests, writing answers, the exchange with an
  upstream server) is given by the environment record. \<open>ProbePAC\<close> is used by the tests only.
\<close>

section \<open>Requests\<close>

record URL =
  uScheme :: string
  uHost :: string
  uPath :: string

record request =
  rqMethod :: string
  rqURL :: URL
  rqHost :: string
  rqRemoteAddr :: string
  rqHeader :: "string \<rightharpoonup> string list"

record response =
  rsStatusCode :: nat
  rsHeader :: "(string \<times> string list) list"
  rsBody :: bytes

text \<open>\<open>net.JoinHostPort\<close>, \<open>strings.Trim(s, "[]")\<close>, and \<open>URL.Hostname\<close> with \<open>URL.Port\<close>.\<close>

definition JoinHostPort :: "string \<Rightarrow> string \<Rightarrow> string" where
  "JoinHostPort host port = (if CHR '':'' \<in> set host then ''['' @ host @ '']:'' @ port else host @ '':'' @ port)"

definition TrimBrackets :: "string \<Rightarrow> string" where
  "TrimBrackets s = rev (dropWhile (\<lambda>c. c \<in> {CHR ''['', CHR '']''}) (rev (dropWhile (\<lambda>c. c \<in> {CHR ''['', CHR '']''}) s)))"

definition urlHostPort :: "string \<Rightarrow> string \<times> string" where
  "urlHostPort hostPort =
     (let (host, port) = (case lastColon hostPort of
            Some (a, b) \<Rightarrow> if list_all is_digit b then (a, b) else (hostPort, [])
          | None \<Rightarrow> (hostPort, []))
      in (if HasPrefix host ''['' \<and> HasSuffix host '']'' then butlast (tl host) else host, port))"

datatype targetErr = EmptyTarget | MalformedTarget | BadPort string

definition splitTarget :: "string \<Rightarrow> string \<Rightarrow> targetErr + (string \<times> string)" where
  "splitTarget authority defaultPort =
     (let authority = TrimSpace authority in
      if authority = [] then Inl EmptyTarget
      else
        let hp = SplitHostPort authority in
        if hp = None \<and> count_list authority (CHR '':'') > 1 then Inl MalformedTarget
        else
          let (h, p) = (case hp of Some hp \<Rightarrow> hp | None \<Rightarrow> (authority, defaultPort));
              p = (if p = [] then defaultPort else p)
          in if Atoi p = None then Inl (BadPort p)
             else Inr (TrimBrackets h, JoinHostPort (TrimBrackets h) p))"

definition route :: "('w, 'c, 'e) Server \<Rightarrow> string \<Rightarrow> string \<Rightarrow> 'w \<Rightarrow> ((bool \<times> string) \<times> 'w) go" where
  "route s clientAddr host w =
     (case sAuthorize s of None \<Rightarrow> Some ((True, ''default''), w)
      | Some authorize \<Rightarrow> authorize clientAddr (sAddr s) host w)"

section \<open>Limited logging\<close>

datatype 'e logArg = AStr string | ABool bool | AErr 'e | ANum u64 | AInt nat

text \<open>\<open>Some n\<close>: the message is written and reports \<open>n\<close> suppressed ones.\<close>

definition limit :: "string \<Rightarrow> int \<Rightarrow> int \<Rightarrow> ('w, 'c, 'e) Server \<Rightarrow> u64 option \<times> ('w, 'c, 'e) Server" where
  "limit key interval now s =
     (if \<not> sLogf s then (None, s)
      else
        let st = (case sLogState s key of None \<Rightarrow> \<lparr>lsLast = None, lsSuppressed = 0\<rparr> | Some st \<Rightarrow> st) in
        if (case lsLast st of None \<Rightarrow> False | Some prev \<Rightarrow> now - prev < interval)
        then (None, s\<lparr>sLogState := (sLogState s)(key \<mapsto> st\<lparr>lsSuppressed := lsSuppressed st + 1\<rparr>)\<rparr>)
        else (Some (lsSuppressed st), s\<lparr>sLogState := (sLogState s)(key \<mapsto> \<lparr>lsLast = Some now, lsSuppressed = 0\<rparr>)\<rparr>))"

datatype ('c, 'e) proxyEvent =
    Dial string string bool
  | HTTPError string nat
  | SendPAC string
  | CloseUpstream 'c
  | CloseClient
  | Established
  | StartBridge string 'c
  | Respond nat "(string \<times> string) list" bytes
  | LogLine string "'e logArg list"

definition logLimited :: "string \<Rightarrow> int \<Rightarrow> int \<Rightarrow> string \<Rightarrow> 'e logArg list \<Rightarrow> ('w, 'c, 'e) Server \<Rightarrow> ('c, 'e) proxyEvent list \<times> ('w, 'c, 'e) Server" where
  "logLimited key interval now f a s =
     (case limit key interval now s of
        (None, s) \<Rightarrow> ([], s)
      | (Some n, s) \<Rightarrow>
          if n > 0 then ([LogLine (f @ '' (suppressed %d identical messages)'') (a @ [ANum n])], s)
          else ([LogLine f a], s))"

section \<open>The handlers\<close>

text \<open>
  What the handlers take from outside: the time, the text of an error, the client connection that is taken
  over (whether it can be, whether it succeeds, whether the answer can be written), the conversion
  of names that are not ASCII, errors of the HTTP client and its exchange on a connection.
\<close>

record ('w, 'c, 'e) proxyEnv =
  peNow :: int
  peText :: "'e \<Rightarrow> string"
  peHijacker :: bool
  peHijacked :: bool
  peWritten :: bool
  peIdna :: "string \<Rightarrow> string option"
  peClientErr :: "string \<Rightarrow> 'e"
  peExchange :: "'c \<Rightarrow> request \<Rightarrow> 'w \<Rightarrow> ('e + response) \<times> 'w"

abbreviation refusal :: "('c, 'e) proxyEvent" where
  "refusal \<equiv> HTTPError ''SplitWire proxy only accepts configured domains'' 403"

definition handleConnect :: "('w, 'c, 'e) proxyEnv \<Rightarrow> request \<Rightarrow> ('w, 'c, 'e) Server \<Rightarrow> 'w \<Rightarrow>
    (('c, 'e) proxyEvent list \<times> ('w, 'c, 'e) Server \<times> 'w) go" where
  "handleConnect e r s w =
     (case splitTarget (rqHost r) ''443'' of
        Inl _ \<Rightarrow> Some ([refusal], s, w)
      | Inr (host, target) \<Rightarrow>
          if \<not> matchesHost s host then Some ([refusal], s, w)
          else do {
            ((tunnel, reason), w) \<leftarrow> route s (rqRemoteAddr r) host w;
            let (res, w) = sDial s ''tcp'' target tunnel w;
            (case res of
               Inl err \<Rightarrow>
                 let (ls, s) = logLimited (''connect-error|'' @ target @ ''|'' @ reason @ ''|'' @ peText e err) (5 * second) (peNow e)
                       ''hostname proxy connect %s route=%v (%s): %v'' [AStr target, ABool tunnel, AStr reason, AErr err] s
                 in Some (Dial ''tcp'' target tunnel # ls @ [HTTPError ''upstream connect failed'' 502], s, w)
             | Inr up \<Rightarrow>
                 let (ls, s) = logLimited (''connect-ok|'' @ host @ ''|'' @ reason) (30 * second) (peNow e)
                       ''hostname proxy %s client=%s route=%s (%s)''
                       [AStr host, AStr (rqRemoteAddr r), AStr (if tunnel then ''WireGuard'' else ''DIRECT''), AStr reason] s;
                     pre = Dial ''tcp'' target tunnel # ls
                 in if \<not> peHijacker e then Some (pre @ [CloseUpstream up, HTTPError ''hijacking unsupported'' 500], s, w)
                    else if \<not> peHijacked e then Some (pre @ [CloseUpstream up], s, w)
                    else if \<not> peWritten e then Some (pre @ [CloseClient, CloseUpstream up], s, w)
                    else Some (pre @ [Established, StartBridge host up], s, w))
          })"

text \<open>The part of \<open>http.Transport\<close> that decides where a request goes.\<close>

definition idnaHost :: "('w, 'c, 'e) proxyEnv \<Rightarrow> string \<Rightarrow> string" where
  "idnaHost e h = (if list_all (\<lambda>c. (of_char c :: nat) < 128) h then h else case peIdna e h of Some x \<Rightarrow> x | None \<Rightarrow> h)"

definition canonicalAddr :: "('w, 'c, 'e) proxyEnv \<Rightarrow> URL \<Rightarrow> string" where
  "canonicalAddr e u =
     (let (host, port) = urlHostPort (uHost u);
          port = (if port \<noteq> [] then port else if uScheme u = ''https'' then ''443'' else ''80'')
      in JoinHostPort (idnaHost e host) port)"

definition RoundTrip :: "('w, 'c, 'e) proxyEnv \<Rightarrow> ('w, 'c, 'e) dialFunc \<Rightarrow> bool \<Rightarrow> request \<Rightarrow> 'w \<Rightarrow>
    (('c, 'e) proxyEvent list \<times> ('e + response)) \<times> 'w" where
  "RoundTrip e dial tunnel out w =
     (let u = rqURL out in
      if uScheme u \<notin> {''http'', ''https''} then (([], Inl (peClientErr e ''unsupported protocol scheme'')), w)
      else if uHost u = [] then (([], Inl (peClientErr e ''http: no Host in request URL'')), w)
      else
        let (res, w) = dial ''tcp'' (canonicalAddr e u) tunnel w;
            ev = [Dial ''tcp'' (canonicalAddr e u) tunnel]
        in case res of
             Inl err \<Rightarrow> ((ev, Inl err), w)
           | Inr conn \<Rightarrow> (let (x, w) = peExchange e conn out w in ((ev, x), w)))"

definition handleHTTP :: "('w, 'c, 'e) proxyEnv \<Rightarrow> request \<Rightarrow> ('w, 'c, 'e) Server \<Rightarrow> 'w \<Rightarrow>
    (('c, 'e) proxyEvent list \<times> ('w, 'c, 'e) Server \<times> 'w) go" where
  "handleHTTP e r s w =
     (let host = fst (urlHostPort (uHost (rqURL r)));
          host = (if host = [] then hd (Split (rqHost r) (CHR '':'')) else host)
      in if \<not> matchesHost s host then Some ([refusal], s, w)
         else do {
           ((tunnel, reason), w) \<leftarrow> route s (rqRemoteAddr r) host w;
           let u = rqURL r;
           let u = (if uScheme u = [] then u\<lparr>uScheme := ''http''\<rparr> else u);
           let u = (if uHost u = [] then u\<lparr>uHost := rqHost r\<rparr> else u);
           let out = r\<lparr>rqURL := u, rqHeader := (rqHeader r)(''Proxy-Connection'' := None)\<rparr>;
           let ((evs, res), w) = RoundTrip e (sDial s) tunnel out w;
           (case res of
              Inl err \<Rightarrow>
                let (ls, s) = logLimited (''http-error|'' @ host @ ''|'' @ reason @ ''|'' @ peText e err) (5 * second) (peNow e)
                      ''hostname HTTP proxy %s route=%v (%s): %v'' [AStr host, ABool tunnel, AStr reason, AErr err] s
                in Some (evs @ ls @ [HTTPError ''upstream request failed'' 502], s, w)
            | Inr resp \<Rightarrow>
                Some (evs @ [Respond (rsStatusCode resp) (concat (map (\<lambda>(k, vv). map (\<lambda>v. (k, v)) vv) (rsHeader resp))) (rsBody resp)], s, w))
         })"

definition ServeHTTP :: "('w, 'c, 'e) proxyEnv \<Rightarrow> request \<Rightarrow> ('w, 'c, 'e) Server \<Rightarrow> 'w \<Rightarrow>
    (('c, 'e) proxyEvent list \<times> ('w, 'c, 'e) Server \<times> 'w) go" where
  "ServeHTTP e r s w =
     (if rqMethod r = ''GET'' \<and> (uPath (rqURL r) = ''/proxy.pac'' \<or> uPath (rqURL r) = ''/wpad.dat'') then Some ([SendPAC (PAC s)], s, w)
      else if rqMethod r = ''CONNECT'' then handleConnect e r s w
      else handleHTTP e r s w)"

lemma logLimited_no_dial: "logLimited key i n f x s = (ls, s') \<Longrightarrow> Dial a b c \<in> set ls \<Longrightarrow> False"
  by (auto simp: logLimited_def split: option.splits prod.splits if_splits)


text \<open>An authority without brackets, with at most one colon, before a number.\<close>

definition plain_authority :: "string \<Rightarrow> bool" where
  "plain_authority a \<longleftrightarrow> CHR ''['' \<notin> set a \<and>
     (case Cut a (CHR '':'') of None \<Rightarrow> True | Some (h, p) \<Rightarrow> list_all is_digit p)"

lemma lastColon_None: "CHR '':'' \<notin> set a \<Longrightarrow> lastColon a = None"
  by (simp add: lastColon_def)

lemma colon_While:
  "c \<notin> set q \<Longrightarrow> takeWhile (\<lambda>x. x \<noteq> c) (q @ c # x) = q"
  "c \<notin> set q \<Longrightarrow> dropWhile (\<lambda>x. x \<noteq> c) (q @ c # x) = c # x"
  by (induction q) auto

lemma last_While:
  assumes "c \<notin> set p"
  shows "rev (takeWhile (\<lambda>x. x \<noteq> c) (rev (h @ c # p))) = p" "rev (tl (dropWhile (\<lambda>x. x \<noteq> c) (rev (h @ c # p)))) = h"
  using colon_While [of c "rev p" "rev h"] assms by simp_all

lemma lastColon_app:
  assumes "CHR '':'' \<notin> set p"
  shows "lastColon (h @ CHR '':'' # p) = Some (h, p)"
  unfolding lastColon_def last_While [OF assms] by simp

lemma Split_hd: "hd (Split s c) = takeWhile (\<lambda>x. x \<noteq> c) s"
  by (induction s c rule: Split.induct) (auto split: list.splits simp: Split_not_Nil)

lemma plain_authority_host:
  assumes "plain_authority a"
  shows "fst (urlHostPort a) = hd (Split a (CHR '':''))"
proof (cases "Cut a (CHR '':'')")
  case None
  then have n: "CHR '':'' \<notin> set a" by (simp add: Cut_None)
  then have "takeWhile (\<lambda>x. x \<noteq> CHR '':'') a = a" by (intro takeWhile_eq_all_conv [THEN iffD2]) blast
  moreover have "\<not> HasPrefix a ''[''" using assms by (auto simp: plain_authority_def HasPrefix_iff)
  ultimately show ?thesis using lastColon_None [OF n] by (simp add: urlHostPort_def Split_hd del: takeWhile_eq_all_conv)
next
  case (Some hp)
  obtain h p where hp: "hp = (h, p)" by fastforce
  from Cut_Some [OF Some [unfolded hp]] have a: "a = h @ CHR '':'' # p" "CHR '':'' \<notin> set h" by auto
  have d: "list_all is_digit p" using assms by (simp add: plain_authority_def Some hp)
  then have "CHR '':'' \<notin> set p" by (auto simp: list_all_iff is_digit_def)
  then have "urlHostPort a = (h, p)" using d assms by (auto simp: urlHostPort_def a(1) lastColon_app plain_authority_def HasPrefix_iff)
  moreover have "takeWhile (\<lambda>x. x \<noteq> CHR '':'') a = h" unfolding a(1) by (rule colon_While(1) [OF a(2)])
  ultimately show ?thesis by (simp add: Split_hd)
qed

lemma splitTarget_target: "splitTarget a d = Inr (host, target) \<Longrightarrow> \<exists>port. target = JoinHostPort host port"
  by (auto simp: splitTarget_def Let_def split: if_splits option.splits prod.splits)

lemma handleConnect_dial:
  assumes "handleConnect e r s w = Some (evs, s', w')" "Dial net addr tunnel \<in> set evs"
  shows "\<exists>host port reason w1. matchesHost s host \<and> net = ''tcp'' \<and> addr = JoinHostPort host port \<and>
    route s (rqRemoteAddr r) host w = Some ((tunnel, reason), w1)"
proof -
  from assms obtain host target where t: "splitTarget (rqHost r) ''443'' = Inr (host, target)" "matchesHost s host"
    by (auto simp: handleConnect_def split: sum.splits if_splits)
  from assms t obtain tun reason w1 where ro: "route s (rqRemoteAddr r) host w = Some ((tun, reason), w1)"
    by (auto simp: handleConnect_def split: bind_splits)
  have "net = ''tcp'' \<and> addr = target \<and> tunnel = tun"
  proof (cases "sDial s ''tcp'' target tun w1")
    case (Pair res w2)
    show ?thesis
    proof (cases res)
      case (Inl err)
      then show ?thesis using assms t ro Pair
        by (auto simp: handleConnect_def Let_def split: prod.splits dest: logLimited_no_dial)
    next
      case (Inr up)
      then show ?thesis using assms t ro Pair
        by (auto simp: handleConnect_def Let_def split: prod.splits if_splits dest: logLimited_no_dial)
    qed
  qed
  then show ?thesis using t(2) ro splitTarget_target [OF t(1)] by auto
qed

lemma urlHostPort_Nil: "urlHostPort [] = ([], [])"
  by (simp add: urlHostPort_def lastColon_def HasPrefix_def)

lemma RoundTrip_dial:
  assumes "RoundTrip e dial tun out w = ((evs, res), w')" "Dial net addr tunnel \<in> set evs"
  shows "net = ''tcp'' \<and> addr = canonicalAddr e (rqURL out) \<and> tunnel = tun"
  using assms by (auto simp: RoundTrip_def Let_def split: prod.splits sum.splits if_splits)

lemma handleHTTP_dial:
  assumes "handleHTTP e r s w = Some (evs, s', w')" "Dial net addr tunnel \<in> set evs"
    "if uHost (rqURL r) = [] then plain_authority (rqHost r) else fst (urlHostPort (uHost (rqURL r))) \<noteq> []"
  shows "\<exists>host port reason w1. matchesHost s host \<and> net = ''tcp'' \<and> addr = JoinHostPort (idnaHost e host) port \<and>
    route s (rqRemoteAddr r) host w = Some ((tunnel, reason), w1)"
proof -
  define host where "host = (let host = fst (urlHostPort (uHost (rqURL r))) in if host = [] then hd (Split (rqHost r) (CHR '':'')) else host)"
  define u where "u = (let u = (if uScheme (rqURL r) = [] then (rqURL r)\<lparr>uScheme := ''http''\<rparr> else rqURL r) in
     if uHost u = [] then u\<lparr>uHost := rqHost r\<rparr> else u)"
  have h: "fst (urlHostPort (uHost u)) = host"
  proof (cases "uHost (rqURL r) = []")
    case True
    then show ?thesis using assms(3) by (simp add: u_def host_def Let_def urlHostPort_Nil plain_authority_host)
  next
    case False
    then show ?thesis using assms(3) by (simp add: u_def host_def Let_def)
  qed
  have m: "matchesHost s host" using assms(1,2) by (auto simp: handleHTTP_def Let_def host_def split: if_splits)
  obtain tun reason w1 where ro: "route s (rqRemoteAddr r) host w = Some ((tun, reason), w1)"
    using assms(1) m by (auto simp: handleHTTP_def Let_def host_def split: bind_splits if_splits)
  let ?out = "r\<lparr>rqURL := u, rqHeader := (rqHeader r)(''Proxy-Connection'' := None)\<rparr>"
  obtain ev res w2 where rt: "RoundTrip e (sDial s) tun ?out w1 = ((ev, res), w2)" by (metis prod.exhaust)
  have "Dial net addr tunnel \<in> set ev"
  proof -
    have "handleHTTP e r s w = (case res of
              Inl err \<Rightarrow>
                let (ls, s) = logLimited (''http-error|'' @ host @ ''|'' @ reason @ ''|'' @ peText e err) (5 * second) (peNow e)
                      ''hostname HTTP proxy %s route=%v (%s): %v'' [AStr host, ABool tun, AStr reason, AErr err] s
                in Some (ev @ ls @ [HTTPError ''upstream request failed'' 502], s, w2)
            | Inr resp \<Rightarrow>
                Some (ev @ [Respond (rsStatusCode resp) (concat (map (\<lambda>(k, vv). map (\<lambda>v. (k, v)) vv) (rsHeader resp))) (rsBody resp)], s, w2))"
      unfolding handleHTTP_def host_def [symmetric, unfolded Let_def] Let_def
      using m ro rt by (simp add: host_def [symmetric, unfolded Let_def] u_def [symmetric, unfolded Let_def])
    then show ?thesis using assms(1,2) by (auto simp: Let_def split: sum.splits prod.splits dest: logLimited_no_dial)
  qed
  from RoundTrip_dial [OF rt this] have "net = ''tcp''" "addr = canonicalAddr e u" "tunnel = tun" by simp_all
  then show ?thesis using m ro h by (auto simp: canonicalAddr_def Let_def split_def)
qed

text \<open>A request whose target is named in one way only.\<close>

definition plain_request :: "request \<Rightarrow> bool" where
  "plain_request r \<longleftrightarrow> (if uHost (rqURL r) = [] then plain_authority (rqHost r) else fst (urlHostPort (uHost (rqURL r))) \<noteq> [])"

lemma handleHTTP_returns:
  assumes "\<And>h. \<exists>x. route s (rqRemoteAddr r) h w = Some x"
  shows "handleHTTP e r s w \<noteq> None"
proof -
  define host where "host = (let host = fst (urlHostPort (uHost (rqURL r))) in if host = [] then hd (Split (rqHost r) (CHR '':'')) else host)"
  obtain x where "route s (rqRemoteAddr r) host w = Some x" using assms by blast
  then show ?thesis
    unfolding handleHTTP_def host_def [symmetric, unfolded Let_def] Let_def
    by (simp add: host_def [symmetric, unfolded Let_def] split_def split: sum.split)
qed

lemma handlers_return:
  assumes "\<And>h. route s (rqRemoteAddr r) h w \<noteq> None"
  shows "handleConnect e r s w \<noteq> None" "handleHTTP e r s w \<noteq> None"
proof -
  show "handleConnect e r s w \<noteq> None"
  proof (cases "splitTarget (rqHost r) ''443''")
    case (Inr p)
    obtain host target where p: "p = (host, target)" by fastforce
    obtain x where "route s (rqRemoteAddr r) host w = Some x" using assms by blast
    then show ?thesis by (simp add: handleConnect_def Inr p Let_def split_def split: sum.split)
  qed (simp add: handleConnect_def)
  have "\<exists>x. route s (rqRemoteAddr r) h w = Some x" for h using assms by blast
  then show "handleHTTP e r s w \<noteq> None"
    by (metis (no_types) not_None_eq handleHTTP_returns)
qed



text \<open>The upstream connection of an accepted request is closed by the handler or handed to the relay, and this once.\<close>

fun owns :: "('c, 'e) proxyEvent \<Rightarrow> bool" where
  "owns (CloseUpstream c) = True"
| "owns (StartBridge h c) = True"
| "owns _ = False"

lemma logLimited_owns: "logLimited key i n f x s = (ls, s') \<Longrightarrow> filter owns ls = []"
  by (auto simp: logLimited_def split: option.splits prod.splits if_splits)

lemma connect_owns:
  assumes "splitTarget (rqHost r) ''443'' = Inr (host, target)" "matchesHost s host"
    "route s (rqRemoteAddr r) host w = Some ((tunnel, reason), w1)" "sDial s ''tcp'' target tunnel w1 = (Inr up, w2)"
    "handleConnect e r s w = Some (evs, s', w')"
  shows "w' = w2 \<and> filter owns evs = [if peHijacker e \<and> peHijacked e \<and> peWritten e then StartBridge host up else CloseUpstream up]"
proof -
  obtain ls s1 where l: "logLimited (''connect-ok|'' @ host @ ''|'' @ reason) (30 * second) (peNow e)
      ''hostname proxy %s client=%s route=%s (%s)''
      [AStr host, AStr (rqRemoteAddr r), AStr (if tunnel then ''WireGuard'' else ''DIRECT''), AStr reason] s = (ls, s1)" by fastforce
  show ?thesis using assms(5) logLimited_owns [OF l]
    unfolding handleConnect_def assms(1) sum.case prod.case Let_def
    by (auto simp only: assms(2-4) l Let_def sum.case prod.case Option.bind.bind_lunit simp_thms if_True if_False filter_append
        filter.simps owns.simps append_Nil append_Nil2 option.inject prod.inject split: if_splits)
qed

lemma logLimited_no_bridge: "logLimited key i n f x s = (ls, s') \<Longrightarrow> StartBridge h c \<in> set ls \<Longrightarrow> False"
  by (auto simp: logLimited_def split: option.splits prod.splits if_splits)

lemma RoundTrip_no_bridge: "RoundTrip e dial tun out w = ((evs, res), w') \<Longrightarrow> StartBridge h c \<in> set evs \<Longrightarrow> False"
  by (auto simp: RoundTrip_def Let_def split: prod.splits sum.splits if_splits)

lemma handleHTTP_no_bridge: "handleHTTP e r s w = Some (evs, s', w') \<Longrightarrow> StartBridge h c \<in> set evs \<Longrightarrow> False"
  unfolding handleHTTP_def Let_def
  by (auto split: prod.splits sum.splits if_splits bind_splits dest: logLimited_no_bridge RoundTrip_no_bridge)


section \<open>The proxy with the engine\<close>

text \<open>The proxy and the engine together: a browser connection that the proxy accepts for a host and relays goes through
  the tunnel exactly if a group that selects the browser's process has a pattern for the host and is no
  catch-all group. The first packet of the upstream connection already takes this route, as does every later
  one, and the routes of the connection are gone when it is closed.\<close>

lemma connect_follows_policy:
  assumes "policy r = NewWithInternal groups internal"
    "sAuthorize s = Some (AuthorizeProxyClient e)" "sDial s = (\<lambda>net addr tunnel. DialProxy now net tunnel (at addr))"
    "\<And>a rs net n. atPort (at a rs net n) \<noteq> Some 0"
    "ServeHTTP pe rq s r = Some (evs, s', r')" "StartBridge host rc \<in> set evs"
  shows "\<exists>tunnel target. matchesHost s host \<and> Dial ''tcp'' target tunnel \<in> set evs \<and>
    (tunnel \<longleftrightarrow> (\<exists>i < length groups. selects (groups ! i) (proxyClient e (rqRemoteAddr rq) (sAddr s) r) \<and>
        \<not> DomainsAll (groups ! i) \<and> MatchesDomain (groups ! i) host)) \<and>
    (\<forall>e raw pk. IsFragment raw = Some False \<longrightarrow> Parse raw = Some (Inr pk) \<longrightarrow>
        proxyKeyFromFlow (flowKey pk) \<in> set (rcKeys rc) \<longrightarrow> routeOf e raw r' = Some tunnel) \<and>
    no_new (proxyRoutes r) (CloseConn rc (proxyRoutes r'))"
proof -
  have http: "handleHTTP pe rq s r \<noteq> Some (evs, s', r')"
    using assms(6) handleHTTP_no_bridge [of pe rq s r] by blast
  then have hc: "handleConnect pe rq s r = Some (evs, s', r')"
    using assms(5,6) by (auto simp: ServeHTTP_def split: if_splits)
  then obtain h target where t: "splitTarget (rqHost rq) ''443'' = Inr (h, target)" "matchesHost s h"
    using assms(6) by (auto simp: handleConnect_def split: sum.splits if_splits)
  from AuthorizeProxyClient_correct [OF assms(1), of e "rqRemoteAddr rq" "sAddr s" h] obtain tunnel reason where
    au: "route s (rqRemoteAddr rq) h r = Some ((tunnel, reason), inc (if tunnel then proxyTunnel_update else proxyDirect_update) r)"
    and pol: "tunnel \<longleftrightarrow> (\<exists>i < length groups. selects (groups ! i) (proxyClient e (rqRemoteAddr rq) (sAddr s) r) \<and>
        \<not> DomainsAll (groups ! i) \<and> MatchesDomain (groups ! i) h)"
    by (auto simp: route_def assms(2))
  let ?r1 = "inc (if tunnel then proxyTunnel_update else proxyDirect_update) r"
  obtain res r2 where d: "DialProxy now ''tcp'' tunnel (at target) ?r1 = (res, r2)" by fastforce
  have "\<exists>up. res = Inr up"
  proof (cases res)
    case (Inl err)
    then show ?thesis using hc t au d assms(6) by (auto simp: handleConnect_def Let_def assms(3) split: prod.splits dest: logLimited_no_bridge)
  qed blast
  then obtain up where up: "res = Inr up" ..
  have "sDial s ''tcp'' target tunnel ?r1 = (Inr up, r2)" using d by (simp add: assms(3) up)
  note own = connect_owns [OF t au this hc]
  have "StartBridge host rc \<in> set (filter owns evs)" using assms(6) by simp
  then have hu: "h = host" "up = rc" "r' = r2" using own by (auto split: if_splits)
  have px: "proxyRoutes ?r1 = proxyRoutes r" by (cases tunnel) (simp_all add: inc_def)
  have "Dial ''tcp'' target tunnel \<in> set evs"
    using hc t au \<open>sDial s ''tcp'' target tunnel ?r1 = (Inr up, r2)\<close> by (auto simp: handleConnect_def Let_def split: prod.splits if_splits)
  moreover from DialProxy_dialled [where at = "at target" and now = now and network = "''tcp''" and tunnel = tunnel and r = ?r1, OF assms(4)] d obtain t' where
    dl: "r' = ?r1\<lparr>proxyRoutes := t'\<rparr>" "dialled tunnel now (proxyRoutes r) (Inr rc, t')" by (auto simp: hu up px)
  moreover have "routeOf e raw r' = Some tunnel" if "IsFragment raw = Some False" "Parse raw = Some (Inr pk)"
      "proxyKeyFromFlow (flowKey pk) \<in> set (rcKeys rc)" for e raw pk
    unfolding dl(1) by (rule dialled_routeOf [OF dl(2) that])
  moreover have "no_new (proxyRoutes r) (CloseConn rc (proxyRoutes r'))" using dl by (simp add: dialled_def)
  ultimately show ?thesis using pol t(2) unfolding hu(1) by blast
qed

end
