(* ===== verification/Winutil.thy ===== *)
theory Winutil
  imports Browser_Proxy
begin

text \<open>
  The Windows side of a session (\<open>internal/winutil/proxy_windows.go\<close>, \<open>internal/winutil/winutil_windows.go\<close>): the temporary PAC setting of
  the user's registry, the WinDivert files beside the program, and the choice of the physical
  interface. The registry values are a record that the embedded PowerShell scripts read and write;
  whether a script succeeds, URL parsing, connections, downloads and the archive reader are parameters.
\<close>

section \<open>The proxy settings of the user\<close>

record registry =
  regAuto :: "string option"
  regEnable :: "int option"
  regServer :: "string option"

record proxySnapshot =
  snHasAutoConfigURL :: bool
  snAutoConfigURL :: string
  snProxyEnable :: int
  snProxyServer :: string

record ProxySession =
  psnSnap :: proxySnapshot
  psnInstalled :: bool

datatype proxyErr =
    EmptyPACURL | ReadSettings | ActiveSplitWire string | ExistingPAC string | ExistingProxy int string | SetSettings | RestoreSettings

record winEnv =
  weParse :: "string \<Rightarrow> URL option"
  weConnect :: "string \<Rightarrow> bool"
  weReadOk :: bool
  weSetOk :: bool

definition readProxySnapshot :: "bool \<Rightarrow> registry \<Rightarrow> proxyErr + proxySnapshot" where
  "readProxySnapshot ok g =
     (if \<not> ok then Inl ReadSettings
      else Inr \<lparr>snHasAutoConfigURL = (regAuto g \<noteq> None),
        snAutoConfigURL = (case regAuto g of None \<Rightarrow> [] | Some u \<Rightarrow> u),
        snProxyEnable = (case regEnable g of None \<Rightarrow> 0 | Some n \<Rightarrow> n),
        snProxyServer = (case regServer g of None \<Rightarrow> [] | Some s \<Rightarrow> s)\<rparr>)"

definition isSplitWirePAC :: "(string \<Rightarrow> URL option) \<Rightarrow> string \<Rightarrow> bool" where
  "isSplitWirePAC parse raw =
     (case parse (TrimSpace raw) of None \<Rightarrow> False
      | Some u \<Rightarrow> uScheme u = ''http'' \<and> ToLower (fst (urlHostPort (uHost u))) = ''127.0.0.1'' \<and> uPath u = ''/proxy.pac'')"

definition pacAlive :: "(string \<Rightarrow> URL option) \<Rightarrow> (string \<Rightarrow> bool) \<Rightarrow> string \<Rightarrow> bool" where
  "pacAlive parse dial raw =
     (case parse (TrimSpace raw) of None \<Rightarrow> False
      | Some u \<Rightarrow> if uHost u = [] then False else dial (uHost u))"

definition psQuote :: "string \<Rightarrow> string" where
  "psQuote s = ReplaceChar s quote [quote, quote]"

text \<open>What PowerShell reads between single quotes: two quotes are one, one alone would end the literal.\<close>

fun ps_value :: "string \<Rightarrow> string option" where
  "ps_value [] = Some []"
| "ps_value (c # cs) =
     (if c \<noteq> quote then map_option (\<lambda>s. c # s) (ps_value cs)
      else (case cs of d # ds \<Rightarrow> if d = quote then map_option (\<lambda>s. quote # s) (ps_value ds) else None | [] \<Rightarrow> None))"

text \<open>The script \<open>Set-ItemProperty ... -Name AutoConfigURL -Value '...'\<close> and the script that removes the value.\<close>

definition set_script :: "bool \<Rightarrow> string \<Rightarrow> registry \<Rightarrow> bool \<times> registry" where
  "set_script ok q g =
     (case ps_value q of None \<Rightarrow> (False, g)
      | Some v \<Rightarrow> if ok then (True, g\<lparr>regAuto := Some v\<rparr>) else (False, g))"

definition remove_script :: "bool \<Rightarrow> registry \<Rightarrow> bool \<times> registry" where
  "remove_script ok g = (if ok then (True, g\<lparr>regAuto := None\<rparr>) else (False, g))"

definition install_snapshot :: "winEnv \<Rightarrow> string \<Rightarrow> proxySnapshot \<Rightarrow> registry \<Rightarrow> (proxyErr + ProxySession) \<times> registry" where
  "install_snapshot e pacURL snap g =
     (if snProxyEnable snap \<noteq> 0 then (Inl (ExistingProxy (snProxyEnable snap) (snProxyServer snap)), g)
      else
        let (ok, g) = set_script (weSetOk e) (psQuote pacURL) g in
        if \<not> ok then (Inl SetSettings, g) else (Inr \<lparr>psnSnap = snap, psnInstalled = True\<rparr>, g))"

definition InstallSessionPAC :: "winEnv \<Rightarrow> string \<Rightarrow> registry \<Rightarrow> (proxyErr + ProxySession) \<times> registry" where
  "InstallSessionPAC e pacURL g =
     (let pacURL = TrimSpace pacURL in
      if pacURL = [] then (Inl EmptyPACURL, g)
      else (case readProxySnapshot (weReadOk e) g of
          Inl err \<Rightarrow> (Inl err, g)
        | Inr snap \<Rightarrow>
            if TrimSpace (snAutoConfigURL snap) \<noteq> [] then
              (if isSplitWirePAC (weParse e) (snAutoConfigURL snap) then
                 (if pacAlive (weParse e) (weConnect e) (snAutoConfigURL snap)
                  then (Inl (ActiveSplitWire (snAutoConfigURL snap)), g)
                  else install_snapshot e pacURL (snap\<lparr>snHasAutoConfigURL := False, snAutoConfigURL := []\<rparr>) g)
               else (Inl (ExistingPAC (snAutoConfigURL snap)), g))
            else install_snapshot e pacURL snap g))"

definition Restore :: "bool \<Rightarrow> ProxySession \<Rightarrow> registry \<Rightarrow> proxyErr option \<times> ProxySession \<times> registry" where
  "Restore psOk s g =
     (if \<not> psnInstalled s then (None, s, g)
      else
        let (ok, g) = (if snHasAutoConfigURL (psnSnap s) then set_script psOk (psQuote (snAutoConfigURL (psnSnap s))) g
                       else remove_script psOk g)
        in (if ok then None else Some RestoreSettings, s\<lparr>psnInstalled := False\<rparr>, g))"

lemma ps_value_psQuote [simp]: "ps_value (psQuote s) = Some s"
  by (induction s) (auto simp: psQuote_def ReplaceChar_def)

text \<open>The PAC of an interrupted session of SplitWire: it names the local proxy, and nobody answers there.\<close>

definition stale_pac :: "winEnv \<Rightarrow> registry \<Rightarrow> bool" where
  "stale_pac e g = (case regAuto g of None \<Rightarrow> False
     | Some u \<Rightarrow> isSplitWirePAC (weParse e) u \<and> \<not> pacAlive (weParse e) (weConnect e) u)"

lemma install_snapshot_cases:
  "install_snapshot e url snap g =
     (if snProxyEnable snap \<noteq> 0 then (Inl (ExistingProxy (snProxyEnable snap) (snProxyServer snap)), g)
      else if \<not> weSetOk e then (Inl SetSettings, g)
      else (Inr \<lparr>psnSnap = snap, psnInstalled = True\<rparr>, g\<lparr>regAuto := Some url\<rparr>))"
  by (simp add: install_snapshot_def set_script_def)

text \<open>The settings of the user as they were, less the PAC of an interrupted session.\<close>

definition settings_back :: "winEnv \<Rightarrow> registry \<Rightarrow> registry \<Rightarrow> bool" where
  "settings_back e g g' \<longleftrightarrow> g' = g \<or> stale_pac e g \<and> g' = g\<lparr>regAuto := None\<rparr>"

lemma Install_failed: "InstallSessionPAC e url g = (Inl err, g') \<Longrightarrow> g' = g"
  by (auto simp: InstallSessionPAC_def install_snapshot_cases Let_def split: if_splits sum.splits)

lemma Install_restores:
  assumes "InstallSessionPAC e url g = (Inr ps, g')"
  shows "g' = g\<lparr>regAuto := Some (TrimSpace url)\<rparr>" "settings_back e g (snd (snd (Restore True ps g')))" "psnInstalled ps"
proof -
  have "g' = g\<lparr>regAuto := Some (TrimSpace url)\<rparr> \<and> settings_back e g (snd (snd (Restore True ps g'))) \<and> psnInstalled ps"
  proof (cases "regAuto g")
    case None
    then show ?thesis using assms
      by (auto simp: InstallSessionPAC_def readProxySnapshot_def install_snapshot_cases Restore_def remove_script_def settings_back_def Let_def split: if_splits)
  next
    case (Some u)
    then show ?thesis using assms
      by (auto simp: InstallSessionPAC_def readProxySnapshot_def install_snapshot_cases Restore_def remove_script_def set_script_def
          settings_back_def stale_pac_def Let_def split: if_splits)
  qed
  then show "g' = g\<lparr>regAuto := Some (TrimSpace url)\<rparr>" "settings_back e g (snd (snd (Restore True ps g')))" "psnInstalled ps" by blast+
qed

lemma Install_refuses:
  assumes "InstallSessionPAC e url g = (Inr ps, g')"
  shows "regEnable g = None \<or> regEnable g = Some 0" "\<And>u. regAuto g = Some u \<Longrightarrow> TrimSpace u = [] \<or> stale_pac e g"
  using assms
  by (auto simp: InstallSessionPAC_def readProxySnapshot_def install_snapshot_cases stale_pac_def Let_def split: if_splits option.splits)

lemma Restore_twice: "psnInstalled ps \<Longrightarrow> snd (snd (Restore ok (fst (snd (Restore ok' ps g))) g')) = g'"
  by (auto simp: Restore_def Let_def split_def)

text \<open>A session never takes over a proxy setting of the user, and gives back what it found. If the PAC is installed, no
  proxy was enabled and no foreign PAC was set, and only the PAC value is changed; restoring it
  brings back the settings as they were before, less the PAC of an interrupted session, and restoring
  again does nothing. An installation that fails changes nothing.\<close>

theorem PAC_install_restore:
  "case InstallSessionPAC e url g of
     (Inl _, g') \<Rightarrow> g' = g
   | (Inr ps, g') \<Rightarrow>
       g' = g\<lparr>regAuto := Some (TrimSpace url)\<rparr> \<and> regEnable g \<in> {None, Some 0} \<and>
       (case regAuto g of None \<Rightarrow> True | Some u \<Rightarrow> TrimSpace u = [] \<or> stale_pac e g) \<and>
       settings_back e g (snd (snd (Restore True ps g'))) \<and>
       (\<forall>ok h. snd (snd (Restore ok (fst (snd (Restore True ps g'))) h)) = h)"
proof -
  obtain res g' where r: "InstallSessionPAC e url g = (res, g')" by fastforce
  show ?thesis
  proof (cases res)
    case (Inl err)
    then show ?thesis using Install_failed [of e url g err g'] r by simp
  next
    case (Inr ps)
    note i = r [unfolded Inr]
    show ?thesis using Install_restores [OF i] Install_refuses [OF i] Restore_twice [of ps]
      by (auto simp: i split: option.split)
  qed
qed

section \<open>The WinDivert files\<close>

type_synonym files = "string \<rightharpoonup> bytes"

datatype fetched = FetchError | Fetched nat bool bytes

text \<open>An entry of the archive, with the outcome of opening it, of creating the temporary file, of copying and of renaming.\<close>

record zipEntry =
  zName :: string
  zOpen :: bool
  zCreate :: bool
  zCopy :: bool
  zRename :: bool
  zData :: bytes

datatype assetErr = Download | NoArchive | Extract string | Incomplete

definition regular :: "files \<Rightarrow> string \<Rightarrow> bool" where
  "regular fs p = (case fs p of None \<Rightarrow> False | Some b \<Rightarrow> b \<noteq> [])"

fun download :: "(string \<Rightarrow> fetched) \<Rightarrow> string list \<Rightarrow> bytes option" where
  "download fetch [] = None"
| "download fetch (u # us) =
     (case fetch u of
        FetchError \<Rightarrow> download fetch us
      | Fetched code ok body \<Rightarrow>
          if code < 200 \<or> code \<ge> 300 then download fetch us
          else if \<not> ok then download fetch us
          else if take 16777216 body = [] then download fetch us
          else Some (take 16777216 body))"

definition asset_urls :: "string list" where
  "asset_urls = [''https://www.reqrypt.org/download/WinDivert-2.2.2-A.zip'',
     ''https://github.com/basil00/WinDivert/releases/download/v2.2.2/WinDivert-2.2.2-A.zip'']"

record extraction =
  xFiles :: files
  xDLL :: bool
  xSYS :: bool

definition write_entry :: "zipEntry \<Rightarrow> string \<Rightarrow> extraction \<Rightarrow> assetErr option \<times> extraction" where
  "write_entry z dst x =
     (let tmp = dst @ ''.tmp''; fs = xFiles x in
      if \<not> zOpen z then (Some (Extract dst), x)
      else if \<not> zCreate z then (Some (Extract dst), x\<lparr>xFiles := fs(tmp := None)\<rparr>)
      else if \<not> zCopy z then (Some (Extract dst), x\<lparr>xFiles := fs(tmp := None)\<rparr>)
      else if \<not> zRename z then (Some (Extract dst), x\<lparr>xFiles := fs(tmp := None)\<rparr>)
      else (None, x\<lparr>xFiles := fs(dst \<mapsto> take 33554432 (zData z), tmp := None)\<rparr>))"

datatype assetKind = AssetDLL | AssetSYS | AssetLicense | AssetOther

definition asset_kind :: "string \<Rightarrow> assetKind" where
  "asset_kind name =
     (let n = ToLower (ReplaceAll name backslash slash) in
      if HasSuffix n ''/x64/windivert.dll'' \<or> n = ''x64/windivert.dll'' then AssetDLL
      else if HasSuffix n ''/x64/windivert64.sys'' \<or> n = ''x64/windivert64.sys'' then AssetSYS
      else if HasSuffix n ''/license'' \<or> HasSuffix n ''/license.txt'' then AssetLicense
      else AssetOther)"

definition extract_entry :: "(string \<Rightarrow> string) \<Rightarrow> zipEntry \<Rightarrow> extraction \<Rightarrow> assetErr option \<times> extraction" where
  "extract_entry path z x =
     (case asset_kind (zName z) of
        AssetDLL \<Rightarrow>
          (let x = x\<lparr>xDLL := True\<rparr> in
           if regular (xFiles x) (path ''WinDivert.dll'') then (None, x) else write_entry z (path ''WinDivert.dll'') x)
      | AssetSYS \<Rightarrow>
          (let x = x\<lparr>xSYS := True\<rparr> in
           if regular (xFiles x) (path ''WinDivert64.sys'') then (None, x) else write_entry z (path ''WinDivert64.sys'') x)
      | AssetLicense \<Rightarrow> write_entry z (path ''WinDivert-LICENSE.txt'') x
      | AssetOther \<Rightarrow> (None, x))"

fun extract_all :: "(string \<Rightarrow> string) \<Rightarrow> zipEntry list \<Rightarrow> extraction \<Rightarrow> assetErr option \<times> extraction" where
  "extract_all path [] x = (None, x)"
| "extract_all path (z # zs) x =
     (case extract_entry path z x of (Some err, x) \<Rightarrow> (Some err, x) | (None, x) \<Rightarrow> extract_all path zs x)"

definition EnsureAssets :: "(string \<Rightarrow> string) \<Rightarrow> (string \<Rightarrow> fetched) \<Rightarrow> (bytes \<Rightarrow> zipEntry list option) \<Rightarrow> files \<Rightarrow> assetErr option \<times> files" where
  "EnsureAssets path fetch unzip fs =
     (if regular fs (path ''WinDivert.dll'') \<and> regular fs (path ''WinDivert64.sys'') then (None, fs)
      else (case download fetch asset_urls of
          None \<Rightarrow> (Some Download, fs)
        | Some data \<Rightarrow>
            (case unzip data of
               None \<Rightarrow> (Some NoArchive, fs)
             | Some zs \<Rightarrow>
                 (case extract_all path zs \<lparr>xFiles = fs, xDLL = False, xSYS = False\<rparr> of
                    (Some err, x) \<Rightarrow> (Some err, xFiles x)
                  | (None, x) \<Rightarrow> (if \<not> xDLL x \<or> \<not> xSYS x then Some Incomplete else None, xFiles x)))))"

text \<open>The three files and their temporary files are six different files.\<close>

definition asset_files :: "(string \<Rightarrow> string) \<Rightarrow> string list" where
  "asset_files path = [path ''WinDivert.dll'', path ''WinDivert64.sys'', path ''WinDivert-LICENSE.txt'']"

definition separate :: "(string \<Rightarrow> string) \<Rightarrow> bool" where
  "separate path \<longleftrightarrow> distinct (asset_files path @ map (\<lambda>p. p @ ''.tmp'') (asset_files path))"

text \<open>What one entry does to a wanted file: a usable file stays, and otherwise the file is what it was or a complete entry.\<close>

definition kept :: "zipEntry list \<Rightarrow> string \<Rightarrow> files \<Rightarrow> files \<Rightarrow> bool" where
  "kept zs p fs fs' \<longleftrightarrow> (if regular fs p then fs' p = fs p
     else fs' p = fs p \<or> (\<exists>z \<in> set zs. zCopy z \<and> fs' p = Some (take 33554432 (zData z))))"

lemma kept_refl: "kept zs p fs fs"
  by (simp add: kept_def)

lemma kept_trans: "kept zs p a b \<Longrightarrow> kept zs' p b c \<Longrightarrow> kept (zs @ zs') p a c"
  by (auto simp: kept_def regular_def split: if_splits)

lemma write_entry_other:
  assumes "write_entry z dst x = (r, x')" "p \<noteq> dst" "p \<noteq> dst @ ''.tmp''"
  shows "xFiles x' p = xFiles x p"
  using assms by (auto simp: write_entry_def Let_def split: if_splits)

lemma write_entry_dst:
  assumes "write_entry z dst x = (r, x')"
  shows "xFiles x' dst = xFiles x dst \<or> zCopy z \<and> xFiles x' dst = Some (take 33554432 (zData z))"
    "r = None \<Longrightarrow> xFiles x' dst \<noteq> None" "xDLL x' = xDLL x" "xSYS x' = xSYS x"
  using assms by (auto simp: write_entry_def Let_def split: if_splits)

lemma write_entry_kept:
  assumes "write_entry z dst x = (r, x')" "p \<noteq> dst @ ''.tmp''" "p = dst \<longrightarrow> \<not> regular (xFiles x) p"
  shows "kept [z] p (xFiles x) (xFiles x')"
  using write_entry_other [OF assms(1) _ assms(2)] write_entry_dst(1) [OF assms(1)] assms(3) by (cases "p = dst") (auto simp: kept_def)

lemma separate_paths:
  assumes "separate path"
  shows "p \<in> set (asset_files path) \<Longrightarrow> q \<in> set (asset_files path) \<Longrightarrow> p \<noteq> q @ ''.tmp''"
    "path ''WinDivert.dll'' \<noteq> path ''WinDivert64.sys''" "path ''WinDivert.dll'' \<noteq> path ''WinDivert-LICENSE.txt''"
    "path ''WinDivert64.sys'' \<noteq> path ''WinDivert-LICENSE.txt''"
  using assms unfolding separate_def distinct_append by (auto simp: asset_files_def)

text \<open>An entry is passed over or written to one of the three files, which is then not in use.\<close>

lemma extract_entry_cases:
  assumes "extract_entry path z x = (r, x')" "separate path"
  obtains (skip) y where "r = None" "x' = y" "xFiles y = xFiles x"
      "xDLL y \<longrightarrow> xDLL x \<or> regular (xFiles x) (path ''WinDivert.dll'')" "xSYS y \<longrightarrow> xSYS x \<or> regular (xFiles x) (path ''WinDivert64.sys'')"
    | (wrote) y dst where "write_entry z dst y = (r, x')" "dst \<in> set (asset_files path)" "xFiles y = xFiles x" "\<not> regular (xFiles x) dst \<or> dst = path ''WinDivert-LICENSE.txt''"
      "xDLL y \<longrightarrow> xDLL x \<or> dst = path ''WinDivert.dll''" "xSYS y \<longrightarrow> xSYS x \<or> dst = path ''WinDivert64.sys''"
proof (cases "asset_kind (zName z)")
  case AssetDLL
  show ?thesis
  proof (cases "regular (xFiles x) (path ''WinDivert.dll'')")
    case True
    then show ?thesis using assms(1) AssetDLL by (intro skip [of "x\<lparr>xDLL := True\<rparr>"]) (auto simp: extract_entry_def)
  next
    case False
    then show ?thesis using assms(1) AssetDLL
      by (intro wrote [of "path ''WinDivert.dll''" "x\<lparr>xDLL := True\<rparr>"]) (auto simp: extract_entry_def asset_files_def)
  qed
next
  case AssetSYS
  show ?thesis
  proof (cases "regular (xFiles x) (path ''WinDivert64.sys'')")
    case True
    then show ?thesis using assms(1) AssetSYS by (intro skip [of "x\<lparr>xSYS := True\<rparr>"]) (auto simp: extract_entry_def)
  next
    case False
    then show ?thesis using assms(1) AssetSYS
      by (intro wrote [of "path ''WinDivert64.sys''" "x\<lparr>xSYS := True\<rparr>"]) (auto simp: extract_entry_def asset_files_def)
  qed
next
  case AssetLicense
  then show ?thesis using assms(1)
    by (intro wrote [of "path ''WinDivert-LICENSE.txt''" x]) (auto simp: extract_entry_def asset_files_def)
next
  case AssetOther
  then show ?thesis using assms(1) by (intro skip [of x]) (auto simp: extract_entry_def)
qed

definition present :: "(string \<Rightarrow> string) \<Rightarrow> extraction \<Rightarrow> bool" where
  "present path x \<longleftrightarrow> (xDLL x \<longrightarrow> xFiles x (path ''WinDivert.dll'') \<noteq> None) \<and> (xSYS x \<longrightarrow> xFiles x (path ''WinDivert64.sys'') \<noteq> None)"

abbreviation wanted :: "(string \<Rightarrow> string) \<Rightarrow> string set" where
  "wanted path \<equiv> {path ''WinDivert.dll'', path ''WinDivert64.sys''}"

lemma extract_entry_step:
  assumes "extract_entry path z x = (r, x')" "separate path"
  shows "p \<in> wanted path \<Longrightarrow> kept [z] p (xFiles x) (xFiles x')" "r = None \<Longrightarrow> present path x \<Longrightarrow> present path x'"
proof -
  have sub: "p \<in> wanted path \<Longrightarrow> p \<in> set (asset_files path)" for p by (auto simp: asset_files_def)
  have "(p \<in> wanted path \<longrightarrow> kept [z] p (xFiles x) (xFiles x')) \<and> (r = None \<longrightarrow> present path x \<longrightarrow> present path x')" for p
  using assms
  proof (cases rule: extract_entry_cases)
    case (skip y)
    then show ?thesis by (auto simp: kept_refl present_def regular_def split: option.splits)
  next
    case (wrote y dst)
    have "kept [z] p (xFiles x) (xFiles x')" if p: "p \<in> wanted path" for p
      using write_entry_kept [OF wrote(1), of p] separate_paths(1) [OF assms(2) sub [OF p] wrote(2)] separate_paths(3,4) [OF assms(2)] wrote(3,4) p
      by auto
    moreover have "present path x'" if "r = None" "present path x"
    proof -
      have "xFiles x' p \<noteq> None" if "p \<in> wanted path" "xFiles x p \<noteq> None \<or> p = dst" for p
        using write_entry_dst(2) [OF wrote(1) \<open>r = None\<close>] write_entry_other [OF wrote(1), of p]
          separate_paths(1) [OF assms(2) sub [OF that(1)] wrote(2)] that(2) wrote(3) by (cases "p = dst") auto
      then show ?thesis using that wrote(5,6) write_entry_dst(3,4) [OF wrote(1)] by (auto simp: present_def)
    qed
    ultimately show ?thesis by blast
  qed
  then show "p \<in> wanted path \<Longrightarrow> kept [z] p (xFiles x) (xFiles x')" "r = None \<Longrightarrow> present path x \<Longrightarrow> present path x'" by blast+
qed

lemma extract_all_steps:
  assumes "extract_all path zs x = (r, x')" "separate path"
  shows "p \<in> wanted path \<Longrightarrow> kept zs p (xFiles x) (xFiles x')" "r = None \<Longrightarrow> present path x \<Longrightarrow> present path x'"
proof -
  have "(p \<in> wanted path \<longrightarrow> kept zs p (xFiles x) (xFiles x')) \<and> (r = None \<longrightarrow> present path x \<longrightarrow> present path x')" for p
    using assms(1)
  proof (induction zs arbitrary: x)
    case (Cons z zs)
    obtain r1 x1 where e: "extract_entry path z x = (r1, x1)" by fastforce
    note step = extract_entry_step [OF e assms(2)]
    show ?case
    proof (cases r1)
      case None
      then have "extract_all path zs x1 = (r, x')" using Cons.prems e by simp
      from Cons.IH [OF this] step None show ?thesis using kept_trans [of "[z]" p "xFiles x" "xFiles x1" zs "xFiles x'"] by auto
    next
      case (Some err)
      then have "x' = x1" "r = Some err" using Cons.prems e by simp_all
      then show ?thesis using step kept_trans [of "[z]" p "xFiles x" "xFiles x1" zs "xFiles x1"] kept_refl by auto
    qed
  qed (simp add: kept_refl)
  then show "p \<in> wanted path \<Longrightarrow> kept zs p (xFiles x) (xFiles x')" "r = None \<Longrightarrow> present path x \<Longrightarrow> present path x'" by blast+
qed

text \<open>
  The WinDivert files: if they are said to be ready, both are there; a usable file is never replaced, and whatever happens
  each of them is as before or a complete copy of an entry of the archive, never a part of one.
\<close>

theorem EnsureAssets_correct:
  assumes "EnsureAssets path fetch unzip fs = (r, fs')" "separate path"
  shows "(r = None \<longrightarrow> fs' (path ''WinDivert.dll'') \<noteq> None \<and> fs' (path ''WinDivert64.sys'') \<noteq> None) \<and>
    (\<forall>p \<in> wanted path. if regular fs p then fs' p = fs p
       else fs' p = fs p \<or> (\<exists>data zs z. unzip data = Some zs \<and> z \<in> set zs \<and> zCopy z \<and> fs' p = Some (take 33554432 (zData z))))"
proof (cases "fs' = fs \<and> (r \<noteq> None \<or> regular fs (path ''WinDivert.dll'') \<and> regular fs (path ''WinDivert64.sys''))")
  case True
  then show ?thesis by (auto simp: regular_def split: option.splits)
next
  case False
  then obtain data zs x err where z: "unzip data = Some zs" "extract_all path zs \<lparr>xFiles = fs, xDLL = False, xSYS = False\<rparr> = (err, x)"
      "fs' = xFiles x" "r = None \<longrightarrow> err = None \<and> xDLL x \<and> xSYS x"
    using assms(1) by (auto simp: EnsureAssets_def split: if_splits option.splits prod.splits)
  note st = extract_all_steps [OF z(2) assms(2)]
  have "r = None \<longrightarrow> present path x" using st(2) z(4) by (simp add: present_def)
  then have "r = None \<longrightarrow> fs' (path ''WinDivert.dll'') \<noteq> None \<and> fs' (path ''WinDivert64.sys'') \<noteq> None" using z(3,4) by (simp add: present_def)
  moreover have "if regular fs p then fs' p = fs p
       else fs' p = fs p \<or> (\<exists>data zs z. unzip data = Some zs \<and> z \<in> set zs \<and> zCopy z \<and> fs' p = Some (take 33554432 (zData z)))"
    if "p \<in> wanted path" for p using st(1) [OF that] z(1,3) unfolding kept_def by (simp split: if_splits) blast
  ultimately show ?thesis by blast
qed

section \<open>The physical interface\<close>

record Interface =
  ifIndex :: u32
  ifName :: string

datatype ifaceErr = IfZero | IfUnknown u32 | IfAlias string | IfParse string | IfNone

definition ParseUint32 :: "string \<Rightarrow> u32 option" where
  "ParseUint32 s = (if s \<noteq> [] \<and> list_all is_digit s \<and> digits_val s < 4294967296 then Some (word_of_int (digits_val s)) else None)"

definition interfaceByIndex :: "(u32 \<Rightarrow> string option) \<Rightarrow> u32 \<Rightarrow> ifaceErr + Interface" where
  "interfaceByIndex lookup index =
     (if index = 0 then Inl IfZero
      else (case lookup index of None \<Rightarrow> Inl (IfUnknown index) | Some name \<Rightarrow> Inr \<lparr>ifIndex = index, ifName = name\<rparr>))"

text \<open>\<open>alias\<close> is the script that looks up an adapter by its quoted name, \<open>auto1\<close> and \<open>auto2\<close> are the results of the two scripts that
  find the adapter with the default route.\<close>

definition SelectPhysicalInterface :: "(u32 \<Rightarrow> string option) \<Rightarrow> (string \<Rightarrow> string option) \<Rightarrow> string option \<Rightarrow> string option \<Rightarrow> string \<Rightarrow> ifaceErr + Interface" where
  "SelectPhysicalInterface lookup alias auto1 auto2 spec =
     (let spec = TrimSpace spec in
      if spec \<noteq> [] then
        (case ParseUint32 spec of
           Some n \<Rightarrow> interfaceByIndex lookup n
         | None \<Rightarrow>
             (case alias (psQuote spec) of None \<Rightarrow> Inl (IfAlias spec)
              | Some out \<Rightarrow>
                  (case ParseUint32 (TrimSpace out) of None \<Rightarrow> Inl (IfParse out) | Some n \<Rightarrow> interfaceByIndex lookup n)))
      else
        (case (case auto1 of None \<Rightarrow> auto2 | Some out \<Rightarrow> Some out) of None \<Rightarrow> Inl IfNone
         | Some out \<Rightarrow>
             (case ParseUint32 (TrimSpace out) of None \<Rightarrow> Inl (IfParse out) | Some n \<Rightarrow> interfaceByIndex lookup n)))"

lemma SelectPhysicalInterface_exists:
  "SelectPhysicalInterface lookup alias auto1 auto2 spec = Inr i \<Longrightarrow> ifIndex i \<noteq> 0 \<and> lookup (ifIndex i) = Some (ifName i)"
  by (auto simp: SelectPhysicalInterface_def interfaceByIndex_def Let_def split: if_splits option.splits)

end
