(* ===== verification/Browser_Relay.thy ===== *)
theory Browser_Relay
  imports Browser_Proxy "HOL-Library.Sublist"
begin

text \<open>
  The hostname proxy, third part (\<open>internal/browserproxy/proxy.go\<close>): \<open>bridge\<close>, the relay of an accepted connection, as a step
  relation of its two copying goroutines and their caller, and what the limited log promises over many
  calls.
\<close>

section \<open>The relay\<close>

text \<open>
  \<open>bridge\<close>: two goroutines copy, one in each direction (\<open>True\<close> is client to upstream), until the source ends or
  fails, then close the write half of the destination and report on a channel; the caller takes the two
  reports, closes both connections after the first if it is an error, and in any case after the second.
\<close>

record 'e bridgeResult =
  brUp :: bool
  brN :: nat
  brErr :: "'e option"

record 'e relay =
  rlRunning :: "bool \<Rightarrow> bool"
  rlRead :: "bool \<Rightarrow> bytes"
  rlWritten :: "bool \<Rightarrow> bytes"
  rlWriteClosed :: "bool \<Rightarrow> bool"
  rlChan :: "'e bridgeResult list"
  rlGot :: "'e bridgeResult list"
  rlClosed :: bool

definition bridge :: "'e relay" where
  "bridge = \<lparr>rlRunning = (\<lambda>_. True), rlRead = (\<lambda>_. []), rlWritten = (\<lambda>_. []), rlWriteClosed = (\<lambda>_. False),
     rlChan = [], rlGot = [], rlClosed = False\<rparr>"

definition copied :: "bool \<Rightarrow> bytes \<Rightarrow> bytes \<Rightarrow> 'e relay \<Rightarrow> 'e relay" where
  "copied d read written r = r\<lparr>rlRead := (rlRead r)(d := rlRead r d @ read), rlWritten := (rlWritten r)(d := rlWritten r d @ written)\<rparr>"

definition finish :: "bool \<Rightarrow> 'e option \<Rightarrow> 'e relay \<Rightarrow> 'e relay" where
  "finish d err r = r\<lparr>rlRunning := (rlRunning r)(d := False), rlWriteClosed := (rlWriteClosed r)(d := True),
     rlChan := rlChan r @ [\<lparr>brUp = d, brN = length (rlWritten r d), brErr = err\<rparr>]\<rparr>"

definition take_result :: "'e relay \<Rightarrow> 'e relay" where
  "take_result r =
     (case (rlChan r, rlGot r) of
        (x # xs, []) \<Rightarrow> r\<lparr>rlChan := xs, rlGot := [x], rlClosed := (rlClosed r \<or> brErr x \<noteq> None)\<rparr>
      | (x # xs, [y]) \<Rightarrow> r\<lparr>rlChan := xs, rlGot := [y, x], rlClosed := True\<rparr>
      | _ \<Rightarrow> r)"

inductive bstep :: "'e relay \<Rightarrow> 'e relay \<Rightarrow> bool" where
  copy: "rlRunning r d \<Longrightarrow> \<not> rlClosed r \<Longrightarrow> bstep r (copied d xs xs r)"
| write_error: "rlRunning r d \<Longrightarrow> prefix ys xs \<Longrightarrow> \<not> rlClosed r \<Longrightarrow> bstep r (finish d (Some err) (copied d xs ys r))"
| read_end: "rlRunning r d \<Longrightarrow> \<not> rlClosed r \<Longrightarrow> bstep r (finish d None r)"
| read_error: "rlRunning r d \<Longrightarrow> bstep r (finish d (Some err) r)"
| result: "rlChan r \<noteq> [] \<Longrightarrow> length (rlGot r) < 2 \<Longrightarrow> bstep r (take_result r)"

inductive_cases bstepE: "bstep r r'"

definition reports :: "'e relay \<Rightarrow> 'e bridgeResult list" where
  "reports r = rlGot r @ rlChan r"

definition relay_inv :: "'e relay \<Rightarrow> bool" where
  "relay_inv r \<longleftrightarrow>
     (\<forall>d. prefix (rlWritten r d) (rlRead r d) \<and> (rlRunning r d \<longrightarrow> rlWritten r d = rlRead r d) \<and> rlWriteClosed r d = (\<not> rlRunning r d)) \<and>
     distinct (map brUp (reports r)) \<and> (\<forall>d. rlRunning r d \<longleftrightarrow> d \<notin> brUp ` set (reports r)) \<and>
     (\<forall>x \<in> set (reports r). brN x = length (rlWritten r (brUp x)) \<and> (brErr x = None \<longrightarrow> rlWritten r (brUp x) = rlRead r (brUp x))) \<and>
     (rlClosed r \<longleftrightarrow> (case rlGot r of [] \<Rightarrow> False | x # xs \<Rightarrow> brErr x \<noteq> None \<or> xs \<noteq> []))"

lemma relay_inv_bridge: "relay_inv bridge"
  by (simp add: relay_inv_def bridge_def reports_def)

lemma copied_simps [simp]:
  "rlRunning (copied d xs ys r) = rlRunning r" "rlWriteClosed (copied d xs ys r) = rlWriteClosed r"
  "rlRead (copied d xs ys r) = (rlRead r)(d := rlRead r d @ xs)" "rlWritten (copied d xs ys r) = (rlWritten r)(d := rlWritten r d @ ys)"
  "reports (copied d xs ys r) = reports r" "rlGot (copied d xs ys r) = rlGot r" "rlClosed (copied d xs ys r) = rlClosed r"
  "rlChan (copied d xs ys r) = rlChan r"
  by (simp_all add: copied_def reports_def)

lemma finish_simps [simp]:
  "rlRunning (finish d err r) = (rlRunning r)(d := False)" "rlWriteClosed (finish d err r) = (rlWriteClosed r)(d := True)"
  "rlRead (finish d err r) = rlRead r" "rlWritten (finish d err r) = rlWritten r" "rlGot (finish d err r) = rlGot r"
  "reports (finish d err r) = reports r @ [\<lparr>brUp = d, brN = length (rlWritten r d), brErr = err\<rparr>]"
  "rlClosed (finish d err r) = rlClosed r" "length (rlChan (finish d err r)) = Suc (length (rlChan r))"
  by (simp_all add: finish_def reports_def)

lemma take_simps [simp]:
  "rlRunning (take_result r) = rlRunning r" "rlWriteClosed (take_result r) = rlWriteClosed r"
  "rlRead (take_result r) = rlRead r" "rlWritten (take_result r) = rlWritten r" "reports (take_result r) = reports r"
  by (simp_all add: take_result_def reports_def split: list.split)

lemma relay_inv_copied: "relay_inv r \<Longrightarrow> rlRunning r d \<Longrightarrow> relay_inv (copied d xs xs r)"
  by (auto simp: relay_inv_def)

lemma relay_inv_finish:
  assumes "relay_inv r" "rlRunning r d" "prefix ys xs" "err = None \<longrightarrow> ys = xs"
  shows "relay_inv (finish d err (copied d xs ys r))"
  using assms by (auto simp: relay_inv_def)

lemma relay_inv_take: "relay_inv r \<Longrightarrow> relay_inv (take_result r)"
proof -
  assume r: "relay_inv r"
  then have "rlClosed (take_result r) \<longleftrightarrow> (case rlGot (take_result r) of [] \<Rightarrow> False | x # xs \<Rightarrow> brErr x \<noteq> None \<or> xs \<noteq> [])"
    by (simp add: relay_inv_def take_result_def split: list.split)
  with r show ?thesis by (simp add: relay_inv_def)
qed

lemma copied_Nil: "copied d [] [] r = r"
  by (simp add: copied_def)

lemma relay_inv_step: "bstep r r' \<Longrightarrow> relay_inv r \<Longrightarrow> relay_inv r'"
proof (induction rule: bstep.induct)
  case (read_end r d)
  then show ?case using relay_inv_finish [of r d "[]" "[]" None] by (simp add: copied_Nil)
next
  case (read_error r d err)
  then show ?case using relay_inv_finish [of r d "[]" "[]" "Some err"] by (simp add: copied_Nil)
qed (auto intro: relay_inv_copied relay_inv_finish relay_inv_take)

lemma relay_inv_reachable: "bstep\<^sup>*\<^sup>* bridge r \<Longrightarrow> relay_inv r"
  by (induction rule: rtranclp_induct) (auto intro: relay_inv_bridge relay_inv_step)

definition remaining :: "'e relay \<Rightarrow> nat" where
  "remaining r = 2 * (of_bool (rlRunning r True) + of_bool (rlRunning r False)) + length (rlChan r)"

lemma bool_dirs: "distinct bs \<Longrightarrow> length bs \<le> 2" for bs :: "bool list"
proof -
  assume "distinct bs"
  then have "length bs = card (set bs)" by (simp add: distinct_card)
  also have "\<dots> \<le> card {True, False}" by (rule card_mono) auto
  finally show ?thesis by simp
qed

lemma relay_progress:
  assumes "relay_inv r" "length (rlGot r) < 2"
  shows "rlRunning r True \<or> rlRunning r False \<or> rlChan r \<noteq> []"
proof (rule ccontr)
  assume a: "\<not> ?thesis"
  then have "brUp ` set (rlGot r) = {True, False}" using assms(1) by (auto simp: relay_inv_def reports_def)
  then have "2 \<le> card (set (rlGot r))" by (metis List.finite_set card_2_iff card_image_le doubleton_eq_iff)
  with assms(2) card_length [of "rlGot r"] show False by linarith
qed

lemma remaining_closed: "bstep r r' \<Longrightarrow> rlClosed r \<Longrightarrow> remaining r' < remaining r"
  by (erule bstepE) (auto simp: remaining_def take_result_def of_bool_def split: list.splits) 



section \<open>The limited log\<close>

type_synonym logCall = "string \<times> int \<times> int"

fun log_run :: "logCall list \<Rightarrow> ('w, 'c, 'e) Server \<Rightarrow> (string \<times> int \<times> u64) list \<times> ('w, 'c, 'e) Server" where
  "log_run [] s = ([], s)"
| "log_run ((key, interval, now) # cs) s =
     (let (n, s) = limit key interval now s;
          (es, s) = log_run cs s
      in ((case n of None \<Rightarrow> es | Some n \<Rightarrow> (key, now, n) # es), s))"

definition log_pending :: "('w, 'c, 'e) Server \<Rightarrow> string \<Rightarrow> nat" where
  "log_pending s key = (case sLogState s key of None \<Rightarrow> 0 | Some st \<Rightarrow> unat (lsSuppressed st))"

definition log_count :: "string \<Rightarrow> logCall list \<Rightarrow> nat" where
  "log_count key cs = length (filter (\<lambda>(k, _). k = key) cs)"

definition log_reported :: "string \<Rightarrow> (string \<times> int \<times> u64) list \<Rightarrow> nat" where
  "log_reported key es = sum_list (map (\<lambda>(k, t, n). if k = key then Suc (unat n) else 0) es)"

lemma limit_logf: "limit key i now s = (x, s') \<Longrightarrow> sLogf s' = sLogf s"
  by (auto simp: limit_def Let_def split: if_splits)

lemma limit_pending:
  assumes "limit key i now s = (x, s')" "sLogf s" "log_pending s key + 1 < 2 ^ 64"
  shows "log_pending s' k + (case x of None \<Rightarrow> 0 | Some n \<Rightarrow> log_reported k [(key, now, n)]) = log_pending s k + (if k = key then 1 else 0)"
proof -
  have w: "unat (v + 1) = Suc (unat v)" if "unat v + 1 < 2 ^ 64" for v :: u64
    using that by (simp add: unat_word_ariths unat_of_nat)
  show ?thesis using assms w
    by (auto simp: limit_def Let_def log_pending_def log_reported_def split: if_splits option.splits)
qed

lemma log_run_accounts:
  assumes "log_run cs s = (es, s')" "sLogf s" "\<And>k. log_pending s k + length cs < 2 ^ 64"
  shows "log_pending s' k + log_reported k es = log_pending s k + log_count k cs"
  using assms
proof (induction cs arbitrary: s es)
  case (Cons c cs)
  obtain key i now where c: "c = (key, i, now)" by (metis prod_cases3)
  obtain x s1 where l: "limit key i now s = (x, s1)" by fastforce
  obtain es1 where r: "log_run cs s1 = (es1, s')" "es = (case x of None \<Rightarrow> es1 | Some n \<Rightarrow> (key, now, n) # es1)"
    using Cons.prems(1) by (auto simp: c l split: prod.splits)
  have "log_pending s key + 1 < 2 ^ 64" using Cons.prems(3) [of key] by simp
  note p = limit_pending [OF l Cons.prems(2) this]
  have "log_pending s1 j + length cs < 2 ^ 64" for j
  proof -
    have "log_pending s1 j \<le> log_pending s j + 1" using p [of j] by (auto split: if_splits)
    then show ?thesis using Cons.prems(3) [of j] by simp
  qed
  with Cons.IH [OF r(1)] limit_logf [OF l] Cons.prems(2)
  have "log_pending s' k + log_reported k es1 = log_pending s1 k + log_count k cs" by simp
  then show ?case using p [of k] r(2) by (cases x) (auto simp: c log_count_def log_reported_def)
qed (simp add: log_count_def log_reported_def)

text \<open>The time of the last message written under a key, and the messages that keep their distance to it.\<close>

definition log_last :: "('w, 'c, 'e) Server \<Rightarrow> string \<Rightarrow> int option" where
  "log_last s key = (case sLogState s key of None \<Rightarrow> None | Some st \<Rightarrow> lsLast st)"

fun spaced :: "int \<Rightarrow> int option \<Rightarrow> int list \<Rightarrow> bool" where
  "spaced d t [] \<longleftrightarrow> True"
| "spaced d t (x # xs) \<longleftrightarrow> (case t of None \<Rightarrow> True | Some t \<Rightarrow> d \<le> x - t) \<and> spaced d (Some x) xs"

lemma limit_last:
  assumes "limit key i now s = (x, s')" "sLogf s"
  shows "log_last s' k = (if x \<noteq> None \<and> k = key then Some now else log_last s k)"
    "x \<noteq> None \<Longrightarrow> case log_last s key of None \<Rightarrow> True | Some t \<Rightarrow> i \<le> now - t"
  using assms by (auto simp: limit_def Let_def log_last_def split: if_splits option.splits)

lemma log_run_spaced:
  assumes "log_run cs s = (es, s')" "sLogf s" "\<forall>(k, i, now) \<in> set cs. k = key \<longrightarrow> i = d"
  shows "spaced d (log_last s key) (map (\<lambda>e. fst (snd e)) (filter (\<lambda>(k, _). k = key) es))"
  using assms
proof (induction cs arbitrary: s es)
  case (Cons c cs)
  obtain k i now where c: "c = (k, i, now)" by (metis prod_cases3)
  obtain x s1 where l: "limit k i now s = (x, s1)" by fastforce
  obtain es1 where r: "log_run cs s1 = (es1, s')" "es = (case x of None \<Rightarrow> es1 | Some n \<Rightarrow> (k, now, n) # es1)"
    using Cons.prems(1) by (auto simp: c l split: prod.splits)
  have ih: "spaced d (log_last s1 key) (map (\<lambda>e. fst (snd e)) (filter (\<lambda>(k, _). k = key) es1))"
    using Cons.IH [OF r(1)] limit_logf [OF l] Cons.prems(2,3) by simp
  have i: "k = key \<Longrightarrow> i = d" using Cons.prems(3) by (simp add: c)
  show ?case using ih r(2) limit_last [OF l Cons.prems(2)] i by (cases x) (auto split: if_splits)
qed simp

text \<open>The limited log loses nothing silently: over any calls, the messages written under a key with the numbers of
  suppressed ones they report, and the number still to be reported, add up to the calls under that
  key; and two messages written under a key are at least its interval apart.\<close>

theorem log_accounts:
  assumes "log_run cs s = (es, s')" "sLogf s" "sLogState s = Map.empty" "length cs < 2 ^ 64" "\<forall>(k, i, now) \<in> set cs. k = key \<longrightarrow> i = d"
  shows "log_reported key es + log_pending s' key = log_count key cs \<and> spaced d None (map (\<lambda>e. fst (snd e)) (filter (\<lambda>(k, _). k = key) es))"
proof -
  have "log_pending s k = 0" "log_last s k = None" for k by (simp_all add: log_pending_def log_last_def assms(3))
  then show ?thesis using log_run_accounts [OF assms(1,2), of key] log_run_spaced [OF assms(1,2,5)] assms(4) by simp
qed

theorem log_accounts_witness:
  "\<exists>s s' :: (unit, unit, unit) Server. log_run [(''k'', 5, 1), (''k'', 5, 3), (''k'', 5, 7)] s = ([(''k'', 1, 0), (''k'', 7, 1)], s') \<and>
     log_reported ''k'' [(''k'', 1, 0), (''k'', 7, 1)] + log_pending s' ''k'' = 3"
proof -
  fix s0 :: "(unit, unit, unit) Server"
  let ?s = "s0\<lparr>sLogf := True, sLogState := Map.empty\<rparr>"
  have run: "\<exists>s'. log_run [(''k'', 5, 1), (''k'', 5, 3), (''k'', 5, 7)] ?s = ([(''k'', 1, 0), (''k'', 7, 1)], s')"
    by (simp add: limit_def)
  then obtain s' where r: "log_run [(''k'', 5, 1), (''k'', 5, 3), (''k'', 5, 7)] ?s = ([(''k'', 1, 0), (''k'', 7, 1)], s')" ..
  have "log_reported ''k'' [(''k'', 1, 0), (''k'', 7, 1)] + log_pending s' ''k'' = 3"
    using log_accounts [OF r, of "''k''" 5] by (simp add: log_count_def)
  with r show ?thesis by blast
qed

end
