(* ===== verification/Session.thy ===== *)
theory Session
  imports Winutil Engine_Run Browser_Relay
begin

text \<open>
  The application session (\<open>internal/app/session.go\<close>): start-up of the parts in order, with the way back on every
  error, the ordered shut-down, and the files that remember the last configuration. The outside (paths, files, the
  network, the moments at which the caller's context is found cancelled) is the environment record;
  the registry, the WinDivert files and the remembered configuration are the world, which also
  records in what order the engine, the proxy and the PAC setting are acquired and released.
\<close>

section \<open>The state\<close>

datatype resource = RunnerRes | ProxyRes | PACRes
datatype sessionEvent = Acquire resource | Release resource

record world =
  wdReg :: registry
  wdAssets :: files
  wdLast :: "string option"
  wdEvents :: "sessionEvent list"

record Options =
  opConfigPath :: string
  opAppDir :: string
  opInternalProcesses :: "string list"

record Info =
  inConfigPath :: string
  inRuleSource :: string
  inUsedDefaultRules :: bool
  inEndpoint :: string
  inInterface :: string
  inHostnameMode :: string
  inGroups :: "Group list"
  inMTU :: int

type_synonym pserver = "(Runner, registeredConn, dialErr option) Server"

record Session =
  ssInfo :: Info
  ssRunner :: Runner
  ssProxy :: "pserver option"
  ssProxySess :: "ProxySession option"
  ssCancelled :: bool
  ssClosed :: bool

record sysEnv =
  seAbs :: "string \<Rightarrow> string option"
  seJoin :: "string \<Rightarrow> string \<Rightarrow> string"
  seDir :: "string \<Rightarrow> string"
  seIsFile :: "string \<Rightarrow> bool"
  seRead :: "string \<Rightarrow> string option"
  seSaveOk :: bool
  seFetch :: "string \<Rightarrow> fetched"
  seUnzip :: "bytes \<Rightarrow> zipEntry list option"
  seLookup :: "u32 \<Rightarrow> string option"
  seAlias :: "string \<Rightarrow> string option"
  seAuto1 :: "string option"
  seAuto2 :: "string option"
  seCancelledEarly :: bool
  seCancelledLate :: bool
  sePrims :: prims
  seResolve :: "string \<Rightarrow> udpAddr option"
  seOpenPath :: "nat \<Rightarrow> bool \<Rightarrow> nat option"
  seDivert :: bool
  seEngine :: env
  seFragID :: u32
  seListen :: "string + string"
  seNow :: int
  seAttempts :: "string \<Rightarrow> bool \<Rightarrow> string \<Rightarrow> nat \<Rightarrow> attempt"
  seLogf :: bool
  seWin :: winEnv
  seWinText :: "proxyErr \<Rightarrow> string"
  seRestoreOk :: bool
  seShutdown :: "string option"

datatype sessionErr = NoAppDir | NoConfigPath | LoadErr Config.cerr | AssetsErr assetErr | Cancelled | InterfaceErr ifaceErr | EngineErr starterr

section \<open>Paths\<close>

definition abs_path :: "sysEnv \<Rightarrow> string \<Rightarrow> string" where
  "abs_path e p = (if p = [] then [] else case seAbs e p of Some a \<Rightarrow> a | None \<Rightarrow> p)"

definition FindDefaultConfig :: "sysEnv \<Rightarrow> string \<Rightarrow> string" where
  "FindDefaultConfig e dir =
     (let candidates = [seJoin e dir ''splitwire.default.conf'', seJoin e (seDir e dir) ''splitwire.default.conf''] in
      case find (seIsFile e) candidates of Some p \<Rightarrow> p | None \<Rightarrow> hd candidates)"

definition LoadLastConfig :: "sysEnv \<Rightarrow> world \<Rightarrow> string" where
  "LoadLastConfig e w =
     (case wdLast w of None \<Rightarrow> []
      | Some b \<Rightarrow>
          (let p = TrimSpace b in
           if p = [] then [] else if seIsFile e p then p else []))"

definition SaveLastConfig :: "sysEnv \<Rightarrow> string \<Rightarrow> world \<Rightarrow> bool \<times> world" where
  "SaveLastConfig e path w =
     (let path = abs_path e (TrimSpace path) in
      if path = [] then (False, w)
      else if seSaveOk e then (True, w\<lparr>wdLast := Some (path @ [newline])\<rparr>) else (False, w))"

definition cloneGroups :: "Group list \<Rightarrow> Group list" where
  "cloneGroups gs = map (\<lambda>g. g\<lparr>gApps := gApps g, gDomains := gDomains g, gNetworks := gNetworks g\<rparr>) gs"

definition Inspect :: "sysEnv \<Rightarrow> string \<Rightarrow> string \<Rightarrow> sessionErr + Info" where
  "Inspect e configPath appDir =
     (let configPath = abs_path e (TrimSpace configPath) in
      if configPath = [] then Inl NoConfigPath
      else (case Load (seRead e) configPath (FindDefaultConfig e appDir) of
          Inl err \<Rightarrow> Inl (LoadErr err)
        | Inr c \<Rightarrow> Inr \<lparr>inConfigPath = configPath,
            inRuleSource = (if cUsedDefaultRules c then cDefaultRulesPath c else configPath),
            inUsedDefaultRules = cUsedDefaultRules c, inEndpoint = peerEndpoint (cPeer c), inInterface = [],
            inHostnameMode = [], inGroups = cloneGroups (cGroups c), inMTU = cMTU c\<rparr>))"

section \<open>Start and Close\<close>

fun decimal :: "nat \<Rightarrow> string" where
  "decimal n = (if n < 10 then [char_of (48 + n)] else decimal (n div 10) @ [char_of (48 + n mod 10)])"

declare decimal.simps [simp del]

definition event :: "sessionEvent \<Rightarrow> world \<Rightarrow> world" where
  "event v w = w\<lparr>wdEvents := wdEvents w @ [v]\<rparr>"

definition CloseSession :: "sysEnv \<Rightarrow> Session \<Rightarrow> world \<Rightarrow> (proxyErr option \<times> string option) \<times> Session \<times> world" where
  "CloseSession e s w =
     (if ssClosed s then ((None, None), s, w)
      else
        let (e1, pac, w) = (case ssProxySess s of
              None \<Rightarrow> (None, None, w)
            | Some ps \<Rightarrow> (let (err, ps, g) = Restore (seRestoreOk e) ps (wdReg w) in (err, Some ps, event (Release PACRes) (w\<lparr>wdReg := g\<rparr>))));
            (e2, px, w) = (case ssProxy s of
              None \<Rightarrow> (None, None, w)
            | Some p \<Rightarrow> (let (err, p) = CloseProxy (seShutdown e) p in (err, Some p, event (Release ProxyRes) w)));
            w = event (Release RunnerRes) w
        in ((e1, e2), s\<lparr>ssProxySess := pac, ssProxy := px, ssRunner := CloseRunner (ssRunner s), ssCancelled := True, ssClosed := True\<rparr>, w))"

definition start_proxy :: "sysEnv \<Rightarrow> Config \<Rightarrow> string + pserver" where
  "start_proxy e c =
     StartProxy (seListen e) (ProxyDomainPatterns c) (Some (AuthorizeProxyClient (seEngine e)))
       (Some (\<lambda>net addr tunnel. DialProxy (seNow e) net tunnel (seAttempts e addr))) (\<lambda>net addr r. (Inl None, r)) (seLogf e)"

text \<open>The hostname mode: the proxy with its PAC, or the fallback to discovery by DNS and SNI.\<close>

definition start_hostname :: "sysEnv \<Rightarrow> Config \<Rightarrow> Session \<Rightarrow> world \<Rightarrow> Session \<times> world" where
  "start_hostname e c s w =
     (if ProxyDomainPatterns c = [] then (s\<lparr>ssInfo := (ssInfo s)\<lparr>inHostnameMode := ''not needed''\<rparr>\<rparr>, w)
      else (case start_proxy e c of
          Inl err \<Rightarrow>
            (s\<lparr>ssInfo := (ssInfo s)\<lparr>inHostnameMode := ''DNS/SNI fallback: '' @ err\<rparr>,
               ssRunner := SetAggressiveDiscovery True (ssRunner s)\<rparr>, w)
        | Inr bp \<Rightarrow>
            let w = event (Acquire ProxyRes) w;
                (res, g) = InstallSessionPAC (seWin e) (PACURL bp) (wdReg w)
            in (case res of
                Inl err \<Rightarrow>
                  (s\<lparr>ssInfo := (ssInfo s)\<lparr>inHostnameMode := ''DNS/SNI fallback: '' @ seWinText e err\<rparr>,
                     ssRunner := SetAggressiveDiscovery True (ssRunner s)\<rparr>, event (Release ProxyRes) (w\<lparr>wdReg := g\<rparr>))
              | Inr ps \<Rightarrow>
                  (s\<lparr>ssInfo := (ssInfo s)\<lparr>inHostnameMode := ''PAC proxy '' @ sAddr bp\<rparr>, ssProxy := Some bp, ssProxySess := Some ps\<rparr>,
                   event (Acquire PACRes) (w\<lparr>wdReg := g\<rparr>)))))"

definition new_session :: "string \<Rightarrow> Config \<Rightarrow> Interface \<Rightarrow> Runner \<Rightarrow> Session" where
  "new_session configPath c iface r =
     \<lparr>ssInfo = \<lparr>inConfigPath = configPath, inRuleSource = (if cUsedDefaultRules c then cDefaultRulesPath c else configPath),
        inUsedDefaultRules = cUsedDefaultRules c, inEndpoint = peerEndpoint (cPeer c),
        inInterface = ifName iface @ '' ('' @ decimal (unat (ifIndex iface)) @ '')'', inHostnameMode = [],
        inGroups = cloneGroups (cGroups c), inMTU = cMTU c\<rparr>,
      ssRunner = r, ssProxy = None, ssProxySess = None, ssCancelled = False, ssClosed = False\<rparr>"

text \<open>The first half of \<open>Start\<close>, up to the running engine.\<close>

definition start_engine :: "sysEnv \<Rightarrow> Options \<Rightarrow> world \<Rightarrow> (sessionErr + string \<times> Config \<times> Interface \<times> Runner) \<times> world" where
  "start_engine e opts w =
     (if TrimSpace (opAppDir opts) = [] then (Inl NoAppDir, w)
      else
        let configPath = abs_path e (TrimSpace (opConfigPath opts)) in
        if configPath = [] then (Inl NoConfigPath, w)
        else (case Load (seRead e) configPath (FindDefaultConfig e (opAppDir opts)) of
            Inl err \<Rightarrow> (Inl (LoadErr err), w)
          | Inr c \<Rightarrow>
            (case EnsureAssets (seJoin e (opAppDir opts)) (seFetch e) (seUnzip e) (wdAssets w) of
               (Some err, fs) \<Rightarrow> (Inl (AssetsErr err), w\<lparr>wdAssets := fs\<rparr>)
             | (None, fs) \<Rightarrow>
                 let w = w\<lparr>wdAssets := fs\<rparr> in
                 if seCancelledEarly e then (Inl Cancelled, w)
                 else (case SelectPhysicalInterface (seLookup e) (seAlias e) (seAuto1 e) (seAuto2 e) (cPhysicalInterface c) of
                     Inl err \<Rightarrow> (Inl (InterfaceErr err), w)
                   | Inr iface \<Rightarrow>
                     (case Start (sePrims e) (seResolve e) (seOpenPath e) (seDivert e) (seEngine e) (seFragID e) c (opInternalProcesses opts) of
                        Inl err \<Rightarrow> (Inl (EngineErr err), w)
                      | Inr r \<Rightarrow> (Inr (configPath, c, iface, r), event (Acquire RunnerRes) w))))))"

definition StartSession :: "sysEnv \<Rightarrow> Options \<Rightarrow> world \<Rightarrow> (sessionErr + Session) \<times> world" where
  "StartSession e opts w =
     (case start_engine e opts w of
        (Inl err, w) \<Rightarrow> (Inl err, w)
      | (Inr (configPath, c, iface, r), w) \<Rightarrow>
          let (s, w) = start_hostname e c (new_session configPath c iface r) w
          in if seCancelledLate e then (let (errs, s, w) = CloseSession e s w in (Inl Cancelled, w))
             else (Inr s, snd (SaveLastConfig e configPath w)))"

section \<open>What a session holds\<close>

text \<open>A stack of resources: the last acquired is the first released.\<close>

fun held :: "sessionEvent list \<Rightarrow> resource list \<Rightarrow> resource list option" where
  "held [] st = Some st"
| "held (Acquire r # vs) st = (if r \<in> set st then None else held vs (r # st))"
| "held (Release r # vs) st = (case st of x # st \<Rightarrow> if x = r then held vs st else None | [] \<Rightarrow> None)"

lemma held_append: "held (xs @ ys) st = Option.bind (held xs st) (held ys)"
  by (induction xs st rule: held.induct) (auto split: list.splits)

lemma event_simps [simp]:
  "wdEvents (event v w) = wdEvents w @ [v]" "wdReg (event v w) = wdReg w" "wdAssets (event v w) = wdAssets w" "wdLast (event v w) = wdLast w"
  by (simp_all add: event_def)

text \<open>The resources of a session that is open.\<close>

definition owned :: "Session \<Rightarrow> resource list" where
  "owned s = (case ssProxySess s of None \<Rightarrow> [] | Some _ \<Rightarrow> [PACRes]) @ (case ssProxy s of None \<Rightarrow> [] | Some _ \<Rightarrow> [ProxyRes]) @ [RunnerRes]"

lemma new_session_simps [simp]:
  "ssProxy (new_session p c i r) = None" "ssProxySess (new_session p c i r) = None" "ssClosed (new_session p c i r) = False"
  "ssRunner (new_session p c i r) = r"
  by (simp_all add: new_session_def)

lemma start_hostname_owned:
  assumes "start_hostname e c (new_session p c i r) w = (s, w')" "held (wdEvents w) [] = Some [RunnerRes]"
  shows "held (wdEvents w') [] = Some (owned s) \<and> \<not> ssClosed s \<and> (ssProxySess s \<noteq> None \<longleftrightarrow> ssProxy s \<noteq> None)"
  using assms
  by (auto simp: start_hostname_def Let_def owned_def held_append split: if_splits sum.splits prod.splits)

lemma CloseSession_owned:
  assumes "CloseSession e s w = (errs, s', w')" "held (wdEvents w) [] = Some (owned s)" "\<not> ssClosed s"
  shows "held (wdEvents w') [] = Some [] \<and> ssClosed s' \<and> ssCancelled s' \<and> stopped (ssRunner s') \<and>
    (case ssProxy s' of None \<Rightarrow> True | Some p \<Rightarrow> sClosed p)"
  using assms
  by (auto simp: CloseSession_def Let_def owned_def held_append CloseRunner_def CloseProxy_def split: if_splits option.splits prod.splits)

text \<open>The settings when the session is closed.\<close>

definition settings_after :: "sysEnv \<Rightarrow> Session \<Rightarrow> registry \<Rightarrow> registry" where
  "settings_after e s g = (case ssProxySess s of None \<Rightarrow> g | Some ps \<Rightarrow> snd (snd (Restore (seRestoreOk e) ps g)))"

lemma CloseSession_settings:
  "CloseSession e s w = (errs, s', w') \<Longrightarrow> \<not> ssClosed s \<Longrightarrow> wdReg w' = settings_after e s (wdReg w)"
  by (auto simp: CloseSession_def Let_def settings_after_def split: if_splits option.splits prod.splits)

lemma start_hostname_settings:
  assumes "start_hostname e c (new_session p c i r) w = (s, w')" "seRestoreOk e"
  shows "settings_back (seWin e) (wdReg w) (settings_after e s (wdReg w'))"
proof (cases "ProxyDomainPatterns c = [] \<or> (\<exists>err. start_proxy e c = Inl err)")
  case True
  then show ?thesis using assms(1)
    by (auto simp: start_hostname_def settings_after_def settings_back_def split: if_splits)
next
  case False
  then obtain bp where bp: "start_proxy e c = Inr bp" by (cases "start_proxy e c") auto
  obtain res g where res: "InstallSessionPAC (seWin e) (PACURL bp) (wdReg w) = (res, g)" by fastforce
  show ?thesis
  proof (cases res)
    case (Inl err)
    then have "g = wdReg w" using Install_failed res by blast
    then show ?thesis using assms(1) False bp res Inl
      by (auto simp: start_hostname_def Let_def settings_after_def settings_back_def)
  next
    case (Inr ps)
    then have "settings_back (seWin e) (wdReg w) (snd (snd (Restore True ps g)))" using Install_restores(2) res by blast
    then show ?thesis using assms False bp res Inr
      by (auto simp: start_hostname_def Let_def settings_after_def)
  qed
qed

lemma start_engine_outcome:
  assumes "start_engine e opts w = (res, w')"
  shows "case res of
      Inl err \<Rightarrow> wdReg w' = wdReg w \<and> wdEvents w' = wdEvents w
    | Inr (p, c, i, r) \<Rightarrow> wdReg w' = wdReg w \<and> wdEvents w' = wdEvents w @ [Acquire RunnerRes] \<and>
        Load (seRead e) p (FindDefaultConfig e (opAppDir opts)) = Inr c \<and>
        Start (sePrims e) (seResolve e) (seOpenPath e) (seDivert e) (seEngine e) (seFragID e) c (opInternalProcesses opts) = Inr r"
  using assms unfolding start_engine_def Let_def
  by (auto split: if_splits sum.splits prod.splits option.splits)

lemma SaveLastConfig_simps [simp]:
  "wdReg (snd (SaveLastConfig e p w)) = wdReg w" "wdEvents (snd (SaveLastConfig e p w)) = wdEvents w"
  by (simp_all add: SaveLastConfig_def Let_def)

text \<open>C5: A session starts completely or not at all. Engine, proxy and PAC setting are released in the reverse order in which they
  were acquired, each once: after an error of \<open>Start\<close> nothing is held and the user's proxy settings are as before; a
  started session holds exactly its parts, and \<open>Close\<close> releases all of them, the PAC before the proxy, stops the
  engine and brings the settings back, and does nothing when called again.\<close>

theorem session_all_or_nothing:
  assumes "held (wdEvents w) [] = Some []" "seRestoreOk e"
  shows "case StartSession e opts w of
      (Inl err, w') \<Rightarrow> held (wdEvents w') [] = Some [] \<and> settings_back (seWin e) (wdReg w) (wdReg w')
    | (Inr s, w') \<Rightarrow> held (wdEvents w') [] = Some (owned s) \<and>
        (case CloseSession e s w' of (errs, s', w'') \<Rightarrow>
           held (wdEvents w'') [] = Some [] \<and> settings_back (seWin e) (wdReg w) (wdReg w'') \<and>
           stopped (ssRunner s') \<and> (case ssProxy s' of None \<Rightarrow> True | Some p \<Rightarrow> sClosed p) \<and>
           CloseSession e s' w'' = ((None, None), s', w''))"
proof -
  obtain res w1 where en: "start_engine e opts w = (res, w1)" by fastforce
  note out = start_engine_outcome [OF en]
  show ?thesis
  proof (cases res)
    case (Inl err)
    then show ?thesis using out assms(1) by (simp add: StartSession_def en settings_back_def)
  next
    case (Inr x)
    obtain p c i r where x: "x = (p, c, i, r)" by (metis prod_cases4)
    obtain s w2 where h: "start_hostname e c (new_session p c i r) w1 = (s, w2)" by fastforce
    have st: "StartSession e opts w = (if seCancelledLate e then (let (errs, s, w) = CloseSession e s w2 in (Inl Cancelled, w))
        else (Inr s, snd (SaveLastConfig e p w2)))" by (simp add: StartSession_def en Inr x h)
    have reg: "wdReg w1 = wdReg w" and "held (wdEvents w1) [] = Some [RunnerRes]" using out assms(1) by (auto simp: Inr x held_append)
    note own = start_hostname_owned [OF h this(2)] and set = start_hostname_settings [OF h assms(2), unfolded reg]
    have close: "held (wdEvents v') [] = Some [] \<and> settings_back (seWin e) (wdReg w) (wdReg v') \<and> stopped (ssRunner s') \<and>
        (case ssProxy s' of None \<Rightarrow> True | Some p \<Rightarrow> sClosed p) \<and> CloseSession e s' v' = ((None, None), s', v')"
      if "CloseSession e s v = (errs, s', v')" "wdEvents v = wdEvents w2" "wdReg v = wdReg w2" for v errs s' v'
      using CloseSession_owned [OF that(1)] CloseSession_settings [OF that(1)] own set that(2,3) by (simp add: CloseSession_def)
    let ?v = "snd (SaveLastConfig e p w2)"
    obtain errs s' v' where v: "CloseSession e s w2 = (errs, s', v')" by (metis prod_cases3)
    obtain errs1 s1 v1 where v1: "CloseSession e s ?v = (errs1, s1, v1)" by (metis prod_cases3)
    show ?thesis using close [OF v] close [OF v1] own by (simp add: st v v1)
  qed
qed

section \<open>A session that starts\<close>

text \<open>The outside world gives the session what it needs, and nobody cancels it.\<close>

definition ready :: "sysEnv \<Rightarrow> Options \<Rightarrow> Config \<Rightarrow> world \<Rightarrow> bool" where
  "ready e opts c w \<longleftrightarrow> TrimSpace (opAppDir opts) \<noteq> [] \<and> abs_path e (TrimSpace (opConfigPath opts)) \<noteq> [] \<and>
     Load (seRead e) (abs_path e (TrimSpace (opConfigPath opts))) (FindDefaultConfig e (opAppDir opts)) = Inr c \<and>
     regular (wdAssets w) (seJoin e (opAppDir opts) ''WinDivert.dll'') \<and> regular (wdAssets w) (seJoin e (opAppDir opts) ''WinDivert64.sys'') \<and>
     \<not> seCancelledEarly e \<and> \<not> seCancelledLate e \<and>
     (\<exists>i. SelectPhysicalInterface (seLookup e) (seAlias e) (seAuto1 e) (seAuto2 e) (cPhysicalInterface c) = Inr i) \<and>
     seResolve e (TrimSpace (peerEndpoint (cPeer c))) \<noteq> None \<and> (\<forall>n v6. seOpenPath e n v6 \<noteq> None) \<and> seDivert e"

lemma TrimSpace_newline: "TrimSpace (p @ [newline]) = TrimSpace p"
proof (cases "\<exists>c \<in> set p. \<not> is_space c")
  case True
  then have "dropWhile is_space (p @ [newline]) = dropWhile is_space p @ [newline]" by (induction p) auto
  then show ?thesis by (simp add: TrimSpace_def is_space_def)
next
  case False
  then have a: "\<forall>c \<in> set p. is_space c" by blast
  moreover have "is_space newline" by (simp add: is_space_def)
  ultimately have "dropWhile is_space p = []" "dropWhile is_space (p @ [newline]) = []" by (simp_all only: dropWhile_eq_Nil_conv) auto
  then show ?thesis unfolding TrimSpace_def by (simp only:)
qed

lemma ready_engine:
  assumes "ready e opts c w"
  shows "\<exists>i r. start_engine e opts w = (Inr (abs_path e (TrimSpace (opConfigPath opts)), c, i, r), event (Acquire RunnerRes) w) \<and>
    Start (sePrims e) (seResolve e) (seOpenPath e) (seDivert e) (seEngine e) (seFragID e) c (opInternalProcesses opts) = Inr r"
proof -
  note r = assms [unfolded ready_def]
  have "config_ok c" using Load_validated Validate_ok r by blast
  moreover have "seOpenPath e n v6 = Some (the (seOpenPath e n v6))" for n v6 using r by simp
  moreover have "seResolve e (TrimSpace (peerEndpoint (cPeer c))) \<noteq> None" "seDivert e = True" using r by simp_all
  ultimately obtain rn where rn: "Start (sePrims e) (seResolve e) (seOpenPath e) (seDivert e) (seEngine e) (seFragID e) c (opInternalProcesses opts) = Inr rn"
    using Start_succeeds [of c "seResolve e" "seOpenPath e" "\<lambda>n v6. the (seOpenPath e n v6)" "sePrims e" "seEngine e" "seFragID e" "opInternalProcesses opts"] by auto
  obtain i where i: "SelectPhysicalInterface (seLookup e) (seAlias e) (seAuto1 e) (seAuto2 e) (cPhysicalInterface c) = Inr i" using r by blast
  show ?thesis using r rn i by (simp add: start_engine_def Let_def EnsureAssets_def)
qed

lemma start_hostname_mode:
  assumes "start_hostname e c (new_session p c i r) w = (s, w')"
  shows "policy (ssRunner s) = policy r \<and>
    (case ssProxy s of
       None \<Rightarrow> ProxyDomainPatterns c = [] \<or> aggressiveDiscovery (ssRunner s)
     | Some bp \<Rightarrow> start_proxy e c = Inr bp \<and> regAuto (wdReg w') = Some (TrimSpace (PACURL bp)))"
proof (cases "ProxyDomainPatterns c = [] \<or> (\<exists>err. start_proxy e c = Inl err)")
  case True
  then show ?thesis using assms by (auto simp: start_hostname_def SetAggressiveDiscovery_def split: if_splits)
next
  case False
  then obtain bp where bp: "start_proxy e c = Inr bp" by (cases "start_proxy e c") auto
  obtain res g where res: "InstallSessionPAC (seWin e) (PACURL bp) (wdReg w) = (res, g)" by fastforce
  show ?thesis
  proof (cases res)
    case (Inl err)
    then show ?thesis using assms False bp res by (auto simp: start_hostname_def Let_def SetAggressiveDiscovery_def)
  next
    case (Inr ps)
    then show ?thesis using assms False bp res Install_restores(1) [of "seWin e" "PACURL bp" "wdReg w" ps g]
      by (auto simp: start_hostname_def Let_def)
  qed
qed

lemma Start_policy:
  "Start pr resolve openPath divert e fid c internal = Inr r \<Longrightarrow> policy r = NewWithInternal (cGroups c) internal"
  by (auto simp: Start_def socketSnapshotStep_def Let_def split: option.splits sum.splits if_splits)

lemma StartSession_started:
  assumes "StartSession e opts w = (Inr s, w')"
  shows "\<exists>p c. Load (seRead e) p (FindDefaultConfig e (opAppDir opts)) = Inr c \<and>
    policy (ssRunner s) = NewWithInternal (cGroups c) (opInternalProcesses opts) \<and>
    (case ssProxy s of
       None \<Rightarrow> ProxyDomainPatterns c = [] \<or> aggressiveDiscovery (ssRunner s)
     | Some bp \<Rightarrow> start_proxy e c = Inr bp \<and> regAuto (wdReg w') = Some (TrimSpace (PACURL bp)))"
proof -
  obtain res w1 where en: "start_engine e opts w = (res, w1)" by fastforce
  obtain p c i r where x: "res = Inr (p, c, i, r)" using assms en by (cases res) (auto simp: StartSession_def)
  obtain s2 w2 where h: "start_hostname e c (new_session p c i r) w1 = (s2, w2)" by fastforce
  have "s2 = s" "w' = snd (SaveLastConfig e p w2)" using assms by (auto simp: StartSession_def en x h split: if_splits prod.splits)
  then show ?thesis using start_engine_outcome [OF en] start_hostname_mode [OF h] Start_policy by (auto simp: x split: option.splits)
qed

text \<open>C10: A session that has what it needs starts: if the configuration loads, the WinDivert files are there, an interface is found,
  the endpoint resolves and sockets and handles open, \<open>Start\<close> returns a session whose engine decides by
  the groups of the configuration. The domain rules are always served: the browsers are pointed at the
  proxy for the patterns of the configuration, or the engine discovers hosts itself, unless there is no pattern. The
  path of the configuration is remembered, and \<open>LoadLastConfig\<close> finds it again.\<close>

theorem session_starts:
  assumes "ready e opts c w" "seSaveOk e" "seAbs e path = Some path" "seIsFile e path"
    "path = abs_path e (TrimSpace (opConfigPath opts))" "TrimSpace path = path"
  shows "\<exists>s w'. StartSession e opts w = (Inr s, w') \<and>
    policy (ssRunner s) = NewWithInternal (cGroups c) (opInternalProcesses opts) \<and>
    (case ssProxy s of
       None \<Rightarrow> ProxyDomainPatterns c = [] \<or> aggressiveDiscovery (ssRunner s)
     | Some bp \<Rightarrow> start_proxy e c = Inr bp \<and> regAuto (wdReg w') = Some (TrimSpace (PACURL bp))) \<and>
    LoadLastConfig e w' = path"
proof -
  from ready_engine [OF assms(1)] obtain i r where en: "start_engine e opts w = (Inr (path, c, i, r), event (Acquire RunnerRes) w)"
    and st: "Start (sePrims e) (seResolve e) (seOpenPath e) (seDivert e) (seEngine e) (seFragID e) c (opInternalProcesses opts) = Inr r"
    unfolding assms(5) by blast
  obtain s w2 where h: "start_hostname e c (new_session path c i r) (event (Acquire RunnerRes) w) = (s, w2)" by fastforce
  have pol: "policy r = NewWithInternal (cGroups c) (opInternalProcesses opts)"
    by (rule Start_policy [OF st])
  have late: "\<not> seCancelledLate e" "path \<noteq> []" using assms(1) by (simp_all add: ready_def assms(5))
  then have "StartSession e opts w = (Inr s, snd (SaveLastConfig e path w2))" by (simp add: StartSession_def en h)
  moreover have "TrimSpace (path @ [newline]) = path" using assms(6) late(2) by (simp add: TrimSpace_newline)
  then have "LoadLastConfig e (snd (SaveLastConfig e path w2)) = path"
    using assms(2-4,6) late(2) by (simp add: SaveLastConfig_def Let_def abs_path_def LoadLastConfig_def)
  ultimately show ?thesis using start_hostname_mode [OF h] pol by (auto split: option.splits)
qed

section \<open>An example\<close>

definition example_sys :: sysEnv where
  "example_sys = \<lparr>seAbs = Some, seJoin = (\<lambda>d n. if n = ''splitwire.default.conf'' then ''rules'' else n), seDir = (\<lambda>d. d), seIsFile = (\<lambda>_. True),
     seRead = example_files ''*'', seSaveOk = True, seFetch = (\<lambda>_. FetchError), seUnzip = (\<lambda>_. None), seLookup = (\<lambda>_. Some ''eth''),
     seAlias = (\<lambda>_. None), seAuto1 = Some ''7'', seAuto2 = None, seCancelledEarly = False, seCancelledLate = False, sePrims = example_prims,
     seResolve = (\<lambda>_. Some (Addr4 [192, 0, 2, 1], 51820)), seOpenPath = (\<lambda>n v6. Some (50000 + n)), seDivert = True, seEngine = example_env, seFragID = 7,
     seListen = Inr ''127.0.0.1:8080'', seNow = 5, seAttempts = (\<lambda>_. example_attempt), seLogf = False,
     seWin = \<lparr>weParse = (\<lambda>_. None), weConnect = (\<lambda>_. False), weReadOk = True, weSetOk = True\<rparr>, seWinText = (\<lambda>_. []), seRestoreOk = True,
     seShutdown = None\<rparr>"

definition example_world :: world where
  "example_world = \<lparr>wdReg = \<lparr>regAuto = None, regEnable = Some 0, regServer = None\<rparr>, wdAssets = (\<lambda>_. Some [1]), wdLast = None, wdEvents = []\<rparr>"

definition example_options :: Options where
  "example_options = \<lparr>opConfigPath = ''wg'', opAppDir = ''app'', opInternalProcesses = []\<rparr>"

lemma example_sys_simps:
  "seAbs example_sys = Some" "seJoin example_sys d ''WinDivert.dll'' = ''WinDivert.dll''" "seIsFile example_sys p" "seRead example_sys = example_files ''*''"
  "seSaveOk example_sys" "seLookup example_sys n = Some ''eth''" "seAuto1 example_sys = Some ''7''" "\<not> seCancelledEarly example_sys"
  "\<not> seCancelledLate example_sys" "seResolve example_sys q \<noteq> None" "seOpenPath example_sys n' v6 \<noteq> None" "seDivert example_sys"
  "FindDefaultConfig example_sys ''app'' = ''rules''" "seRestoreOk example_sys"
  by (simp_all add: example_sys_def FindDefaultConfig_def)

lemma example_ready: "\<exists>c. ready example_sys example_options c example_world \<and> ProxyDomainPatterns c = [''*.example.com'']"
proof -
  obtain c where c: "Load (example_files ''*'') ''wg'' ''rules'' = Inr c" "cPhysicalInterface c = []"
      "cGroups c = [\<lparr>gName = ''AI'', gApps = [''*''], gDomains = [''*.example.com''], gNetworks = []\<rparr>]"
    using example_load [of "''*''"] by auto
  have "TrimSpace ''wg'' = ''wg''" "TrimSpace ''app'' = ''app''" "ParseUint32 (TrimSpace ''7'') = Some 7" by code_simp+
  then have "ready example_sys example_options c example_world"
    using c example_sys_simps by (simp add: ready_def example_options_def abs_path_def example_world_def regular_def SelectPhysicalInterface_def
        interfaceByIndex_def)
  moreover have "ProxyDomainPatterns c = [''*.example.com'']" by (simp add: ProxyDomainPatterns_def c(3))
  ultimately show ?thesis by blast
qed

lemma opInternal_example: "opInternalProcesses example_options = []"
  by (simp add: example_options_def)

theorem session_starts_witness:
  "\<exists>(c :: Config) s w'. StartSession example_sys example_options example_world = (Inr s, w') \<and>
     policy (ssRunner s) = NewWithInternal (cGroups c) [] \<and> LoadLastConfig example_sys w' = ''wg''"
proof -
  obtain c where c: "ready example_sys example_options c example_world" using example_ready by blast
  have t: "TrimSpace ''wg'' = ''wg''" by code_simp
  then have a: "abs_path example_sys (TrimSpace (opConfigPath example_options)) = ''wg''" by (simp add: abs_path_def example_sys_def example_options_def)
  have b: "seAbs example_sys ''wg'' = Some ''wg''" by (simp add: example_sys_simps(1))
  show ?thesis using session_starts [OF c example_sys_simps(5) b example_sys_simps(3) a [symmetric] t]
    unfolding opInternal_example by blast
qed

theorem session_all_or_nothing_witness:
  "\<exists>s w' errs s' w''. StartSession example_sys example_options example_world = (Inr s, w') \<and> held (wdEvents w') [] = Some (owned s) \<and>
     CloseSession example_sys s w' = (errs, s', w'') \<and> held (wdEvents w'') [] = Some [] \<and> stopped (ssRunner s')"
proof -
  obtain c where c: "ready example_sys example_options c example_world" using example_ready by blast
  from ready_engine [OF c] have "\<exists>s w'. StartSession example_sys example_options example_world = (Inr s, w')"
    using c by (auto simp: StartSession_def ready_def split: prod.splits)
  then obtain s w' where s: "StartSession example_sys example_options example_world = (Inr s, w')" by blast
  have "held (wdEvents example_world) [] = Some []" "seRestoreOk example_sys" by (simp_all add: example_world_def example_sys_simps)
  from session_all_or_nothing [OF this, of example_options] s show ?thesis by (auto split: prod.splits)
qed

lemma example_session:
  "\<exists>s w' bp c. StartSession example_sys example_options example_world = (Inr s, w') \<and> ssProxy s = Some bp \<and>
     start_proxy example_sys c = Inr bp \<and> policy (ssRunner s) = NewWithInternal (cGroups c) [] \<and> ProxyDomainPatterns c = [''*.example.com'']"
proof -
  obtain c where c: "ready example_sys example_options c example_world" "ProxyDomainPatterns c = [''*.example.com'']" using example_ready by blast
  from ready_engine [OF c(1)] obtain i r where en: "start_engine example_sys example_options example_world =
      (Inr (abs_path example_sys (TrimSpace (opConfigPath example_options)), c, i, r), event (Acquire RunnerRes) example_world)"
    "Start (sePrims example_sys) (seResolve example_sys) (seOpenPath example_sys) (seDivert example_sys) (seEngine example_sys) (seFragID example_sys) c
      (opInternalProcesses example_options) = Inr r" by blast
  obtain bp where bp: "start_proxy example_sys c = Inr bp" "sAddr bp = ''127.0.0.1:8080''"
    by (simp add: start_proxy_def StartProxy_def example_sys_def)
  have "TrimSpace (PACURL bp) \<noteq> []" unfolding PACURL_def bp(2) by code_simp
  then have "\<exists>ps g. InstallSessionPAC (seWin example_sys) (PACURL bp) (wdReg example_world) = (Inr ps, g)"
    by (simp add: InstallSessionPAC_def Let_def readProxySnapshot_def install_snapshot_cases example_sys_def example_world_def)
  then obtain ps g where ps: "InstallSessionPAC (seWin example_sys) (PACURL bp) (wdReg example_world) = (Inr ps, g)" by blast
  have "policy r = NewWithInternal (cGroups c) []" using Start_policy [OF en(2)] by (simp add: opInternal_example)
  moreover have "\<exists>s w2. start_hostname example_sys c (new_session p c i r) (event (Acquire RunnerRes) example_world) = (s, w2) \<and>
      ssProxy s = Some bp \<and> ssRunner s = r" for p by (simp add: start_hostname_def Let_def ps c(2) bp(1))
  then obtain s w2 where "start_hostname example_sys c (new_session (abs_path example_sys (TrimSpace (opConfigPath example_options))) c i r)
      (event (Acquire RunnerRes) example_world) = (s, w2)" "ssProxy s = Some bp" "ssRunner s = r" by blast
  moreover from this(1) have "\<exists>w'. StartSession example_sys example_options example_world = (Inr s, w')"
    using example_sys_simps(9) by (simp add: StartSession_def en(1))
  ultimately show ?thesis using c(2) bp(1) by blast
qed

lemma example_normal: "normalize [''*.example.com''] = [''*.example.com'']"
  by code_simp

lemma example_dial: "\<exists>rc r'. DialProxy 5 ''tcp'' tunnel example_attempt r = (Inr rc, r')"
  by (auto simp: DialProxy_def proxyNetwork_def Let_def dialProxyRegistered_def HasPrefix_def example_attempt_def example_control upt_rec split_def)

end
