(* ===== verification/Gui.thy ===== *)
theory Gui
  imports Session
begin

text \<open>
  The window (\<open>cmd/splitwire/main_windows.go\<close>): connecting and disconnecting. Button clicks and posted messages run
  on the window's thread, \<open>app.Start\<close> and \<open>Session.Close\<close> in goroutines of their own; every interleaving of
  them is a run of the step relation. A session is a number, which is also the number of the context it was started
  with; it is in \<open>gOpen\<close> from the end of \<open>app.Start\<close> until it is closed, which is when its PAC setting is restored.
  The second half holds the pure helpers of the window.
\<close>

section \<open>Connecting and disconnecting\<close>

datatype starter = NoStart | Starting nat | Started nat
datatype stopper = NoStop | Stopping nat

record gui =
  gStarting :: bool
  gStopping :: bool
  gClosing :: bool
  gSession :: "nat option"
  gSessionCancel :: "nat option"
  gStartCancel :: "nat option"
  gStartResults :: "nat option option"
  gStopResults :: bool
  gStartPosted :: nat
  gStopPosted :: nat
  gStarter :: starter
  gStopper :: stopper
  gRootCancelled :: bool
  gCancelled :: "nat set"
  gOpen :: "nat set"
  gNext :: nat
  gExited :: bool

definition newGui :: gui where
  "newGui = \<lparr>gStarting = False, gStopping = False, gClosing = False, gSession = None, gSessionCancel = None, gStartCancel = None,
     gStartResults = None, gStopResults = False, gStartPosted = 0, gStopPosted = 0, gStarter = NoStart, gStopper = NoStop,
     gRootCancelled = False, gCancelled = {}, gOpen = {}, gNext = 0, gExited = False\<rparr>"

definition cancelCtx :: "nat option \<Rightarrow> gui \<Rightarrow> gui" where
  "cancelCtx c g = (case c of None \<Rightarrow> g | Some n \<Rightarrow> g\<lparr>gCancelled := insert n (gCancelled g)\<rparr>)"

definition ctxErr :: "gui \<Rightarrow> nat \<Rightarrow> bool" where
  "ctxErr g n \<longleftrightarrow> gRootCancelled g \<or> n \<in> gCancelled g"

definition closeSession :: "nat \<Rightarrow> gui \<Rightarrow> gui" where
  "closeSession n g = g\<lparr>gOpen := gOpen g - {n}\<rparr>"

text \<open>\<open>pathOk\<close>: a path is given or chosen and \<open>Inspect\<close> accepts it.\<close>

definition beginStart :: "bool \<Rightarrow> gui \<Rightarrow> gui" where
  "beginStart pathOk g =
     (if gStarting g \<or> gStopping g \<or> gSession g \<noteq> None then g
      else if \<not> pathOk then g
      else g\<lparr>gStarting := True, gStartCancel := Some (gNext g), gStarter := Starting (gNext g), gNext := gNext g + 1\<rparr>)"

text \<open>The end of the starting goroutine: it closes a session that comes too late for the program, and posts the result.\<close>

definition startDone :: "nat \<Rightarrow> nat option \<Rightarrow> gui \<Rightarrow> gui" where
  "startDone n s g =
     (let g = (if s = None then cancelCtx (Some n) g else g);
          (s, g) = (if gRootCancelled g \<and> s \<noteq> None then (None, cancelCtx (Some n) (closeSession n g)) else (s, g))
      in g\<lparr>gStartResults := Some s, gStartPosted := gStartPosted g + 1, gStarter := NoStart\<rparr>)"

definition finishStart :: "gui \<Rightarrow> gui" where
  "finishStart g =
     (case gStartResults g of
        None \<Rightarrow> g
      | Some r \<Rightarrow>
          let g = g\<lparr>gStartResults := None, gStarting := False, gStopping := False, gStartCancel := None\<rparr> in
          (case r of None \<Rightarrow> g | Some n \<Rightarrow> g\<lparr>gSession := Some n, gSessionCancel := Some n\<rparr>))"

definition beginStop :: "gui \<Rightarrow> gui" where
  "beginStop g =
     (if gStarting g then (cancelCtx (gStartCancel g) g)\<lparr>gStopping := True\<rparr>
      else if gStopping g then g
      else (case gSession g of None \<Rightarrow> g | Some n \<Rightarrow> g\<lparr>gStopping := True, gStopper := Stopping n\<rparr>))"

definition stopDone :: "nat \<Rightarrow> gui \<Rightarrow> gui" where
  "stopDone n g = (cancelCtx (Some n) (closeSession n g))\<lparr>gStopResults := True, gStopPosted := gStopPosted g + 1, gStopper := NoStop\<rparr>"

definition finishStop :: "gui \<Rightarrow> gui" where
  "finishStop g =
     (if \<not> gStopResults g \<and> gStarting g then g
      else g\<lparr>gStopResults := False, gSession := None, gSessionCancel := None, gStopping := False\<rparr>)"

definition closeWindow :: "gui \<Rightarrow> gui" where
  "closeWindow g =
     (if gClosing g then g
      else
        let g = cancelCtx (gStartCancel g) (g\<lparr>gClosing := True\<rparr>);
            g = (case gSession g of None \<Rightarrow> g | Some n \<Rightarrow> cancelCtx (gSessionCancel g) (closeSession n g))
        in g\<lparr>gRootCancelled := True\<rparr>)"

text \<open>
  A step: a click, a posted message, progress of a goroutine, or the end of the program after the window is closed.
  \<open>app.Start\<close> looks at its context for the last time and returns a session; it may fail at any time.
\<close>

inductive gstep :: "gui \<Rightarrow> gui \<Rightarrow> bool" where
  click_start: "\<not> gExited g \<Longrightarrow> \<not> gClosing g \<Longrightarrow> gstep g (beginStart ok g)"
| click_stop: "\<not> gExited g \<Longrightarrow> \<not> gClosing g \<Longrightarrow> gstep g (beginStop g)"
| start_failed: "\<not> gExited g \<Longrightarrow> gStarter g = Starting n \<Longrightarrow> gstep g (startDone n None g)"
| start_checked: "\<not> gExited g \<Longrightarrow> gStarter g = Starting n \<Longrightarrow> \<not> ctxErr g n \<Longrightarrow> gstep g (g\<lparr>gStarter := Started n, gOpen := insert n (gOpen g)\<rparr>)"
| start_returned: "\<not> gExited g \<Longrightarrow> gStarter g = Started n \<Longrightarrow> gstep g (startDone n (Some n) g)"
| start_message: "\<not> gExited g \<Longrightarrow> \<not> gClosing g \<Longrightarrow> gStartPosted g = Suc k \<Longrightarrow> gstep g (finishStart (g\<lparr>gStartPosted := k\<rparr>))"
| stop_returned: "\<not> gExited g \<Longrightarrow> gStopper g = Stopping n \<Longrightarrow> gstep g (stopDone n g)"
| stop_message: "\<not> gExited g \<Longrightarrow> \<not> gClosing g \<Longrightarrow> gStopPosted g = Suc k \<Longrightarrow> gstep g (finishStop (g\<lparr>gStopPosted := k\<rparr>))"
| close_window: "\<not> gExited g \<Longrightarrow> gstep g (closeWindow g)"
| program_ends: "\<not> gExited g \<Longrightarrow> gClosing g \<Longrightarrow> gstep g (g\<lparr>gExited := True\<rparr>)"

abbreviation greach :: "gui \<Rightarrow> bool" where
  "greach g \<equiv> gstep\<^sup>*\<^sup>* newGui g"

text \<open>Who is responsible for a session: the window, the starting goroutine, or the channel between them.\<close>

definition pending :: "gui \<Rightarrow> nat set" where
  "pending g = (case gStarter g of Started n \<Rightarrow> {n} | _ \<Rightarrow> {}) \<union> (case gStartResults g of Some (Some n) \<Rightarrow> {n} | _ \<Rightarrow> {})"

definition gui_inv :: "gui \<Rightarrow> bool" where
  "gui_inv g \<longleftrightarrow>
     (gStarting g \<longleftrightarrow> gStarter g \<noteq> NoStart \<or> gStartResults g \<noteq> None) \<and>
     (gStarter g = NoStart \<or> gStartResults g = None) \<and>
     (gStarting g \<longrightarrow> gSession g = None \<and> gStopper g = NoStop \<and> \<not> gStopResults g) \<and>
     gStartPosted g = (if gStartResults g = None then 0 else 1) \<and>
     gStopPosted g = (if gStopResults g then 1 else 0) \<and>
     (gStopper g = NoStop \<or> \<not> gStopResults g) \<and>
     (\<not> gStarting g \<longrightarrow> (gStopping g \<longleftrightarrow> gStopper g \<noteq> NoStop \<or> gStopResults g)) \<and>
     (\<forall>n. gStopper g = Stopping n \<longrightarrow> gSession g = Some n) \<and>
     (\<forall>n. gStarter g = Starting n \<or> gStarter g = Started n \<longrightarrow> gStartCancel g = Some n) \<and>
     (\<forall>n. gStartResults g = Some (Some n) \<longrightarrow> gStartCancel g = Some n) \<and>
     gOpen g \<subseteq> (if gStarting g then pending g else set_option (gSession g)) \<and>
     (gStopResults g \<longrightarrow> gOpen g = {}) \<and>
     (gClosing g \<longleftrightarrow> gRootCancelled g) \<and> (gClosing g \<and> \<not> gStarting g \<longrightarrow> gOpen g = {}) \<and> (gExited g \<longrightarrow> gClosing g)"

lemmas gui_defs = beginStart_def startDone_def finishStart_def beginStop_def stopDone_def finishStop_def closeWindow_def cancelCtx_def closeSession_def
  ctxErr_def pending_def Let_def

lemma gui_inv_new: "gui_inv newGui"
  by (simp add: gui_inv_def newGui_def)

lemma gui_inv_beginStart: "gui_inv g \<Longrightarrow> \<not> gClosing g \<Longrightarrow> gui_inv (beginStart ok g)"
  by (auto simp: gui_inv_def gui_defs split: if_splits option.splits)

lemma gui_inv_beginStop:
  assumes "gui_inv g" "\<not> gClosing g"
  shows "gui_inv (beginStop g)"
proof (cases "gStarting g")
  case True
  have "pending (beginStop g) = pending g" using True by (simp add: pending_def beginStop_def cancelCtx_def split: option.split)
  then show ?thesis using assms True by (auto simp: gui_inv_def beginStop_def cancelCtx_def split: option.splits)
next
  case False
  have "pending (beginStop g) = pending g" using False by (simp add: pending_def beginStop_def split: option.split)
  then show ?thesis using assms False by (simp add: gui_inv_def beginStop_def split: option.splits)
qed

lemma gui_inv_start_checked:
  "gui_inv g \<Longrightarrow> gStarter g = Starting n \<Longrightarrow> \<not> ctxErr g n \<Longrightarrow> gui_inv (g\<lparr>gStarter := Started n, gOpen := insert n (gOpen g)\<rparr>)"
  by (auto simp: gui_inv_def gui_defs split: if_splits)

lemma gui_inv_start_failed: "gui_inv g \<Longrightarrow> gStarter g = Starting n \<Longrightarrow> gui_inv (startDone n None g)"
  by (auto simp: gui_inv_def gui_defs split: if_splits)

lemma gui_inv_start_returned:
  assumes "gui_inv g" "gStarter g = Started n"
  shows "gui_inv (startDone n (Some n) g)"
proof (cases "gRootCancelled g")
  case True
  then show ?thesis using assms by (auto simp: gui_inv_def gui_defs split: if_splits option.splits)
next
  case False
  then show ?thesis using assms by (auto simp: gui_inv_def gui_defs split: if_splits option.splits)
qed

lemma gui_inv_finishStart: "gui_inv g \<Longrightarrow> \<not> gClosing g \<Longrightarrow> gStartPosted g = Suc k \<Longrightarrow> gui_inv (finishStart (g\<lparr>gStartPosted := k\<rparr>))"
  by (auto simp: gui_inv_def gui_defs split: if_splits option.splits starter.splits)

lemma gui_inv_stopDone: "gui_inv g \<Longrightarrow> gStopper g = Stopping n \<Longrightarrow> gui_inv (stopDone n g)"
  by (auto simp: gui_inv_def gui_defs split: if_splits)

lemma gui_inv_finishStop: "gui_inv g \<Longrightarrow> \<not> gClosing g \<Longrightarrow> gStopPosted g = Suc k \<Longrightarrow> gui_inv (finishStop (g\<lparr>gStopPosted := k\<rparr>))"
  by (auto simp: gui_inv_def gui_defs split: if_splits)

lemma closeWindow_simps:
  assumes "\<not> gClosing g"
  shows "gStarting (closeWindow g) = gStarting g" "gStopping (closeWindow g) = gStopping g" "gSession (closeWindow g) = gSession g"
    "gStartCancel (closeWindow g) = gStartCancel g" "gStarter (closeWindow g) = gStarter g" "gStopper (closeWindow g) = gStopper g"
    "gStartResults (closeWindow g) = gStartResults g" "gStopResults (closeWindow g) = gStopResults g" "gStartPosted (closeWindow g) = gStartPosted g"
    "gStopPosted (closeWindow g) = gStopPosted g" "gOpen (closeWindow g) = gOpen g - set_option (gSession g)" "gClosing (closeWindow g)"
    "gRootCancelled (closeWindow g)" "gExited (closeWindow g) = gExited g"
  using assms by (simp_all add: closeWindow_def cancelCtx_def closeSession_def Let_def split: option.split)

lemma gui_inv_closeWindow:
  assumes "gui_inv g"
  shows "gui_inv (closeWindow g)"
proof (cases "gClosing g")
  case True
  then show ?thesis using assms by (simp add: closeWindow_def)
next
  case False
  have "pending (closeWindow g) = pending g" by (simp add: pending_def closeWindow_simps [OF False])
  then show ?thesis using assms by (simp add: gui_inv_def closeWindow_simps [OF False]) (cases "gStarting g"; auto)
qed

lemma gui_inv_step: "gstep g g' \<Longrightarrow> gui_inv g \<Longrightarrow> gui_inv g'"
proof (induction rule: gstep.induct)
  case (program_ends g)
  then show ?case by (auto simp: gui_inv_def pending_def)
qed (auto intro: gui_inv_beginStart gui_inv_beginStop gui_inv_start_failed gui_inv_start_returned gui_inv_start_checked gui_inv_finishStart gui_inv_stopDone
    gui_inv_finishStop gui_inv_closeWindow)

lemma gui_inv_reach: "greach g \<Longrightarrow> gui_inv g"
  by (induction rule: rtranclp_induct) (auto intro: gui_inv_new gui_inv_step)

text \<open>C6: The window never loses a session and never runs two. Under every interleaving of clicks, messages and goroutines there
  is at most one open session, it belongs to the window or to the start that is in progress, and a start is
  not begun while another session runs or is being stopped. When the program ends with no start in
  progress, every session has been closed.\<close>

theorem gui_one_session:
  assumes "greach g"
  shows "(\<exists>n. gOpen g \<subseteq> {n}) \<and> (gOpen g \<subseteq> pending g \<union> set_option (gSession g)) \<and>
    (gStarting g \<longrightarrow> gSession g = None \<and> gStopper g = NoStop) \<and>
    (gExited g \<and> \<not> gStarting g \<longrightarrow> gOpen g = {})"
proof -
  note inv = gui_inv_reach [OF assms]
  have "gStarter g = NoStart \<or> gStartResults g = None" using inv unfolding gui_inv_def by (elim conjE)
  then have "\<exists>n. pending g \<subseteq> {n}" by (auto simp: pending_def split: starter.splits option.splits)
  moreover have "\<exists>n. set_option (gSession g) \<subseteq> {n}" by (cases "gSession g") auto
  moreover have own: "gOpen g \<subseteq> (if gStarting g then pending g else set_option (gSession g))" using inv unfolding gui_inv_def by (elim conjE)
  ultimately have "\<exists>n. gOpen g \<subseteq> {n}" by (cases "gStarting g") (auto intro: subset_trans)
  moreover have "gOpen g \<subseteq> pending g \<union> set_option (gSession g)" using own by (cases "gStarting g") auto
  moreover have "gStarting g \<longrightarrow> gSession g = None \<and> gStopper g = NoStop \<and> \<not> gStopResults g" using inv unfolding gui_inv_def by (elim conjE)
  moreover have "gClosing g \<and> \<not> gStarting g \<longrightarrow> gOpen g = {}" using inv unfolding gui_inv_def by (elim conjE)
  moreover have "gExited g \<longrightarrow> gClosing g" using inv unfolding gui_inv_def by (elim conjE)
  ultimately show ?thesis by blast
qed

lemma gui_run: "gstep\<^sup>*\<^sup>* newGui g \<Longrightarrow> gstep g g' \<Longrightarrow> gstep\<^sup>*\<^sup>* newGui g'"
  by (rule rtranclp.rtrancl_into_rtrancl)

text \<open>The start has just returned its session to the channel.\<close>

definition started_gui :: gui where
  "started_gui = newGui\<lparr>gStarting := True, gStartCancel := Some 0, gStartResults := Some (Some 0), gStartPosted := 1, gOpen := {0}, gNext := 1\<rparr>"

lemma started_gui_reach: "greach started_gui"
proof -
  let ?g1 = "beginStart True newGui"
  let ?g2 = "?g1\<lparr>gStarter := Started 0, gOpen := insert 0 (gOpen ?g1)\<rparr>"
  have "greach ?g1" by (rule gui_run [OF rtranclp.rtrancl_refl click_start]) (simp_all add: newGui_def)
  then have "greach ?g2" by (rule gui_run) (rule start_checked, simp_all add: newGui_def beginStart_def ctxErr_def)
  then have "greach (startDone 0 (Some 0) ?g2)" by (rule gui_run) (rule start_returned, simp_all add: newGui_def beginStart_def)
  moreover have "startDone 0 (Some 0) ?g2 = started_gui" by (simp add: startDone_def beginStart_def newGui_def started_gui_def)
  ultimately show ?thesis by simp
qed

theorem gui_one_session_witness:
  "\<exists>g. greach g \<and> gOpen g = {0} \<and> gOpen g \<subseteq> pending g \<union> set_option (gSession g) \<and> gStarting g \<and> gStopper g = NoStop"
proof -
  have "gStarting started_gui" "gOpen started_gui = {0}" by (simp_all add: started_gui_def)
  then show ?thesis using gui_one_session [OF started_gui_reach] started_gui_reach by blast
qed

text \<open>
  A disconnect can be lost: if it is clicked after \<open>app.Start\<close> has looked at its context for the last time, the start still
  delivers its session, and the window shows a session as connected whose context is cancelled: its engine
  and its proxy have stopped, and the PAC setting still names the proxy.
\<close>

theorem stop_lost:
  "\<exists>g g'. greach g \<and> gStarting g \<and> greach g' \<and> gstep\<^sup>*\<^sup>* (beginStop g) g' \<and>
     gSession g' = Some 0 \<and> \<not> gStarting g' \<and> \<not> gStopping g' \<and> \<not> gRootCancelled g' \<and> ctxErr g' 0 \<and> 0 \<in> gOpen g'"
proof -
  let ?g = "beginStop started_gui" and ?h = "finishStart ((beginStop started_gui)\<lparr>gStartPosted := 0\<rparr>)"
  have "gstep started_gui ?g" by (rule click_stop) (simp_all add: started_gui_def newGui_def)
  then have g: "greach ?g" by (rule gui_run [OF started_gui_reach])
  have h: "gstep ?g ?h" by (rule start_message) (simp_all add: beginStop_def started_gui_def newGui_def cancelCtx_def)
  have "gSession ?h = Some 0 \<and> \<not> gStarting ?h \<and> \<not> gStopping ?h \<and> \<not> gRootCancelled ?h \<and> ctxErr ?h 0 \<and> 0 \<in> gOpen ?h" "gStarting started_gui"
    by (simp_all add: beginStop_def finishStart_def started_gui_def newGui_def cancelCtx_def ctxErr_def)
  then show ?thesis using started_gui_reach gui_run [OF g h] r_into_rtranclp [of gstep, OF h] by blast
qed

text \<open>
  The program can end with the PAC setting installed: closing the window does not wait for a start in progress, whose
  session is then never closed.
\<close>

theorem exit_keeps_session:
  "\<exists>g. greach g \<and> gExited g \<and> gOpen g \<noteq> {} \<and> (\<forall>g'. \<not> gstep g g')"
proof -
  let ?g = "closeWindow started_gui" and ?h = "(closeWindow started_gui)\<lparr>gExited := True\<rparr>"
  have "gstep started_gui ?g" by (rule close_window) (simp add: started_gui_def newGui_def)
  then have "greach ?g" by (rule gui_run [OF started_gui_reach])
  moreover have "gstep ?g ?h" by (rule program_ends) (simp_all add: closeWindow_def started_gui_def newGui_def cancelCtx_def)
  ultimately have "greach ?h" by (rule gui_run)
  moreover have "\<not> gstep ?h g'" for g' by (auto elim: gstep.cases)
  moreover have "gExited ?h" "gOpen ?h \<noteq> {}" by (simp_all add: closeWindow_def started_gui_def newGui_def cancelCtx_def)
  ultimately show ?thesis by blast
qed

end
