(* ===== verification/Loghub.thy ===== *)
theory Loghub
  imports Prelude
begin

text \<open>
  The log hub (\<open>internal/loghub/loghub.go\<close>): \<open>Hub\<close> passes a record on to every sink, \<open>Ring\<close> keeps the bounded
  history that the window shows, with the part not shown yet and a coalesced wake-up. The record of
  calls of the notify function is a counter.
\<close>

section \<open>The hub\<close>

text \<open>A writer acts on a state of its own kind; its result is the number of bytes written and an error.\<close>

type_synonym 's writer = "bytes \<Rightarrow> 's \<Rightarrow> (nat \<times> string option) \<times> 's"

record 's Hub =
  hWriters :: "'s writer list"

definition NewHub :: "'s writer option list \<Rightarrow> 's Hub" where
  "NewHub ws = \<lparr>hWriters = concat (map (\<lambda>w. case w of None \<Rightarrow> [] | Some w \<Rightarrow> [w]) ws)\<rparr>"

definition AddWriter :: "'s writer option \<Rightarrow> 's Hub \<Rightarrow> 's Hub" where
  "AddWriter w h = (case w of None \<Rightarrow> h | Some w \<Rightarrow> h\<lparr>hWriters := hWriters h @ [w]\<rparr>)"

fun write_all :: "'s writer list \<Rightarrow> bytes \<Rightarrow> string list \<Rightarrow> 's \<Rightarrow> string list \<times> 's" where
  "write_all [] b errs s = (errs, s)"
| "write_all (w # ws) b errs s =
     (let ((n, err), s) = w b s;
          errs = (case err of Some e \<Rightarrow> errs @ [e] | None \<Rightarrow> if n \<noteq> length b then errs @ [''short write''] else errs)
      in write_all ws b errs s)"

definition WriteHub :: "'s Hub \<Rightarrow> bytes \<Rightarrow> 's \<Rightarrow> (nat \<times> string list) \<times> 's" where
  "WriteHub h b s =
     (if hWriters h = [] then ((length b, []), s)
      else let (errs, s) = write_all (hWriters h) b [] s in ((length b, errs), s))"

section \<open>The ring\<close>

record Ring =
  rgBuf :: bytes
  rgPending :: bytes
  rgMax :: nat
  rgNotify :: bool
  rgNotified :: bool
  rgResync :: bool
  rgCalls :: nat

record Drain =
  drText :: bytes
  drReplace :: bool

definition NewRing :: "int \<Rightarrow> Ring" where
  "NewRing maxBytes = \<lparr>rgBuf = [], rgPending = [], rgMax = nat (if maxBytes < 4096 then 4096 else maxBytes),
     rgNotify = False, rgNotified = False, rgResync = False, rgCalls = 0\<rparr>"

definition appendHistoryLocked :: "bytes \<Rightarrow> Ring \<Rightarrow> Ring" where
  "appendHistoryLocked b r =
     (if length b \<ge> rgMax r then r\<lparr>rgBuf := drop (length b - rgMax r) b\<rparr>
      else
        let need = int (length (rgBuf r)) + int (length b) - int (rgMax r);
            buf = (if need > 0 then drop (nat need) (rgBuf r) else rgBuf r)
        in r\<lparr>rgBuf := buf @ b\<rparr>)"

definition Seed :: "bytes \<Rightarrow> Ring \<Rightarrow> Ring" where
  "Seed b r = (appendHistoryLocked b r)\<lparr>rgPending := [], rgResync := True\<rparr>"

definition SetNotify :: "bool \<Rightarrow> Ring \<Rightarrow> Ring" where
  "SetNotify fn r =
     (let should = (fn \<and> (rgResync r \<or> length (rgPending r) \<noteq> 0) \<and> \<not> rgNotified r);
          r = r\<lparr>rgNotify := fn\<rparr>
      in if should then r\<lparr>rgNotified := True, rgCalls := rgCalls r + 1\<rparr> else r)"

definition WriteRing :: "bytes \<Rightarrow> Ring \<Rightarrow> nat \<times> Ring" where
  "WriteRing b r =
     (let r = appendHistoryLocked b r;
          r = (if rgResync r then r
               else if length b \<ge> rgMax r \<or> length (rgPending r) + length b > rgMax r
               then r\<lparr>rgPending := [], rgResync := True\<rparr>
               else r\<lparr>rgPending := rgPending r @ b\<rparr>);
          should = (rgNotify r \<and> \<not> rgNotified r)
      in (length b, if should then r\<lparr>rgNotified := True, rgCalls := rgCalls r + 1\<rparr> else r))"

definition Snapshot :: "Ring \<Rightarrow> bytes" where
  "Snapshot r = rgBuf r"

definition DrainAndAck :: "Ring \<Rightarrow> Drain \<times> Ring" where
  "DrainAndAck r =
     ((if rgResync r then \<lparr>drText = rgBuf r, drReplace = True\<rparr> else \<lparr>drText = rgPending r, drReplace = False\<rparr>),
      r\<lparr>rgPending := [], rgResync := False, rgNotified := False\<rparr>)"

definition SnapshotAndAck :: "Ring \<Rightarrow> bytes \<times> Ring" where
  "SnapshotAndAck r = (let (d, r) = DrainAndAck r in (drText d, r))"

definition ClearRing :: "Ring \<Rightarrow> Ring" where
  "ClearRing r = r\<lparr>rgBuf := [], rgPending := [], rgResync := False, rgNotified := False\<rparr>"

section \<open>A reader of the ring\<close>

text \<open>
  The window: it shows a text, replaces it or appends to it as a drain says, and empties it when the ring is
  cleared. \<open>written\<close> is what a ring of unbounded size would hold.
\<close>

datatype ringOp = OpSeed bytes | OpSetNotify bool | OpWrite bytes | OpDrain | OpClear

record reader =
  rdRing :: Ring
  rdView :: bytes
  rdWritten :: bytes

fun ring_step :: "ringOp \<Rightarrow> reader \<Rightarrow> reader" where
  "ring_step (OpSeed b) s = s\<lparr>rdRing := Seed b (rdRing s), rdWritten := rdWritten s @ b\<rparr>"
| "ring_step (OpSetNotify fn) s = s\<lparr>rdRing := SetNotify fn (rdRing s)\<rparr>"
| "ring_step (OpWrite b) s = s\<lparr>rdRing := snd (WriteRing b (rdRing s)), rdWritten := rdWritten s @ b\<rparr>"
| "ring_step OpDrain s = (let (d, r) = DrainAndAck (rdRing s)
     in s\<lparr>rdRing := r, rdView := (if drReplace d then drText d else rdView s @ drText d)\<rparr>)"
| "ring_step OpClear s = s\<lparr>rdRing := ClearRing (rdRing s), rdView := [], rdWritten := []\<rparr>"

definition lastn :: "nat \<Rightarrow> 'a list \<Rightarrow> 'a list" where
  "lastn n xs = drop (length xs - n) xs"

lemma length_lastn [simp]: "length (lastn n xs) = min n (length xs)"
  by (simp add: lastn_def)

lemma lastn_lastn_append [simp]: "lastn n (lastn n xs @ ys) = lastn n (xs @ ys)"
proof (cases "length xs \<le> n")
  case False
  then have "lastn n xs @ ys = drop (length xs - n) (xs @ ys)" by (simp add: lastn_def)
  with False show ?thesis by (simp add: lastn_def add.commute)
qed (simp add: lastn_def)

lemma lastn_id: "length xs \<le> n \<Longrightarrow> lastn n xs = xs"
  by (simp add: lastn_def)

lemma appendHistory_eq: "length (rgBuf r) \<le> rgMax r \<Longrightarrow> appendHistoryLocked b r = r\<lparr>rgBuf := lastn (rgMax r) (rgBuf r @ b)\<rparr>"
  by (auto simp: appendHistoryLocked_def lastn_def Let_def nat_diff_distrib' nat_add_distrib)

definition ring_inv :: "nat \<Rightarrow> reader \<Rightarrow> bool" where
  "ring_inv m s \<longleftrightarrow> rgMax (rdRing s) = m \<and> rgBuf (rdRing s) = lastn m (rdWritten s) \<and>
     length (rgPending (rdRing s)) \<le> m \<and> (rgResync (rdRing s) \<longrightarrow> rgPending (rdRing s) = []) \<and>
     (\<not> rgResync (rdRing s) \<longrightarrow> lastn m (rdView s @ rgPending (rdRing s)) = rgBuf (rdRing s))"


lemma ring_step_inv: "4096 \<le> m \<Longrightarrow> ring_inv m s \<Longrightarrow> ring_inv m (ring_step op s)"
proof (cases op)
  case (OpWrite b)
  assume m: "4096 \<le> m" and s: "ring_inv m s"
  let ?r = "rdRing s"
  have buf: "rgBuf ?r = lastn m (rdWritten s)" "rgMax ?r = m" using s by (simp_all add: ring_inv_def)
  then have h: "appendHistoryLocked b ?r = ?r\<lparr>rgBuf := lastn m (rdWritten s @ b)\<rparr>" by (simp add: appendHistory_eq)
  have "lastn m (rdView s @ rgPending ?r @ b) = lastn m (rdWritten s @ b)" if "\<not> rgResync ?r"
    using s that lastn_lastn_append [of m "rdView s @ rgPending ?r" b] buf by (simp add: ring_inv_def)
  then show ?thesis using s by (auto simp: OpWrite WriteRing_def h ring_inv_def Let_def)
next
  case (OpSeed b)
  assume "ring_inv m s"
  then show ?thesis by (auto simp: OpSeed Seed_def ring_inv_def appendHistory_eq)
next
  case OpDrain
  assume "ring_inv m s"
  then show ?thesis by (auto simp: OpDrain DrainAndAck_def ring_inv_def Let_def lastn_id)
qed (auto simp: ring_inv_def SetNotify_def ClearRing_def lastn_def Let_def)

definition reader_start :: "int \<Rightarrow> reader" where
  "reader_start maxBytes = \<lparr>rdRing = NewRing maxBytes, rdView = [], rdWritten = []\<rparr>"

text \<open>No lost wake-up: with a notify function, a change that was not drained has been announced.\<close>

definition announced :: "Ring \<Rightarrow> bool" where
  "announced r \<longleftrightarrow> (rgNotify r \<and> (rgResync r \<or> rgPending r \<noteq> []) \<longrightarrow> rgNotified r)"

fun is_seed :: "ringOp \<Rightarrow> bool" where
  "is_seed (OpSeed b) = True"
| "is_seed _ = False"

lemma announced_step: "\<not> is_seed op \<Longrightarrow> announced (rdRing s) \<Longrightarrow> announced (rdRing (ring_step op s))"
  by (cases op) (auto simp: announced_def SetNotify_def WriteRing_def DrainAndAck_def ClearRing_def appendHistoryLocked_def Let_def)

lemma seeds_quiet: "list_all is_seed ops \<Longrightarrow> \<not> rgNotify (rdRing s) \<Longrightarrow> \<not> rgNotify (rdRing (fold ring_step ops s))"
proof (induction ops arbitrary: s)
  case (Cons op ops)
  then show ?case by (cases op) (auto simp: Seed_def appendHistoryLocked_def Let_def)
qed simp



text \<open>Every sink gets every record, in order, whatever the others answer.\<close>

lemma WriteHub_reaches_all:
  fixes h :: "'s Hub"
  shows "snd (WriteHub h b s) = fold (\<lambda>w s. snd (w b s)) (hWriters h) s \<and> fst (fst (WriteHub h b s)) = length b"
proof -
  have "snd (write_all ws b errs s) = fold (\<lambda>w s. snd (w b s)) ws s" for ws :: "'s writer list" and errs s
    by (induction ws arbitrary: errs s) (auto simp: Let_def split: prod.split)
  then show ?thesis by (simp add: WriteHub_def split_def Let_def)
qed

end
