(* ===== verification/Gui_View.thy ===== *)
theory Gui_View
  imports Browser_Relay Loghub
begin

text \<open>
  The pure helpers of the window (\<open>cmd/splitwire/main_windows.go\<close>): line ends for the edit controls, the tail of the log file, the
  command line, the layout of the controls, and the refresh of the log view from the ring.
\<close>

section \<open>Text\<close>

fun crlf_to_lf :: "string \<Rightarrow> string" where
  "crlf_to_lf (c # d # cs) = (if c = cr \<and> d = newline then newline # crlf_to_lf cs else c # crlf_to_lf (d # cs))"
| "crlf_to_lf s = s"

definition normalizeEditNewlines :: "string \<Rightarrow> string" where
  "normalizeEditNewlines s =
     (let s = crlf_to_lf s;
          s = ReplaceAll s cr newline
      in ReplaceChar s newline [cr, newline])"

definition tailFile :: "nat \<Rightarrow> string \<Rightarrow> string" where
  "tailFile maxLen content =
     (let start = length content - maxLen;
          b = take maxLen (drop start content)
      in if start > 0 then
           (case Cut b newline of
              None \<Rightarrow> b
            | Some (before, after) \<Rightarrow> if after \<noteq> [] then after else b)
         else b)"

text \<open>\<open>path\<close> is \<open>filepath.Abs\<close>.\<close>

definition abs_arg :: "(string \<Rightarrow> string option) \<Rightarrow> string \<Rightarrow> string" where
  "abs_arg path p =
     (let q = (\<lambda>c. c = CHR 0x22); p = TrimSpace p; p = rev (dropWhile q (rev (dropWhile q p)))
      in case path p of Some a \<Rightarrow> a | None \<Rightarrow> p)"

fun configArg :: "(string \<Rightarrow> string option) \<Rightarrow> string list \<Rightarrow> string" where
  "configArg path [] = []"
| "configArg path (a # as) =
     (if a = ''--config'' \<or> a = ''-c'' then (case as of b # _ \<Rightarrow> abs_arg path b | [] \<Rightarrow> configArg path as)
      else if \<not> HasPrefix a ''-'' then abs_arg path a
      else configArg path as)"

text \<open>The log view: \<open>setText\<close> replaces its text, \<open>appendEditText\<close> appends.\<close>

definition refreshLogRing :: "Ring \<Rightarrow> string \<Rightarrow> Ring \<times> string" where
  "refreshLogRing r view =
     (let (d, r) = DrainAndAck r;
          txt = normalizeEditNewlines (map byte_char (drText d))
      in (r, if drReplace d then txt else view @ txt))"

lemma ReplaceAll_cr: "cr \<notin> set (ReplaceAll s cr newline)"
  by (auto simp: ReplaceAll_def)

lemma ReplaceAll_id: "c \<notin> set s \<Longrightarrow> ReplaceAll s c d = s"
  by (induction s) (auto simp: ReplaceAll_def)

lemma crlf_to_lf_inverse: "cr \<notin> set s \<Longrightarrow> crlf_to_lf (ReplaceChar s newline [cr, newline]) = s"
proof (induction s)
  case (Cons c s)
  have step: "crlf_to_lf (c # x) = c # crlf_to_lf x" if "c \<noteq> cr" for x using that by (cases x) simp_all
  show ?case
  proof (cases "c = newline")
    case True
    then show ?thesis using Cons by (simp add: ReplaceChar_def)
  next
    case False
    have "c \<noteq> cr" using Cons.prems by auto
    then show ?thesis using Cons step [OF \<open>c \<noteq> cr\<close>] False by (simp add: ReplaceChar_def)
  qed
qed (simp add: ReplaceChar_def)

text \<open>Every line end of the text is the pair that an edit control wants.\<close>

fun edit_lines :: "string \<Rightarrow> bool" where
  "edit_lines [] = True"
| "edit_lines (c # cs) =
     (if c = cr then (case cs of d # ds \<Rightarrow> d = newline \<and> edit_lines ds | [] \<Rightarrow> False) else c \<noteq> newline \<and> edit_lines cs)"

text \<open>
  Text for an edit control: every line end is a carriage return with a line feed, text that is so already stays as it is, and
  nothing but line ends is changed.
\<close>

lemma normalizeEditNewlines_correct:
  "edit_lines (normalizeEditNewlines s)" "normalizeEditNewlines (normalizeEditNewlines s) = normalizeEditNewlines s"
  "filter (\<lambda>c. c \<noteq> cr \<and> c \<noteq> newline) (normalizeEditNewlines s) = filter (\<lambda>c. c \<noteq> cr \<and> c \<noteq> newline) s"
proof -
  define u where "u = ReplaceAll (crlf_to_lf s) cr newline"
  have n: "normalizeEditNewlines s = ReplaceChar u newline [cr, newline]" by (simp add: normalizeEditNewlines_def u_def)
  have u: "cr \<notin> set u" by (simp add: u_def ReplaceAll_cr)
  then show "edit_lines (normalizeEditNewlines s)" unfolding n by (induction u) (auto simp: ReplaceChar_def)
  show "normalizeEditNewlines (normalizeEditNewlines s) = normalizeEditNewlines s"
    unfolding n by (simp add: normalizeEditNewlines_def crlf_to_lf_inverse [OF u] ReplaceAll_id [OF u])
  let ?f = "filter (\<lambda>c. c \<noteq> cr \<and> c \<noteq> newline)"
  have "?f (ReplaceChar v newline [cr, newline]) = ?f v" for v by (induction v) (auto simp: ReplaceChar_def)
  moreover have "?f (ReplaceAll v cr newline) = ?f v" for v by (induction v) (auto simp: ReplaceAll_def)
  moreover have "?f (crlf_to_lf v) = ?f v" for v by (induction v rule: crlf_to_lf.induct) auto
  ultimately show "?f (normalizeEditNewlines s) = ?f s" by (simp add: n u_def)
qed

lemma Cut_suffix: "Cut b c = Some (x, y) \<Longrightarrow> \<exists>z. b = z @ y \<and> last z = c \<and> z \<noteq> []"
  using Cut_Some [of b c x y] by (intro exI [of _ "x @ [c]"]) auto

text \<open>
  The tail of the log: the end of the file, no longer than the limit; the whole file if it fits, and otherwise, if the part read
  holds a line end before its last byte, whole lines.
\<close>

lemma tailFile_correct:
  "\<exists>before. content = before @ tailFile maxLen content \<and>
     (length content \<le> maxLen \<longrightarrow> before = []) \<and> length (tailFile maxLen content) \<le> maxLen \<and>
     (length content > maxLen \<and> newline \<in> set (butlast (drop (length content - maxLen) content)) \<longrightarrow> before \<noteq> [] \<and> last before = newline)"
proof -
  define start where "start = length content - maxLen"
  define b where "b = drop start content"
  have tb: "take maxLen b = b" "length b \<le> maxLen" by (simp_all add: b_def start_def)
  have split: "content = take start content @ b" by (simp add: b_def)
  have t: "tailFile maxLen content = (if start > 0 then (case Cut b newline of None \<Rightarrow> b | Some (x, y) \<Rightarrow> if y \<noteq> [] then y else b) else b)"
    unfolding tailFile_def Let_def start_def [symmetric] b_def [symmetric] tb(1) ..
  show ?thesis
  proof (cases "start > 0 \<and> (\<exists>x y. Cut b newline = Some (x, y) \<and> y \<noteq> [])")
    case True
    then obtain x y where c: "Cut b newline = Some (x, y)" "y \<noteq> []" "start > 0" by blast
    from Cut_suffix [OF c(1)] obtain z where z: "b = z @ y" "last z = newline" "z \<noteq> []" by blast
    have "tailFile maxLen content = y" using c by (simp add: t)
    then show ?thesis using split z tb(2) c(3) by (intro exI [of _ "take start content @ z"]) (auto simp: start_def)
  next
    case False
    have "tailFile maxLen content = b" using False by (auto simp: t split: option.splits)
    moreover have "newline \<notin> set (butlast b)" if "length content > maxLen"
    proof
      assume n: "newline \<in> set (butlast b)"
      then obtain x y where c: "Cut b newline = Some (x, y)" by (cases "Cut b newline") (auto simp: Cut_None dest: in_set_butlastD)
      then have "y = []" using False that by (auto simp: start_def)
      then show False using Cut_Some [OF c] n by simp
    qed
    ultimately show ?thesis using split tb(2)
      by (intro exI [of _ "take start content"]) (auto simp: start_def b_def [unfolded start_def, symmetric])
  qed
qed

section \<open>Layout\<close>

record rect =
  rX :: int
  rY :: int
  rW :: int
  rH :: int

datatype control =
    ConfigLabel | ConfigEdit | BrowseBtn | RulesBtn | StartBtn | StopBtn | ConnectionBox | StateText | NetworkText | HandshakeText
  | ProxyText | TrafficText | PacketsText | GroupsBox | GroupsEdit | LogBox | LogEdit | OpenLogBtn | ClearLogBtn

text \<open>The places for given widths of the path, of half the window and of the left column.\<close>

definition place :: "int \<Rightarrow> int \<Rightarrow> int \<Rightarrow> int \<Rightarrow> int \<Rightarrow> control \<Rightarrow> rect" where
  "place w h editW half leftW c = (let
     m = 12; gap = 8; rowH = 26; editX = m + 58;
     x0 = editX + editW + gap; x1 = x0 + 96 + gap; x2 = x1 + 96 + gap; x3 = x2 + 96 + gap;
     y = 48; connH = 126; leftX = m + 14; rightX = half + 4; colW = half - 30;
     contentY = y + connH + gap; contentH = h - contentY - m;
     rightW = w - 3 * m - leftW; logX = 2 * m + leftW; btnY = contentY + contentH - 38
     in case c of
       ConfigLabel \<Rightarrow> \<lparr>rX = m, rY = m + 5, rW = 52, rH = 20\<rparr>
     | ConfigEdit \<Rightarrow> \<lparr>rX = editX, rY = m, rW = editW, rH = rowH\<rparr>
     | BrowseBtn \<Rightarrow> \<lparr>rX = x0, rY = m, rW = 96, rH = rowH\<rparr>
     | RulesBtn \<Rightarrow> \<lparr>rX = x1, rY = m, rW = 96, rH = rowH\<rparr>
     | StartBtn \<Rightarrow> \<lparr>rX = x2, rY = m, rW = 96, rH = rowH\<rparr>
     | StopBtn \<Rightarrow> \<lparr>rX = x3, rY = m, rW = 96, rH = rowH\<rparr>
     | ConnectionBox \<Rightarrow> \<lparr>rX = m, rY = y, rW = w - 2 * m, rH = connH\<rparr>
     | StateText \<Rightarrow> \<lparr>rX = leftX, rY = y + 24, rW = colW, rH = 20\<rparr>
     | NetworkText \<Rightarrow> \<lparr>rX = leftX, rY = y + 50, rW = colW, rH = 20\<rparr>
     | HandshakeText \<Rightarrow> \<lparr>rX = leftX, rY = y + 76, rW = colW, rH = 20\<rparr>
     | ProxyText \<Rightarrow> \<lparr>rX = rightX, rY = y + 24, rW = colW, rH = 20\<rparr>
     | TrafficText \<Rightarrow> \<lparr>rX = rightX, rY = y + 50, rW = colW, rH = 20\<rparr>
     | PacketsText \<Rightarrow> \<lparr>rX = rightX, rY = y + 76, rW = colW, rH = 20\<rparr>
     | GroupsBox \<Rightarrow> \<lparr>rX = m, rY = contentY, rW = leftW, rH = contentH\<rparr>
     | GroupsEdit \<Rightarrow> \<lparr>rX = m + 10, rY = contentY + 22, rW = leftW - 20, rH = contentH - 32\<rparr>
     | LogBox \<Rightarrow> \<lparr>rX = logX, rY = contentY, rW = rightW, rH = contentH\<rparr>
     | LogEdit \<Rightarrow> \<lparr>rX = logX + 10, rY = contentY + 22, rW = rightW - 20, rH = contentH - 68\<rparr>
     | OpenLogBtn \<Rightarrow> \<lparr>rX = logX + 10, rY = btnY, rW = 110, rH = rowH\<rparr>
     | ClearLogBtn \<Rightarrow> \<lparr>rX = logX + 128, rY = btnY, rW = 120, rH = rowH\<rparr>)"

definition layout :: "int \<Rightarrow> int \<Rightarrow> control \<Rightarrow> rect" where
  "layout w h =
     (let w = (if w < 760 then 760 else w); h = (if h < 500 then 500 else h);
          buttonsW = 96 * 4 + 8 * 3; editW = w - (12 + 58) - 12 - buttonsW - 8; editW = (if editW < 180 then 180 else editW);
          leftW = w * 36 div 100; leftW = (if leftW < 300 then 300 else leftW); leftW = (if leftW > 390 then 390 else leftW)
      in place w h editW (w div 2) leftW)"

definition apart :: "rect \<Rightarrow> rect \<Rightarrow> bool" where
  "apart a b \<longleftrightarrow> rX a + rW a \<le> rX b \<or> rX b + rW b \<le> rX a \<or> rY a + rH a \<le> rY b \<or> rY b + rH b \<le> rY a"

definition inside :: "rect \<Rightarrow> rect \<Rightarrow> bool" where
  "inside a b \<longleftrightarrow> rX b \<le> rX a \<and> rX a + rW a \<le> rX b + rW b \<and> rY b \<le> rY a \<and> rY a + rH a \<le> rY b + rH b"

text \<open>The frame a control is drawn in.\<close>

fun frame :: "control \<Rightarrow> control option" where
  "frame StateText = Some ConnectionBox" | "frame NetworkText = Some ConnectionBox" | "frame HandshakeText = Some ConnectionBox"
| "frame ProxyText = Some ConnectionBox" | "frame TrafficText = Some ConnectionBox" | "frame PacketsText = Some ConnectionBox"
| "frame GroupsEdit = Some GroupsBox" | "frame LogEdit = Some LogBox" | "frame OpenLogBtn = Some LogBox" | "frame ClearLogBtn = Some LogBox"
| "frame _ = None"

lemmas place_defs = place_def apart_def inside_def Let_def

lemma place_window:
  assumes "760 \<le> w" "500 \<le> h" "2 * half \<le> w" "w \<le> 2 * half + 1" "300 \<le> leftW" "leftW \<le> 390"
  shows "inside (place w h (w - 498) half leftW c) \<lparr>rX = 0, rY = 0, rW = w, rH = h\<rparr> \<and>
    rW (place w h (w - 498) half leftW c) > 0 \<and> rH (place w h (w - 498) half leftW c) > 0"
  using assms by (cases c) (simp_all add: place_defs)

lemma place_frames:
  assumes "760 \<le> w" "500 \<le> h" "2 * half \<le> w" "w \<le> 2 * half + 1" "300 \<le> leftW" "leftW \<le> 390" "frame c = Some f"
  shows "inside (place w h (w - 498) half leftW c) (place w h (w - 498) half leftW f)"
  using assms by (cases c) (auto simp: place_defs)

lemma place_apart:
  assumes "760 \<le> w" "500 \<le> h" "2 * half \<le> w" "w \<le> 2 * half + 1" "300 \<le> leftW" "leftW \<le> 390" "c \<noteq> d" "frame c \<noteq> Some d" "frame d \<noteq> Some c"
  shows "apart (place w h (w - 498) half leftW c) (place w h (w - 498) half leftW d)"
  using assms by (cases c; cases d; simp add: place_defs)

text \<open>
  The layout: whatever the size of the window, every control has a positive size and lies in the window of at least
  760 by 500 points, within its frame, and overlaps no control but its frame.
\<close>

theorem layout_correct:
  "inside (layout w h c) \<lparr>rX = 0, rY = 0, rW = max w 760, rH = max h 500\<rparr> \<and> rW (layout w h c) > 0 \<and> rH (layout w h c) > 0 \<and>
   (frame c = Some f \<longrightarrow> inside (layout w h c) (layout w h f)) \<and>
   (c \<noteq> d \<and> frame c \<noteq> Some d \<and> frame d \<noteq> Some c \<longrightarrow> apart (layout w h c) (layout w h d))"
proof -
  define w' h' where "w' = max w 760" and "h' = max h 500"
  have *: "layout w h = place w' h' (w' - 498) (w' div 2) (min 390 (max 300 (w' * 36 div 100)))"
    by (auto simp: layout_def Let_def w'_def h'_def max_def min_def)
  have a: "760 \<le> w'" "500 \<le> h'" "2 * (w' div 2) \<le> w'" "w' \<le> 2 * (w' div 2) + 1" "300 \<le> min 390 (max 300 (w' * 36 div 100))"
    "min 390 (max 300 (w' * 36 div 100)) \<le> (390 :: int)" by (simp_all add: w'_def h'_def; linarith)+
  show ?thesis unfolding * using place_window [OF a, of c] place_frames [OF a, of c f] place_apart [OF a, of c d]
    unfolding w'_def h'_def by blast
qed

end
